(* ===== verification/Prelude.thy ===== *)
theory Prelude
  imports "HOL-Library.Word" "HOL-Library.Monad_Syntax"
begin

unbundle bit_operations_syntax

section \<open>Prelude: machine types, undefined results, shared lemmas\<close>

text \<open>
  The kernel is compiled for i386 (\<open>-m32\<close>), so \<open>unsigned char\<close>, \<open>unsigned short\<close> and
  \<open>unsigned long\<close> are words of 8, 16 and 32 bits and their arithmetic wraps around.
  A C \<open>int\<close> that stays far from its limits is an \<open>int\<close> or a \<open>nat\<close>.

  An operation whose C text can leave the defined part of the language returns an
  \<open>option\<close>: \<open>None\<close> stands for an array access out of range, a dereference of a null
  pointer, the use of a variable that was never assigned, or a loop that does not end.
  The \<open>do\<close> notation of \<open>Monad_Syntax\<close> sequences such operations.

  The theory also holds the lemmas the components share: masks and remainders on words,
  cells of lists, and the walk over an array.
\<close>

type_synonym u8 = "8 word"
type_synonym u16 = "16 word"
type_synonym u32 = "32 word"

text \<open>The development's fact collections: definitions of primitive accessors that every
  proof unfolds, and facts about words read as natural numbers.\<close>

named_theorems access_defs
named_theorems word_nat

subsection \<open>Array cells\<close>

text \<open>An array access of the C code: defined inside the array only.\<close>

definition cell :: "'a list \<Rightarrow> nat \<Rightarrow> 'a option" where
  "cell xs i = (if i < length xs then Some (xs ! i) else None)"

definition put_cell :: "nat \<Rightarrow> 'a \<Rightarrow> 'a list \<Rightarrow> 'a list option" where
  "put_cell i x xs = (if i < length xs then Some (xs[i := x]) else None)"

lemma cell_in [simp]: "i < length xs \<Longrightarrow> cell xs i = Some (xs ! i)"
  by (simp add: cell_def)

lemma cell_out [simp]: "length xs \<le> i \<Longrightarrow> cell xs i = None"
  by (simp add: cell_def)

lemma put_cell_in [simp]: "i < length xs \<Longrightarrow> put_cell i x xs = Some (xs[i := x])"
  by (simp add: put_cell_def)

lemma put_cell_out [simp]: "length xs \<le> i \<Longrightarrow> put_cell i x xs = None"
  by (simp add: put_cell_def)

lemma put_cell_SomeD: "put_cell i x xs = Some ys \<Longrightarrow> i < length xs \<and> ys = xs[i := x]"
  by (auto simp: put_cell_def split: if_splits)

lemma nth_update_if: "xs[i := x] ! j = (if i = j \<and> i < length xs then x else xs ! j)"
  by (cases "i < length xs") (auto simp: nth_list_update list_update_beyond)

lemma bind_SomeD: "Option.bind m f = Some y \<Longrightarrow> \<exists>x. m = Some x \<and> f x = Some y"
  by (cases m) auto

subsection \<open>Searching an array\<close>

text \<open>The loop that looks for the first entry with a property; \<open>k\<close> is the index of the first
  entry of the list.\<close>

fun find_from :: "('a \<Rightarrow> bool) \<Rightarrow> 'a list \<Rightarrow> nat \<Rightarrow> nat option" where
  "find_from P [] k = None"
| "find_from P (x # xs) k = (if P x then Some k else find_from P xs (k + 1))"

lemma find_from_SomeI:
  "i < length xs \<Longrightarrow> P (xs ! i) \<Longrightarrow> \<forall>j < i. \<not> P (xs ! j) \<Longrightarrow> find_from P xs k = Some (k + i)"
proof (induction xs arbitrary: i k)
  case (Cons x xs)
  show ?case
  proof (cases i)
    case (Suc n)
    then have "\<not> P x" using Cons.prems(3) by auto
    moreover have "find_from P xs (Suc k) = Some (Suc k + n)"
      by (rule Cons.IH) (use Cons.prems Suc in \<open>auto dest: spec [of _ "Suc _"]\<close>)
    ultimately show ?thesis using Suc by simp
  qed (use Cons in simp)
qed simp

lemma find_from_SomeD:
  "find_from P xs k = Some i \<Longrightarrow> \<exists>n. i = k + n \<and> n < length xs \<and> P (xs ! n) \<and> (\<forall>j < n. \<not> P (xs ! j))"
proof (induction xs arbitrary: k)
  case (Cons x xs)
  show ?case
  proof (cases "P x")
    case False
    then have "find_from P xs (Suc k) = Some i" using Cons.prems by simp
    from Cons.IH [OF this] obtain n where
      n: "i = Suc k + n" "n < length xs" "P (xs ! n)" "\<forall>j < n. \<not> P (xs ! j)" by blast
    then have "\<forall>j < Suc n. \<not> P ((x # xs) ! j)" using False by (auto simp: nth_Cons split: nat.splits)
    with n show ?thesis by (intro exI [of _ "Suc n"]) simp
  qed (use Cons in auto)
qed simp

lemma find_from_None: "find_from P xs k = None \<longleftrightarrow> (\<forall>x \<in> set xs. \<not> P x)"
  by (induction xs arbitrary: k) auto

subsection \<open>Words as natural numbers\<close>

lemma unat_and_mask10 [word_nat]: "unat ((x::u32) AND 1023) = unat x mod 1024"
proof -
  have "x AND 1023 = take_bit 10 x"
    by (simp add: take_bit_eq_mask mask_eq_exp_minus_1)
  then show ?thesis
    by (simp only: unsigned_take_bit_eq) (simp add: take_bit_eq_mod)
qed

lemma unat_add1_u32 [word_nat]: "unat (x::u32) < 2 ^ 32 - 1 \<Longrightarrow> unat (x + 1) = unat x + 1"
  by (simp add: unat_word_ariths)

lemma mod_wrap: "(x::nat) < 2 * n \<Longrightarrow> x mod n = (if x < n then x else x - n)"
  by (auto simp: mod_if not_less)

lemma unat_u32_bound: "unat (x::u32) < 4294967296"
  using unsigned_less [of x, where 'a = nat] by simp

lemma unat_u16_bound: "unat (x::u16) < 65536"
  by (rule order_less_le_trans [OF unsigned_less]) simp

lemma unat_u16_u32 [word_nat]: "unat (ucast (x :: u16) :: u32) = unat x"
proof -
  have "unat x < 2 ^ 32" using unat_u16_bound [of x] by simp
  then show ?thesis by (simp add: unsigned_ucast_eq take_bit_nat_eq_self)
qed

lemma word_of_unat: "unat x = n \<Longrightarrow> x = of_nat n" by auto

text \<open>Rounding down to a multiple of a power of two.\<close>

lemma and_not_mask: "(x::'a::len word) AND NOT (mask n) = push_bit n (drop_bit n x)"
  by (rule bit_eqI) (auto simp: bit_simps)

lemma unat_and_not_mask: "unat ((x::'a::len word) AND NOT (mask n)) = unat x div 2 ^ n * 2 ^ n"
proof -
  have "unat x div 2 ^ n * 2 ^ n \<le> unat x" by (rule div_times_less_eq_dividend)
  then have "unat x div 2 ^ n * 2 ^ n < 2 ^ LENGTH('a)" using unsigned_less order_le_less_trans by blast
  then show ?thesis
    unfolding and_not_mask unsigned_push_bit_eq unsigned_drop_bit_eq
    by (simp add: drop_bit_eq_div push_bit_eq_mult take_bit_nat_eq_self)
qed

lemma sint_small: "unat (w :: u32) < 2 ^ 31 \<Longrightarrow> sint w = int (unat w)"
proof -
  assume w: "unat w < 2 ^ 31"
  define m where "m = unat w"
  have "sint (word_of_int (int m) :: u32) = int m" unfolding int_word_sint using w by (simp add: m_def [symmetric])
  then show ?thesis by (simp add: m_def)
qed

lemma all_less_4: "(\<forall>k < 4. P k) \<longleftrightarrow> P 0 \<and> P 1 \<and> P 2 \<and> P (3::nat)"
  by (auto simp: numeral_eq_Suc less_Suc_eq)

end
