(* ===== verification/Linked_Rings.thy ===== *)
theory Linked_Rings
  imports Prelude
begin

section \<open>Doubly linked lists\<close>

text \<open>
  The kernel keeps free page blocks, free buffers and inodes in circular doubly linked lists
  whose links are fields of the elements. The link fields are given here as two functions
  from an element to its successor and its predecessor; \<open>chain nx pv a xs b\<close> says that the
  links lead from \<open>a\<close> through \<open>xs\<close> to \<open>b\<close> and back. A circular list with the first element
  \<open>h\<close> is \<open>chain nx pv h xs h\<close>.
\<close>

fun chain :: "('a \<Rightarrow> 'a option) \<Rightarrow> ('a \<Rightarrow> 'a option) \<Rightarrow> 'a \<Rightarrow> 'a list \<Rightarrow> 'a \<Rightarrow> bool" where
  "chain nx pv a [] b \<longleftrightarrow> nx a = Some b \<and> pv b = Some a"
| "chain nx pv a (x # xs) b \<longleftrightarrow> nx a = Some x \<and> pv x = Some a \<and> chain nx pv x xs b"

lemma chain_cong:
  assumes "chain nx pv a xs b"
    and "\<And>i. i \<in> insert a (set xs) \<Longrightarrow> nx' i = nx i"
    and "\<And>i. i \<in> insert b (set xs) \<Longrightarrow> pv' i = pv i"
  shows "chain nx' pv' a xs b"
  using assms by (induction xs arbitrary: a) auto

text \<open>Another element takes the place of the first one.\<close>

lemma chain_new_start:
  assumes "chain nx pv h xs b" and "nx' p = nx h" and "pv' (hd (xs @ [b])) = Some p"
    and "\<And>i. i \<in> set xs \<Longrightarrow> nx' i = nx i"
    and "\<And>i. i \<in> set (tl (xs @ [b])) \<Longrightarrow> pv' i = pv i"
  shows "chain nx' pv' p xs b"
proof (cases xs)
  case Nil
  then show ?thesis using assms by simp
next
  case (Cons x ys)
  have "chain nx' pv' x ys b"
    by (rule chain_cong [of nx pv]) (use assms Cons in auto)
  then show ?thesis using assms Cons by simp
qed

lemma chain_first: "chain nx pv h xs b \<Longrightarrow> nx h = Some (hd (xs @ [b]))"
  by (cases xs) auto

lemma chain_last: "chain nx pv h xs b \<Longrightarrow> pv b = Some (last (h # xs))"
  by (induction xs arbitrary: h) auto

text \<open>Unlinking the first element of a circular list: its predecessor and its successor are
  linked with each other.\<close>

lemma chain_unlink_first:
  assumes "chain nx pv h (x # xs) h" and "distinct (h # x # xs)"
    and "nx' (last (x # xs)) = Some x" and "pv' x = Some (last (x # xs))"
    and "\<And>i. i \<in> set (x # xs) \<Longrightarrow> i \<noteq> last (x # xs) \<Longrightarrow> nx' i = nx i"
    and "\<And>i. i \<in> set xs \<Longrightarrow> pv' i = pv i"
  shows "chain nx' pv' x xs x"
proof -
  have "chain nx pv x xs h" using assms(1) by simp
  then show ?thesis
    using assms(2-6)
  proof (induction xs arbitrary: x rule: rev_induct)
    case (snoc y ys)
    have split: "chain nx pv x (ys @ [y]) h \<longleftrightarrow> chain nx pv x ys y \<and> nx y = Some h \<and> pv h = Some y" for x
      by (induction ys arbitrary: x) auto
    have split': "chain nx' pv' x (ys @ [y]) c \<longleftrightarrow> chain nx' pv' x ys y \<and> nx' y = Some c \<and> pv' c = Some y" for x c
      by (induction ys arbitrary: x) auto
    have "chain nx' pv' x ys y"
      by (rule chain_cong [of nx pv]) (use snoc.prems split in auto)
    then show ?case using snoc.prems split' by simp
  qed simp
qed

lemma chain_append:
  "chain nx pv a (xs @ y # ys) b \<longleftrightarrow> chain nx pv a xs y \<and> chain nx pv y ys b"
  by (induction xs arbitrary: a) auto

text \<open>Another element takes the place of the last one.\<close>

lemma chain_new_end:
  assumes "chain nx pv a xs y" and "nx' (last (a # xs)) = Some b" and "pv' b = Some (last (a # xs))"
    and "\<And>i. i \<in> set (butlast (a # xs)) \<Longrightarrow> nx' i = nx i" and "\<And>i. i \<in> set xs \<Longrightarrow> pv' i = pv i"
  shows "chain nx' pv' a xs b"
  using assms by (induction xs arbitrary: a) auto

text \<open>Unlinking an inner element.\<close>

lemma chain_unlink:
  assumes "chain nx pv a (xs @ y # ys) b" and "distinct (a # xs @ y # ys)" and "b \<notin> set (xs @ y # ys)"
    and "nx' (last (a # xs)) = Some (hd (ys @ [b]))" and "pv' (hd (ys @ [b])) = Some (last (a # xs))"
    and "\<And>i. i \<in> insert a (set (xs @ ys)) \<Longrightarrow> i \<noteq> last (a # xs) \<Longrightarrow> nx' i = nx i"
    and "\<And>i. i \<in> insert b (set (xs @ ys)) \<Longrightarrow> i \<noteq> hd (ys @ [b]) \<Longrightarrow> pv' i = pv i"
  shows "chain nx' pv' a (xs @ ys) b"
proof -
  have c: "chain nx pv a xs y" "chain nx pv y ys b" using assms(1) by (simp_all add: chain_append)
  have "distinct (a # xs)" using assms(2) by simp
  then have "distinct (butlast (a # xs) @ [last (a # xs)])"
    using append_butlast_last_id [of "a # xs"] by simp
  then have l: "last (a # xs) \<notin> set (butlast (a # xs))" by simp
  have m: "last (a # xs) \<in> set (a # xs)" by (rule last_in_set) simp
  have "chain nx' pv' a xs (hd (ys @ [b]))"
  proof (rule chain_new_end [OF c(1)])
    show "nx' (last (a # xs)) = Some (hd (ys @ [b]))" "pv' (hd (ys @ [b])) = Some (last (a # xs))" by (fact assms)+
  next
    fix i assume i: "i \<in> set (butlast (a # xs))"
    then have "i \<in> set (a # xs)" by (rule in_set_butlastD)
    moreover have "i \<noteq> last (a # xs)" using i l by blast
    ultimately show "nx' i = nx i" using assms(6) [of i] by auto
  next
    fix i assume i: "i \<in> set xs"
    have "hd (ys @ [b]) \<in> insert b (set ys)" by (cases ys) auto
    then have "i \<noteq> hd (ys @ [b])" using i assms(2,3) by auto
    with i show "pv' i = pv i" using assms(7) [of i] by auto
  qed
  then show ?thesis
  proof (cases ys)
    case (Cons z zs)
    have "chain nx' pv' z zs b"
    proof (rule chain_cong)
      show "chain nx pv z zs b" using c(2) Cons by simp
    next
      fix i assume i: "i \<in> insert z (set zs)"
      then have "i \<noteq> last (a # xs)" using m assms(2) Cons by (auto simp del: last.simps)
      with i show "nx' i = nx i" using assms(6) [of i] Cons by (auto simp del: last.simps)
    next
      fix i assume i: "i \<in> insert b (set zs)"
      then have "i \<noteq> hd (ys @ [b])" using assms(2,3) Cons by auto
      with i show "pv' i = pv i" using assms(7) [of i] Cons by auto
    qed
    then show ?thesis using \<open>chain nx' pv' a xs (hd (ys @ [b]))\<close> Cons by (simp add: chain_append)
  qed simp
qed
end
