(* ===== verification/Buddy.thy ===== *)
theory Buddy
  imports Linked_Rings
begin

unbundle bit_operations_syntax

section \<open>The buddy allocator of page frames\<close>

text \<open>
  Models mm/page_alloc.c and the part of mm/memory.c that calls it, with the data of
  include/mm/mm.h. A \<open>struct page *\<close> is an index into \<open>mem_map\<close>, the null pointer is
  \<open>None\<close>; \<open>mem_map\<close> has \<open>NR_PAGES\<close> = 8192 entries and an access outside it is undefined.

  The free blocks of an order form a circular doubly linked list through the page
  descriptors, whose first block \<open>free_list\<close> points to. The abstraction \<open>buddy_ok s R\<close> says
  that the list of order \<open>o\<close> consists of the blocks \<open>R o\<close>.
\<close>

subsection \<open>Data\<close>

abbreviation PAGE_SHIFT :: nat where "PAGE_SHIFT \<equiv> 12"
abbreviation NR_PAGES :: nat where "NR_PAGES \<equiv> 8192"
abbreviation MAX_ORDER :: nat where "MAX_ORDER \<equiv> 9"

abbreviation PAGE_P :: u32 where "PAGE_P \<equiv> 1"
abbreviation PAGE_RWE :: u32 where "PAGE_RWE \<equiv> 2"
abbreviation PAGE_LOCK :: u32 where "PAGE_LOCK \<equiv> 0x20"

record page =
  pg_next :: "nat option"
  pg_prev :: "nat option"
  pg_flags :: u32
  pg_count :: u16
  pg_order :: u16

record free_area_struct =
  free_list :: "nat option"
  nr_free :: u32

record buddy =
  mem_map :: "nat \<Rightarrow> page"
  free_area :: "free_area_struct list"

subsection \<open>Accessors\<close>

definition page_at :: "nat \<Rightarrow> buddy \<Rightarrow> page option" where
  "page_at i s = (if i < NR_PAGES then Some (mem_map s i) else None)"

definition upd_page :: "nat \<Rightarrow> (page \<Rightarrow> page) \<Rightarrow> buddy \<Rightarrow> buddy option" where
  "upd_page i f s =
     (if i < NR_PAGES then Some (s\<lparr>mem_map := (mem_map s)(i := f (mem_map s i))\<rparr>) else None)"

definition upd_area :: "nat \<Rightarrow> (free_area_struct \<Rightarrow> free_area_struct) \<Rightarrow> buddy \<Rightarrow> buddy option" where
  "upd_area k f s = do {
     a \<leftarrow> cell (free_area s) k;
     Some (s\<lparr>free_area := (free_area s)[k := f a]\<rparr>) }"

subsection \<open>Free lists\<close>

definition add_free_area :: "nat \<Rightarrow> nat \<Rightarrow> buddy \<Rightarrow> buddy option" where
  "add_free_area p new_order s = do {
     s \<leftarrow> upd_page p (\<lambda>g. g\<lparr>pg_order := of_nat new_order\<rparr>) s;
     area \<leftarrow> cell (free_area s) new_order;
     s \<leftarrow> (case free_list area of
         None \<Rightarrow> do {
           s \<leftarrow> upd_area new_order (\<lambda>a. a\<lparr>free_list := Some p\<rparr>) s;
           s \<leftarrow> upd_page p (\<lambda>g. g\<lparr>pg_next := Some p\<rparr>) s;
           upd_page p (\<lambda>g. g\<lparr>pg_prev := Some p\<rparr>) s }
       | Some h \<Rightarrow> do {
           first \<leftarrow> page_at h s;
           nxt \<leftarrow> pg_next first;
           s \<leftarrow> upd_page nxt (\<lambda>g. g\<lparr>pg_prev := Some p\<rparr>) s;
           first \<leftarrow> page_at h s;
           s \<leftarrow> upd_page p (\<lambda>g. g\<lparr>pg_next := pg_next first\<rparr>) s;
           s \<leftarrow> upd_page p (\<lambda>g. g\<lparr>pg_prev := Some h\<rparr>) s;
           upd_page h (\<lambda>g. g\<lparr>pg_next := Some p\<rparr>) s });
     upd_area new_order (\<lambda>a. a\<lparr>nr_free := nr_free a + 1\<rparr>) s }"

text \<open>The walk ends when it is back at \<open>free_list\<close>; on a list that does not lead back
  there it does not end.\<close>

partial_function (option) remove_loop :: "nat option \<Rightarrow> nat \<Rightarrow> nat \<Rightarrow> buddy \<Rightarrow> buddy option" where
  "remove_loop tmp p old_order s =
     (case tmp of
        None \<Rightarrow> Some s
      | Some t \<Rightarrow>
          if t = p
          then do {
            g \<leftarrow> page_at t s;
            before \<leftarrow> pg_prev g;
            s \<leftarrow> upd_page before (\<lambda>b. b\<lparr>pg_next := pg_next g\<rparr>) s;
            upd_area old_order (\<lambda>a. a\<lparr>nr_free := nr_free a - 1\<rparr>) s }
          else do {
            g \<leftarrow> page_at t s;
            area \<leftarrow> cell (free_area s) old_order;
            if pg_next g = free_list area then Some s
            else remove_loop (pg_next g) p old_order s })"

definition remove_free_area :: "nat \<Rightarrow> nat \<Rightarrow> buddy \<Rightarrow> buddy option" where
  "remove_free_area p old_order s = do {
     area \<leftarrow> cell (free_area s) old_order;
     remove_loop (free_list area) p old_order s }"

subsection \<open>Splitting and allocating\<close>

text \<open>\<open>(p + i)->order = high_order\<close> for \<open>i\<close> from \<open>n\<close> down to 1.\<close>

fun set_orders :: "nat \<Rightarrow> nat \<Rightarrow> nat \<Rightarrow> buddy \<Rightarrow> buddy option" where
  "set_orders 0 p high_order s = Some s"
| "set_orders (Suc i) p high_order s = do {
     s \<leftarrow> upd_page (p + Suc i) (\<lambda>g. g\<lparr>pg_order := of_nat high_order\<rparr>) s;
     set_orders i p high_order s }"

fun expand_loop :: "nat \<Rightarrow> nat \<Rightarrow> nat \<Rightarrow> nat \<Rightarrow> buddy \<Rightarrow> buddy option" where
  "expand_loop low_order 0 nr_pages pg s = Some s"
| "expand_loop low_order (Suc high_order) nr_pages pg s =
     (if low_order < Suc high_order
      then do {
        let nr_pages = nr_pages div 2;
        let p = pg + nr_pages;
        s \<leftarrow> set_orders (nr_pages - 1) p high_order s;
        s \<leftarrow> add_free_area p high_order s;
        expand_loop low_order high_order nr_pages pg s }
      else Some s)"

definition expand :: "nat \<Rightarrow> nat \<Rightarrow> nat \<Rightarrow> buddy \<Rightarrow> buddy option" where
  "expand low_order high_order pg s = expand_loop low_order high_order (2 ^ high_order) pg s"

fun set_counts :: "nat \<Rightarrow> nat \<Rightarrow> buddy \<Rightarrow> buddy option" where
  "set_counts 0 tmp s = Some s"
| "set_counts (Suc n) tmp s = do {
     s \<leftarrow> upd_page tmp (\<lambda>g. g\<lparr>pg_count := 1\<rparr>) s;
     set_counts n (tmp + 1) s }"

text \<open>The block is taken from behind the first one of the list. Its predecessor is linked to
  the successor of its successor.\<close>

definition take_block :: "nat \<Rightarrow> nat \<Rightarrow> buddy \<Rightarrow> (nat \<times> buddy) option" where
  "take_block ord new_order s = do {
     area \<leftarrow> cell (free_area s) new_order;
     h \<leftarrow> free_list area;
     first \<leftarrow> page_at h s;
     let p = (case pg_next first of Some n \<Rightarrow> n | None \<Rightarrow> h);
     s \<leftarrow> upd_area new_order (\<lambda>a. a\<lparr>nr_free := nr_free a - 1\<rparr>) s;
     g \<leftarrow> page_at p s;
     before \<leftarrow> pg_prev g;
     nxt \<leftarrow> pg_next g;
     after \<leftarrow> page_at nxt s;
     s \<leftarrow> upd_page before (\<lambda>b. b\<lparr>pg_next := pg_next after\<rparr>) s;
     g \<leftarrow> page_at p s;
     nxt \<leftarrow> pg_next g;
     s \<leftarrow> upd_page nxt (\<lambda>b. b\<lparr>pg_prev := pg_prev g\<rparr>) s;
     s \<leftarrow> upd_page p (\<lambda>b. b\<lparr>pg_order := of_nat ord\<rparr>) s;
     s \<leftarrow> set_counts (2 ^ ord) p s;
     s \<leftarrow> (if ord < new_order then expand ord new_order p s else Some s);
     Some (p, s) }"

function alloc_loop :: "nat \<Rightarrow> nat \<Rightarrow> buddy \<Rightarrow> (nat option \<times> buddy) option" where
  "alloc_loop ord new_order s =
     (if new_order < MAX_ORDER
      then do {
        area \<leftarrow> cell (free_area s) new_order;
        if 0 < nr_free area
        then do { (p, s') \<leftarrow> take_block ord new_order s; Some (Some p, s') }
        else alloc_loop ord (new_order + 1) s }
      else Some (None, s))"
  by pat_completeness auto
termination
  by (relation "measure (\<lambda>(_, n, _). MAX_ORDER - n)") auto

declare alloc_loop.simps [simp del]

definition do_alloc_pages :: "nat \<Rightarrow> buddy \<Rightarrow> (nat option \<times> buddy) option" where
  "do_alloc_pages ord s = alloc_loop ord ord s"

definition alloc_one_page :: "buddy \<Rightarrow> (nat option \<times> buddy) option" where
  "alloc_one_page s = do_alloc_pages 0 s"

definition alloc_pages :: "u16 \<Rightarrow> buddy \<Rightarrow> (nat option \<times> buddy) option" where
  "alloc_pages ord s = do_alloc_pages (unat ord) s"

text \<open>The address of the block, or 0.\<close>

definition do_get_free_pages :: "u16 \<Rightarrow> buddy \<Rightarrow> (u32 \<times> buddy) option" where
  "do_get_free_pages ord s = do {
     (r, s) \<leftarrow> do_alloc_pages (unat ord) s;
     case r of
       None \<Rightarrow> Some (0, s)
     | Some p \<Rightarrow> do {
         s \<leftarrow> upd_page p (\<lambda>g. g\<lparr>pg_count := pg_count g + 1\<rparr>) s;
         Some (push_bit PAGE_SHIFT (of_nat p), s) } }"

definition get_free_page :: "buddy \<Rightarrow> (u32 \<times> buddy) option" where
  "get_free_page s = do_get_free_pages 0 s"

subsection \<open>Freeing\<close>

text \<open>Are the \<open>n\<close> pages from \<open>i\<close> on all free? Those found free get the order. A used page
  leaves the loop.\<close>

fun mark_neighbours :: "nat \<Rightarrow> nat \<Rightarrow> nat \<Rightarrow> buddy \<Rightarrow> (bool \<times> buddy) option" where
  "mark_neighbours 0 i ord s = Some (True, s)"
| "mark_neighbours (Suc n) i ord s = do {
     g \<leftarrow> page_at i s;
     if 0 < pg_count g then Some (False, s)
     else do {
       s \<leftarrow> upd_page i (\<lambda>g. g\<lparr>pg_order := of_nat ord\<rparr>) s;
       mark_neighbours n (i + 1) ord s } }"

text \<open>The loop over the orders, with its variables \<open>order\<close>, \<open>current_idx\<close>, \<open>page_pfn\<close> and
  \<open>count\<close> (\<open>neighbor_idx\<close> equals \<open>current_idx\<close> at the head of the loop).\<close>

function free_loop ::
  "nat \<Rightarrow> nat \<Rightarrow> nat \<Rightarrow> nat \<Rightarrow> buddy \<Rightarrow> (nat \<times> nat \<times> nat \<times> buddy) option" where
  "free_loop ord current_idx page_pfn cnt s =
     (if ord < MAX_ORDER - 1
      then do {
        let neighbor_idx = (if odd current_idx then current_idx - 1 else current_idx + 1);
        let cnt = 2 ^ ord;
        (free, s) \<leftarrow> mark_neighbours cnt (neighbor_idx * cnt) ord s;
        if \<not> free then Some (ord, page_pfn, cnt, s)
        else do {
          let page_pfn = (min neighbor_idx current_idx * cnt) mod 65536;
          s \<leftarrow> remove_free_area page_pfn ord s;
          free_loop (ord + 1) (current_idx div 2) page_pfn cnt s } }
      else Some (ord, page_pfn, cnt, s))"
  by pat_completeness auto
termination
  by (relation "measure (\<lambda>(o1, _). MAX_ORDER - o1)") auto

declare free_loop.simps [simp del]

fun mark_rest :: "nat \<Rightarrow> nat \<Rightarrow> nat \<Rightarrow> buddy \<Rightarrow> buddy option" where
  "mark_rest 0 i ord s = Some s"
| "mark_rest (Suc n) i ord s = do {
     s \<leftarrow> upd_page i (\<lambda>g. g\<lparr>pg_order := of_nat ord, pg_count := 0\<rparr>) s;
     mark_rest n (i + 1) ord s }"

definition do_free_pages :: "nat \<Rightarrow> nat \<Rightarrow> buddy \<Rightarrow> (nat \<times> buddy) option" where
  "do_free_pages pg ord s = do {
     (ord, page_pfn, cnt, s) \<leftarrow> free_loop ord (pg mod 65536) (pg mod 65536) 0 s;
     s \<leftarrow> add_free_area page_pfn ord s;
     let cnt = cnt * 2;
     s \<leftarrow> mark_rest (cnt - 1) (page_pfn + 1) ord s;
     Some (cnt, s) }"

definition free_page :: "u32 \<Rightarrow> buddy \<Rightarrow> buddy option" where
  "free_page vaddr s = do {
     let pg = unat (drop_bit PAGE_SHIFT vaddr);
     g \<leftarrow> page_at pg s;
     (n, s) \<leftarrow> do_free_pages pg (unat (pg_order g)) s;
     Some s }"

subsection \<open>Setting up\<close>

partial_function (option) init_loop :: "nat \<Rightarrow> nat \<Rightarrow> buddy \<Rightarrow> buddy option" where
  "init_loop start_pfn end_pfn s =
     (if start_pfn < end_pfn
      then Option.bind (do_free_pages start_pfn 0 s)
             (\<lambda>(cnt, s). init_loop (start_pfn + cnt) end_pfn s)
      else Some s)"

definition init_buddy_pages :: "nat \<Rightarrow> nat \<Rightarrow> buddy \<Rightarrow> buddy option" where
  "init_buddy_pages start_pfn end_pfn s =
     init_loop start_pfn end_pfn
       (s\<lparr>free_area := map (\<lambda>a. a\<lparr>nr_free := 0\<rparr>) (free_area s)\<rparr>)"

text \<open>The two loops of \<open>mem_init\<close> over the page descriptors.\<close>

fun init_pages :: "nat \<Rightarrow> nat \<Rightarrow> u16 \<Rightarrow> u32 \<Rightarrow> buddy \<Rightarrow> buddy option" where
  "init_pages 0 i cnt fl s = Some s"
| "init_pages (Suc n) i cnt fl s = do {
     s \<leftarrow> upd_page i (\<lambda>g. g\<lparr>pg_count := cnt, pg_flags := fl, pg_order := of_nat MAX_ORDER\<rparr>) s;
     init_pages n (i + 1) cnt fl s }"

text \<open>The part of \<open>mem_init\<close> before its call of \<open>kmem_cache_init\<close>; the whole of it is in theory Slab.\<close>

definition mem_init_pages :: "u32 \<Rightarrow> u32 \<Rightarrow> buddy \<Rightarrow> buddy option" where
  "mem_init_pages start_mem end_mem s = do {
     let start_pfn = unat (start_mem div 4096);
     let end_pfn = unat (drop_bit PAGE_SHIFT end_mem);
     s \<leftarrow> init_pages start_pfn 0 1 (PAGE_RWE OR PAGE_P OR PAGE_LOCK) s;
     s \<leftarrow> init_pages (end_pfn - start_pfn) start_pfn 0 0 s;
     init_buddy_pages start_pfn end_pfn s }"

subsection \<open>Free lists as lists of blocks\<close>

abbreviation page_chain :: "(nat \<Rightarrow> page) \<Rightarrow> nat \<Rightarrow> nat list \<Rightarrow> nat \<Rightarrow> bool" where
  "page_chain m \<equiv> chain (\<lambda>i. pg_next (m i)) (\<lambda>i. pg_prev (m i))"

definition area_ring :: "buddy \<Rightarrow> nat \<Rightarrow> nat list \<Rightarrow> bool" where
  "area_ring s k bs \<longleftrightarrow>
     (case bs of
        [] \<Rightarrow> free_area s ! k = \<lparr>free_list = None, nr_free = 0\<rparr>
      | h # xs \<Rightarrow> free_area s ! k = \<lparr>free_list = Some h, nr_free = of_nat (length bs)\<rparr>
          \<and> page_chain (mem_map s) h xs h)"

definition buddy_ok :: "buddy \<Rightarrow> (nat \<Rightarrow> nat list) \<Rightarrow> bool" where
  "buddy_ok s R \<longleftrightarrow> length (free_area s) = MAX_ORDER
     \<and> (\<forall>k < MAX_ORDER. area_ring s k (R k) \<and> distinct (R k) \<and> (\<forall>p \<in> set (R k). p < NR_PAGES))
     \<and> (\<forall>j < MAX_ORDER. \<forall>k < MAX_ORDER. j \<noteq> k \<longrightarrow> set (R j) \<inter> set (R k) = {})"

text \<open>The place \<open>add_free_area\<close> puts a block at: behind the first one.\<close>

fun ins_block :: "nat \<Rightarrow> nat list \<Rightarrow> nat list" where
  "ins_block p [] = [p]"
| "ins_block p (h # xs) = h # p # xs"

lemma set_ins_block [simp]: "set (ins_block p bs) = insert p (set bs)"
  by (cases bs) auto

lemma distinct_ins_block [simp]: "distinct (ins_block p bs) \<longleftrightarrow> p \<notin> set bs \<and> distinct bs"
  by (cases bs) auto

text \<open>Descriptors that differ in order, count and flags only have the same links.\<close>

definition same_links :: "buddy \<Rightarrow> buddy \<Rightarrow> bool" where
  "same_links s t \<longleftrightarrow> free_area t = free_area s \<and>
     (\<forall>i. pg_next (mem_map t i) = pg_next (mem_map s i) \<and> pg_prev (mem_map t i) = pg_prev (mem_map s i))"

definition same_counts :: "buddy \<Rightarrow> buddy \<Rightarrow> bool" where
  "same_counts s t \<longleftrightarrow> (\<forall>i. pg_count (mem_map t i) = pg_count (mem_map s i))"

lemma same_links_refl [simp]: "same_links s s" by (simp add: same_links_def)
lemma same_counts_refl [simp]: "same_counts s s" by (simp add: same_counts_def)

lemma same_links_trans: "same_links s t \<Longrightarrow> same_links t u \<Longrightarrow> same_links s u"
  by (simp add: same_links_def)

lemma same_counts_trans: "same_counts s t \<Longrightarrow> same_counts t u \<Longrightarrow> same_counts s u"
  by (simp add: same_counts_def)

lemma area_ring_cong:
  assumes "area_ring s k bs" and "free_area t ! k = free_area s ! k"
    and "\<And>i. i \<in> set bs \<Longrightarrow> pg_next (mem_map t i) = pg_next (mem_map s i)
                            \<and> pg_prev (mem_map t i) = pg_prev (mem_map s i)"
  shows "area_ring t k bs"
  using assms by (auto simp: area_ring_def split: list.splits elim!: chain_cong)

lemma buddy_ok_same_links: "buddy_ok s R \<Longrightarrow> same_links s t \<Longrightarrow> buddy_ok t R"
  by (auto simp: buddy_ok_def same_links_def intro: area_ring_cong)

lemma upd_page_links:
  assumes "i < NR_PAGES" and "\<And>g. pg_next (f g) = pg_next g" and "\<And>g. pg_prev (f g) = pg_prev g"
  shows "\<exists>t. upd_page i f s = Some t \<and> same_links s t"
  using assms by (simp add: upd_page_def same_links_def)

lemma add_ring:
  assumes "length (free_area s) = MAX_ORDER" and "k < MAX_ORDER" and "area_ring s k bs"
    and "distinct bs" and "\<forall>q \<in> set bs. q < NR_PAGES" and "p < NR_PAGES" and "p \<notin> set bs"
    and "length bs < 8192"
  shows "\<exists>t. add_free_area p k s = Some t \<and> area_ring t k (ins_block p bs)
     \<and> length (free_area t) = MAX_ORDER
     \<and> (\<forall>j. j \<noteq> k \<longrightarrow> free_area t ! j = free_area s ! j)
     \<and> (\<forall>i. i \<notin> insert p (set bs) \<longrightarrow> mem_map t i = mem_map s i)
     \<and> same_counts s t"
proof (cases bs)
  case Nil
  then show ?thesis
    using assms
    by (auto simp: add_free_area_def upd_page_def upd_area_def area_ring_def same_counts_def)
next
  case (Cons h xs)
  let ?m = "mem_map s"
  let ?n = "hd (xs @ [h])"
  have ch: "page_chain ?m h xs h" and fl: "free_area s ! k = \<lparr>free_list = Some h, nr_free = of_nat (length bs)\<rparr>"
    using assms(3) Cons by (auto simp: area_ring_def)
  have n: "pg_next (?m h) = Some ?n" using ch by (rule chain_first)
  have nb: "?n \<in> set bs" using Cons by (cases xs) auto
  define m1 where "m1 = ?m(p := (?m p)\<lparr>pg_order := of_nat k\<rparr>)"
  define m2 where "m2 = m1(?n := (m1 ?n)\<lparr>pg_prev := Some p\<rparr>)"
  define m3 where "m3 = m2(p := (m2 p)\<lparr>pg_next := Some ?n, pg_prev := Some h\<rparr>)"
  define m4 where "m4 = m3(h := (m3 h)\<lparr>pg_next := Some p\<rparr>)"
  define t where "t = s\<lparr>mem_map := m4, free_area := (free_area s)[k := \<lparr>free_list = Some h, nr_free = of_nat (length bs) + 1\<rparr>]\<rparr>"
  have ph: "p \<noteq> h" "p \<noteq> ?n" "h < NR_PAGES" "?n < NR_PAGES" using assms Cons nb by auto
  have "pg_next (m2 h) = Some ?n" using n ph by (simp add: m1_def m2_def)
  then have "add_free_area p k s = Some t"
    using assms ph n fl
    by (simp add: add_free_area_def upd_page_def upd_area_def page_at_def t_def m4_def m3_def m2_def m1_def)
  moreover have "page_chain m4 p xs h"
  proof (rule chain_new_start [OF ch])
    show "pg_next (m4 p) = pg_next (?m h)" using n ph by (simp add: m4_def m3_def)
    show "pg_prev (m4 ?n) = Some p" using ph by (simp add: m4_def m3_def m2_def)
    show "pg_next (m4 i) = pg_next (?m i)" if "i \<in> set xs" for i
      using that assms Cons ph by (auto simp: m4_def m3_def m2_def m1_def)
    show "pg_prev (m4 i) = pg_prev (?m i)" if "i \<in> set (tl (xs @ [h]))" for i
    proof -
      have "i \<noteq> ?n" "i \<noteq> p" using that assms Cons by (cases xs; auto)+
      then show ?thesis by (simp add: m4_def m3_def m2_def m1_def)
    qed
  qed
  moreover have "pg_prev (m4 p) = Some h" "pg_next (m4 h) = Some p"
    using ph by (simp_all add: m4_def m3_def)
  moreover have "m4 i = ?m i" if "i \<notin> insert p (set bs)" for i
    using that nb Cons by (auto simp: m4_def m3_def m2_def m1_def)
  moreover have "pg_count (m4 i) = pg_count (?m i)" for i
    by (simp add: m4_def m3_def m2_def m1_def)
  ultimately show ?thesis
    using Cons assms by (auto simp: t_def area_ring_def same_counts_def)
qed

lemma blocks_fit:
  assumes "distinct bs" and "\<forall>q \<in> set bs. q < (N::nat)" and "p < N" and "p \<notin> set bs"
  shows "length bs < N"
proof -
  have "set (p # bs) \<subseteq> {..<N}" using assms by auto
  then have "card (set (p # bs)) \<le> N" using card_mono [of "{..<N}"] by simp
  then show ?thesis using assms by (simp add: distinct_card)
qed

lemma buddy_add:
  assumes "buddy_ok s R" and "k < MAX_ORDER" and "p < NR_PAGES"
    and "\<forall>j < MAX_ORDER. p \<notin> set (R j)"
  shows "\<exists>t. add_free_area p k s = Some t \<and> buddy_ok t (R(k := ins_block p (R k))) \<and> same_counts s t"
proof -
  have R: "length (free_area s) = MAX_ORDER" "area_ring s k (R k)" "distinct (R k)"
    "\<forall>q \<in> set (R k). q < NR_PAGES" "p \<notin> set (R k)"
    using assms by (auto simp: buddy_ok_def)
  from add_ring [OF R(1) assms(2) R(2-4) assms(3) R(5)] blocks_fit [OF R(3,4) assms(3) R(5)]
  obtain t where t: "add_free_area p k s = Some t" "area_ring t k (ins_block p (R k))"
    "length (free_area t) = MAX_ORDER" "\<forall>j. j \<noteq> k \<longrightarrow> free_area t ! j = free_area s ! j"
    "\<forall>i. i \<notin> insert p (set (R k)) \<longrightarrow> mem_map t i = mem_map s i" "same_counts s t" by auto
  have "area_ring t j (R j)" if "j < MAX_ORDER" "j \<noteq> k" for j
  proof (rule area_ring_cong [of s])
    show "area_ring s j (R j)" using assms(1) that by (simp add: buddy_ok_def)
    show "free_area t ! j = free_area s ! j" using t(4) that by simp
    fix i assume "i \<in> set (R j)"
    moreover have "set (R j) \<inter> set (R k) = {}" using assms(1,2) that by (simp add: buddy_ok_def)
    ultimately have "i \<notin> insert p (set (R k))" using assms(4) that by auto
    then show "pg_next (mem_map t i) = pg_next (mem_map s i) \<and> pg_prev (mem_map t i) = pg_prev (mem_map s i)"
      using t(5) by simp
  qed
  then have "buddy_ok t (R(k := ins_block p (R k)))"
    using assms t(2,3) unfolding buddy_ok_def by (auto simp: Int_insert_left)
  with t show ?thesis by blast
qed

lemma remove_loop_absent:
  assumes "page_chain (mem_map s) t xs h" and "p \<noteq> t" and "p \<notin> set xs" and "h \<notin> set xs"
    and "\<forall>q \<in> insert t (set xs). q < NR_PAGES"
    and "cell (free_area s) k = Some \<lparr>free_list = Some h, nr_free = n\<rparr>"
  shows "remove_loop (Some t) p k s = Some s"
  using assms
proof (induction xs arbitrary: t)
  case Nil
  then show ?case by (subst remove_loop.simps) (simp add: page_at_def)
next
  case (Cons x xs)
  then have "remove_loop (Some x) p k s = Some s" by simp
  with Cons.prems show ?case by (subst remove_loop.simps) (auto simp: page_at_def)
qed

lemma remove_absent:
  assumes "buddy_ok s R" and "k < MAX_ORDER" and "p \<notin> set (R k)"
  shows "remove_free_area p k s = Some s"
proof (cases "R k")
  case Nil
  then have "cell (free_area s) k = Some \<lparr>free_list = None, nr_free = 0\<rparr>"
    using assms by (auto simp: buddy_ok_def area_ring_def)
  then show ?thesis by (simp add: remove_free_area_def remove_loop.simps)
next
  case (Cons h xs)
  have ring: "area_ring s k (h # xs)" "distinct (h # xs)" "\<forall>q \<in> set (h # xs). q < NR_PAGES"
    using assms Cons by (auto simp: buddy_ok_def)
  have c: "cell (free_area s) k = Some \<lparr>free_list = Some h, nr_free = of_nat (length (h # xs))\<rparr>"
    using assms ring by (auto simp: buddy_ok_def area_ring_def)
  have "remove_loop (Some h) p k s = Some s"
    by (rule remove_loop_absent [OF _ _ _ _ _ c]) (use ring assms Cons in \<open>auto simp: area_ring_def\<close>)
  with c show ?thesis by (simp add: remove_free_area_def)
qed

subsection \<open>Splitting a block\<close>

lemma set_orders_ok:
  "p + n < NR_PAGES \<Longrightarrow> \<exists>t. set_orders n p k s = Some t \<and> same_links s t \<and> same_counts s t"
proof (induction n arbitrary: s)
  case 0
  then show ?case by simp
next
  case (Suc n)
  let ?s1 = "s\<lparr>mem_map := (mem_map s)(p + Suc n := (mem_map s (p + Suc n))\<lparr>pg_order := of_nat k\<rparr>)\<rparr>"
  have "same_links s ?s1" "same_counts s ?s1" by (auto simp: same_links_def same_counts_def)
  with Suc.IH [of ?s1] Suc.prems show ?case
    by (auto simp: upd_page_def intro: same_links_trans same_counts_trans)
qed

definition split_blocks :: "nat \<Rightarrow> nat \<Rightarrow> nat \<Rightarrow> (nat \<Rightarrow> nat list) \<Rightarrow> nat \<Rightarrow> nat list" where
  "split_blocks low high pg R k =
     (if low \<le> k \<and> k < high then ins_block (pg + 2 ^ k) (R k) else R k)"

lemma expand_loop_ok:
  assumes "buddy_ok s R" and "high < MAX_ORDER" and "low \<le> high" and "pg + 2 ^ high \<le> NR_PAGES"
    and "\<forall>j < MAX_ORDER. \<forall>b \<in> set (R j). b \<le> pg \<or> pg + 2 ^ high \<le> b"
  shows "\<exists>t. expand_loop low high (2 ^ high) pg s = Some t
           \<and> buddy_ok t (split_blocks low high pg R) \<and> same_counts s t"
  using assms
proof (induction high arbitrary: s R)
  case 0
  then show ?case by (simp add: split_blocks_def [abs_def])
next
  case (Suc h)
  show ?case
  proof (cases "low = Suc h")
    case True
    have "split_blocks (Suc h) (Suc h) pg R = R" by (auto simp: split_blocks_def fun_eq_iff)
    then show ?thesis using True Suc.prems by simp
  next
    case False
    let ?p = "pg + 2 ^ h"
    have p: "pg + 2 * 2 ^ h \<le> NR_PAGES" "(0::nat) < 2 ^ h" using Suc.prems by simp_all
    then have "?p + (2 ^ h - 1) < NR_PAGES" "?p < NR_PAGES" by linarith+
    then obtain s1 where s1: "set_orders (2 ^ h - 1) ?p h s = Some s1" "same_links s s1" "same_counts s s1"
      using set_orders_ok by blast
    have "\<forall>j < MAX_ORDER. ?p \<notin> set (R j)" using Suc.prems(5) p by fastforce
    then obtain s2 where s2: "add_free_area ?p h s1 = Some s2"
      "buddy_ok s2 (R(h := ins_block ?p (R h)))" "same_counts s1 s2"
      using buddy_add [OF buddy_ok_same_links [OF Suc.prems(1) s1(2)], of h ?p] Suc.prems(2)
        \<open>?p < NR_PAGES\<close> by auto
    let ?R = "R(h := ins_block ?p (R h))"
    have "\<forall>j < MAX_ORDER. \<forall>b \<in> set (?R j). b \<le> pg \<or> ?p \<le> b"
      using Suc.prems(5) p by (auto split: if_splits) fastforce+
    moreover have "h < MAX_ORDER" "low \<le> h" "?p \<le> NR_PAGES" using False Suc.prems p by auto
    ultimately obtain t where
      t: "expand_loop low h (2 ^ h) pg s2 = Some t" "buddy_ok t (split_blocks low h pg ?R)" "same_counts s2 t"
      using Suc.IH [OF s2(2)] by blast
    have "split_blocks low h pg ?R = split_blocks low (Suc h) pg R"
      using False Suc.prems(3) by (auto simp: split_blocks_def fun_eq_iff less_Suc_eq)
    with t s1 s2 False Suc.prems(3) show ?thesis
      by (auto simp: Let_def intro: same_counts_trans)
  qed
qed

text \<open>The pages that the free blocks cover.\<close>

definition covered :: "(nat \<Rightarrow> nat list) \<Rightarrow> nat set" where
  "covered R = (\<Union>k < MAX_ORDER. \<Union>b \<in> set (R k). {b ..< b + 2 ^ k})"

lemma halves_cover:
  "low \<le> high \<Longrightarrow> (\<Union>k \<in> {low..<high}. {pg + 2 ^ k ..< pg + 2 ^ k + 2 ^ k}) = {pg + 2 ^ low ..< pg + 2 ^ high :: nat}"
proof (induction high)
  case 0
  then show ?case by simp
next
  case (Suc h)
  show ?case
  proof (cases "low = Suc h")
    case False
    then have "{low..<Suc h} = insert h {low..<h}" "low \<le> h" using Suc.prems by auto
    moreover have "(2::nat) ^ low \<le> 2 ^ h" using \<open>low \<le> h\<close> by (simp add: power_increasing)
    moreover have "{pg + 2 ^ h ..< pg + 2 ^ h + 2 ^ h} \<union> {pg + 2 ^ low ..< pg + 2 ^ h}
        = {pg + 2 ^ low ..< pg + 2 ^ Suc h}"
      using ivl_disj_un_two(3) [of "pg + 2 ^ low" "pg + 2 ^ h" "pg + 2 ^ Suc h"] \<open>(2::nat) ^ low \<le> 2 ^ h\<close>
      by (simp add: Un_commute mult_2 add.assoc)
    ultimately show ?thesis using Suc.IH by simp
  qed simp
qed

lemma covered_split:
  assumes "low \<le> high" and "high < MAX_ORDER"
  shows "covered (split_blocks low high pg R) = covered R \<union> {pg + 2 ^ low ..< pg + 2 ^ high}"
proof -
  have "covered (split_blocks low high pg R)
      = covered R \<union> (\<Union>k \<in> {low..<high}. {pg + 2 ^ k ..< pg + 2 ^ k + 2 ^ k})"
    using assms(2) by (fastforce simp: covered_def split_blocks_def split: if_splits)
  then show ?thesis using halves_cover [OF assms(1)] by simp
qed

subsection \<open>Coalescing\<close>

lemma mark_neighbours_free:
  "i + n \<le> NR_PAGES \<Longrightarrow> \<forall>q \<in> {i..<i + n}. pg_count (mem_map s q) = 0 \<Longrightarrow>
     \<exists>t. mark_neighbours n i k s = Some (True, t) \<and> same_links s t \<and> same_counts s t"
proof (induction n arbitrary: i s)
  case 0
  then show ?case by simp
next
  case (Suc n)
  let ?s1 = "s\<lparr>mem_map := (mem_map s)(i := (mem_map s i)\<lparr>pg_order := of_nat k\<rparr>)\<rparr>"
  have s1: "same_links s ?s1" "same_counts s ?s1" by (auto simp: same_links_def same_counts_def)
  with Suc.IH [of "i + 1" ?s1] Suc.prems show ?case
    by (auto simp: upd_page_def page_at_def intro: same_links_trans same_counts_trans)
qed

lemma mark_neighbours_used:
  "i + n \<le> NR_PAGES \<Longrightarrow> u \<in> {i..<i + n} \<Longrightarrow> pg_count (mem_map s u) \<noteq> 0 \<Longrightarrow>
     \<exists>t. mark_neighbours n i k s = Some (False, t) \<and> same_links s t \<and> same_counts s t"
proof (induction n arbitrary: i s)
  case 0
  then show ?case by simp
next
  case (Suc n)
  let ?s1 = "s\<lparr>mem_map := (mem_map s)(i := (mem_map s i)\<lparr>pg_order := of_nat k\<rparr>)\<rparr>"
  have s1: "same_links s ?s1" "same_counts s ?s1" by (auto simp: same_links_def same_counts_def)
  show ?case
  proof (cases "pg_count (mem_map s i) = 0")
    case True
    then have "u \<in> {i + 1..<i + 1 + n}" using Suc.prems by (cases "u = i") auto
    moreover have "pg_count (mem_map ?s1 u) \<noteq> 0" using Suc.prems by auto
    ultimately show ?thesis
      using Suc.IH [of "i + 1" ?s1] Suc.prems True s1
      by (auto simp: upd_page_def page_at_def intro: same_links_trans same_counts_trans)
  next
    case False
    then have "0 < pg_count (mem_map s i)" by (simp add: word_gt_0)
    then show ?thesis using Suc.prems by (auto simp: page_at_def)
  qed
qed

text \<open>The aligned block of order \<open>k\<close> around page \<open>i\<close>, and the block it would merge with.\<close>

definition block_of :: "nat \<Rightarrow> nat \<Rightarrow> nat" where
  "block_of k i = i div 2 ^ k * 2 ^ k"

definition buddy_of :: "nat \<Rightarrow> nat \<Rightarrow> nat" where
  "buddy_of k i = (if odd (i div 2 ^ k) then i div 2 ^ k - 1 else i div 2 ^ k + 1) * 2 ^ k"

lemma block_of_in: "block_of k i \<le> i \<and> i < block_of k i + 2 ^ k"
  unfolding block_of_def using mod_less_divisor [of "2 ^ k" i] div_mult_mod_eq [of i "2 ^ k"]
  by (metis add_less_cancel_left le_add1 zero_less_numeral zero_less_power)

lemma block_of_Suc:
  "block_of (Suc k) i = min (buddy_of k i) (block_of k i)"
proof -
  have "i div 2 ^ Suc k = i div 2 ^ k div 2" by (metis div_mult2_eq mult.commute power_Suc)
  then show ?thesis
    by (cases "odd (i div 2 ^ k)")
      (auto simp: block_of_def buddy_of_def min_def algebra_simps elim!: oddE evenE)
qed

lemma block_of_nested: "j \<le> k \<Longrightarrow> block_of k i \<le> block_of j i \<and> block_of j i + 2 ^ j \<le> block_of k i + 2 ^ k"
proof (induction k)
  case 0
  then show ?case by simp
next
  case (Suc k)
  have "block_of (Suc k) i \<le> block_of k i \<and> block_of k i + 2 ^ k \<le> block_of (Suc k) i + 2 ^ Suc k"
    unfolding block_of_Suc
    by (auto simp: block_of_def buddy_of_def min_def algebra_simps elim!: oddE)
  then show ?case using Suc by (cases "j = Suc k") auto
qed

lemma buddy_of_nested:
  assumes "j < k"
  shows "block_of k i \<le> buddy_of j i" and "buddy_of j i + 2 ^ j \<le> block_of k i + 2 ^ k"
    and "q \<in> {buddy_of j i..<buddy_of j i + 2 ^ j} \<Longrightarrow> q \<noteq> i"
proof -
  have "block_of (Suc j) i \<le> buddy_of j i \<and> buddy_of j i + 2 ^ j \<le> block_of (Suc j) i + 2 ^ Suc j"
    unfolding block_of_Suc
    by (auto simp: block_of_def buddy_of_def min_def algebra_simps elim!: oddE)
  with block_of_nested [of "Suc j" k i] assms show "block_of k i \<le> buddy_of j i"
    and "buddy_of j i + 2 ^ j \<le> block_of k i + 2 ^ k" by auto
  show "q \<in> {buddy_of j i..<buddy_of j i + 2 ^ j} \<Longrightarrow> q \<noteq> i"
  proof
    assume q: "q \<in> {buddy_of j i..<buddy_of j i + 2 ^ j}" and "q = i"
    then have "q div 2 ^ j = i div 2 ^ j" by simp
    moreover have "(c * 2 ^ j + r) div 2 ^ j = c" if "r < 2 ^ j" for c r :: nat using that by simp
    moreover define c where "c = (if odd (i div 2 ^ j) then i div 2 ^ j - 1 else i div 2 ^ j + 1)"
    moreover have c: "buddy_of j i = c * 2 ^ j" "c \<noteq> i div 2 ^ j"
      by (auto simp: buddy_of_def c_def elim: oddE)
    moreover obtain r where "q = c * 2 ^ j + r" "r < 2 ^ j"
      using q c(1) by (metis add_less_cancel_left atLeastLessThan_iff le_Suc_ex)
    ultimately show False by auto
  qed
qed

lemma free_loop_merges:
  assumes "buddy_ok s R" and "k \<le> 8" and "j \<le> k" and "block_of k i + 2 ^ k \<le> NR_PAGES"
    and "\<forall>q \<in> {block_of k i..<block_of k i + 2 ^ k}. q \<noteq> i \<longrightarrow> pg_count (mem_map s q) = 0"
    and "\<forall>l < k. block_of (Suc l) i \<notin> set (R l)"
    and "k < 8 \<longrightarrow> buddy_of k i + 2 ^ k \<le> NR_PAGES
           \<and> (\<exists>u \<in> {buddy_of k i..<buddy_of k i + 2 ^ k}. pg_count (mem_map s u) \<noteq> 0)"
  shows "\<exists>t. free_loop j (i div 2 ^ j) (block_of j i) cnt s
            = Some (k, block_of k i, if k < 8 then 2 ^ k else if j < 8 then 128 else cnt, t)
          \<and> same_links s t \<and> same_counts s t"
  using assms
proof (induction "k - j" arbitrary: j s cnt)
  case 0
  then have [simp]: "j = k" by simp
  show ?case
  proof (cases "k < 8")
    case True
    with 0 obtain u where u: "u \<in> {buddy_of k i..<buddy_of k i + 2 ^ k}" "pg_count (mem_map s u) \<noteq> 0"
      "buddy_of k i + 2 ^ k \<le> NR_PAGES" by auto
    from mark_neighbours_used [OF u(3,1,2), of k] obtain t where
      "mark_neighbours (2 ^ k) (buddy_of k i) k s = Some (False, t)" "same_links s t" "same_counts s t"
      by auto
    then show ?thesis using True by (subst free_loop.simps) (auto simp: buddy_of_def Let_def)
  next
    case False
    then show ?thesis using 0 by (subst free_loop.simps) auto
  qed
next
  case (Suc d)
  then have j: "j < k" "j < 8" by auto
  have "buddy_of j i + 2 ^ j \<le> NR_PAGES" using buddy_of_nested(2) [OF j(1), of i] Suc.prems(4) by simp
  moreover have "\<forall>q \<in> {buddy_of j i..<buddy_of j i + 2 ^ j}. pg_count (mem_map s q) = 0"
  proof
    fix q assume q: "q \<in> {buddy_of j i..<buddy_of j i + 2 ^ j}"
    then have "q \<noteq> i" by (rule buddy_of_nested(3) [OF j(1)])
    moreover have "q \<in> {block_of k i..<block_of k i + 2 ^ k}"
      using q buddy_of_nested(1,2) [OF j(1), of i] by auto
    ultimately show "pg_count (mem_map s q) = 0" using Suc.prems(5) by blast
  qed
  ultimately obtain s1 where s1: "mark_neighbours (2 ^ j) (buddy_of j i) j s = Some (True, s1)"
    "same_links s s1" "same_counts s s1" using mark_neighbours_free by blast
  have R1: "buddy_ok s1 R" using buddy_ok_same_links Suc.prems(1) s1(2) by blast
  have rem: "remove_free_area (block_of (Suc j) i) j s1 = Some s1"
    using remove_absent [OF R1] Suc.prems(6) j by simp
  have "block_of (Suc j) i < 65536"
    using block_of_nested [of "Suc j" k i] Suc.prems(4) j(1) by simp
  moreover have "block_of (Suc j) i
      = min (if odd (i div 2 ^ j) then i div 2 ^ j - 1 else i div 2 ^ j + 1) (i div 2 ^ j) * 2 ^ j"
    unfolding block_of_Suc unfolding buddy_of_def block_of_def by (simp add: min_mult_distrib_right)
  moreover have "i div 2 ^ Suc j = i div 2 ^ j div 2" by (metis div_mult2_eq mult.commute power_Suc)
  ultimately have step: "free_loop j (i div 2 ^ j) (block_of j i) cnt s
      = free_loop (Suc j) (i div 2 ^ Suc j) (block_of (Suc j) i) (2 ^ j) s1"
    using j s1(1) rem unfolding buddy_of_def
    by (subst free_loop.simps) (simp add: Let_def del: power_Suc)
  have c: "pg_count (mem_map s1 q) = pg_count (mem_map s q)" for q
    using s1(3) by (simp add: same_counts_def)
  have "\<exists>t. free_loop (Suc j) (i div 2 ^ Suc j) (block_of (Suc j) i) (2 ^ j) s1
            = Some (k, block_of k i, if k < 8 then 2 ^ k else if Suc j < 8 then 128 else 2 ^ j, t)
          \<and> same_links s1 t \<and> same_counts s1 t"
    by (rule Suc.hyps(1)) (use Suc.hyps(2) Suc.prems j R1 c in auto)
  then obtain t where t: "free_loop (Suc j) (i div 2 ^ Suc j) (block_of (Suc j) i) (2 ^ j) s1
            = Some (k, block_of k i, if k < 8 then 2 ^ k else if Suc j < 8 then 128 else 2 ^ j, t)"
    "same_links s1 t" "same_counts s1 t" by (elim exE conjE)
  moreover have "(if k < 8 then 2 ^ k else if Suc j < 8 then 128 else 2 ^ j)
      = (if k < 8 then 2 ^ k else if j < 8 then 128 else cnt)"
  proof (cases "Suc j < 8")
    case False
    then have "j = 7" using j by simp
    then show ?thesis by simp
  qed (use j in simp)
  moreover have "same_links s t" "same_counts s t"
    using same_links_trans [OF s1(2) t(2)] same_counts_trans [OF s1(3) t(3)] by simp_all
  ultimately show ?case using step t(1) by (intro exI [of _ t]) (simp only: simp_thms)
qed

lemma mark_rest_ok:
  "i + n \<le> NR_PAGES \<Longrightarrow> \<exists>t. mark_rest n i k s = Some t \<and> same_links s t
     \<and> (\<forall>q. pg_count (mem_map t q) = (if q \<in> {i..<i + n} then 0 else pg_count (mem_map s q)))"
proof (induction n arbitrary: i s)
  case 0
  then show ?case by simp
next
  case (Suc n)
  let ?s1 = "s\<lparr>mem_map := (mem_map s)(i := (mem_map s i)\<lparr>pg_order := of_nat k, pg_count := 0\<rparr>)\<rparr>"
  have "same_links s ?s1" by (auto simp: same_links_def)
  with Suc.IH [of "i + 1" ?s1] Suc.prems show ?case
    by (fastforce simp: upd_page_def intro: same_links_trans)
qed

text \<open>The number of pages \<open>__free_pages___\<close> reports and clears.\<close>

definition merged_count :: "nat \<Rightarrow> nat" where
  "merged_count k = (if k < 8 then 2 ^ Suc k else 256)"

lemma do_free_pages_merges:
  assumes "buddy_ok s R" and "k \<le> 8" and "i < NR_PAGES" and "block_of k i + merged_count k \<le> NR_PAGES"
    and "\<forall>q \<in> {block_of k i..<block_of k i + 2 ^ k}. q \<noteq> i \<longrightarrow> pg_count (mem_map s q) = 0"
    and "\<forall>l < MAX_ORDER. \<forall>b \<in> set (R l). b \<notin> {block_of k i..<block_of k i + 2 ^ k}"
    and "k < 8 \<longrightarrow> buddy_of k i + 2 ^ k \<le> NR_PAGES
           \<and> (\<exists>u \<in> {buddy_of k i..<buddy_of k i + 2 ^ k}. pg_count (mem_map s u) \<noteq> 0)"
  shows "\<exists>t. do_free_pages i 0 s = Some (merged_count k, t)
    \<and> buddy_ok t (R(k := ins_block (block_of k i) (R k)))
    \<and> (\<forall>q. pg_count (mem_map t q) = (if block_of k i < q \<and> q < block_of k i + merged_count k
                                      then 0 else pg_count (mem_map s q)))"
proof -
  let ?B = "block_of k i" and ?n = "merged_count k"
  have pos: "0 < ?n" "?n = 2 * (if k < 8 then 2 ^ k else 128)" "(2::nat) ^ k \<le> ?n"
    using assms(2) by (auto simp: merged_count_def not_less dest!: le_antisym)
  have nf: "\<forall>l < k. block_of (Suc l) i \<notin> set (R l)"
  proof (intro allI impI)
    fix l assume "l < k"
    then have "block_of (Suc l) i \<in> {?B..<?B + 2 ^ k}"
      using block_of_nested [of "Suc l" k i] by (auto intro: less_le_trans [of _ "block_of (Suc l) i + 2 ^ Suc l"])
    moreover have "l < MAX_ORDER" using \<open>l < k\<close> assms(2) by simp
    ultimately show "block_of (Suc l) i \<notin> set (R l)" using assms(6) by blast
  qed
  have rng: "?B + 2 ^ k \<le> NR_PAGES" using assms(4) pos(3) by simp
  from free_loop_merges [OF assms(1,2) _ rng assms(5) nf assms(7), of 0 0] obtain s1 where
    s1: "free_loop 0 i i 0 s = Some (k, ?B, if k < 8 then 2 ^ k else 128, s1)"
      "same_links s s1" "same_counts s s1" by (auto simp: block_of_def)
  have "?B \<in> {?B..<?B + 2 ^ k}" by simp
  then have "\<forall>j < MAX_ORDER. ?B \<notin> set (R j)" using assms(6) by blast
  moreover have "?B < NR_PAGES" using assms(4) pos(1) by linarith
  ultimately obtain s2 where s2: "add_free_area ?B k s1 = Some s2"
    "buddy_ok s2 (R(k := ins_block ?B (R k)))" "same_counts s1 s2"
    using buddy_add [OF buddy_ok_same_links [OF assms(1) s1(2)], of k ?B] assms(2) by auto
  have "?B + 1 + (?n - 1) \<le> NR_PAGES" using assms(4) pos(1) by simp
  from mark_rest_ok [OF this, of k s2] obtain t where t: "mark_rest (?n - 1) (?B + 1) k s2 = Some t"
    "same_links s2 t"
    "\<forall>q. pg_count (mem_map t q) = (if q \<in> {?B + 1..<?B + 1 + (?n - 1)} then 0 else pg_count (mem_map s2 q))"
    by auto
  have "do_free_pages i 0 s = Some (?n, t)"
    using assms(3) s1(1) s2(1) t(1) pos(2) by (simp add: do_free_pages_def Let_def mult.commute)
  moreover have "buddy_ok t (R(k := ins_block ?B (R k)))" using buddy_ok_same_links s2(2) t(2) by blast
  ultimately show ?thesis using t(3) s1(3) s2(3) pos(1) by (auto simp: same_counts_def)
qed

subsection \<open>The free lists after booting\<close>

text \<open>The kernel calls \<open>mem_init\<close> with the memory from page 2052 to page 8191. After the
  blocks of orders 2 to \<open>k - 1\<close> and \<open>n\<close> blocks of order 8:\<close>

fun big_blocks :: "nat \<Rightarrow> nat list" where
  "big_blocks 0 = []"
| "big_blocks (Suc n) = ins_block (2304 + 256 * n) (big_blocks n)"

definition boot_blocks :: "nat \<Rightarrow> nat \<Rightarrow> nat \<Rightarrow> nat list" where
  "boot_blocks k n l =
     (if 2 \<le> l \<and> l < k then [2048 + 2 ^ l] else if l = 8 then big_blocks n else [])"

definition boot_counts :: "buddy \<Rightarrow> bool" where
  "boot_counts s \<longleftrightarrow> (\<forall>q < NR_PAGES. pg_count (mem_map s q) = 0 \<longleftrightarrow> 2052 \<le> q)"

lemma set_big_blocks: "set (big_blocks n) = (\<lambda>m. 2304 + 256 * m) ` {..<n}"
  by (induction n) (auto simp: lessThan_Suc)

lemma init_loop_free:
  assumes "do_free_pages i 0 s = Some (n, t)" and "i < m"
  shows "init_loop i m s = init_loop (i + n) m t"
  using assms by (subst init_loop.simps) simp

lemma boot_step:
  assumes "buddy_ok s R" and "boot_counts s" and "k \<le> 8" and "i < NR_PAGES"
    and "2052 \<le> block_of k i" and "block_of k i + merged_count k \<le> NR_PAGES"
    and "\<forall>l < MAX_ORDER. \<forall>b \<in> set (R l). b < block_of k i"
    and "k < 8 \<longrightarrow> buddy_of k i = 2048"
  shows "\<exists>t. init_loop i NR_PAGES s = init_loop (i + merged_count k) NR_PAGES t
           \<and> buddy_ok t (R(k := ins_block (block_of k i) (R k))) \<and> boot_counts t"
proof -
  have m: "2 ^ k \<le> merged_count k" using assms(3) by (auto simp: merged_count_def not_less dest: le_antisym)
  have used: "pg_count (mem_map s 2048) \<noteq> 0" using assms(2) by (simp add: boot_counts_def)
  have "\<exists>t. do_free_pages i 0 s = Some (merged_count k, t)
    \<and> buddy_ok t (R(k := ins_block (block_of k i) (R k)))
    \<and> (\<forall>q. pg_count (mem_map t q) = (if block_of k i < q \<and> q < block_of k i + merged_count k
                                      then 0 else pg_count (mem_map s q)))"
  proof (rule do_free_pages_merges [OF assms(1,3,4,6)])
    show "\<forall>q \<in> {block_of k i..<block_of k i + 2 ^ k}. q \<noteq> i \<longrightarrow> pg_count (mem_map s q) = 0"
      using assms(2,5,6) m unfolding boot_counts_def by auto
    show "\<forall>l < MAX_ORDER. \<forall>b \<in> set (R l). b \<notin> {block_of k i..<block_of k i + 2 ^ k}"
      using assms(7) by fastforce
    show "k < 8 \<longrightarrow> buddy_of k i + 2 ^ k \<le> NR_PAGES
           \<and> (\<exists>u \<in> {buddy_of k i..<buddy_of k i + 2 ^ k}. pg_count (mem_map s u) \<noteq> 0)"
      using assms(5,6,8) m used by auto
  qed
  then obtain t where t: "do_free_pages i 0 s = Some (merged_count k, t)"
    "buddy_ok t (R(k := ins_block (block_of k i) (R k)))"
    "\<forall>q. pg_count (mem_map t q) = (if block_of k i < q \<and> q < block_of k i + merged_count k
                                      then 0 else pg_count (mem_map s q))" by blast
  have "boot_counts t" using assms(2,5) t(3) unfolding boot_counts_def by auto
  with init_loop_free [OF t(1) assms(4)] t(2) show ?thesis by blast
qed

lemma boot_small_step:
  assumes "buddy_ok s (boot_blocks k 0)" and "boot_counts s" and "2 \<le> k" and "k < 8"
  shows "\<exists>t. init_loop (2044 + 2 ^ (k + 1)) NR_PAGES s = init_loop (2044 + 2 ^ (k + 2)) NR_PAGES t
           \<and> buddy_ok t (boot_blocks (Suc k) 0) \<and> boot_counts t"
proof -
  let ?i = "2044 + 2 ^ (k + 1) :: nat"
  have k: "k \<in> {2, 3, 4, 5, 6, 7}" using assms(3,4) by auto
  then have B: "block_of k ?i = 2048 + 2 ^ k" "buddy_of k ?i = 2048" "merged_count k = 2 ^ (k + 1)"
    "2048 + 2 ^ k + 2 ^ (k + 1) \<le> NR_PAGES" "?i < NR_PAGES" "2052 \<le> 2048 + (2::nat) ^ k"
    by (auto simp: block_of_def buddy_of_def merged_count_def)
  have "(2::nat) ^ l < 2 ^ k" if "l < k" for l using that by simp
  then have "\<forall>l < MAX_ORDER. \<forall>b \<in> set (boot_blocks k 0 l). b < block_of k ?i"
    unfolding B(1) by (auto simp: boot_blocks_def)
  moreover have "(boot_blocks k 0)(k := ins_block (2048 + 2 ^ k) (boot_blocks k 0 k)) = boot_blocks (Suc k) 0"
    using assms(3,4) by (auto simp: boot_blocks_def fun_eq_iff)
  moreover have "?i + merged_count k = 2044 + 2 ^ (k + 2)" using B(3) by simp
  ultimately show ?thesis
    using boot_step [OF assms(1,2), of k ?i] assms(4) B
    by (simp add: add.commute del: power_Suc add_2_eq_Suc' power_add)
qed

lemma boot_big_step:
  assumes "buddy_ok s (boot_blocks 8 n)" and "boot_counts s" and "n < 23"
  shows "\<exists>t. init_loop (2556 + 256 * n) NR_PAGES s = init_loop (2556 + 256 * Suc n) NR_PAGES t
           \<and> buddy_ok t (boot_blocks 8 (Suc n)) \<and> boot_counts t"
proof -
  let ?i = "2556 + 256 * n"
  have "?i = 252 + (9 + n) * 256" by simp
  then have "?i div 256 = 9 + n" by (simp only: div_mult_self1)
  then have B: "block_of 8 ?i = 2304 + 256 * n" "merged_count 8 = 256"
    by (auto simp: block_of_def merged_count_def)
  have "2048 + (2::nat) ^ l < 2304 + 256 * n" if "l < 8" for l
    using power_strict_increasing [OF that, of "2::nat"] by simp
  then have "\<forall>l < MAX_ORDER. \<forall>b \<in> set (boot_blocks 8 n l). b < block_of 8 ?i"
    unfolding B(1) by (auto simp: boot_blocks_def set_big_blocks)
  moreover have "(boot_blocks 8 n)(8 := ins_block (2304 + 256 * n) (boot_blocks 8 n 8)) = boot_blocks 8 (Suc n)"
    by (auto simp: boot_blocks_def fun_eq_iff)
  ultimately show ?thesis
    using boot_step [OF assms(1,2), of 8 ?i] assms(3) B by auto
qed

lemma init_pages_ok:
  "i + n \<le> NR_PAGES \<Longrightarrow> \<exists>t. init_pages n i c fl s = Some t \<and> free_area t = free_area s
     \<and> (\<forall>q. mem_map t q = (if q \<in> {i..<i + n}
            then (mem_map s q)\<lparr>pg_count := c, pg_flags := fl, pg_order := of_nat MAX_ORDER\<rparr>
            else mem_map s q))"
proof (induction n arbitrary: i s)
  case 0
  then show ?case by simp
next
  case (Suc n)
  from Suc.IH [of "i + 1"] Suc.prems show ?case by (fastforce simp: upd_page_def)
qed

lemma init_buddy_boot:
  assumes "free_area s = replicate MAX_ORDER \<lparr>free_list = None, nr_free = 0\<rparr>" and "boot_counts s"
  shows "\<exists>t. init_buddy_pages 2052 NR_PAGES s = Some t \<and> buddy_ok t (boot_blocks 8 23) \<and> boot_counts t"
proof -
  have small: "\<exists>t. init_loop 2052 NR_PAGES s = init_loop (2044 + 2 ^ (k + 1)) NR_PAGES t
      \<and> buddy_ok t (boot_blocks k 0) \<and> boot_counts t" if "k \<le> 8" "2 \<le> k" for k
    using that(2,1)
  proof (induction k rule: nat_induct_at_least)
    case base
    have "buddy_ok s (boot_blocks 2 0)"
      using assms(1) by (auto simp: buddy_ok_def boot_blocks_def area_ring_def)
    then show ?case using assms(2) by auto
  next
    case (Suc k)
    then obtain t where "init_loop 2052 NR_PAGES s = init_loop (2044 + 2 ^ (k + 1)) NR_PAGES t"
      "buddy_ok t (boot_blocks k 0)" "boot_counts t" by auto
    with boot_small_step [of t k] Suc show ?case by auto
  qed
  have big: "\<exists>t. init_loop 2052 NR_PAGES s = init_loop (2556 + 256 * n) NR_PAGES t
      \<and> buddy_ok t (boot_blocks 8 n) \<and> boot_counts t" if "n \<le> 23" for n
    using that
  proof (induction n)
    case 0
    then show ?case using small [of 8] by simp
  next
    case (Suc n)
    then obtain t where "init_loop 2052 NR_PAGES s = init_loop (2556 + 256 * n) NR_PAGES t"
      "buddy_ok t (boot_blocks 8 n)" "boot_counts t" by auto
    with boot_big_step [of t n] Suc.prems show ?case by auto
  qed
  have "s\<lparr>free_area := map (\<lambda>a. a\<lparr>nr_free := 0\<rparr>) (free_area s)\<rparr> = s"
    using assms(1) by (cases s) (simp add: map_replicate_const)
  then show ?thesis
    using big [of 23] by (auto simp: init_buddy_pages_def init_loop.simps [of 8444])
qed

subsection \<open>Allocating a block of the wanted order\<close>

lemma set_counts_ok:
  "i + n \<le> NR_PAGES \<Longrightarrow> \<exists>t. set_counts n i s = Some t \<and> same_links s t
     \<and> (\<forall>q. pg_count (mem_map t q) = (if q \<in> {i..<i + n} then 1 else pg_count (mem_map s q)))"
proof (induction n arbitrary: i s)
  case 0
  then show ?case by simp
next
  case (Suc n)
  let ?s1 = "s\<lparr>mem_map := (mem_map s)(i := (mem_map s i)\<lparr>pg_count := 1\<rparr>)\<rparr>"
  have "same_links s ?s1" by (auto simp: same_links_def)
  with Suc.IH [of "i + 1" ?s1] Suc.prems show ?case
    by (fastforce simp: upd_page_def intro: same_links_trans)
qed

text \<open>What the unlinking statements of \<open>__alloc_pages\<close> make of the first block's successor.\<close>

fun next_after_take :: "nat \<Rightarrow> nat list \<Rightarrow> nat" where
  "next_after_take h [] = h"
| "next_after_take h [p] = p"
| "next_after_take h (p # q # ys) = hd (ys @ [h])"

text \<open>The links around the block that is taken: its predecessor is the first block.\<close>

lemma chain_taken:
  assumes "page_chain m h xs h"
  shows "pg_next (m h) = Some (hd (xs @ [h]))" and "pg_prev (m (hd (xs @ [h]))) = Some h"
    and "\<exists>n. pg_next (m (hd (xs @ [h]))) = Some n \<and> n \<in> insert h (set xs)
           \<and> pg_next (m n) = Some (next_after_take h xs)"
proof -
  consider "xs = []" | p where "xs = [p]" | p q ys where "xs = p # q # ys"
    by (metis neq_Nil_conv)
  then show "pg_next (m h) = Some (hd (xs @ [h]))" "pg_prev (m (hd (xs @ [h]))) = Some h"
    "\<exists>n. pg_next (m (hd (xs @ [h]))) = Some n \<and> n \<in> insert h (set xs)
           \<and> pg_next (m n) = Some (next_after_take h xs)"
    using assms by (cases; auto dest: chain_first)+
qed

lemma take_block_exact:
  assumes "length (free_area s) = MAX_ORDER" and "k < MAX_ORDER"
    and "free_area s ! k = \<lparr>free_list = Some h, nr_free = n\<rparr>" and "h < NR_PAGES"
    and "pg_next (mem_map s h) = Some p" and "p + 2 ^ k \<le> NR_PAGES"
    and "pg_prev (mem_map s p) = Some h" and "pg_next (mem_map s p) = Some c" and "c < NR_PAGES"
    and "pg_next (mem_map s c) = Some d"
  shows "\<exists>t. take_block k k s = Some (p, t)
    \<and> free_area t = (free_area s)[k := \<lparr>free_list = Some h, nr_free = n - 1\<rparr>]
    \<and> (\<forall>q. pg_count (mem_map t q) = (if q \<in> {p..<p + 2 ^ k} then 1 else pg_count (mem_map s q)))
    \<and> (\<forall>q. pg_next (mem_map t q) = (if q = h then Some d else pg_next (mem_map s q)))
    \<and> (\<forall>q. pg_prev (mem_map t q) = (if q = c then Some h else pg_prev (mem_map s q)))"
proof -
  have p: "p < NR_PAGES" using assms(6) by (rule less_le_trans [rotated]) simp
  have ch: "p = h \<Longrightarrow> c = h \<and> d = h" using assms(5,8,10) by auto
  define m1 where "m1 = (mem_map s)(h := (mem_map s h)\<lparr>pg_next := Some d\<rparr>)"
  define m2 where "m2 = m1(c := (m1 c)\<lparr>pg_prev := Some h\<rparr>)"
  define m3 where "m3 = m2(p := (m2 p)\<lparr>pg_order := of_nat k\<rparr>)"
  define s0 where "s0 = s\<lparr>free_area := (free_area s)[k := \<lparr>free_list = Some h, nr_free = n - 1\<rparr>]\<rparr>"
  let ?s3 = "s0\<lparr>mem_map := m3\<rparr>"
  have m: "mem_map s0 = mem_map s" by (simp add: s0_def)
  have st: "upd_area k (\<lambda>a. a\<lparr>nr_free := nr_free a - 1\<rparr>) s = Some s0"
    "upd_page h (\<lambda>b. b\<lparr>pg_next := Some d\<rparr>) s0 = Some (s0\<lparr>mem_map := m1\<rparr>)"
    "upd_page c (\<lambda>b. b\<lparr>pg_prev := Some h\<rparr>) (s0\<lparr>mem_map := m1\<rparr>) = Some (s0\<lparr>mem_map := m2\<rparr>)"
    "upd_page p (\<lambda>b. b\<lparr>pg_order := of_nat k\<rparr>) (s0\<lparr>mem_map := m2\<rparr>) = Some ?s3"
    using assms(1-4,9) p m by (simp_all add: upd_area_def upd_page_def s0_def m1_def m2_def m3_def)
  have link: "pg_next (m1 p) = Some c" "pg_prev (m1 p) = Some h"
    using assms(7,8) ch by (auto simp: m1_def)
  from set_counts_ok [OF assms(6), of ?s3] obtain t where t: "set_counts (2 ^ k) p ?s3 = Some t"
    "same_links ?s3 t"
    "\<forall>q. pg_count (mem_map t q) = (if q \<in> {p..<p + 2 ^ k} then 1 else pg_count (m3 q))" by auto
  have "take_block k k s = Some (p, t)"
    unfolding take_block_def Let_def
    using assms(1-5,7-10) p link t(1) st m by (simp add: page_at_def)
  moreover have "pg_count (m3 q) = pg_count (mem_map s q)"
    "pg_next (m3 q) = (if q = h then Some d else pg_next (mem_map s q))"
    "pg_prev (m3 q) = (if q = c then Some h else pg_prev (mem_map s q))" for q
    by (simp_all add: m3_def m2_def m1_def)
  ultimately show ?thesis using t(2,3) by (simp add: same_links_def s0_def)
qed

lemma alloc_first_order:
  assumes "\<forall>j. ord \<le> j \<and> j < k \<longrightarrow> nr_free (free_area s ! j) = 0" and "ord \<le> k" and "k < MAX_ORDER"
    and "length (free_area s) = MAX_ORDER" and "nr_free (free_area s ! k) \<noteq> 0"
  shows "do_alloc_pages ord s = do { (p, s') \<leftarrow> take_block ord k s; Some (Some p, s') }"
proof -
  have "alloc_loop ord j s = alloc_loop ord k s" if "ord \<le> j" "j \<le> k" for j
    using that(2,1)
  proof (induction j rule: inc_induct)
    case (step j)
    then have "nr_free (free_area s ! j) = 0" "j < MAX_ORDER" using assms(1,3) by simp_all
    then show ?case using step(3) [symmetric] step(4) assms(4) by (subst alloc_loop.simps) simp
  qed simp
  then have "do_alloc_pages ord s = alloc_loop ord k s"
    using assms(2) unfolding do_alloc_pages_def by blast
  also have "\<dots> = do { (p, s') \<leftarrow> take_block ord k s; Some (Some p, s') }"
    using assms(3-5) by (subst alloc_loop.simps) (simp add: word_gt_0)
  finally show ?thesis .
qed

lemma alloc_same_order:
  assumes "k < MAX_ORDER" and "length (free_area s) = MAX_ORDER" and "nr_free (free_area s ! k) \<noteq> 0"
    and "take_block k k s = Some (p, t)"
  shows "do_alloc_pages k s = Some (Some p, t)"
proof -
  have "\<forall>j. k \<le> j \<and> j < k \<longrightarrow> nr_free (free_area s ! j) = 0" by auto
  from alloc_first_order [OF this order_refl assms(1-3)] assms(4) show ?thesis by simp
qed

lemma distinct_bound: "distinct bs \<Longrightarrow> \<forall>q \<in> set bs. q < (N::nat) \<Longrightarrow> length bs \<le> N"
  using card_mono [of "{..<N}" "set bs"] by (simp add: distinct_card subset_iff)

lemma nr_free_blocks:
  assumes "buddy_ok s R" and "k < MAX_ORDER"
  shows "nr_free (free_area s ! k) = of_nat (length (R k))" and "nr_free (free_area s ! k) = 0 \<longleftrightarrow> R k = []"
proof -
  have R: "area_ring s k (R k)" "distinct (R k)" "\<forall>q \<in> set (R k). q < NR_PAGES"
    using assms by (auto simp: buddy_ok_def)
  show n: "nr_free (free_area s ! k) = of_nat (length (R k))"
    using R(1) by (auto simp: area_ring_def split: list.splits)
  have "length (R k) \<le> NR_PAGES" using R(2,3) by (rule distinct_bound)
  then have "length (R k) mod 2 ^ 32 = length (R k)" by simp
  then have "unat (nr_free (free_area s ! k)) = length (R k)"
    unfolding n by (simp only: unat_of_nat len_num1 len_bit0 mult_1_right) simp
  then show "nr_free (free_area s ! k) = 0 \<longleftrightarrow> R k = []" by (auto simp: unat_eq_0)
qed

lemma length_big_blocks: "length (big_blocks n) = n"
proof (induction n)
  case (Suc n)
  then show ?case by (cases "big_blocks n") auto
qed simp

lemma covered_boot: "covered (boot_blocks 8 23) = {2052..<8192}"
proof -
  have "covered (boot_blocks 8 23) = (\<Union>k \<in> {2..<8}. {2048 + 2 ^ k..<2048 + 2 ^ k + 2 ^ k})
      \<union> (\<Union>n < 23. {2304 + 256 * n..<2304 + 256 * n + 256})"
    by (fastforce simp: covered_def boot_blocks_def set_big_blocks split: if_splits)
  also have "(\<Union>n < m. {2304 + 256 * n..<2304 + 256 * n + 256}) = {2304..<2304 + 256 * m :: nat}" for m
    by (induction m) (auto simp: lessThan_Suc)
  finally show ?thesis using halves_cover [of 2 8 2048] by auto
qed

lemma alloc_exact_links:
  assumes "buddy_ok s R" and "k < MAX_ORDER" and "R k = h # xs"
    and "hd (xs @ [h]) + 2 ^ k \<le> NR_PAGES"
  shows "\<exists>t c. do_alloc_pages k s = Some (Some (hd (xs @ [h])), t)
    \<and> length (free_area t) = MAX_ORDER
    \<and> free_area t ! k = \<lparr>free_list = Some h, nr_free = of_nat (length xs)\<rparr>
    \<and> (\<forall>q. pg_count (mem_map t q)
          = (if q \<in> {hd (xs @ [h])..<hd (xs @ [h]) + 2 ^ k} then 1 else pg_count (mem_map s q)))
    \<and> pg_next (mem_map s (hd (xs @ [h]))) = Some c
    \<and> (\<forall>q. pg_next (mem_map t q) = (if q = h then Some (next_after_take h xs) else pg_next (mem_map s q)))
    \<and> (\<forall>q. pg_prev (mem_map t q) = (if q = c then Some h else pg_prev (mem_map s q)))
    \<and> pg_prev (mem_map s (hd (xs @ [h]))) = Some h"
proof -
  have ok: "length (free_area s) = MAX_ORDER" "area_ring s k (h # xs)" "\<forall>q \<in> set (h # xs). q < NR_PAGES"
    using assms(1-3) by (auto simp: buddy_ok_def dest: spec [of _ k])
  then have fa: "free_area s ! k = \<lparr>free_list = Some h, nr_free = of_nat (length (h # xs))\<rparr>"
    and ch: "page_chain (mem_map s) h xs h" by (auto simp: area_ring_def)
  from chain_taken(3) [OF ch] obtain c where c: "pg_next (mem_map s (hd (xs @ [h]))) = Some c"
    "c \<in> insert h (set xs)" "pg_next (mem_map s c) = Some (next_after_take h xs)" by auto
  then have "h < NR_PAGES" "c < NR_PAGES" using ok(3) by auto
  from take_block_exact [OF ok(1) assms(2) fa this(1) chain_taken(1) [OF ch] assms(4)
      chain_taken(2) [OF ch] c(1) this(2) c(3)] obtain t where
    t: "take_block k k s = Some (hd (xs @ [h]), t)"
      "free_area t = (free_area s)[k := \<lparr>free_list = Some h, nr_free = of_nat (length (h # xs)) - 1\<rparr>]"
      "\<forall>q. pg_count (mem_map t q)
          = (if q \<in> {hd (xs @ [h])..<hd (xs @ [h]) + 2 ^ k} then 1 else pg_count (mem_map s q))"
      "\<forall>q. pg_next (mem_map t q) = (if q = h then Some (next_after_take h xs) else pg_next (mem_map s q))"
      "\<forall>q. pg_prev (mem_map t q) = (if q = c then Some h else pg_prev (mem_map s q))" by blast
  have "nr_free (free_area s ! k) \<noteq> 0" using nr_free_blocks(2) [OF assms(1,2)] assms(3) by simp
  then have "do_alloc_pages k s = Some (Some (hd (xs @ [h])), t)"
    using alloc_same_order [of k s, OF assms(2) ok(1) _ t(1)] by simp
  with t ok(1) assms(2) c(1) chain_taken(2) [OF ch] show ?thesis by (intro exI [of _ t] exI [of _ c]) simp
qed

lemma set_counts_bound: "set_counts n p s = Some t \<Longrightarrow> 0 < n \<Longrightarrow> p + n \<le> NR_PAGES"
proof (induction n arbitrary: p s)
  case (Suc n)
  then obtain s1 where "p < NR_PAGES" "set_counts n (p + 1) s1 = Some t"
    by (auto dest!: bind_SomeD simp: upd_page_def split: if_splits)
  then show ?case using Suc.IH [of "p + 1" s1] by (cases "n = 0") auto
qed simp

lemma alloc_pages_bound:
  assumes "do_alloc_pages ord s = Some (Some p, t)"
  shows "p + 2 ^ ord \<le> NR_PAGES"
proof -
  have "take_block ord k s = Some (p, t) \<Longrightarrow> p + 2 ^ ord \<le> NR_PAGES" for k s
    by (auto simp: take_block_def Let_def dest!: bind_SomeD dest: set_counts_bound)
  then have "alloc_loop ord k s = Some (Some p, t) \<Longrightarrow> p + 2 ^ ord \<le> NR_PAGES" for k
    by (induction ord k s rule: alloc_loop.induct)
       (subst (asm) (2) alloc_loop.simps, fastforce dest!: bind_SomeD split: if_splits)
  then show ?thesis using assms by (simp add: do_alloc_pages_def)
qed

subsection \<open>Properties\<close>

lemma mem_init_boot:
  assumes "free_area s = replicate MAX_ORDER \<lparr>free_list = None, nr_free = 0\<rparr>"
  shows "\<exists>t. mem_init_pages 0x804000 0x2000000 s = Some t \<and> buddy_ok t (boot_blocks 8 23)"
proof -
  obtain s1 where s1: "init_pages 2052 0 1 (PAGE_RWE OR PAGE_P OR PAGE_LOCK) s = Some s1"
    "free_area s1 = free_area s" "\<And>q. q < 2052 \<Longrightarrow> pg_count (mem_map s1 q) = 1"
    using init_pages_ok [of 0 2052 1 "PAGE_RWE OR PAGE_P OR PAGE_LOCK" s] by auto
  obtain s2 where s2: "init_pages 6140 2052 0 0 s1 = Some s2" "free_area s2 = free_area s1"
    "\<And>q. 2052 \<le> q \<Longrightarrow> q < 8192 \<Longrightarrow> pg_count (mem_map s2 q) = 0"
    "\<And>q. q < 2052 \<Longrightarrow> mem_map s2 q = mem_map s1 q"
    using init_pages_ok [of 2052 6140 0 0 s1] by auto
  have "boot_counts s2" unfolding boot_counts_def
  proof (intro allI impI)
    fix q :: nat assume "q < NR_PAGES"
    then show "pg_count (mem_map s2 q) = 0 \<longleftrightarrow> 2052 \<le> q"
      using s1(3) [of q] s2(3,4) [of q] by (cases "q < 2052") auto
  qed
  then obtain t where t: "init_buddy_pages 2052 NR_PAGES s2 = Some t" "buddy_ok t (boot_blocks 8 23)"
    using init_buddy_boot [of s2] assms s1(2) s2(2) by auto
  have pfn: "unat ((0x804000::u32) div 4096) = 2052" "unat (drop_bit PAGE_SHIFT (0x2000000::u32)) = 8192"
    "8192 - 2052 = (6140::nat)" by simp_all
  show ?thesis
    unfolding mem_init_pages_def Let_def pfn using s1(1) s2(1) t by (simp del: init_pages.simps)
qed

text \<open>
  C32. The part of \<open>mem_init\<close> that sets up the page allocator, with the arguments the kernel
  passes, builds a consistent buddy system: its free lists are well-formed, and their blocks cover
  exactly the pages 2052 to 8191, each page by one block (the sizes add up to the number of
  pages). The pages 4097 to 5121, which the comment of mm.h wants to be left out for the buffers,
  are among them.
\<close>
theorem mem_init_partition:
  assumes "free_area s = replicate MAX_ORDER \<lparr>free_list = None, nr_free = 0\<rparr>"
  shows "\<exists>t R. mem_init_pages 0x804000 0x2000000 s = Some t \<and> buddy_ok t R
           \<and> covered R = {2052..<8192} \<and> (\<Sum>k<MAX_ORDER. length (R k) * 2 ^ k) = 8192 - 2052"
proof -
  let ?R = "boot_blocks 8 23"
  from mem_init_boot [OF assms] obtain t where t: "mem_init_pages 0x804000 0x2000000 s = Some t" "buddy_ok t ?R" by blast
  have "covered ?R = {2052..<8192}" by (rule covered_boot)
  moreover have "{..<MAX_ORDER} = {0, 1, 2, 3, 4, 5, 6, 7, 8}" by auto
  then have "(\<Sum>k<MAX_ORDER. length (?R k) * 2 ^ k) = 8192 - 2052"
    by (simp only:) (simp add: boot_blocks_def length_big_blocks)
  ultimately show ?thesis using t by blast
qed

text \<open>
  \<open>expand\<close> splits a block of a higher order: it adds one block of each order from
  \<open>low_order\<close> up to \<open>high_order - 1\<close> to the free lists, keeps them well-formed, and what the
  free lists cover grows by exactly the pages behind the first \<open>2 ^ low_order\<close> ones.
\<close>
theorem expand_splits:
  assumes "buddy_ok s R" and "high < MAX_ORDER" and "low \<le> high" and "pg + 2 ^ high \<le> NR_PAGES"
    and "\<forall>j < MAX_ORDER. \<forall>b \<in> set (R j). b \<le> pg \<or> pg + 2 ^ high \<le> b"
  shows "\<exists>t. expand low high pg s = Some t \<and> buddy_ok t (split_blocks low high pg R)
           \<and> covered (split_blocks low high pg R) = covered R \<union> {pg + 2 ^ low ..< pg + 2 ^ high}
           \<and> same_counts s t"
  using expand_loop_ok [OF assms] covered_split [OF assms(3,2)] by (simp add: expand_def)

subsection \<open>Taking a free neighbour off its list\<close>

lemma remove_loop_present:
  assumes "page_chain (mem_map s) a xs p" and "page_chain (mem_map s) p ys h" and "distinct (a # xs @ p # ys)"
    and "h \<notin> set (xs @ p # ys)"
    and "\<forall>q \<in> set (a # xs @ p # ys). q < NR_PAGES"
    and "cell (free_area s) k = Some \<lparr>free_list = Some h, nr_free = n\<rparr>"
  shows "remove_loop (Some a) p k s = Some (s\<lparr>
     mem_map := (mem_map s)(last (a # xs) := (mem_map s (last (a # xs)))\<lparr>pg_next := Some (hd (ys @ [h]))\<rparr>),
     free_area := (free_area s)[k := \<lparr>free_list = Some h, nr_free = n - 1\<rparr>]\<rparr>)"
  using assms
proof (induction xs arbitrary: a)
  case Nil
  have "pg_next (mem_map s p) = Some (hd (ys @ [h]))" using chain_first [OF Nil.prems(2)] .
  moreover have "k < length (free_area s)" "free_area s ! k = \<lparr>free_list = Some h, nr_free = n\<rparr>"
    using Nil.prems(6) by (auto simp: cell_def split: if_splits)
  ultimately have "remove_loop (Some p) p k s = Some (s\<lparr>
     mem_map := (mem_map s)(a := (mem_map s a)\<lparr>pg_next := Some (hd (ys @ [h]))\<rparr>),
     free_area := (free_area s)[k := \<lparr>free_list = Some h, nr_free = n - 1\<rparr>]\<rparr>)"
    using Nil.prems by (subst remove_loop.simps) (simp add: page_at_def upd_page_def upd_area_def)
  then show ?case using Nil.prems by (subst remove_loop.simps) (auto simp: page_at_def)
next
  case (Cons x xs)
  have l: "last (a # x # xs) = last (x # xs)" by simp
  have "remove_loop (Some a) p k s = remove_loop (Some x) p k s"
    using Cons.prems by (subst remove_loop.simps) (auto simp: page_at_def)
  also note Cons.IH [of x]
  finally show ?case unfolding l using Cons.prems by (simp del: last.simps)
qed

text \<open>Following the next pointers from block to block.\<close>

definition next_walk :: "buddy \<Rightarrow> nat list \<Rightarrow> bool" where
  "next_walk s bs \<longleftrightarrow> successively (\<lambda>a b. pg_next (mem_map s a) = Some b) bs"

lemma chain_walk: "chain (\<lambda>i. pg_next (mem_map s i)) pv a xs b \<Longrightarrow> next_walk s (a # xs @ [b])"
  by (induction xs arbitrary: a) (auto simp: next_walk_def)

lemma chain_second: "chain nx pv a xs b \<Longrightarrow> pv (hd (xs @ [b])) = Some a"
  by (cases xs) auto

lemma unlink_walk:
  assumes "page_chain (mem_map s) h (xs @ p # ys) h" and "distinct (h # xs @ p # ys)"
    and "\<And>q. q \<in> set (h # xs @ ys) \<Longrightarrow> pg_prev (mem_map t q) = pg_prev (mem_map s q)
           \<and> pg_next (mem_map t q) = (if q = last (h # xs) then Some (hd (ys @ [h])) else pg_next (mem_map s q))"
  shows "next_walk t (h # xs @ ys @ [h])" and "pg_prev (mem_map t (hd (ys @ [h]))) = Some p"
proof -
  let ?l = "last (h # xs)" and ?n = "hd (ys @ [h])"
  have l: "?l \<in> set (h # xs @ ys)" "?n \<in> set (h # xs @ ys)" by (auto simp: hd_append)
  have "chain (\<lambda>i. pg_next (mem_map t i)) (\<lambda>i. if i = ?n then Some ?l else pg_prev (mem_map s i)) h (xs @ ys) h"
  proof (rule chain_unlink [OF assms(1,2)])
    show "pg_next (mem_map t ?l) = Some ?n" using assms(3) [OF l(1)] by (simp del: last.simps)
  qed (use assms(2,3) in \<open>auto simp del: last.simps\<close>)
  then show "next_walk t (h # xs @ ys @ [h])" using chain_walk by fastforce
  have "page_chain (mem_map s) p ys h" using assms(1) by (simp add: chain_append)
  then show "pg_prev (mem_map t ?n) = Some p" using assms(3) [OF l(2)] chain_second by fastforce
qed

text \<open>A page with an odd number is freed whose left neighbour is free, in the list of single pages
  and not the first one there; the buddy of the two pages is in use.\<close>

lemma free_loop_joins_left:
  assumes "buddy_ok s R" and "R 0 = h # xs @ p # ys" and "even p" and "Suc p < NR_PAGES" and "pg_count (mem_map s p) = 0"
    and "buddy_of 1 p + 2 \<le> NR_PAGES" and "\<exists>u \<in> {buddy_of 1 p..<buddy_of 1 p + 2}. pg_count (mem_map s u) \<noteq> 0"
  shows "\<exists>t. free_loop 0 (Suc p) (Suc p) 0 s = Some (1, p, 2, t) \<and> same_counts s t
    \<and> free_area t = (free_area s)[0 := \<lparr>free_list = Some h, nr_free = of_nat (length (R 0)) - 1\<rparr>]
    \<and> (\<forall>q. pg_prev (mem_map t q) = pg_prev (mem_map s q))
    \<and> (\<forall>q. pg_next (mem_map t q) = (if q = last (h # xs) then Some (hd (ys @ [h])) else pg_next (mem_map s q)))"
proof -
  obtain s1 where s1: "mark_neighbours 1 p 0 s = Some (True, s1)" "same_links s s1" "same_counts s s1"
    using mark_neighbours_free [of p 1 s 0] assms(4,5) by auto
  have ok: "buddy_ok s1 R" by (rule buddy_ok_same_links [OF assms(1) s1(2)])
  then have "area_ring s1 0 (R 0) \<and> distinct (R 0) \<and> (\<forall>q \<in> set (R 0). q < NR_PAGES) \<and> length (free_area s1) = MAX_ORDER"
    unfolding buddy_ok_def by (metis zero_less_numeral)
  then have ring: "area_ring s1 0 (h # xs @ p # ys)" "distinct (h # xs @ p # ys)" "\<forall>q \<in> set (h # xs @ p # ys). q < NR_PAGES"
    "length (free_area s1) = MAX_ORDER"
    unfolding assms(2) by blast+
  have ch: "page_chain (mem_map s1) h xs p" "page_chain (mem_map s1) p ys h"
    "cell (free_area s1) 0 = Some \<lparr>free_list = Some h, nr_free = of_nat (length (R 0))\<rparr>"
    using ring assms(2) by (auto simp: area_ring_def chain_append)
  define s2 where "s2 = s1\<lparr>mem_map := (mem_map s1)(last (h # xs) := (mem_map s1 (last (h # xs)))\<lparr>pg_next := Some (hd (ys @ [h]))\<rparr>),
     free_area := (free_area s1)[0 := \<lparr>free_list = Some h, nr_free = of_nat (length (R 0)) - 1\<rparr>]\<rparr>"
  have rem: "remove_free_area p 0 s1 = Some s2"
    unfolding s2_def remove_free_area_def using remove_loop_present [OF ch(1,2) ring(2) _ ring(3) ch(3)] ring(2) ch(3) by auto
  have c: "pg_count (mem_map s2 q) = pg_count (mem_map s q)" for q
    using s1(3) by (auto simp: s2_def same_counts_def simp del: last.simps)
  obtain u where u: "u \<in> {buddy_of 1 p..<buddy_of 1 p + 2}" "pg_count (mem_map s2 u) \<noteq> 0" using assms(7) c by auto
  obtain t where t: "mark_neighbours 2 (buddy_of 1 p) 1 s2 = Some (False, t)" "same_links s2 t" "same_counts s2 t"
    using mark_neighbours_used [OF assms(6) u] by auto
  have i: "Suc p div 2 = p div 2" using assms(3) by (auto elim: evenE)
  have "free_loop 0 (Suc p) (Suc p) 0 s = free_loop 1 (p div 2) p 1 s2"
    using s1(1) rem assms(3,4) i by (subst free_loop.simps) (simp add: Let_def del: mark_neighbours.simps)
  also have "\<dots> = Some (1, p, 2, t)"
    using t(1) by (subst free_loop.simps) (cases "odd (p div 2)"; simp add: Let_def buddy_of_def numeral_2_eq_2 [symmetric] del: mark_neighbours.simps)
  finally have "free_loop 0 (Suc p) (Suc p) 0 s = Some (1, p, 2, t)" .
  moreover have "same_counts s t" using t(3) c by (simp add: same_counts_def)
  ultimately show ?thesis using t(2) s1(2) by (simp add: same_links_def s2_def del: last.simps)
qed


text \<open>
  C33. A page with an odd number is freed whose left neighbour is free and in the list of single
  pages, not as its first block, while the buddy of the two pages is in use. The two pages
  become one block in the list of order 1; the list of single pages, followed along its next
  pointers, leads past the neighbour and its number of blocks is one less. The previous pointer of
  the block behind the neighbour still leads to it. Counts are set to 0 for three pages.
\<close>
theorem free_page_joins_left:
  assumes "buddy_ok s R" and "R 0 = h # xs @ p # ys" and "even p" and "p + 4 \<le> NR_PAGES" and "pg_count (mem_map s p) = 0"
    and "buddy_of 1 p + 2 \<le> NR_PAGES" and "\<exists>u \<in> {buddy_of 1 p..<buddy_of 1 p + 2}. pg_count (mem_map s u) \<noteq> 0"
  shows "\<exists>t. do_free_pages (p + 1) 0 s = Some (4, t)
    \<and> free_area t ! 0 = \<lparr>free_list = Some h, nr_free = of_nat (length (h # xs @ ys))\<rparr>
    \<and> next_walk t (h # xs @ ys @ [h]) \<and> pg_prev (mem_map t (hd (ys @ [h]))) = Some p
    \<and> area_ring t 1 (ins_block p (R 1)) \<and> (\<forall>k \<in> {2..<MAX_ORDER}. area_ring t k (R k))
    \<and> (\<forall>q. pg_count (mem_map t q) = (if p < q \<and> q < p + 4 then 0 else pg_count (mem_map s q)))"
proof -
  have R: "length (free_area s) = MAX_ORDER" "\<And>k. k < MAX_ORDER \<Longrightarrow> area_ring s k (R k) \<and> distinct (R k) \<and> (\<forall>q \<in> set (R k). q < NR_PAGES)"
    "\<And>j k. j < MAX_ORDER \<Longrightarrow> k < MAX_ORDER \<Longrightarrow> j \<noteq> k \<Longrightarrow> set (R j) \<inter> set (R k) = {}"
    using assms(1) by (auto simp: buddy_ok_def)
  have ring: "page_chain (mem_map s) h (xs @ p # ys) h" "distinct (h # xs @ p # ys)"
    using R(2) [of 0] assms(2) by (auto simp: area_ring_def)
  have off: "q \<notin> set (R k)" if "q \<in> set (R 0)" "k \<noteq> 0" "k < MAX_ORDER" for q k using R(3) [of 0 k] that by auto
  have l: "last (h # xs) \<in> set (R 0)" "p \<in> set (R 0)" using assms(2) by auto
  obtain s1 where s1: "free_loop 0 (Suc p) (Suc p) 0 s = Some (1, p, 2, s1)" "same_counts s s1"
    "free_area s1 = (free_area s)[0 := \<lparr>free_list = Some h, nr_free = of_nat (length (R 0)) - 1\<rparr>]"
    "\<And>q. pg_prev (mem_map s1 q) = pg_prev (mem_map s q)"
    "\<And>q. pg_next (mem_map s1 q) = (if q = last (h # xs) then Some (hd (ys @ [h])) else pg_next (mem_map s q))"
    using free_loop_joins_left [OF assms(1-3) _ assms(5-7)] assms(4) by (auto simp del: last.simps)
  have keep: "area_ring s1 k (R k)" if "k \<noteq> 0" "k < MAX_ORDER" for k
    by (rule area_ring_cong) (use R(2) that s1(3-5) off [OF l(1) that] in \<open>auto simp del: last.simps\<close>)
  have p: "p \<notin> set (R 1)" "p < NR_PAGES" using off [OF l(2)] assms(4) by simp_all
  have len: "length (R 1) < 8192" using blocks_fit [of "R 1" NR_PAGES p] R(2) [of 1] p by simp
  obtain s2 where s2: "add_free_area p 1 s1 = Some s2" "area_ring s2 1 (ins_block p (R 1))"
     "\<And>j. j \<noteq> 1 \<Longrightarrow> free_area s2 ! j = free_area s1 ! j"
     "\<And>i. i \<notin> insert p (set (R 1)) \<Longrightarrow> mem_map s2 i = mem_map s1 i" "same_counts s1 s2"
    using add_ring [of s1 1 "R 1" p] R(1) R(2) [of 1] keep [of 1] s1(3) p len by auto
  obtain t where t: "mark_rest 3 (p + 1) 1 s2 = Some t" "same_links s2 t"
     "\<And>q. pg_count (mem_map t q) = (if q \<in> {p + 1..<p + 4} then 0 else pg_count (mem_map s2 q))"
    using mark_rest_ok [of "p + 1" 3 1 s2] assms(4) by (auto simp: add.assoc)
  have m: "pg_next (mem_map t q) = pg_next (mem_map s1 q) \<and> pg_prev (mem_map t q) = pg_prev (mem_map s1 q)"
    if "q \<notin> insert p (set (R 1))" for q
    using t(2) s2(4) that by (simp add: same_links_def)
  have "pg_prev (mem_map t q) = pg_prev (mem_map s q)
      \<and> pg_next (mem_map t q) = (if q = last (h # xs) then Some (hd (ys @ [h])) else pg_next (mem_map s q))"
    if "q \<in> set (h # xs @ ys)" for q
  proof -
    have "q \<notin> insert p (set (R 1))" using off [of q 1] ring(2) assms(2) that by auto
    then show ?thesis using m [of q] s1(4,5) by simp
  qed
  note walk = unlink_walk [OF ring this]
  have "do_free_pages (p + 1) 0 s = Some (4, t)"
    using s1(1) s2(1) t(1) assms(4) by (simp add: do_free_pages_def Let_def del: mark_rest.simps)
  moreover have "free_area t ! 0 = \<lparr>free_list = Some h, nr_free = of_nat (length (h # xs @ ys))\<rparr>"
    using t(2) s2(3) [of 0] s1(3) R(1) assms(2) by (simp add: same_links_def)
  moreover have "area_ring t 1 (ins_block p (R 1))"
    by (rule area_ring_cong [OF s2(2)]) (use t(2) in \<open>auto simp: same_links_def\<close>)
  moreover have "area_ring t k (R k)" if k: "k \<in> {2..<MAX_ORDER}" for k
  proof (rule area_ring_cong [OF keep [of k]])
    fix i assume "i \<in> set (R k)"
    then have "i \<notin> insert p (set (R 1))" using R(3) [of 1 k] off [OF l(2), of k] k by auto
    then show "pg_next (mem_map t i) = pg_next (mem_map s1 i) \<and> pg_prev (mem_map t i) = pg_prev (mem_map s1 i)" by (rule m)
  qed (use k t(2) s2(3) in \<open>auto simp: same_links_def\<close>)
  moreover have "pg_count (mem_map t q) = (if p < q \<and> q < p + 4 then 0 else pg_count (mem_map s q))" for q
    using t(3) s2(5) s1(2) by (auto simp: same_counts_def)
  ultimately show ?thesis using walk by (intro exI [of _ t] conjI ballI allI) assumption+
qed


text \<open>
  A page with an even number whose right neighbour is free and in the list of single pages, while
  the buddy of the two pages is in use: the two pages become one block in the list of order 1,
  but the neighbour is not taken off the list of single pages. It is in both.
\<close>
theorem free_page_keeps_right:
  assumes "buddy_ok s R" and "even i" and "i + 4 \<le> NR_PAGES" and "i + 1 \<in> set (R 0)" and "\<forall>k < MAX_ORDER. i \<notin> set (R k)"
    and "pg_count (mem_map s (i + 1)) = 0" and "buddy_of 1 i + 2 \<le> NR_PAGES"
    and "\<exists>u \<in> {buddy_of 1 i..<buddy_of 1 i + 2}. pg_count (mem_map s u) \<noteq> 0"
  shows "\<exists>t. do_free_pages i 0 s = Some (4, t) \<and> buddy_ok t (R(1 := ins_block i (R 1)))
    \<and> i + 1 \<in> set ((R(1 := ins_block i (R 1))) 0) \<and> i \<in> set ((R(1 := ins_block i (R 1))) 1)"
proof -
  have b: "block_of 1 i = i" "buddy_of 1 i = buddy_of 1 i" using assms(2) by (auto simp: block_of_def)
  have "\<exists>t. free_loop 0 (i div 2 ^ 0) (block_of 0 i) 0 s = Some (1, block_of 1 i, if (1::nat) < 8 then 2 ^ 1 else if (0::nat) < 8 then 128 else 0, t)
      \<and> same_links s t \<and> same_counts s t"
    by (rule free_loop_merges [OF assms(1)]) (use assms b in \<open>auto simp: less_Suc_eq\<close>)
  then obtain s1 where s1: "free_loop 0 i i 0 s = Some (1, i, 2, s1)" "same_links s s1"
    using b by (auto simp: block_of_def)
  obtain s2 where s2: "add_free_area i 1 s1 = Some s2" "buddy_ok s2 (R(1 := ins_block i (R 1)))"
    using buddy_add [OF buddy_ok_same_links [OF assms(1) s1(2)], of 1 i] assms(3,5) by auto
  obtain t where t: "mark_rest 3 (i + 1) 1 s2 = Some t" "same_links s2 t"
    using mark_rest_ok [of "i + 1" 3 1 s2] assms(3) by auto
  have "do_free_pages i 0 s = Some (4, t)"
    using s1(1) s2(1) t(1) assms(3) by (simp add: do_free_pages_def Let_def del: mark_rest.simps)
  then show ?thesis using buddy_ok_same_links [OF s2(2) t(2)] assms(4) by simp
qed

text \<open>
  \<open>__free_pages___\<close> of a single page \<open>i\<close> merges upwards as long as the buddy block is
  free: when the rest of the aligned block of order \<open>k\<close> around \<open>i\<close> is free and the buddy of
  that block is not (or \<open>k\<close> is the highest order), that block is added to the free list of
  order \<open>k\<close>. No block of a free list lies in it, as when the page allocator is set up. The
  pages behind its first page, up to the returned count, get the count 0.
\<close>
theorem free_pages_coalesces:
  assumes "buddy_ok s R" and "k \<le> 8" and "i < NR_PAGES" and "block_of k i + merged_count k \<le> NR_PAGES"
    and "\<forall>q \<in> {block_of k i..<block_of k i + 2 ^ k}. q \<noteq> i \<longrightarrow> pg_count (mem_map s q) = 0"
    and "\<forall>l < MAX_ORDER. \<forall>b \<in> set (R l). b \<notin> {block_of k i..<block_of k i + 2 ^ k}"
    and "k < 8 \<longrightarrow> buddy_of k i + 2 ^ k \<le> NR_PAGES
           \<and> (\<exists>u \<in> {buddy_of k i..<buddy_of k i + 2 ^ k}. pg_count (mem_map s u) \<noteq> 0)"
  shows "\<exists>t. do_free_pages i 0 s = Some (merged_count k, t)
    \<and> buddy_ok t (R(k := ins_block (block_of k i) (R k)))
    \<and> (\<forall>q. pg_count (mem_map t q) = (if block_of k i < q \<and> q < block_of k i + merged_count k
                                      then 0 else pg_count (mem_map s q)))"
  using assms by (rule do_free_pages_merges)

text \<open>
  Freeing a page with an even number whose right neighbour is in use confuses the two:
  the count of the freed page stays, and the count of the neighbour becomes 0, so that the
  next merge takes the neighbour for free.
\<close>
theorem free_page_clears_neighbour:
  assumes "buddy_ok s R" and "even i" and "i + 2 \<le> NR_PAGES" and "\<forall>l < MAX_ORDER. i \<notin> set (R l)"
    and "pg_count (mem_map s (i + 1)) \<noteq> 0"
  shows "\<exists>t. do_free_pages i 0 s = Some (2, t) \<and> pg_count (mem_map t (i + 1)) = 0
           \<and> pg_count (mem_map t i) = pg_count (mem_map s i)"
proof -
  have b: "block_of 0 i = i" "buddy_of 0 i = i + 1" "merged_count 0 = 2"
    using assms(2) by (simp_all add: block_of_def buddy_of_def merged_count_def)
  have "\<exists>t. do_free_pages i 0 s = Some (merged_count 0, t)
    \<and> buddy_ok t (R(0 := ins_block (block_of 0 i) (R 0)))
    \<and> (\<forall>q. pg_count (mem_map t q) = (if block_of 0 i < q \<and> q < block_of 0 i + merged_count 0
                                      then 0 else pg_count (mem_map s q)))"
    by (rule do_free_pages_merges [OF assms(1)]) (use assms(3-5) b in auto)
  then show ?thesis unfolding b by (elim exE conjE) simp
qed

text \<open>
  Freeing a block of order 2 to 7 in the managed memory reads page descriptors outside
  \<open>mem_map\<close>: the index of the neighbour block is computed from the page number, not from
  the number of the block.
\<close>
theorem free_block_out_of_range:
  assumes "2 \<le> ord" and "ord < 8" and "2052 \<le> i" and "i < NR_PAGES"
  shows "do_free_pages i ord s = None"
proof -
  let ?n = "if odd i then i - 1 else i + 1"
  have "(4::nat) \<le> 2 ^ ord" using power_increasing [OF assms(1), of "2::nat"] by simp
  then obtain m where m: "(2::nat) ^ ord = Suc m" "(4::nat) \<le> 2 ^ ord" by (cases "(2::nat) ^ ord") auto
  have "2052 \<le> ?n" using assms(3) by (auto elim: oddE)
  then have "2052 * 4 \<le> ?n * 2 ^ ord" using m(2) by (intro mult_le_mono)
  then have "mark_neighbours (2 ^ ord) (?n * 2 ^ ord) ord s = None"
    unfolding m(1) by (simp add: page_at_def)
  then show ?thesis
    using assms(2,4) by (simp add: do_free_pages_def free_loop.simps Let_def)
qed

text \<open>
  Allocating a block of an order that has free blocks: the block behind the first one is
  returned (the first one when it is alone), its pages get the count 1 and no other page's
  count changes. The free list loses two blocks instead of one: the successor of the first
  block becomes the block after the next one.
\<close>
theorem alloc_exact_order:
  assumes "buddy_ok s R" and "k < MAX_ORDER" and "R k = h # xs"
    and "hd (xs @ [h]) + 2 ^ k \<le> NR_PAGES"
  shows "\<exists>t. do_alloc_pages k s = Some (Some (hd (xs @ [h])), t)
    \<and> nr_free (free_area t ! k) = of_nat (length xs)
    \<and> (\<forall>q. pg_count (mem_map t q)
          = (if q \<in> {hd (xs @ [h])..<hd (xs @ [h]) + 2 ^ k} then 1 else pg_count (mem_map s q)))
    \<and> free_list (free_area t ! k) = Some h
    \<and> pg_next (mem_map t h) = Some (next_after_take h xs)"
proof -
  from alloc_exact_links [OF assms] obtain t c where
    "do_alloc_pages k s = Some (Some (hd (xs @ [h])), t)"
    "free_area t ! k = \<lparr>free_list = Some h, nr_free = of_nat (length xs)\<rparr>"
    "\<forall>q. pg_count (mem_map t q)
          = (if q \<in> {hd (xs @ [h])..<hd (xs @ [h]) + 2 ^ k} then 1 else pg_count (mem_map s q))"
    "\<forall>q. pg_next (mem_map t q) = (if q = h then Some (next_after_take h xs) else pg_next (mem_map s q))"
    by blast
  then show ?thesis by (intro exI [of _ t]) simp
qed

text \<open>
  A free list of two blocks hands out the same block twice: both of two successive
  allocations return it.
\<close>
theorem alloc_same_block_twice:
  assumes "buddy_ok s R" and "k < MAX_ORDER" and "R k = [h, a]" and "a + 2 ^ k \<le> NR_PAGES"
  shows "\<exists>t u. do_alloc_pages k s = Some (Some a, t) \<and> do_alloc_pages k t = Some (Some a, u)"
proof -
  have ha: "h \<noteq> a" "h < NR_PAGES" using assms(1-3) by (fastforce simp: buddy_ok_def)+
  from alloc_exact_links [OF assms(1-3)] assms(4) obtain t where
    t: "do_alloc_pages k s = Some (Some a, t)" "length (free_area t) = MAX_ORDER"
      "free_area t ! k = \<lparr>free_list = Some h, nr_free = 1\<rparr>" "pg_next (mem_map t h) = Some a"
      "pg_prev (mem_map t a) = Some h" "pg_next (mem_map t a) = pg_next (mem_map s a)"
    using ha(1) by (auto split: if_splits)
  have "area_ring s k [h, a]" using assms(1-3) by (auto simp: buddy_ok_def dest: spec [of _ k])
  then have "pg_next (mem_map t a) = Some h" using t(6) by (simp add: area_ring_def)
  from take_block_exact [OF t(2) assms(2) t(3) ha(2) t(4) assms(4) t(5) this ha(2) t(4)] obtain u where
    "take_block k k t = Some (a, u)" by blast
  then have "do_alloc_pages k t = Some (Some a, u)"
    using alloc_same_order [of k t, OF assms(2) t(2)] t(3) by simp
  with t(1) show ?thesis by blast
qed

text \<open>
  Without a free block of the wanted or a higher order \<open>__alloc_pages\<close> returns the null
  pointer and changes nothing.
\<close>
theorem alloc_no_memory:
  assumes "buddy_ok s R" and "\<forall>k. ord \<le> k \<and> k < MAX_ORDER \<longrightarrow> R k = []"
  shows "do_alloc_pages ord s = Some (None, s)"
proof -
  have z: "nr_free (free_area s ! j) = 0" "j < length (free_area s)" if "ord \<le> j" "j < MAX_ORDER" for j
    using nr_free_blocks(2) [OF assms(1) that(2)] assms that by (auto simp: buddy_ok_def)
  have "alloc_loop ord j s = Some (None, s)" if "ord \<le> j" for j
    using that
  proof (induction "MAX_ORDER - j" arbitrary: j)
    case 0
    then show ?case by (subst alloc_loop.simps) simp
  next
    case (Suc d)
    then have "alloc_loop ord (j + 1) s = Some (None, s)" "j < MAX_ORDER" by simp_all
    then show ?case using z [OF Suc.prems] by (subst alloc_loop.simps) simp
  qed
  then show ?thesis by (simp add: do_alloc_pages_def)
qed

subsection \<open>Witnesses\<close>

definition empty_buddy :: "u16 \<Rightarrow> buddy" where
  "empty_buddy c = \<lparr>mem_map = (\<lambda>_. \<lparr>pg_next = None, pg_prev = None, pg_flags = 0, pg_count = c, pg_order = 9\<rparr>),
     free_area = replicate MAX_ORDER \<lparr>free_list = None, nr_free = 0\<rparr>\<rparr>"

definition two_blocks :: buddy where
  "two_blocks = (empty_buddy 0)\<lparr>
     mem_map := (mem_map (empty_buddy 0))(
       4096 := \<lparr>pg_next = Some 4098, pg_prev = Some 4098, pg_flags = 0, pg_count = 0, pg_order = 0\<rparr>,
       4098 := \<lparr>pg_next = Some 4096, pg_prev = Some 4096, pg_flags = 0, pg_count = 0, pg_order = 0\<rparr>),
     free_area := \<lparr>free_list = Some 4096, nr_free = 2\<rparr> # replicate 8 \<lparr>free_list = None, nr_free = 0\<rparr>\<rparr>"

lemma empty_buddy_ok: "buddy_ok (empty_buddy c) (\<lambda>_. [])"
  by (simp add: buddy_ok_def empty_buddy_def area_ring_def)

lemma two_blocks_ok: "buddy_ok two_blocks ((\<lambda>_. [])(0 := [4096, 4098]))"
  by (auto simp: buddy_ok_def two_blocks_def area_ring_def nth_Cons')

theorem free_page_joins_left_witness:
  "\<exists>t. do_free_pages (4098 + 1) 0 (two_blocks\<lparr>mem_map := (mem_map two_blocks)(4097 := (mem_map two_blocks 4097)\<lparr>pg_count := 1\<rparr>)\<rparr>) = Some (4, t)
    \<and> free_area t ! 0 = \<lparr>free_list = Some 4096, nr_free = 1\<rparr> \<and> pg_next (mem_map t 4096) = Some 4096
    \<and> pg_prev (mem_map t 4096) = Some 4098 \<and> area_ring t 1 [4098]"
proof -
  let ?s = "two_blocks\<lparr>mem_map := (mem_map two_blocks)(4097 := (mem_map two_blocks 4097)\<lparr>pg_count := 1\<rparr>)\<rparr>"
  have "buddy_ok ?s ((\<lambda>_. [])(0 := [4096, 4098]))"
    by (rule buddy_ok_same_links [OF two_blocks_ok]) (simp add: same_links_def)
  moreover have b: "buddy_of 1 4098 = 4096" by (simp add: buddy_of_def)
  have "4097 \<in> {buddy_of 1 4098..<buddy_of 1 4098 + 2} \<and> pg_count (mem_map ?s 4097) \<noteq> 0" unfolding b by simp
  then have "\<exists>u \<in> {buddy_of 1 4098..<buddy_of 1 4098 + 2}. pg_count (mem_map ?s u) \<noteq> 0" by blast
  moreover have "pg_count (mem_map ?s 4098) = 0" by (simp add: two_blocks_def)
  ultimately obtain t where "do_free_pages (4098 + 1) 0 ?s = Some (4, t)"
    "free_area t ! 0 = \<lparr>free_list = Some 4096, nr_free = 1\<rparr>"
    "next_walk t [4096, 4096]" "pg_prev (mem_map t 4096) = Some 4098"
    "area_ring t 1 [4098]"
    using free_page_joins_left [of ?s "(\<lambda>_. [])(0 := [4096, 4098])" 4096 "[]" 4098 "[]"] b by auto
  then show ?thesis by (intro exI [of _ t]) (simp add: next_walk_def)
qed

theorem mem_init_partition_witness:
  "\<exists>t R. mem_init_pages 0x804000 0x2000000 (empty_buddy 0) = Some t \<and> buddy_ok t R
     \<and> covered R = {2052..<8192} \<and> (\<Sum>k<MAX_ORDER. length (R k) * 2 ^ k) = 8192 - 2052"
  by (rule mem_init_partition) (simp add: empty_buddy_def)

theorem expand_splits_witness:
  "\<exists>t. expand 0 3 2056 (empty_buddy 0) = Some t \<and> buddy_ok t (split_blocks 0 3 2056 (\<lambda>_. []))
     \<and> covered (split_blocks 0 3 2056 (\<lambda>_. [])) = covered (\<lambda>_. []) \<union> {2056 + 2 ^ 0 ..< 2056 + 2 ^ 3}
     \<and> same_counts (empty_buddy 0) t"
  by (rule expand_splits) (simp_all add: empty_buddy_ok)

theorem free_pages_coalesces_witness:
  "\<exists>t. do_free_pages 2561 0 (empty_buddy 0) = Some (merged_count 8, t)
    \<and> buddy_ok t ((\<lambda>_. [])(8 := ins_block (block_of 8 2561) []))
    \<and> (\<forall>q. pg_count (mem_map t q) = (if block_of 8 2561 < q \<and> q < block_of 8 2561 + merged_count 8
                                      then 0 else pg_count (mem_map (empty_buddy 0) q)))"
  by (rule free_pages_coalesces [OF empty_buddy_ok])
    (simp_all add: block_of_def merged_count_def empty_buddy_def)

theorem free_page_clears_neighbour_witness:
  "\<exists>t. do_free_pages 4096 0 (empty_buddy 1) = Some (2, t) \<and> pg_count (mem_map t (4096 + 1)) = 0
     \<and> pg_count (mem_map t 4096) = pg_count (mem_map (empty_buddy 1) 4096)"
  by (rule free_page_clears_neighbour [OF empty_buddy_ok]) (simp_all add: empty_buddy_def)

theorem free_block_out_of_range_witness: "do_free_pages 2052 2 (empty_buddy 0) = None"
  by (rule free_block_out_of_range) simp_all

theorem alloc_exact_order_witness:
  "\<exists>t. do_alloc_pages 0 two_blocks = Some (Some (hd ([4098] @ [4096])), t)
    \<and> nr_free (free_area t ! 0) = of_nat (length [4098::nat])
    \<and> (\<forall>q. pg_count (mem_map t q) = (if q \<in> {hd ([4098] @ [4096])..<hd ([4098] @ [4096]) + 2 ^ 0} then 1
                                      else pg_count (mem_map two_blocks q)))
    \<and> free_list (free_area t ! 0) = Some 4096
    \<and> pg_next (mem_map t 4096) = Some (next_after_take 4096 [4098])"
  by (rule alloc_exact_order [OF two_blocks_ok]) simp_all

theorem alloc_same_block_twice_witness:
  "\<exists>t u. do_alloc_pages 0 two_blocks = Some (Some 4098, t) \<and> do_alloc_pages 0 t = Some (Some 4098, u)"
  by (rule alloc_same_block_twice [OF two_blocks_ok]) simp_all

theorem alloc_no_memory_witness: "do_alloc_pages 0 (empty_buddy 1) = Some (None, empty_buddy 1)"
  by (rule alloc_no_memory [OF empty_buddy_ok]) simp

end
