(* ===== verification/Slab.thy ===== *)
theory Slab
  imports Buddy "HOL-Library.Signed_Division"
begin

unbundle bit_operations_syntax

section \<open>Object caches\<close>

text \<open>
  Models mm/slab.c with the structures of include/mm/mm.h and the page macros of
  include/mm/pagetable.h. A slab and a cache are found by their address: \<open>slab_at\<close> and
  \<open>cache_at\<close> are the memory seen as slab descriptors and as cache descriptors. The array of
  numbers behind a slab descriptor is its \<open>bufctl\<close>, which has an entry for each object.
  A page descriptor of a slab points to the slab and the cache; since its fields are
  pointers to pages, an address \<open>a\<close> in them is the number \<open>NR_PAGES + a\<close>, which is no page.

  Shown: a cache hands out the objects of its first slab one after the other and then only
  null pointers; the objects of a slab fit in its pages; which size of the general caches
  \<open>kmalloc\<close> takes; that freeing an object breaks the free list; and that destroying a cache
  gives nothing back.
\<close>

subsection \<open>Data\<close>

abbreviation PG_SLAB :: u32 where "PG_SLAB \<equiv> 0x40"
abbreviation SLAB_END :: u16 where "SLAB_END \<equiv> 65535"
abbreviation SLAB_BUF_SIZE :: u32 where "SLAB_BUF_SIZE \<equiv> 2"
abbreviation SLAB_SLAB_STRUCT_SIZE :: u32 where "SLAB_SLAB_STRUCT_SIZE \<equiv> 16"
abbreviation MAX_SLAB_ORDER :: u16 where "MAX_SLAB_ORDER \<equiv> 4"
abbreviation WORD_BYTES :: u32 where "WORD_BYTES \<equiv> 4"
abbreviation MALLOC_COUNT :: nat where "MALLOC_COUNT \<equiv> 6"
abbreviation PAGE_SIZE :: u32 where "PAGE_SIZE \<equiv> 4096"

record slab_struct =
  sl_next :: "u32 option"
  sl_prev :: "u32 option"
  obj_mem :: u32
  free_idx :: u16
  free_num :: u16
  bufctl :: "u16 list"

record kmem_cache_struct =
  slabs_partial :: "u32 option"
  slabs_full :: "u32 option"
  cache_next :: "u32 option"
  slabp_cache :: "u32 option"
  cache_name :: string
  obj_size :: u16
  slab_obj_num :: u16
  slab_size :: u16
  slab_order :: u16
  left_over :: u32

record cache_sizes_struct =
  cs_size :: u32
  cs_name :: string
  cs_cachep :: "u32 option"

type_synonym slab_memory = "u32 \<Rightarrow> slab_struct"

text \<open>\<open>cache_cache\<close> is the address of the static cache of that name; \<open>mm_cachep\<close> and the
  following are the pointers to the caches of the kernel's own structures.\<close>

record slabs =
  pages :: buddy
  slab_at :: slab_memory
  cache_at :: "u32 \<Rightarrow> kmem_cache_struct"
  cache_cache :: u32
  malloc_sizes :: "cache_sizes_struct list"
  mm_cachep :: "u32 option"
  vm_area_cachep :: "u32 option"
  task_struct_cachep :: "u32 option"
  filp_cachep :: "u32 option"
  inode_cachep :: "u32 option"

definition upd_slab :: "u32 \<Rightarrow> (slab_struct \<Rightarrow> slab_struct) \<Rightarrow> slabs \<Rightarrow> slabs" where
  "upd_slab a f s = s\<lparr>slab_at := (slab_at s)(a := f (slab_at s a))\<rparr>"

definition upd_cache :: "u32 \<Rightarrow> (kmem_cache_struct \<Rightarrow> kmem_cache_struct) \<Rightarrow> slabs \<Rightarrow> slabs" where
  "upd_cache a f s = s\<lparr>cache_at := (cache_at s)(a := f (cache_at s a))\<rparr>"

text \<open>An address as a pointer in a page descriptor.\<close>

definition to_page_ptr :: "u32 \<Rightarrow> nat option" where
  "to_page_ptr a = Some (NR_PAGES + unat a)"

definition of_page_ptr :: "nat option \<Rightarrow> u32 option" where
  "of_page_ptr p = (case p of None \<Rightarrow> None | Some n \<Rightarrow> if NR_PAGES \<le> n then Some (of_nat (n - NR_PAGES)) else None)"

lemma of_to_page_ptr [simp]: "of_page_ptr (to_page_ptr a) = Some a"
  by (simp add: of_page_ptr_def to_page_ptr_def)

definition page_address :: "nat \<Rightarrow> u32" where
  "page_address p = push_bit PAGE_SHIFT (of_nat p)"

subsection \<open>Lists of slabs\<close>

text \<open>\<open>head\<close> is the value of the head pointer, which each operation returns anew.\<close>

definition slab_add_list :: "u32 option \<Rightarrow> u32 \<Rightarrow> slab_memory \<Rightarrow> (u32 option \<times> slab_memory) option" where
  "slab_add_list head slabp m =
     (case head of
        None \<Rightarrow> Some (Some slabp, m(slabp := (m slabp)\<lparr>sl_next := Some slabp, sl_prev := Some slabp\<rparr>))
      | Some h \<Rightarrow> do {
          n \<leftarrow> sl_next (m h);
          let m = m(n := (m n)\<lparr>sl_prev := Some slabp\<rparr>);
          let m = m(slabp := (m slabp)\<lparr>sl_next := sl_next (m h)\<rparr>);
          let m = m(slabp := (m slabp)\<lparr>sl_prev := Some h\<rparr>);
          Some (head, m(h := (m h)\<lparr>sl_next := Some slabp\<rparr>)) })"

definition slab_del_head :: "u32 option \<Rightarrow> slab_memory \<Rightarrow> (u32 option \<times> slab_memory) option" where
  "slab_del_head head m = do {
     h \<leftarrow> head;
     n \<leftarrow> sl_next (m h);
     let m = m(n := (m n)\<lparr>sl_prev := sl_prev (m h)\<rparr>);
     p \<leftarrow> sl_prev (m h);
     let m = m(p := (m p)\<lparr>sl_next := sl_next (m h)\<rparr>);
     Some (sl_next (m h), m) }"

text \<open>The test compares the address of the head pointer, \<open>head_at\<close>, with the slab.\<close>

definition slab_del_list :: "u32 \<Rightarrow> u32 option \<Rightarrow> u32 \<Rightarrow> slab_memory \<Rightarrow> (u32 option \<times> slab_memory) option" where
  "slab_del_list head_at head slabp m =
     (if head_at = slabp then slab_del_head head m
      else do {
        n \<leftarrow> sl_next (m slabp);
        let m = m(n := (m n)\<lparr>sl_prev := sl_prev (m slabp)\<rparr>);
        p \<leftarrow> sl_prev (m slabp);
        Some (head, m(p := (m p)\<lparr>sl_next := sl_next (m slabp)\<rparr>)) })"

definition slab_move ::
  "u32 option \<Rightarrow> u32 option \<Rightarrow> slab_memory \<Rightarrow> (u32 option \<times> u32 option \<times> slab_memory) option" where
  "slab_move from to m = do {
     (from, m) \<leftarrow> slab_del_head from m;
     slabp \<leftarrow> from;
     (to, m) \<leftarrow> slab_add_list to slabp m;
     Some (from, to, m) }"

subsection \<open>Allocating objects\<close>

fun mark_slab_pages :: "nat \<Rightarrow> nat \<Rightarrow> u32 \<Rightarrow> u32 \<Rightarrow> buddy \<Rightarrow> buddy option" where
  "mark_slab_pages 0 p slabp cachep s = Some s"
| "mark_slab_pages (Suc page_count) p slabp cachep s = do {
     s \<leftarrow> upd_page p (\<lambda>g. g\<lparr>pg_flags := pg_flags g OR PG_SLAB, pg_prev := to_page_ptr slabp, pg_next := to_page_ptr cachep\<rparr>) s;
     mark_slab_pages page_count (p + 1) slabp cachep s }"

text \<open>The part of \<open>slab_create\<close> after the place of the descriptor is known. Without objects the
  last assignment to the array is in front of it.\<close>

definition slab_setup :: "u32 \<Rightarrow> nat \<Rightarrow> u32 \<Rightarrow> u32 \<Rightarrow> slabs \<Rightarrow> slabs option" where
  "slab_setup cachep p slabp mem s = do {
     let c = cache_at s cachep;
     let s = upd_slab slabp (\<lambda>l. l\<lparr>obj_mem := mem\<rparr>) s;
     b \<leftarrow> mark_slab_pages (2 ^ unat (slab_order c)) p slabp cachep (pages s);
     let n = unat (slab_obj_num c);
     ctl \<leftarrow> (if n = 0 then None else put_cell (n - 1) SLAB_END (map (\<lambda>i. of_nat (i + 1)) [0..<n]));
     let s = upd_slab slabp (\<lambda>l. l\<lparr>free_num := slab_obj_num c, bufctl := ctl, free_idx := 0\<rparr>) (s\<lparr>pages := b\<rparr>);
     (hd, m) \<leftarrow> slab_add_list (slabs_partial c) slabp (slab_at s);
     Some (upd_cache cachep (\<lambda>c. c\<lparr>slabs_partial := hd\<rparr>) (s\<lparr>slab_at := m\<rparr>)) }"

text \<open>The part of \<open>kmem_object_alloc\<close> after a slab has been created where there was none.\<close>

definition take_object :: "u32 \<Rightarrow> slabs \<Rightarrow> (u32 option \<times> slabs) option" where
  "take_object cachep s = do {
     slabp \<leftarrow> slabs_partial (cache_at s cachep);
     let s = upd_cache cachep (\<lambda>c. c\<lparr>slabs_partial := sl_next (slab_at s slabp)\<rparr>) s;
     let l = slab_at s slabp;
     (obj_addr, s) \<leftarrow> (if free_num l \<noteq> 0
       then do {
         nxt \<leftarrow> cell (bufctl l) (unat (free_idx l));
         Some (Some (obj_mem l + ucast (free_idx l) * ucast (obj_size (cache_at s cachep))),
           upd_slab slabp (\<lambda>l. l\<lparr>free_num := free_num l - 1, free_idx := nxt\<rparr>) s) }
       else Some (None, s));
     s \<leftarrow> (if free_idx (slab_at s slabp) = SLAB_END
       then do {
         let c = cache_at s cachep;
         (part, full, m) \<leftarrow> slab_move (slabs_partial c) (slabs_full c) (slab_at s);
         Some (upd_cache cachep (\<lambda>c. c\<lparr>slabs_partial := part, slabs_full := full\<rparr>) (s\<lparr>slab_at := m\<rparr>)) }
       else Some s);
     Some (obj_addr, s) }"

text \<open>\<open>slab_create\<close> and \<open>kmem_object_alloc\<close> call each other when the descriptors of the slabs of
  a cache are objects themselves. A chain of such caches need not end.\<close>

partial_function (option) kmem_object_alloc :: "u32 \<Rightarrow> slabs \<Rightarrow> (u32 option \<times> slabs) option" where
  "kmem_object_alloc cachep s =
     (case slabs_partial (cache_at s cachep) of
        Some _ \<Rightarrow> take_object cachep s
      | None \<Rightarrow> do {
          (r, b) \<leftarrow> alloc_pages (slab_order (cache_at s cachep)) (pages s);
          p \<leftarrow> r;
          let s = s\<lparr>pages := b\<rparr>;
          s \<leftarrow> (case slabp_cache (cache_at s cachep) of
              Some c \<Rightarrow> do {
                (o', s) \<leftarrow> kmem_object_alloc c s;
                slabp \<leftarrow> o';
                slab_setup cachep p slabp (page_address p) s }
            | None \<Rightarrow> slab_setup cachep p (page_address p) (page_address p + ucast (slab_size (cache_at s cachep))) s);
          take_object cachep s })"

definition slab_create :: "u32 \<Rightarrow> slabs \<Rightarrow> slabs option" where
  "slab_create cachep s = do {
     (r, b) \<leftarrow> alloc_pages (slab_order (cache_at s cachep)) (pages s);
     p \<leftarrow> r;
     let s = s\<lparr>pages := b\<rparr>;
     case slabp_cache (cache_at s cachep) of
       Some c \<Rightarrow> do {
         (o', s) \<leftarrow> kmem_object_alloc c s;
         slabp \<leftarrow> o';
         slab_setup cachep p slabp (page_address p) s }
     | None \<Rightarrow> slab_setup cachep p (page_address p) (page_address p + ucast (slab_size (cache_at s cachep))) s }"

lemma kmem_object_alloc_eq:
  "kmem_object_alloc cachep s = do {
     s \<leftarrow> (if slabs_partial (cache_at s cachep) = None then slab_create cachep s else Some s);
     take_object cachep s }"
  by (subst kmem_object_alloc.simps)
     (simp add: slab_create_def Let_def split: option.split bind_splits prod.split)

subsection \<open>Freeing objects and slabs\<close>

definition kmem_object_free :: "u32 \<Rightarrow> u32 \<Rightarrow> slabs \<Rightarrow> slabs option" where
  "kmem_object_free cachep objp s = do {
     p \<leftarrow> page_at (unat (drop_bit PAGE_SHIFT objp)) (pages s);
     slabp \<leftarrow> of_page_ptr (pg_prev p);
     let c = cache_at s cachep;
     let l = slab_at s slabp;
     objnr \<leftarrow> (if obj_size c = 0 then None
       else Some (of_int (sint (objp - obj_mem l) sdiv int (unat (obj_size c)))));
     ctl \<leftarrow> put_cell (unat (free_idx l)) objnr (bufctl l);
     let s = upd_slab slabp (\<lambda>l. l\<lparr>bufctl := ctl, free_idx := objnr\<rparr>) s;
     s \<leftarrow> (if free_num (slab_at s slabp) = 0
       then do {
         (full, part, m) \<leftarrow> slab_move (slabs_full c) (slabs_partial c) (slab_at s);
         Some (upd_cache cachep (\<lambda>c. c\<lparr>slabs_full := full, slabs_partial := part\<rparr>) (s\<lparr>slab_at := m\<rparr>)) }
       else Some s);
     Some (upd_slab slabp (\<lambda>l. l\<lparr>free_num := free_num l + 1\<rparr>) s) }"

fun clear_slab_pages :: "nat \<Rightarrow> nat \<Rightarrow> buddy \<Rightarrow> buddy option" where
  "clear_slab_pages 0 p s = Some s"
| "clear_slab_pages (Suc i) p s = do {
     s \<leftarrow> upd_page p (\<lambda>g. g\<lparr>pg_flags := pg_flags g AND NOT PG_SLAB\<rparr>) s;
     clear_slab_pages i (p + 1) s }"

text \<open>\<open>p\<close> has been moved behind the slab's pages when they are freed. The head pointers of a
  cache are its first two words.\<close>

definition slab_destroy :: "u32 \<Rightarrow> u32 \<Rightarrow> slabs \<Rightarrow> slabs option" where
  "slab_destroy cachep slabp s = do {
     let c = cache_at s cachep;
     let vaddr = obj_mem (slab_at s slabp) - ucast (slab_size c);
     let p = unat (drop_bit PAGE_SHIFT vaddr);
     let i = 2 ^ unat (slab_order c);
     b \<leftarrow> clear_slab_pages i p (pages s);
     let s = s\<lparr>pages := b\<rparr>;
     s \<leftarrow> (if free_num (slab_at s slabp) = 0
       then do {
         (full, m) \<leftarrow> slab_del_list (cachep + 4) (slabs_full c) slabp (slab_at s);
         Some (upd_cache cachep (\<lambda>c. c\<lparr>slabs_full := full\<rparr>) (s\<lparr>slab_at := m\<rparr>)) }
       else do {
         (part, m) \<leftarrow> slab_del_list cachep (slabs_partial c) slabp (slab_at s);
         Some (upd_cache cachep (\<lambda>c. c\<lparr>slabs_partial := part\<rparr>) (s\<lparr>slab_at := m\<rparr>)) });
     (_, b) \<leftarrow> do_free_pages (p + i) (unat (slab_order c)) (pages s);
     Some (s\<lparr>pages := b\<rparr>) }"

partial_function (option) destroy_partial :: "u32 \<Rightarrow> u32 option \<Rightarrow> slabs \<Rightarrow> slabs option" where
  "destroy_partial cachep slabp s =
     (case slabp of
        None \<Rightarrow> Some s
      | Some a \<Rightarrow>
          if slabp \<noteq> slabs_partial (cache_at s cachep)
          then do { s \<leftarrow> slab_destroy cachep a s; destroy_partial cachep (sl_next (slab_at s a)) s }
          else Some s)"

partial_function (option) destroy_full :: "u32 \<Rightarrow> u32 option \<Rightarrow> slabs \<Rightarrow> slabs option" where
  "destroy_full cachep slabp s =
     (case slabp of
        None \<Rightarrow> Some s
      | Some a \<Rightarrow>
          if slabp \<noteq> slabs_full (cache_at s cachep)
          then do { s \<leftarrow> slab_destroy cachep a s; destroy_full cachep (sl_next (slab_at s a)) s }
          else Some s)"

definition kmem_cache_destroy :: "u32 \<Rightarrow> slabs \<Rightarrow> slabs option" where
  "kmem_cache_destroy cachep s = do {
     s \<leftarrow> (if slabs_partial (cache_at s cachep) \<noteq> None
       then do {
         s \<leftarrow> destroy_partial cachep (slabs_partial (cache_at s cachep)) s;
         Some (upd_cache cachep (\<lambda>c. c\<lparr>slabs_partial := None\<rparr>) s) }
       else Some s);
     s \<leftarrow> (if slabs_full (cache_at s cachep) \<noteq> None
       then do {
         s \<leftarrow> destroy_full cachep (slabs_full (cache_at s cachep)) s;
         Some (upd_cache cachep (\<lambda>c. c\<lparr>slabs_full := None\<rparr>) s) }
       else Some s);
     Some (upd_cache cachep (\<lambda>c. c\<lparr>slab_order := 0\<rparr>) s) }"

subsection \<open>Creating caches\<close>

text \<open>The list is the rest of \<open>malloc_sizes\<close> from the current entry on.\<close>

fun kmem_find_general_cachep :: "u32 \<Rightarrow> cache_sizes_struct list \<Rightarrow> u32 option option" where
  "kmem_find_general_cachep n [] = None"
| "kmem_find_general_cachep n (c # cs) =
     (if cs_size c = 0 then Some None
      else if n < cs_size c then kmem_find_general_cachep n cs
      else Some (cs_cachep c))"

partial_function (option) estimate_loop :: "u32 \<Rightarrow> u16 \<Rightarrow> u32 \<Rightarrow> u32 option" where
  "estimate_loop i sz page_size =
     (if i * ucast sz + (SLAB_SLAB_STRUCT_SIZE + i * SLAB_BUF_SIZE) \<le> page_size
      then estimate_loop (i + 1) sz page_size else Some i)"

definition cache_estimate :: "u32 \<Rightarrow> u16 \<Rightarrow> (u16 \<times> u32) option" where
  "cache_estimate order sz = do {
     let page_size = push_bit (unat order) PAGE_SIZE;
     i \<leftarrow> estimate_loop 1 sz page_size;
     let i = i - 1;
     Some (ucast i, page_size - (ucast sz * i + i * SLAB_BUF_SIZE + SLAB_SLAB_STRUCT_SIZE)) }"

text \<open>The bound on the order reads the order of \<open>cache_cache\<close>, here \<open>cc_order\<close>.\<close>

partial_function (option) order_loop :: "u16 \<Rightarrow> u16 \<Rightarrow> u32 \<Rightarrow> (u16 \<times> u16 \<times> u32) option" where
  "order_loop cc_order ord sz = do {
     (num, left) \<leftarrow> cache_estimate (ucast ord) (ucast sz);
     if num = 0 then order_loop cc_order (ord + 1) sz
     else if cc_order \<ge> MAX_SLAB_ORDER then Some (ord, num, left)
     else if left * 8 \<ge> push_bit (unat ord) PAGE_SIZE then order_loop cc_order (ord + 1) sz
     else Some (ord, num, left) }"

definition slab_layout :: "u16 \<Rightarrow> u32 \<Rightarrow> (u16 \<times> u16 \<times> u32) option" where
  "slab_layout cc_order sz =
     (if sz < PAGE_SIZE then do { (num, left) \<leftarrow> cache_estimate 0 (ucast sz); Some (0, num, left) }
      else order_loop cc_order 0 sz)"

definition word_align :: "u32 \<Rightarrow> u32" where
  "word_align n = (if n AND (WORD_BYTES - 1) \<noteq> 0 then (n + WORD_BYTES) AND NOT (WORD_BYTES - 1) else n)"

definition kmem_cache_create :: "string \<Rightarrow> u32 \<Rightarrow> slabs \<Rightarrow> (u32 \<times> slabs) option" where
  "kmem_cache_create nm sz s = do {
     let sz = word_align sz;
     (r, s) \<leftarrow> kmem_object_alloc (cache_cache s) s;
     cachep \<leftarrow> r;
     (ord, num, left) \<leftarrow> slab_layout (slab_order (cache_at s (cache_cache s))) sz;
     let ssz = word_align (ucast num * SLAB_BUF_SIZE + SLAB_SLAB_STRUCT_SIZE);
     left \<leftarrow> (if left < ssz
       then do { _ \<leftarrow> kmem_find_general_cachep ssz (malloc_sizes s); Some (left - ssz) }
       else Some left);
     Some (cachep, upd_cache cachep (\<lambda>_. \<lparr>slabs_partial = None, slabs_full = None, cache_next = None, slabp_cache = None,
       cache_name = nm, obj_size = ucast sz, slab_obj_num = num, slab_size = ucast ssz, slab_order = ord,
       left_over = left\<rparr>) s) }"

subsection \<open>General objects and set-up\<close>

fun kmalloc_in :: "u16 \<Rightarrow> cache_sizes_struct list \<Rightarrow> slabs \<Rightarrow> (u32 option \<times> slabs) option" where
  "kmalloc_in sz [] s = Some (None, s)"
| "kmalloc_in sz (c # cs) s =
     (if cs_size c < ucast sz then kmalloc_in sz cs s
      else do { cachep \<leftarrow> cs_cachep c; kmem_object_alloc cachep s })"

definition kmalloc :: "u16 \<Rightarrow> slabs \<Rightarrow> (u32 option \<times> slabs) option" where
  "kmalloc sz s = kmalloc_in sz (malloc_sizes s) s"

definition kfree :: "u32 \<Rightarrow> slabs \<Rightarrow> slabs option" where
  "kfree objp s = do {
     p \<leftarrow> page_at (unat (drop_bit PAGE_SHIFT objp)) (pages s);
     cache \<leftarrow> of_page_ptr (pg_next p);
     kmem_object_free cache objp s }"

abbreviation sizeof_kmem_cache :: u16 where "sizeof_kmem_cache \<equiv> 32"
abbreviation sizeof_mm_struct :: u32 where "sizeof_mm_struct \<equiv> 68"
abbreviation sizeof_vm_area_struct :: u32 where "sizeof_vm_area_struct \<equiv> 44"
abbreviation sizeof_task_struct :: u32 where "sizeof_task_struct \<equiv> 464"
abbreviation sizeof_file :: u32 where "sizeof_file \<equiv> 24"
abbreviation sizeof_m_inode :: u32 where "sizeof_m_inode \<equiv> 64"

definition init_kmem_cache_cache :: "slabs \<Rightarrow> slabs option" where
  "init_kmem_cache_cache s = do {
     (num, left) \<leftarrow> cache_estimate 0 sizeof_kmem_cache;
     let s = upd_cache (cache_cache s) (\<lambda>c. c\<lparr>obj_size := sizeof_kmem_cache, slab_order := 0, cache_name := ''cache_cache'',
       slabp_cache := None, slabs_full := None, slab_obj_num := num,
       slab_size := ucast (ucast num * SLAB_BUF_SIZE + SLAB_SLAB_STRUCT_SIZE)\<rparr>) s;
     slab_create (cache_cache s) s }"

definition general_sizes :: "cache_sizes_struct list" where
  "general_sizes = map (\<lambda>(n, m). \<lparr>cs_size = n, cs_name = m, cs_cachep = None\<rparr>)
     [(32, ''size-32''), (64, ''size-64''), (128, ''size-128''), (256, ''size-256''), (512, ''size-512''), (1024, ''size-1024'')]"

fun create_general :: "nat \<Rightarrow> nat \<Rightarrow> slabs \<Rightarrow> slabs option" where
  "create_general 0 i s = Some s"
| "create_general (Suc n) i s = do {
     e \<leftarrow> cell (malloc_sizes s) i;
     (c, s) \<leftarrow> kmem_cache_create (cs_name e) (cs_size e) s;
     create_general n (i + 1) (s\<lparr>malloc_sizes := (malloc_sizes s)[i := e\<lparr>cs_cachep := Some c\<rparr>]\<rparr>) }"

definition kmem_cache_init :: "slabs \<Rightarrow> slabs option" where
  "kmem_cache_init s = do {
     s \<leftarrow> init_kmem_cache_cache s;
     s \<leftarrow> create_general MALLOC_COUNT 0 (s\<lparr>malloc_sizes := general_sizes\<rparr>);
     (c, s) \<leftarrow> kmem_cache_create ''mm_cachep'' sizeof_mm_struct s;
     let s = s\<lparr>mm_cachep := Some c\<rparr>;
     (c, s) \<leftarrow> kmem_cache_create ''vm_area_cachep'' sizeof_vm_area_struct s;
     let s = s\<lparr>vm_area_cachep := Some c\<rparr>;
     (c, s) \<leftarrow> kmem_cache_create ''task_cachep'' sizeof_task_struct s;
     let s = s\<lparr>task_struct_cachep := Some c\<rparr>;
     (c, s) \<leftarrow> kmem_cache_create ''file_cachep'' sizeof_file s;
     let s = s\<lparr>filp_cachep := Some c\<rparr>;
     (c, s) \<leftarrow> kmem_cache_create ''inode_cachep'' sizeof_m_inode s;
     Some (s\<lparr>inode_cachep := Some c\<rparr>) }"

subsection \<open>The number of objects in a slab\<close>

definition max_objs :: "nat \<Rightarrow> nat \<Rightarrow> nat" where
  "max_objs page_size sz = (page_size - 16) div (sz + 2)"

lemma max_objs_fit:
  assumes "16 \<le> P"
  shows "max_objs P sz * (sz + 2) + 16 \<le> P" and "P < (max_objs P sz + 1) * (sz + 2) + 16"
proof -
  have "max_objs P sz * (sz + 2) \<le> P - 16" unfolding max_objs_def by (rule div_times_less_eq_dividend)
  then show "max_objs P sz * (sz + 2) + 16 \<le> P" using assms by linarith
  have "P - 16 < (max_objs P sz + 1) * (sz + 2)" unfolding max_objs_def
    using dividend_less_div_times [of "sz + 2" "P - 16"] by (simp add: algebra_simps)
  then show "P < (max_objs P sz + 1) * (sz + 2) + 16" using assms by linarith
qed

lemma estimate_loop_eq:
  assumes "16 \<le> unat P" and "unat P \<le> 2 ^ 20" and "unat i \<le> max_objs (unat P) (unat sz) + 1"
  shows "estimate_loop i sz P = Some (of_nat (max_objs (unat P) (unat sz) + 1))"
  using assms(3)
proof (induction "max_objs (unat P) (unat sz) + 1 - unat i" arbitrary: i rule: less_induct)
  case less
  let ?n = "max_objs (unat P) (unat sz)" and ?s = "unat sz"
  have fit: "?n * (?s + 2) + 16 \<le> unat P" "unat P < (?n + 1) * (?s + 2) + 16" using max_objs_fit [OF assms(1)] by blast+
  have "unat i * (?s + 2) \<le> (?n + 1) * (?s + 2)" using less.prems by (rule mult_right_mono) simp
  also have "\<dots> = ?n * (?s + 2) + (?s + 2)" by simp
  also have "\<dots> < 2 ^ 21" using fit(1) assms(2) unat_u16_bound [of sz] by simp
  finally have b: "unat i * (?s + 2) < 2 ^ 21" .
  have "i * ucast sz + (16 + i * 2) = of_nat (unat i * (?s + 2) + 16)" by (simp add: algebra_simps)
  then have "unat (i * ucast sz + (16 + i * 2)) = unat i * (?s + 2) + 16"
    using b by (simp only: unat_of_nat) simp
  then have c: "i * ucast sz + (16 + i * 2) \<le> P \<longleftrightarrow> unat i * (?s + 2) + 16 \<le> unat P"
    by (simp add: word_le_nat_alt)
  have "unat i * (?s + 2) + 16 \<le> unat P \<longleftrightarrow> unat i \<le> ?n"
  proof
    assume "unat i * (?s + 2) + 16 \<le> unat P"
    then have "unat i * (?s + 2) < (?n + 1) * (?s + 2)" using fit(2) by linarith
    then show "unat i \<le> ?n" by (simp only: mult_less_cancel2) linarith
  next
    assume "unat i \<le> ?n"
    then have "unat i * (?s + 2) \<le> ?n * (?s + 2)" by (rule mult_right_mono) simp
    then show "unat i * (?s + 2) + 16 \<le> unat P" using fit(1) by linarith
  qed
  with c have c: "i * ucast sz + (16 + i * 2) \<le> P \<longleftrightarrow> unat i \<le> ?n" by simp
  show ?case
  proof (cases "unat i \<le> ?n")
    case True
    have "unat i < 2 ^ 20" using b by (simp add: algebra_simps)
    then have i1: "unat (i + 1) = unat i + 1" by (simp add: word_nat)
    then have "estimate_loop (i + 1) sz P = Some (of_nat (?n + 1))" using less.hyps [of "i + 1"] True by simp
    with True c show ?thesis by (subst estimate_loop.simps) simp
  next
    case False
    then have "unat i = ?n + 1" using less.prems by simp
    then have "i = of_nat (?n + 1)" by (rule word_of_unat)
    with False c show ?thesis by (subst estimate_loop.simps) simp
  qed
qed

lemma unat_page_size:
  assumes "k \<le> 8"
  shows "unat (push_bit k PAGE_SIZE) = 4096 * 2 ^ k"
proof -
  have "(2::nat) ^ k \<le> 2 ^ 8" using assms by (rule power_increasing) simp
  then have "4096 * (2::nat) ^ k < 2 ^ 32" by simp
  moreover have "push_bit k PAGE_SIZE = of_nat (4096 * 2 ^ k)" by (simp add: push_bit_eq_mult mult.commute)
  ultimately show ?thesis by (simp only: unat_of_nat) simp
qed

lemma cache_estimate_eq:
  assumes "unat ord \<le> 8"
  defines "P \<equiv> 4096 * 2 ^ unat ord"
  shows "cache_estimate ord sz
    = Some (of_nat (max_objs P (unat sz)), of_nat (P - (max_objs P (unat sz) * (unat sz + 2) + 16)))"
proof -
  let ?P = "push_bit (unat ord) PAGE_SIZE" and ?n = "max_objs P (unat sz)"
  have uP: "unat ?P = P" unfolding P_def using unat_page_size [OF assms(1)] .
  have "(2::nat) ^ unat ord \<le> 2 ^ 8" using assms(1) by (rule power_increasing) simp
  then have P: "16 \<le> P" "P \<le> 2 ^ 20" by (simp_all add: P_def)
  have E: "estimate_loop 1 sz ?P = Some (of_nat (?n + 1))" using estimate_loop_eq [of ?P 1 sz] P uP by simp
  have L: "?P - (ucast sz * of_nat ?n + of_nat ?n * 2 + 16) = of_nat (P - (?n * (unat sz + 2) + 16))"
  proof -
    have "?P = of_nat P" using uP by (rule word_of_unat)
    moreover have "ucast sz = (of_nat (unat sz) :: u32)" by simp
    ultimately show ?thesis using max_objs_fit(1) [OF P(1), of "unat sz"] by (simp add: algebra_simps)
  qed
  have U: "ucast (of_nat ?n :: u32) = (of_nat ?n :: u16)"
  proof -
    have "?n \<le> ?n * (unat sz + 2)" by simp
    then have "?n < 4294967296" using max_objs_fit(1) [OF P(1), of "unat sz"] P(2) by simp
    then show ?thesis by (simp add: unsigned_of_nat take_bit_nat_eq_self)
  qed
  have I: "of_nat (?n + 1) - 1 = (of_nat ?n :: u32)" by simp
  show ?thesis unfolding cache_estimate_def Let_def E Option.bind.bind_lunit I U L by (rule refl)
qed

lemma unat_word_align:
  assumes "unat x < 2 ^ 32 - 4"
  shows "unat (word_align x) = (unat x + 3) div 4 * 4"
proof -
  have "x AND 3 = take_bit 2 x" by (simp add: take_bit_eq_mask mask_eq_exp_minus_1)
  then have and3: "unat (x AND 3) = unat x mod 4"
    by (simp only: unsigned_take_bit_eq) (simp add: take_bit_eq_mod)
  have r: "unat ((x + 4) AND NOT 3) = (unat x + 4) div 4 * 4"
    using unat_and_not_mask [of "x + 4" 2] assms by (simp add: mask_eq_exp_minus_1 unat_word_ariths)
  show ?thesis
  proof (cases "x AND 3 = 0")
    case True
    then have "unat x mod 4 = 0" using and3 by simp
    then show ?thesis using True by (auto simp: word_align_def)
  next
    case False
    then have "unat x mod 4 \<noteq> 0" using and3 unat_eq_0 [of "x AND 3"] by simp
    then have "(unat x + 4) div 4 = (unat x + 3) div 4" by presburger
    then show ?thesis using False r by (simp add: word_align_def)
  qed
qed

lemma word_align_dvd: "unat x < 2 ^ 32 - 4 \<Longrightarrow> 4 dvd unat (word_align x)"
  by (simp add: unat_word_align)

text \<open>Rounding the descriptor up does not push the last object out of the slab, because sizes are
  multiples of four.\<close>

lemma aligned_fits:
  fixes n sz P :: nat
  assumes "n * (sz + 2) + 16 \<le> P" and "4 dvd sz" and "4 dvd P"
  shows "n * sz + (2 * n + 16 + 3) div 4 * 4 \<le> P"
proof -
  obtain a b where ab: "sz = 4 * a" "P = 4 * b" using assms(2,3) by (auto elim!: dvdE)
  have "2 * n + 16 + 4 * (n * a) \<le> 4 * b" using assms(1) by (simp add: ab algebra_simps)
  then have "(2 * n + 16 + 3) div 4 + n * a \<le> b" by linarith
  then show ?thesis by (simp add: ab algebra_simps)
qed

lemma order_loop_ends:
  assumes "4096 \<le> unat sz" and "unat sz < 65534" and "unat ord \<le> 8"
  shows "\<exists>ord' n left. order_loop cc ord sz = Some (ord', of_nat n, left) \<and> unat ord' \<le> 8 \<and> 0 < n \<and> n < 256
    \<and> n = max_objs (4096 * 2 ^ unat ord') (unat sz) \<and> n * (unat sz + 2) + 16 \<le> 4096 * 2 ^ unat ord' \<and> left = of_nat (4096 * 2 ^ unat ord' - (n * (unat sz + 2) + 16))"
  using assms(3)
proof (induction "8 - unat ord" arbitrary: ord rule: less_induct)
  case less
  let ?P = "4096 * 2 ^ unat ord :: nat"
  let ?n = "max_objs ?P (unat sz)"
  let ?left = "of_nat (?P - (?n * (unat sz + 2) + 16)) :: u32"
  have sz: "unat (ucast sz :: u16) = unat sz" using assms(2) by (simp add: unsigned_ucast_eq take_bit_nat_eq_self)
  have est: "cache_estimate (ucast ord) (ucast sz) = Some (of_nat ?n, ?left)"
    using cache_estimate_eq [of "ucast ord" "ucast sz"] less.prems by (simp add: sz unat_u16_u32)
  have "(2::nat) ^ unat ord \<le> 2 ^ 8" using less.prems by (rule power_increasing) simp
  then have P: "16 \<le> ?P" "?P \<le> 1048576" by simp_all
  note fit = max_objs_fit [OF P(1), of "unat sz"]
  have "?n * 4098 \<le> ?n * (unat sz + 2)" using assms(1) by (intro mult_left_mono) simp_all
  then have n: "?n < 256" using fit(1) P(2) by linarith
  have left: "unat (?left * 8) = 8 * (?P - (?n * (unat sz + 2) + 16))"
  proof -
    have "?left * 8 = of_nat (8 * (?P - (?n * (unat sz + 2) + 16)))" by simp
    then show ?thesis using P(2) by (simp only: unat_of_nat) simp
  qed
  have up: "order_loop cc ord sz = (if ?n = 0 then order_loop cc (ord + 1) sz
     else if cc \<ge> MAX_SLAB_ORDER then Some (ord, of_nat ?n, ?left)
     else if ?left * 8 \<ge> push_bit (unat ord) PAGE_SIZE then order_loop cc (ord + 1) sz
     else Some (ord, of_nat ?n, ?left))"
    using n by (subst order_loop.simps) (simp add: est unat_eq_0 [symmetric] unat_of_nat)
  show ?case
  proof (cases "?n = 0 \<or> cc < MAX_SLAB_ORDER \<and> ?left * 8 \<ge> push_bit (unat ord) PAGE_SIZE")
    case True
    have "unat ord \<noteq> 8"
    proof
      assume "unat ord = 8"
      then have "?n \<noteq> 0" using fit(2) assms(2) by (intro notI) simp
      moreover have "\<not> ?left * 8 \<ge> push_bit (unat ord) PAGE_SIZE"
        using \<open>unat ord = 8\<close> left fit(2) assms(2) unat_page_size [of 8]
        by (simp add: word_le_nat_alt algebra_simps)
      ultimately show False using True by simp
    qed
    then have "unat ord < 8" using less.prems by simp
    moreover from this have "unat (ord + 1) = unat ord + 1" by (simp add: unat_word_ariths)
    moreover have "order_loop cc ord sz = order_loop cc (ord + 1) sz" using True up by (auto simp: not_less)
    ultimately show ?thesis using less.hyps [of "ord + 1"] by simp
  next
    case False
    then have "order_loop cc ord sz = Some (ord, of_nat ?n, ?left)" using up by (auto simp: not_less)
    then show ?thesis using False n fit(1) less.prems by (intro exI [of _ ord] exI [of _ ?n] exI [of _ ?left]) simp
  qed
qed

subsection \<open>Pools of objects\<close>

text \<open>The results of \<open>m\<close> calls, one after the other.\<close>

fun alloc_many :: "('s \<Rightarrow> ('a option \<times> 's) option) \<Rightarrow> nat \<Rightarrow> 's \<Rightarrow> ('a option list \<times> 's) option" where
  "alloc_many alloc 0 s = Some ([], s)"
| "alloc_many alloc (Suc m) s = do { (x, s) \<leftarrow> alloc s; (xs, s) \<leftarrow> alloc_many alloc m s; Some (x # xs, s) }"

text \<open>What the clients of a cache rely on: from a pool with \<open>cap\<close> objects, of which \<open>k\<close> have been
  handed out, the next call gives object \<open>k\<close>, and an empty pool gives null pointers.\<close>

locale object_pool =
  fixes alloc :: "'s \<Rightarrow> ('a option \<times> 's) option"
    and pool :: "'s \<Rightarrow> nat \<Rightarrow> bool"
    and cap :: nat
    and obj :: "nat \<Rightarrow> 'a"
  assumes alloc_next: "pool s k \<Longrightarrow> k < cap \<Longrightarrow> \<exists>s'. alloc s = Some (Some (obj k), s') \<and> pool s' (Suc k)"
    and alloc_empty: "pool s cap \<Longrightarrow> \<exists>s'. alloc s = Some (None, s') \<and> pool s' cap"
    and pool_bound: "pool s k \<Longrightarrow> k \<le> cap"
begin

lemma alloc_many_objects:
  assumes "pool s k"
  shows "\<exists>s'. alloc_many alloc m s = Some (map (\<lambda>i. if i < cap then Some (obj i) else None) [k..<k + m], s')
    \<and> pool s' (min cap (k + m))"
  using assms
proof (induction m arbitrary: s k)
  case 0
  then show ?case using pool_bound by (auto simp: min_absorb2)
next
  case (Suc m)
  show ?case
  proof (cases "k < cap")
    case True
    with alloc_next [OF Suc.prems] obtain t where t: "alloc s = Some (Some (obj k), t)" "pool t (Suc k)" by blast
    from Suc.IH [OF t(2)] obtain u where
      "alloc_many alloc m t = Some (map (\<lambda>i. if i < cap then Some (obj i) else None) [Suc k..<Suc k + m], u)"
      "pool u (min cap (Suc k + m))" by blast
    moreover have "[k..<k + Suc m] = k # [Suc k..<Suc k + m]" by (simp add: upt_rec)
    ultimately show ?thesis using t(1) True by simp
  next
    case False
    then have k: "k = cap" using pool_bound [OF Suc.prems] by simp
    with alloc_empty [of s] Suc.prems obtain t where t: "alloc s = Some (None, t)" "pool t cap" by auto
    from Suc.IH [OF t(2)] obtain u where
      "alloc_many alloc m t = Some (map (\<lambda>i. if i < cap then Some (obj i) else None) [cap..<cap + m], u)"
      "pool u (min cap (cap + m))" by blast
    moreover have "map (\<lambda>i. if i < cap then Some (obj i) else None) [cap..<cap + m] = replicate m None" for m
      by (rule nth_equalityI) auto
    ultimately show ?thesis using t(1) k by (auto simp: replicate_append_same)
  qed
qed


end

subsection \<open>The first slab of a cache\<close>

definition fresh_ctl :: "nat \<Rightarrow> u16 list" where
  "fresh_ctl n = (map (\<lambda>i. of_nat (i + 1)) [0..<n])[n - 1 := SLAB_END]"

lemma length_fresh_ctl [simp]: "length (fresh_ctl n) = n" by (simp add: fresh_ctl_def)

lemma fresh_ctl_nth: "i < n \<Longrightarrow> fresh_ctl n ! i = (if i = n - 1 then SLAB_END else of_nat (i + 1))"
  by (simp add: fresh_ctl_def nth_list_update)

text \<open>The cache \<open>c\<close> has the single slab \<open>a\<close>, whose \<open>n\<close> objects of \<open>sz\<close> bytes are at \<open>mem\<close>; the
  first \<open>k\<close> are in use. The last one to go leaves the slab in both lists.\<close>

definition first_slab :: "u32 \<Rightarrow> u32 \<Rightarrow> u32 \<Rightarrow> u16 \<Rightarrow> nat \<Rightarrow> slabs \<Rightarrow> nat \<Rightarrow> bool" where
  "first_slab c a mem sz n s k \<longleftrightarrow> k \<le> n \<and> 0 < n \<and> n < 65535
     \<and> obj_size (cache_at s c) = sz
     \<and> slabs_partial (cache_at s c) = Some a
     \<and> slabs_full (cache_at s c) = (if k = n then Some a else None)
     \<and> slab_at s a = \<lparr>sl_next = Some a, sl_prev = Some a, obj_mem = mem, free_idx = (if k = n then SLAB_END else of_nat k),
         free_num = of_nat (n - k), bufctl = fresh_ctl n\<rparr>"

text \<open>What allocating from a cache may change.\<close>

definition pool_frame :: "u32 \<Rightarrow> u32 \<Rightarrow> slabs \<Rightarrow> slabs \<Rightarrow> bool" where
  "pool_frame c a s t \<longleftrightarrow> (\<exists>l p f. t = s\<lparr>slab_at := (slab_at s)(a := l), cache_at := (cache_at s)(c := (cache_at s c)\<lparr>slabs_partial := p, slabs_full := f\<rparr>)\<rparr>)"

lemma pool_frameI:
  assumes "slabs_full (cache_at s c) = f"
  shows "pool_frame c a s (s\<lparr>cache_at := (cache_at s)(c := (cache_at s c)\<lparr>slabs_partial := p\<rparr>), slab_at := (slab_at s)(a := l)\<rparr>)"
    and "pool_frame c a s (s\<lparr>slab_at := (slab_at s)(a := l), cache_at := (cache_at s)(c := (cache_at s c)\<lparr>slabs_partial := p\<rparr>)\<rparr>)"
  unfolding pool_frame_def using assms by (intro exI [of _ l] exI [of _ p] exI [of _ f]; auto)+

lemma of_nat_u16_neq_0: "0 < n \<Longrightarrow> n < 65536 \<Longrightarrow> (of_nat n :: u16) \<noteq> 0"
  by (simp add: unat_eq_0 [symmetric] unat_of_nat)

lemma of_nat_u16_eq: "n < 65536 \<Longrightarrow> m < 65536 \<Longrightarrow> (of_nat n :: u16) = of_nat m \<longleftrightarrow> n = m"
  by (simp add: word_unat_eq_iff unat_of_nat)

lemma take_object_next:
  assumes "first_slab c a mem sz n s k" and "k < n"
  shows "\<exists>t. take_object c s = Some (Some (mem + of_nat k * ucast sz), t) \<and> first_slab c a mem sz n t (Suc k)
    \<and> pool_frame c a s t"
proof -
  have n: "n < 65535" "k \<noteq> n" and sl: "slab_at s a = \<lparr>sl_next = Some a, sl_prev = Some a, obj_mem = mem, free_idx = of_nat k,
         free_num = of_nat (n - k), bufctl = fresh_ctl n\<rparr>"
    and c: "slabs_partial (cache_at s c) = Some a" "slabs_full (cache_at s c) = None" "obj_size (cache_at s c) = sz"
    using assms by (auto simp: first_slab_def)
  have uk: "unat (of_nat k :: u16) = k" using n assms(2) by (simp add: unat_of_nat)
  have fn: "(of_nat (n - k) :: u16) \<noteq> 0" using assms(2) n by (intro of_nat_u16_neq_0) simp_all
  have ft: "ucast (of_nat k :: u16) = (of_nat k :: u32)" using n assms(2) by (simp add: unsigned_of_nat take_bit_nat_eq_self)
  have m1: "(of_nat (n - k) :: u16) - 1 = of_nat (n - Suc k)" using assms(2) by (simp add: of_nat_diff)
  have ne: "fresh_ctl n ! k = SLAB_END \<longleftrightarrow> k = n - 1"
    using assms(2) n of_nat_u16_eq [of "k + 1" 65535] by (auto simp: fresh_ctl_nth)
  show ?thesis
  proof (cases "Suc k = n")
    case True
    then have "fresh_ctl n ! k = SLAB_END" "n - k = 1" using ne by auto
    then show ?thesis
      using True n
      by (simp add: take_object_def Let_def c sl uk ft m1 upd_cache_def upd_slab_def slab_move_def slab_del_head_def
        slab_add_list_def first_slab_def pool_frame_def) blast
  next
    case False
    then have "fresh_ctl n ! k \<noteq> SLAB_END" "fresh_ctl n ! k = of_nat (Suc k)" using ne assms(2) by (auto simp: fresh_ctl_nth)
    then show ?thesis
      using False fn assms(2) n pool_frameI [OF c(2)]
      by (simp add: take_object_def Let_def c sl uk ft m1 upd_cache_def upd_slab_def first_slab_def)
  qed
qed

lemma take_object_empty:
  assumes "first_slab c a mem sz n s n"
  shows "\<exists>t. take_object c s = Some (None, t) \<and> first_slab c a mem sz n t n \<and> pool_frame c a s t"
proof -
  have sl: "slab_at s a = \<lparr>sl_next = Some a, sl_prev = Some a, obj_mem = mem, free_idx = SLAB_END,
         free_num = 0, bufctl = fresh_ctl n\<rparr>"
    and c: "slabs_partial (cache_at s c) = Some a" "slabs_full (cache_at s c) = Some a" "obj_size (cache_at s c) = sz"
    and n: "0 < n" "n < 65535"
    using assms by (auto simp: first_slab_def)
  show ?thesis
    using n
    by (simp add: take_object_def Let_def c sl upd_cache_def slab_move_def slab_del_head_def
        slab_add_list_def first_slab_def pool_frame_def) blast
qed

lemma first_slab_partial: "first_slab c a mem sz n s k \<Longrightarrow> kmem_object_alloc c s = take_object c s"
  by (subst kmem_object_alloc.simps) (simp add: first_slab_def)

text \<open>The cache as a pool of objects.\<close>

interpretation slab_pool: object_pool "kmem_object_alloc c" "first_slab c a mem sz n" n "\<lambda>k. mem + of_nat k * ucast sz"
  for c a mem sz n
proof unfold_locales
  fix s k
  assume s: "first_slab c a mem sz n s k"
  then show "k \<le> n" by (simp add: first_slab_def)
  assume "k < n"
  then show "\<exists>s'. kmem_object_alloc c s = Some (Some (mem + of_nat k * ucast sz), s') \<and> first_slab c a mem sz n s' (Suc k)"
    using take_object_next [OF s] first_slab_partial [OF s] by auto
next
  fix s
  assume "first_slab c a mem sz n s n"
  then show "\<exists>s'. kmem_object_alloc c s = Some (None, s') \<and> first_slab c a mem sz n s' n"
    using take_object_empty first_slab_partial by fastforce
qed

subsection \<open>Creating the first slab\<close>

lemma mark_slab_pages_ok:
  assumes "p + m \<le> NR_PAGES"
  shows "\<exists>t. mark_slab_pages m p a c s = Some t \<and> free_area t = free_area s
    \<and> (\<forall>q. mem_map t q = (if p \<le> q \<and> q < p + m
          then (mem_map s q)\<lparr>pg_flags := pg_flags (mem_map s q) OR PG_SLAB, pg_prev := to_page_ptr a, pg_next := to_page_ptr c\<rparr>
          else mem_map s q))"
  using assms
proof (induction m arbitrary: p s)
  case (Suc m)
  let ?g = "\<lambda>g. g\<lparr>pg_flags := pg_flags g OR PG_SLAB, pg_prev := to_page_ptr a, pg_next := to_page_ptr c\<rparr>"
  let ?s = "s\<lparr>mem_map := (mem_map s)(p := ?g (mem_map s p))\<rparr>"
  from Suc.IH [of "p + 1" ?s] Suc.prems obtain t where
    "mark_slab_pages m (p + 1) a c ?s = Some t" "free_area t = free_area s"
    "\<forall>q. mem_map t q = (if p + 1 \<le> q \<and> q < p + 1 + m then ?g (mem_map ?s q) else mem_map ?s q)" by auto
  moreover have "upd_page p ?g s = Some ?s" using Suc.prems by (simp add: upd_page_def)
  ultimately show ?case by auto
qed auto

text \<open>The pages of a slab point to the slab and the cache.\<close>

definition slab_pages :: "u32 \<Rightarrow> u32 \<Rightarrow> nat \<Rightarrow> nat \<Rightarrow> slabs \<Rightarrow> bool" where
  "slab_pages c a p m s \<longleftrightarrow> (\<forall>q. p \<le> q \<and> q < p + m \<longrightarrow> q < NR_PAGES
     \<and> pg_prev (mem_map (pages s) q) = to_page_ptr a \<and> pg_next (mem_map (pages s) q) = to_page_ptr c)"

lemma slab_create_first:
  assumes "slabs_partial (cache_at s c) = None" "slabs_full (cache_at s c) = None" "slabp_cache (cache_at s c) = None"
    and "slab_obj_num (cache_at s c) = of_nat n" "0 < n" "n < 65535"
    and "alloc_pages (slab_order (cache_at s c)) (pages s) = Some (Some p, b)"
  defines "mem \<equiv> page_address p + ucast (slab_size (cache_at s c))"
  shows "\<exists>t. slab_create c s = Some t \<and> first_slab c (page_address p) mem (obj_size (cache_at s c)) n t 0
    \<and> slab_pages c (page_address p) p (2 ^ unat (slab_order (cache_at s c))) t
    \<and> pool_frame c (page_address p) (s\<lparr>pages := pages t\<rparr>) t"
proof -
  have pb: "p + 2 ^ unat (slab_order (cache_at s c)) \<le> NR_PAGES"
    using assms(7) alloc_pages_bound by (simp add: alloc_pages_def)
  from mark_slab_pages_ok [OF this, of "page_address p" c b] obtain b' where
    b': "mark_slab_pages (2 ^ unat (slab_order (cache_at s c))) p (page_address p) c b = Some b'"
    "\<forall>q. mem_map b' q = (if p \<le> q \<and> q < p + 2 ^ unat (slab_order (cache_at s c))
          then (mem_map b q)\<lparr>pg_flags := pg_flags (mem_map b q) OR PG_SLAB, pg_prev := to_page_ptr (page_address p), pg_next := to_page_ptr c\<rparr>
          else mem_map b q)" by blast
  have un: "unat (of_nat n :: u16) = n" using assms(6) by (simp add: unat_of_nat)
  let ?l = "\<lparr>sl_next = Some (page_address p), sl_prev = Some (page_address p), obj_mem = mem, free_idx = 0, free_num = of_nat n, bufctl = fresh_ctl n\<rparr>"
  let ?t = "s\<lparr>pages := b', slab_at := (slab_at s)(page_address p := ?l), cache_at := (cache_at s)(c := (cache_at s c)\<lparr>slabs_partial := Some (page_address p)\<rparr>)\<rparr>"
  have "slab_create c s = Some ?t"
    using assms(5)
    by (cases "slab_at s (page_address p)")
      (simp add: slab_create_def assms(1-4) assms(7) Let_def slab_setup_def upd_slab_def upd_cache_def b'(1) un slab_add_list_def
        fresh_ctl_def mem_def)
  moreover have "slab_pages c (page_address p) p (2 ^ unat (slab_order (cache_at s c))) ?t"
    using b'(2) pb by (auto simp: slab_pages_def)
  moreover have "pool_frame c (page_address p) (s\<lparr>pages := b'\<rparr>) ?t"
    using pool_frameI(2) [where s = "s\<lparr>pages := b'\<rparr>" and c = c and f = None and a = "page_address p" and l = ?l
        and p = "Some (page_address p)"] assms(2) by simp
  ultimately show ?thesis using assms(2,5,6) by (intro exI [of _ ?t]) (simp add: first_slab_def)
qed

lemma page_address_nat: "page_address p = of_nat (p * 4096)"
  by (simp add: page_address_def push_bit_eq_mult mult.commute)

lemma obj_addr_nat:
  assumes "unat ssz + n * unat sz \<le> 4096 * m" and "p + m \<le> NR_PAGES" and "i \<le> n"
  shows "unat (page_address p + ucast (ssz::u16) + of_nat i * ucast (sz::u16)) = p * 4096 + unat ssz + i * unat sz"
    and "i < n \<Longrightarrow> p * 4096 + unat ssz + i * unat sz + unat sz \<le> (p + m) * 4096"
proof -
  have "i * unat sz \<le> n * unat sz" using assms(3) by (rule mult_right_mono) simp
  then have "p * 4096 + unat ssz + i * unat sz \<le> (p + m) * 4096" using assms(1) unfolding add_mult_distrib by linarith
  also have "\<dots> \<le> 8192 * 4096" using assms(2) by simp
  finally have b: "p * 4096 + unat ssz + i * unat sz < 2 ^ 32" by simp
  have "page_address p + ucast ssz + of_nat i * ucast sz = of_nat (p * 4096 + unat ssz + i * unat sz)"
    by (simp add: page_address_nat)
  then show "unat (page_address p + ucast ssz + of_nat i * ucast sz) = p * 4096 + unat ssz + i * unat sz"
    using b by (simp only: unat_of_nat) simp
  assume "i < n"
  then have "(i + 1) * unat sz \<le> n * unat sz" by (intro mult_right_mono) simp_all
  then show "p * 4096 + unat ssz + i * unat sz + unat sz \<le> (p + m) * 4096" using assms(1) by (simp add: algebra_simps)
qed

lemma alloc_many_Suc_cong: "f s = f s' \<Longrightarrow> alloc_many f (Suc m) s = alloc_many f (Suc m) s'"
  by simp

lemma create_alloc:
  assumes "slabs_partial (cache_at s c) = None" and "slab_create c s = Some t" and "first_slab c a mem sz n t 0"
  shows "kmem_object_alloc c s = kmem_object_alloc c t"
  using assms by (simp add: kmem_object_alloc_eq [of c s] kmem_object_alloc_eq [of c t] first_slab_def)

text \<open>The object \<open>i\<close> of a slab in the pages from \<open>p\<close> on, with the cache's sizes.\<close>

definition slab_obj :: "kmem_cache_struct \<Rightarrow> nat \<Rightarrow> nat \<Rightarrow> u32" where
  "slab_obj c p i = page_address p + ucast (slab_size c) + of_nat i * ucast (obj_size c)"

subsection \<open>Properties\<close>

text \<open>
  C24. A cache hands out the objects of one slab and nothing else: from a cache without slabs,
  whose slab descriptor and objects fit into the pages the page allocator gives, \<open>m\<close> calls
  return the objects in order, each inside the pages and behind the one before; and once
  the objects of the first slab are used up, every call returns the null pointer.
\<close>
theorem cache_objects_in_order:
  fixes s c
  defines "k \<equiv> cache_at s c"
  assumes "slabs_partial k = None" and "slabs_full k = None" and "slabp_cache k = None"
    and "0 < slab_obj_num k" and "slab_obj_num k < 65535"
    and "unat (slab_size k) + unat (slab_obj_num k) * unat (obj_size k) \<le> 4096 * 2 ^ unat (slab_order k)"
    and "alloc_pages (slab_order k) (pages s) = Some (Some p, b)"
  shows "(\<exists>t. alloc_many (kmem_object_alloc c) m s
      = Some (map (\<lambda>i. if i < unat (slab_obj_num k) then Some (slab_obj k p i) else None) [0..<m], t))
    \<and> (\<forall>i < unat (slab_obj_num k). unat (slab_obj k p i) = p * 4096 + unat (slab_size k) + i * unat (obj_size k)
        \<and> unat (slab_obj k p i) + unat (obj_size k) \<le> (p + 2 ^ unat (slab_order k)) * 4096)"
proof (intro conjI allI impI)
  let ?n = "unat (slab_obj_num k)" and ?m = "2 ^ unat (slab_order k)"
  have n: "0 < ?n" "?n < 65535" using assms(5,6) by (simp_all add: word_less_nat_alt)
  have pb: "p + ?m \<le> NR_PAGES" using alloc_pages_bound assms(8) by (simp add: alloc_pages_def)
  fix i
  assume i: "i < ?n"
  show "unat (slab_obj k p i) = p * 4096 + unat (slab_size k) + i * unat (obj_size k)"
    using obj_addr_nat(1) [OF assms(7) pb, of i] i by (simp add: slab_obj_def)
  then show "unat (slab_obj k p i) + unat (obj_size k) \<le> (p + ?m) * 4096"
    using obj_addr_nat(2) [OF assms(7) pb, of i] i by simp
next
  let ?n = "unat (slab_obj_num k)" and ?mem = "page_address p + ucast (slab_size k)"
  have n: "0 < ?n" "?n < 65535" using assms(5,6) by (simp_all add: word_less_nat_alt)
  show "\<exists>t. alloc_many (kmem_object_alloc c) m s
      = Some (map (\<lambda>i. if i < ?n then Some (slab_obj k p i) else None) [0..<m], t)"
  proof (cases m)
    case (Suc m')
    from slab_create_first [of s c ?n p b] assms n obtain t where
      t: "slab_create c s = Some t" "first_slab c (page_address p) ?mem (obj_size k) ?n t 0" by auto
    have "alloc_many (kmem_object_alloc c) m s = alloc_many (kmem_object_alloc c) m t"
      unfolding Suc by (rule alloc_many_Suc_cong) (rule create_alloc [OF assms(2) [unfolded k_def] t])
    then show ?thesis using slab_pool.alloc_many_objects [OF t(2), of m] by (auto simp: slab_obj_def)
  qed simp
qed

lemma take_object_single:
  assumes "slabs_partial (cache_at s c) = Some a" and "sl_next (slab_at s a) = Some a"
    and "free_num (slab_at s a) \<noteq> 0" and "unat (free_idx (slab_at s a)) < length (bufctl (slab_at s a))"
    and "bufctl (slab_at s a) ! unat (free_idx (slab_at s a)) \<noteq> SLAB_END"
  shows "kmem_object_alloc c s
    = Some (Some (obj_mem (slab_at s a) + ucast (free_idx (slab_at s a)) * ucast (obj_size (cache_at s c))),
        upd_slab a (\<lambda>l. l\<lparr>free_num := free_num l - 1, free_idx := bufctl l ! unat (free_idx l)\<rparr>)
          (upd_cache c (\<lambda>k. k\<lparr>slabs_partial := Some a\<rparr>) s))"
  using assms by (simp add: kmem_object_alloc_eq take_object_def Let_def upd_cache_def upd_slab_def)

lemma obj_number:
  assumes "j < n" and "n * unat sz < 2 ^ 31" and "sz \<noteq> 0"
  shows "sint (mem + of_nat j * ucast sz - mem :: u32) sdiv int (unat (sz :: u16)) = int j"
proof -
  have "j * unat sz \<le> n * unat sz" using assms(1) by (intro mult_right_mono) simp_all
  then have "j * unat sz < 2 ^ 31" using assms(2) by linarith
  moreover have "mem + of_nat j * ucast sz - mem = (of_nat (j * unat sz) :: u32)" by simp
  ultimately have "sint (mem + of_nat j * ucast sz - mem :: u32) = int (j * unat sz)"
    by (subst sint_small) (simp_all only: unat_of_nat, simp_all)
  moreover have "int (j * m) sdiv int m = int j" if "m \<noteq> 0" for m
    using that by (auto simp: signed_divide_int_def sgn_mult)
  then have "int (j * unat sz) sdiv int (unat sz) = int j" using assms(3) unat_eq_0 [of sz] by blast
  ultimately show ?thesis by (simp only:)
qed

text \<open>A freed object is the next one to be handed out.\<close>

lemma free_then_alloc:
  assumes "first_slab c a mem sz n s k" and "j < k" and "k < n" and "sz \<noteq> 0" and "n * unat sz < 2 ^ 31"
    and "slab_pages c a (unat (drop_bit 12 (mem + of_nat j * ucast sz))) 1 s"
  obtains t u where "kmem_object_free c (mem + of_nat j * ucast sz) s = Some t"
    and "kmem_object_alloc c t = Some (Some (mem + of_nat j * ucast sz), u)"
    and "pool_frame c a s t" and "pool_frame c a s u"
    and "slabs_partial (cache_at u c) = Some a" and "obj_size (cache_at u c) = sz"
    and "slab_at u a = \<lparr>sl_next = Some a, sl_prev = Some a, obj_mem = mem, free_idx = of_nat (j + 1),
      free_num = of_nat (n - k), bufctl = (fresh_ctl n)[k := of_nat j]\<rparr>"
proof -
  let ?o = "mem + of_nat j * ucast sz :: u32"
  have n: "n < 65535" and sl: "slab_at s a = \<lparr>sl_next = Some a, sl_prev = Some a, obj_mem = mem, free_idx = of_nat k,
         free_num = of_nat (n - k), bufctl = fresh_ctl n\<rparr>"
    and c: "slabs_partial (cache_at s c) = Some a" "slabs_full (cache_at s c) = None" "obj_size (cache_at s c) = sz"
    using assms(1,3) by (auto simp: first_slab_def)
  have pg: "page_at (unat (drop_bit 12 ?o)) (pages s) = Some (mem_map (pages s) (unat (drop_bit 12 ?o)))"
    "pg_prev (mem_map (pages s) (unat (drop_bit 12 ?o))) = to_page_ptr a"
    using assms(6) by (auto simp: slab_pages_def page_at_def)
  have u: "unat (of_nat i :: u16) = i" if "i \<le> n" for i using n that by (simp add: unat_of_nat)
  have fn: "(of_nat (n - k) :: u16) \<noteq> 0" using assms(3) n by (intro of_nat_u16_neq_0) simp_all
  have fn1: "(of_nat (n - k) :: u16) + 1 \<noteq> 0"
    using of_nat_u16_neq_0 [of "n - k + 1"] n by (simp add: add.commute)
  have e: "(of_nat (j + 1) :: u16) \<noteq> SLAB_END" using of_nat_u16_eq [of "j + 1" 65535] n assms(2,3) by simp
  let ?ctl = "(fresh_ctl n)[k := of_nat j]"
  have ctl: "?ctl ! j = of_nat (j + 1)" using assms(2,3) by (auto simp: fresh_ctl_nth)
  let ?t = "upd_slab a (\<lambda>l. l\<lparr>bufctl := ?ctl, free_idx := of_nat j, free_num := of_nat (n - k) + 1\<rparr>) s"
  let ?u = "upd_slab a (\<lambda>l. l\<lparr>free_num := free_num l - 1, free_idx := bufctl l ! unat (free_idx l)\<rparr>)
          (upd_cache c (\<lambda>k. k\<lparr>slabs_partial := Some a\<rparr>) ?t)"
  have f: "kmem_object_free c ?o s = Some ?t"
    using assms(3,4) fn obj_number [OF _ assms(5,4), of j mem] assms(2)
    by (simp add: kmem_object_free_def Let_def pg c sl u upd_slab_def)
  have g: "kmem_object_alloc c ?t = Some (Some ?o, ?u)"
    using take_object_single [of ?t c a] assms(2,3) fn1 e n ctl
    by (simp add: c sl u upd_slab_def upd_cache_def unsigned_of_nat take_bit_nat_eq_self)
  have "(cache_at s)(c := (cache_at s c)\<lparr>slabs_partial := Some a\<rparr>) = cache_at s" using c(1) by (auto simp: fun_eq_iff)
  then have "pool_frame c a s (s\<lparr>slab_at := (slab_at s)(a := l), cache_at := cache_at s\<rparr>)" for l
    using pool_frameI(2) [OF c(2), where a = a and l = l and p = "Some a"] by simp
  moreover have "s\<lparr>slab_at := m, cache_at := cache_at s\<rparr> = s\<lparr>slab_at := m\<rparr>" for m by simp
  ultimately have "pool_frame c a s ?t" by (simp only: upd_slab_def)
  moreover have "pool_frame c a s ?u" using pool_frameI [OF c(2)] by (simp add: upd_slab_def upd_cache_def)
  ultimately show ?thesis
    using assms(2,3) ctl n by (intro that [OF f g]) (simp_all add: upd_slab_def upd_cache_def c sl u)
qed

text \<open>
  Freeing an object of a cache makes an object that is in use available: with the first
  \<open>k\<close> objects of a slab in use, free object \<open>j\<close>, which is neither the last of these nor the
  one before a free one. The next two calls return object \<open>j\<close> and object \<open>j + 1\<close>, although
  \<open>j + 1\<close> was never freed.
\<close>
theorem free_hands_out_used_object:
  assumes "first_slab c a mem sz n s k" and "j + 1 < k" and "k < n"
    and "sz \<noteq> 0" and "n * unat sz < 2 ^ 31"
    and "slab_pages c a (unat (drop_bit 12 (mem + of_nat j * ucast sz))) 1 s"
  shows "\<exists>t u v. kmem_object_free c (mem + of_nat j * ucast sz) s = Some t
    \<and> kmem_object_alloc c t = Some (Some (mem + of_nat j * ucast sz), u)
    \<and> kmem_object_alloc c u = Some (Some (mem + of_nat (j + 1) * ucast sz), v)"
proof -
  have "j < k" using assms(2) by simp
  from free_then_alloc [OF assms(1) this assms(3-6)] obtain t w where
    t: "kmem_object_free c (mem + of_nat j * ucast sz) s = Some t"
      "kmem_object_alloc c t = Some (Some (mem + of_nat j * ucast sz), w)"
    and w: "slabs_partial (cache_at w c) = Some a" "obj_size (cache_at w c) = sz"
      "slab_at w a = \<lparr>sl_next = Some a, sl_prev = Some a, obj_mem = mem, free_idx = of_nat (j + 1),
        free_num = of_nat (n - k), bufctl = (fresh_ctl n)[k := of_nat j]\<rparr>"
    by metis
  have n: "n < 65535" using assms(1) by (simp add: first_slab_def)
  then have "unat (of_nat (j + 1) :: u16) = j + 1" "ucast (of_nat (j + 1) :: u16) = (of_nat (j + 1) :: u32)"
    using assms(2,3) by (simp_all only: unat_of_nat unsigned_of_nat) (simp_all add: take_bit_nat_eq_self)
  moreover have "(fresh_ctl n)[k := of_nat j] ! (j + 1) = of_nat (j + 2)" using assms(2,3) by (auto simp: fresh_ctl_nth)
  moreover have "(of_nat (n - k) :: u16) \<noteq> 0" "(of_nat (j + 2) :: u16) \<noteq> SLAB_END"
    using assms(2,3) n of_nat_u16_neq_0 [of "n - k"] of_nat_u16_eq [of "j + 2" 65535] by simp_all
  ultimately have "\<exists>v. kmem_object_alloc c w = Some (Some (mem + of_nat (j + 1) * ucast sz), v)"
    using take_object_single [of w c a] assms(2,3) by (simp add: w)
  then show ?thesis using t by blast
qed

text \<open>
  Once all objects of a slab are in use, freeing one of them writes outside the slab: the
  index of the next free object is then \<open>SLAB_END\<close>, and the array of numbers is written there.
\<close>
theorem free_full_slab_faults:
  assumes "first_slab c a mem sz n s n" and "slab_pages c a (unat (drop_bit 12 objp)) 1 s"
  shows "kmem_object_free c objp s = None"
proof -
  have "slab_at s a = \<lparr>sl_next = Some a, sl_prev = Some a, obj_mem = mem, free_idx = SLAB_END, free_num = 0, bufctl = fresh_ctl n\<rparr>"
    "n < 65535" using assms(1) by (auto simp: first_slab_def)
  moreover have "pg_prev (mem_map (pages s) (unat (drop_bit 12 objp))) = to_page_ptr a"
    using assms(2) by (auto simp: slab_pages_def)
  ultimately show ?thesis
    by (auto simp: kmem_object_free_def Let_def page_at_def put_cell_def)
qed

text \<open>
  Destroying a cache frees nothing: its lists are forgotten, but no slab is taken from
  a list and no page goes back to the page allocator, because the loops over the slabs
  end before the first one.
\<close>
theorem cache_destroy_keeps_pages:
  "kmem_cache_destroy c s
    = Some (upd_cache c (\<lambda>k. k\<lparr>slabs_partial := None, slabs_full := None, slab_order := 0\<rparr>) s)"
proof -
  have id: "upd_cache c g s = s" if "g (cache_at s c) = cache_at s c" for g s using that by (simp add: upd_cache_def)
  have "destroy_partial c (slabs_partial (cache_at s c)) s = Some s" for s
    by (subst destroy_partial.simps) (simp split: option.split)
  then have p: "(if slabs_partial (cache_at s c) \<noteq> None
       then do {
         s \<leftarrow> destroy_partial c (slabs_partial (cache_at s c)) s;
         Some (upd_cache c (\<lambda>c. c\<lparr>slabs_partial := None\<rparr>) s) }
       else Some s) = Some (upd_cache c (\<lambda>k. k\<lparr>slabs_partial := None\<rparr>) s)" for s by (auto intro!: id [symmetric])
  have "destroy_full c (slabs_full (cache_at s c)) s = Some s" for s
    by (subst destroy_full.simps) (simp split: option.split)
  then have f: "(if slabs_full (cache_at s c) \<noteq> None
       then do {
         s \<leftarrow> destroy_full c (slabs_full (cache_at s c)) s;
         Some (upd_cache c (\<lambda>c. c\<lparr>slabs_full := None\<rparr>) s) }
       else Some s) = Some (upd_cache c (\<lambda>k. k\<lparr>slabs_full := None\<rparr>) s)" for s by (auto intro!: id [symmetric])
  show ?thesis unfolding kmem_cache_destroy_def p Option.bind.bind_lunit f by (simp add: upd_cache_def)
qed

text \<open>
  \<open>kmalloc\<close> takes the smallest general cache whose objects are large enough, and gives the
  null pointer for more than 1024 bytes.
\<close>
theorem kmalloc_smallest:
  assumes "map cs_size (malloc_sizes s) = [32, 64, 128, 256, 512, 1024]" and "map cs_cachep (malloc_sizes s) = map Some cs"
  shows "if sz \<le> 1024
    then \<exists>i < 6. kmalloc sz s = kmem_object_alloc (cs ! i) s \<and> unat sz \<le> 32 * 2 ^ i \<and> (\<forall>j < i. 32 * 2 ^ j < unat sz)
    else kmalloc sz s = Some (None, s)"
proof -
  obtain e0 e1 e2 e3 e4 e5 where e: "malloc_sizes s = [e0, e1, e2, e3, e4, e5]" and
    z: "cs_size e0 = 32" "cs_size e1 = 64" "cs_size e2 = 128" "cs_size e3 = 256" "cs_size e4 = 512" "cs_size e5 = 1024"
    using assms(1) by (auto simp: map_eq_Cons_conv)
  have cs: "map Some cs = map cs_cachep [e0, e1, e2, e3, e4, e5]" using assms(2) e by simp
  then have c: "cs_cachep e0 = Some (cs ! 0)" "cs_cachep e1 = Some (cs ! 1)" "cs_cachep e2 = Some (cs ! 2)"
    "cs_cachep e3 = Some (cs ! 3)" "cs_cachep e4 = Some (cs ! 4)" "cs_cachep e5 = Some (cs ! 5)"
    by (auto simp: map_eq_Cons_conv)
  have lt: "a < ucast sz \<longleftrightarrow> unat a < unat sz" for a :: u32 by (simp add: word_less_nat_alt unat_u16_u32)
  have k: "kmalloc sz s = (if unat sz \<le> 32 then kmem_object_alloc (cs ! 0) s
    else if unat sz \<le> 64 then kmem_object_alloc (cs ! 1) s
    else if unat sz \<le> 128 then kmem_object_alloc (cs ! 2) s
    else if unat sz \<le> 256 then kmem_object_alloc (cs ! 3) s
    else if unat sz \<le> 512 then kmem_object_alloc (cs ! 4) s
    else if unat sz \<le> 1024 then kmem_object_alloc (cs ! 5) s
    else Some (None, s))"
    by (simp add: kmalloc_def e z c lt not_less)
  define i :: nat where "i = (if unat sz \<le> 32 then 0 else if unat sz \<le> 64 then 1 else if unat sz \<le> 128 then 2
    else if unat sz \<le> 256 then 3 else if unat sz \<le> 512 then 4 else 5)"
  show ?thesis
  proof (cases "sz \<le> 1024")
    case True
    then have "unat sz \<le> 1024" by (simp add: word_le_nat_alt)
    then have "i < 6 \<and> kmalloc sz s = kmem_object_alloc (cs ! i) s \<and> unat sz \<le> 32 * 2 ^ i \<and> (\<forall>j < i. 32 * 2 ^ j < unat sz)"
      unfolding k i_def by (auto simp: less_Suc_eq numeral_eq_Suc)
    with True show ?thesis by auto
  next
    case False
    then have "\<not> unat sz \<le> 1024" by (simp add: word_le_nat_alt)
    with False show ?thesis by (simp add: k)
  qed
qed

subsection \<open>Caches as they are created\<close>

text \<open>A cache without slabs, whose objects of \<open>sz\<close> bytes fit into a slab.\<close>

definition cache_ready :: "kmem_cache_struct \<Rightarrow> nat \<Rightarrow> bool" where
  "cache_ready k sz \<longleftrightarrow> slabs_partial k = None \<and> slabs_full k = None \<and> slabp_cache k = None \<and> unat (obj_size k) = sz
     \<and> unat (slab_order k) \<le> 8 \<and> unat (slab_size k) = (16 + 2 * unat (slab_obj_num k) + 3) div 4 * 4
     \<and> unat (slab_size k) + unat (slab_obj_num k) * sz \<le> 4096 * 2 ^ unat (slab_order k)"

lemma slab_fits:
  assumes "n * (sz + 2) + 16 \<le> 4096 * 2 ^ k" and "4 dvd sz" and "n < 2048" and "0 < (sz::nat)"
  defines "ssz \<equiv> word_align (ucast (of_nat n :: u16) * SLAB_BUF_SIZE + SLAB_SLAB_STRUCT_SIZE)"
  shows "unat ssz = (2 * n + 16 + 3) div 4 * 4"
    and "unat (ucast ssz :: u16) + unat (of_nat n :: u16) * sz \<le> 4096 * 2 ^ k"
    and "unat (ucast ssz :: u16) = (16 + 2 * unat (of_nat n :: u16) + 3) div 4 * 4"
proof -
  have un: "unat (of_nat n :: u16) = n" using assms(3) by (simp add: unat_of_nat)
  have "ucast (of_nat n :: u16) = (of_nat n :: u32)" using assms(3) by (simp only: unsigned_of_nat) (simp add: take_bit_nat_eq_self)
  then have "unat (ucast (of_nat n :: u16) * SLAB_BUF_SIZE + SLAB_SLAB_STRUCT_SIZE) = unat (of_nat (2 * n + 16) :: u32)"
    by (simp add: mult.commute)
  also have "\<dots> = 2 * n + 16" using assms(3) by (simp only: unat_of_nat) simp
  finally have u: "unat (ucast (of_nat n :: u16) * SLAB_BUF_SIZE + SLAB_SLAB_STRUCT_SIZE) = 2 * n + 16" .
  then show s: "unat ssz = (2 * n + 16 + 3) div 4 * 4" unfolding ssz_def using assms(3) by (subst unat_word_align) simp_all
  have "unat ssz < 65536" using s assms(3) by simp
  then have us: "unat (ucast ssz :: u16) = unat ssz" by (simp add: unsigned_ucast_eq take_bit_nat_eq_self)
  then show "unat (ucast ssz :: u16) = (16 + 2 * unat (of_nat n :: u16) + 3) div 4 * 4" using s un by (simp add: add.commute)
  from us show "unat (ucast ssz :: u16) + unat (of_nat n :: u16) * sz \<le> 4096 * 2 ^ k"
    using aligned_fits [OF assms(1,2)] s un by simp
qed

lemma slab_layout_ok:
  assumes "0 < unat sz" and "unat sz < 65534"
  shows "\<exists>ord n. slab_layout cc sz = Some (ord, of_nat n, of_nat (4096 * 2 ^ unat ord - (n * (unat sz + 2) + 16)))
    \<and> unat ord \<le> 8 \<and> n < 2048 \<and> n * (unat sz + 2) + 16 \<le> 4096 * 2 ^ unat ord
    \<and> n = max_objs (4096 * 2 ^ unat ord) (unat sz) \<and> (if unat sz < 4096 then ord = 0 else 0 < n)"
proof (cases "unat sz < 4096")
  case True
  then have u: "unat (ucast sz :: u16) = unat sz" by (simp add: unsigned_ucast_eq take_bit_nat_eq_self)
  let ?n = "max_objs 4096 (unat sz)"
  have fit: "?n * (unat sz + 2) + 16 \<le> 4096" using max_objs_fit(1) [of 4096] by simp
  have "slab_layout cc sz = Some (0, of_nat ?n, of_nat (4096 * 2 ^ unat (0 :: u16) - (?n * (unat sz + 2) + 16)))"
    using True cache_estimate_eq [of 0 "ucast sz"] by (simp add: slab_layout_def word_less_nat_alt u)
  moreover have "?n < 2048"
  proof -
    have "?n * 2 \<le> ?n * (unat sz + 2)" by simp
    then show ?thesis using fit by linarith
  qed
  ultimately show ?thesis using True fit by (intro exI [of _ 0] exI [of _ ?n]) simp
next
  case False
  then have "slab_layout cc sz = order_loop cc 0 sz" by (simp add: slab_layout_def word_less_nat_alt)
  then show ?thesis using order_loop_ends [of sz 0 cc] assms(2) False by fastforce
qed

text \<open>
  C30. The caches \<open>kmem_cache_create\<close> makes are safe to use: for any size of up to 65532 bytes, the
  space before the first object is that of the slab descriptor, 16 bytes, and of its array, two
  bytes for each object, rounded up to words; it and all the objects, of the size rounded up to
  words, fit into the pages of the order that was chosen, which is at most 8. The number of objects
  is the greatest for which object, array entry and descriptor fit into these pages. Objects
  of less than a page have order 0; a larger size gets at least one object.
\<close>
theorem cache_create_fits:
  assumes "kmem_cache_create nm sz s = Some (c, t)" and "0 < sz" and "sz \<le> 65532"
  defines "k \<equiv> cache_at t c" and "size4 \<equiv> (unat sz + 3) div 4 * 4"
  shows "cache_ready k size4 \<and> unat (slab_obj_num k) = (4096 * 2 ^ unat (slab_order k) - 16) div (size4 + 2)
    \<and> (if size4 < 4096 then slab_order k = 0 else 0 < slab_obj_num k)"
proof -
  let ?sz = "(unat sz + 3) div 4 * 4"
  have sz: "unat (word_align sz) = ?sz" using assms(3) by (subst unat_word_align) (simp_all add: word_le_nat_alt)
  have "unat sz \<le> 65532" "0 < unat sz" using assms(2,3) by (simp_all add: word_le_nat_alt word_less_nat_alt)
  then have b: "?sz < 65534" "0 < ?sz" by presburger+
  then have us: "unat (ucast (word_align sz) :: u16) = ?sz" using sz by (simp add: unsigned_ucast_eq take_bit_nat_eq_self)
  have lay: "\<exists>ord n left. slab_layout cc (word_align sz) = Some (ord, of_nat n, left)
    \<and> unat ord \<le> 8 \<and> n < 2048 \<and> n * (?sz + 2) + 16 \<le> 4096 * 2 ^ unat ord
    \<and> n = max_objs (4096 * 2 ^ unat ord) ?sz \<and> (if ?sz < 4096 then ord = 0 else 0 < n)" for cc
    using slab_layout_ok [of "word_align sz" cc] b sz by auto
  obtain cc ord num l where "\<exists>left. slab_layout cc (word_align sz) = Some (ord, num, left)" and
    k: "cache_at t c = \<lparr>slabs_partial = None, slabs_full = None, cache_next = None, slabp_cache = None,
       cache_name = nm, obj_size = ucast (word_align sz), slab_obj_num = num,
       slab_size = ucast (word_align (ucast num * SLAB_BUF_SIZE + SLAB_SLAB_STRUCT_SIZE)),
       slab_order = ord, left_over = l\<rparr>"
    using assms(1) by (fastforce simp: kmem_cache_create_def Let_def upd_cache_def dest!: bind_SomeD)
  with lay [of cc] obtain n where n: "num = of_nat n" "unat ord \<le> 8" "n < 2048" "n * (?sz + 2) + 16 \<le> 4096 * 2 ^ unat ord"
    "n = max_objs (4096 * 2 ^ unat ord) ?sz" "if ?sz < 4096 then ord = 0 else 0 < n" by auto
  have "unat num = n" using n(1,3) by (simp add: unat_of_nat)
  moreover from this have "0 < num" if "0 < n" using that by (simp add: unat_gt_0 [symmetric] word_gt_0)
  ultimately have "unat num = (4096 * 2 ^ unat ord - 16) div (?sz + 2)" "if ?sz < 4096 then ord = 0 else 0 < num"
    using n(5,6) by (simp_all add: max_objs_def split: if_splits)
  moreover have "cache_ready (cache_at t c) ?sz"
    using n(1-4) slab_fits(2,3) [of n ?sz "unat ord"] b(2) us k by (simp add: cache_ready_def)
  ultimately show ?thesis using k by (simp add: k_def size4_def)
qed

subsection \<open>Set-up of the kernel's caches\<close>

text \<open>The place of the cache number \<open>i\<close>, in the slab of \<open>cache_cache\<close>.\<close>

definition cache_place :: "nat \<Rightarrow> nat \<Rightarrow> u32" where
  "cache_place p i = page_address p + 256 + of_nat i * 32"

text \<open>The caches for the sizes \<open>szs\<close> have been made; the first general cache has objects of 32 bytes.\<close>

definition caches_made :: "nat \<Rightarrow> nat list \<Rightarrow> slabs \<Rightarrow> bool" where
  "caches_made p szs s \<longleftrightarrow>
     first_slab (cache_cache s) (page_address p) (page_address p + 256) 32 120 s (length szs)
     \<and> (\<forall>i < length szs. cache_ready (cache_at s (cache_place p i)) (szs ! i) \<and> 0 < slab_obj_num (cache_at s (cache_place p i)))
     \<and> (\<exists>e es. malloc_sizes s = e # es \<and> cs_size e = 32)"

lemma cache_place_inj:
  assumes "p < NR_PAGES" and "i < 120" and "j < 120"
  shows "cache_place p i = cache_place p j \<longleftrightarrow> i = j"
proof -
  have "unat (cache_place p k) = p * 4096 + 256 + k * 32" if "k < 120" for k
  proof -
    have "cache_place p k = of_nat (p * 4096 + 256 + k * 32)" by (simp add: cache_place_def page_address_nat)
    then show ?thesis using that assms(1) by (simp only: unat_of_nat) simp
  qed
  with assms(2,3) show ?thesis by (auto dest!: arg_cong [of _ _ unat])
qed

text \<open>Sizes for which nothing outside \<open>malloc_sizes\<close> is read.\<close>

definition good_size :: "nat \<Rightarrow> bool" where
  "good_size sz \<longleftrightarrow> 0 < sz \<and> 4 dvd sz \<and> (sz \<le> 512 \<or> sz = 1024)"

lemma create_ready:
  assumes "caches_made p szs s" and "good_size (unat sz)" and "length szs < 120" and "p < NR_PAGES"
    and "\<forall>i \<le> length szs. cache_place p i \<noteq> cache_cache s"
  shows "\<exists>l k. kmem_cache_create nm sz s = Some (cache_place p (length szs), s\<lparr>slab_at := l, cache_at := k\<rparr>)
    \<and> caches_made p (szs @ [unat sz]) (s\<lparr>slab_at := l, cache_at := k\<rparr>)"
proof -
  let ?c = "cache_place p (length szs)" and ?a = "page_address p" and ?n = "max_objs 4096 (unat sz)"
  have fs: "first_slab (cache_cache s) ?a (?a + 256) 32 120 s (length szs)" using assms(1) by (simp add: caches_made_def)
  from take_object_next [OF fs assms(3)] first_slab_partial [OF fs] obtain u where
    u: "kmem_object_alloc (cache_cache s) s = Some (Some ?c, u)"
      "first_slab (cache_cache s) ?a (?a + 256) 32 120 u (Suc (length szs))" "pool_frame (cache_cache s) ?a s u"
    by (auto simp: cache_place_def)
  from u(3) obtain l k where uk: "u = s\<lparr>slab_at := l, cache_at := k\<rparr>" "\<forall>x. x \<noteq> cache_cache s \<longrightarrow> k x = cache_at s x"
    by (auto simp: pool_frame_def)
  have sz: "4 dvd unat sz" "0 < unat sz" "unat sz \<le> 512 \<or> unat sz = 1024" using assms(2) by (auto simp: good_size_def)
  then have al: "word_align sz = sz" using unat_word_align [of sz] by (auto simp: word_unat_eq_iff elim!: dvdE)
  have us: "unat (ucast sz :: u16) = unat sz" using sz(3) by (auto simp: unsigned_ucast_eq take_bit_nat_eq_self)
  obtain left where lay: "slab_layout cc sz = Some (0, of_nat ?n, left)" "left = of_nat (4096 - (?n * (unat sz + 2) + 16))" for cc
    using slab_layout_ok [of sz] sz(2,3) by fastforce
  have fit: "?n * (unat sz + 2) + 16 \<le> 4096" "4096 < (?n + 1) * (unat sz + 2) + 16" by (rule max_objs_fit, simp)+
  have "?n * 2 \<le> ?n * (unat sz + 2)" by simp
  with fit(1) have n: "?n * (unat sz + 2) + 16 \<le> 4096 * 2 ^ 0" "?n < 2048" by simp_all
  let ?ssz = "word_align (ucast (of_nat ?n :: u16) * SLAB_BUF_SIZE + SLAB_SLAB_STRUCT_SIZE)"
  note ssz = slab_fits [OF n(1) sz(1) n(2) sz(2)]
  obtain e es where e: "malloc_sizes s = e # es" "cs_size e = 32" using assms(1) by (auto simp: caches_made_def)
  have n0: "0 < ?n" using fit(2) sz(3) by (intro gr0I) auto
  have "\<exists>v. (if left < ?ssz then do { _ \<leftarrow> kmem_find_general_cachep ?ssz (malloc_sizes u); Some (left - ?ssz) } else Some left) = Some v"
  proof (cases "unat sz = 1024")
    case True
    then have "?n = 3" by (simp add: max_objs_def)
    then show ?thesis using lay(2) True by (simp add: word_align_def word_less_nat_alt)
  next
    case False
    have "4080 < (?n + 1) * (unat sz + 2)" using fit(2) by simp
    also have "\<dots> \<le> (?n + 1) * 514" using sz(3) False by (intro mult_left_mono) auto
    finally have "7 \<le> ?n" by simp
    then have "32 \<le> unat ?ssz" using ssz(1) by presburger
    then show ?thesis using e by (auto simp: uk(1) word_less_nat_alt)
  qed
  then obtain v where v: "(if left < ?ssz then do { _ \<leftarrow> kmem_find_general_cachep ?ssz (malloc_sizes u); Some (left - ?ssz) } else Some left) = Some v" ..
  let ?k = "\<lparr>slabs_partial = None, slabs_full = None, cache_next = None, slabp_cache = None,
       cache_name = nm, obj_size = ucast sz, slab_obj_num = of_nat ?n, slab_size = ucast ?ssz, slab_order = 0, left_over = v\<rparr>"
  have "kmem_cache_create nm sz s = Some (?c, s\<lparr>slab_at := l, cache_at := k(?c := ?k)\<rparr>)"
    unfolding kmem_cache_create_def Let_def al u(1) Option.bind.bind_lunit prod.case lay(1) v
    by (simp add: uk(1) upd_cache_def)
  moreover have "first_slab (cache_cache s) ?a (?a + 256) 32 120 (s\<lparr>slab_at := l, cache_at := k(?c := ?k)\<rparr>) (Suc (length szs))"
    using u(2) uk(1) assms(5) by (auto simp: first_slab_def)
  moreover have "cache_ready ?k (unat sz)" "0 < slab_obj_num ?k"
    using ssz(2,3) us n0 n(2) of_nat_u16_neq_0 [of ?n] by (simp_all add: cache_ready_def word_gt_0)
  moreover have "cache_place p i \<noteq> ?c \<and> k (cache_place p i) = cache_at s (cache_place p i)" if "i < length szs" for i
    using that uk(2) assms(3-5) by (simp add: cache_place_inj)
  ultimately show ?thesis
    using assms(1) e by (intro exI [of _ l] exI [of _ "k(?c := ?k)"]) (auto simp: caches_made_def nth_append less_Suc_eq)
qed

lemma caches_made_sizes:
  assumes "caches_made p szs s" and "map cs_size es = map cs_size (malloc_sizes s)"
  shows "caches_made p szs (s\<lparr>malloc_sizes := es\<rparr>)"
  using assms by (cases es) (auto simp: caches_made_def first_slab_def)

lemma create_general_ready:
  assumes "caches_made p szs s" and "i + n \<le> length (malloc_sizes s)" and "length szs + n < 120" and "p < NR_PAGES"
    and "\<forall>j < length szs + n. cache_place p j \<noteq> cache_cache s"
    and "\<forall>e \<in> set (malloc_sizes s). good_size (unat (cs_size e))"
  shows "\<exists>t. create_general n i s = Some t
    \<and> caches_made p (szs @ map (unat \<circ> cs_size) (take n (drop i (malloc_sizes s)))) t
    \<and> map cs_size (malloc_sizes t) = map cs_size (malloc_sizes s)
    \<and> cache_cache t = cache_cache s
    \<and> (\<forall>j < length (malloc_sizes s). cs_cachep (malloc_sizes t ! j)
          = (if i \<le> j \<and> j < i + n then Some (cache_place p (length szs + (j - i))) else cs_cachep (malloc_sizes s ! j)))"
  using assms
proof (induction n arbitrary: i szs s)
  case (Suc n)
  let ?e = "malloc_sizes s ! i"
  have i: "i < length (malloc_sizes s)" using Suc.prems(2) by simp
  then have "good_size (unat (cs_size ?e))" using Suc.prems(6) by simp
  from create_ready [OF Suc.prems(1) this _ Suc.prems(4), of "cs_name ?e"] Suc.prems(3,5) obtain l k where
    c: "kmem_cache_create (cs_name ?e) (cs_size ?e) s = Some (cache_place p (length szs), s\<lparr>slab_at := l, cache_at := k\<rparr>)"
      "caches_made p (szs @ [unat (cs_size ?e)]) (s\<lparr>slab_at := l, cache_at := k\<rparr>)" by auto
  let ?ms = "(malloc_sizes s)[i := ?e\<lparr>cs_cachep := Some (cache_place p (length szs))\<rparr>]"
  let ?s = "s\<lparr>slab_at := l, cache_at := k, malloc_sizes := ?ms\<rparr>"
  have sz: "map cs_size ?ms = map cs_size (malloc_sizes s)"
    by (rule nth_equalityI) (auto simp: nth_update_if)
  have made: "caches_made p (szs @ [unat (cs_size ?e)]) ?s" using caches_made_sizes [OF c(2)] sz by simp
  have good: "\<forall>e \<in> set (malloc_sizes ?s). good_size (unat (cs_size e))"
    using Suc.prems(6) i by (auto dest!: set_update_subset_insert [THEN subsetD])
  let ?szs = "szs @ [unat (cs_size ?e)]"
  have pre: "Suc i + n \<le> length (malloc_sizes ?s)" "length ?szs + n < 120" "\<forall>j < length ?szs + n. cache_place p j \<noteq> cache_cache ?s"
    using Suc.prems(2,3,5) by simp_all
  from Suc.IH [OF made pre(1,2) Suc.prems(4) pre(3) good] obtain t where
    t: "create_general n (Suc i) ?s = Some t"
      "caches_made p (?szs @ map (unat \<circ> cs_size) (take n (drop (Suc i) (malloc_sizes ?s)))) t"
      "map cs_size (malloc_sizes t) = map cs_size (malloc_sizes ?s)" "cache_cache t = cache_cache ?s"
      "\<forall>j < length (malloc_sizes ?s). cs_cachep (malloc_sizes t ! j)
          = (if Suc i \<le> j \<and> j < Suc i + n then Some (cache_place p (length ?szs + (j - Suc i))) else cs_cachep (malloc_sizes ?s ! j))"
    by blast
  have "create_general (Suc n) i s = Some t" using i c(1) t(1) by simp
  moreover have "take (Suc n) (drop i (malloc_sizes s)) = ?e # take n (drop (Suc i) ?ms)"
    using i by (simp add: Cons_nth_drop_Suc [symmetric])
  moreover have "cs_cachep (malloc_sizes t ! j)
      = (if i \<le> j \<and> j < i + Suc n then Some (cache_place p (length szs + (j - i))) else cs_cachep (malloc_sizes s ! j))"
    if "j < length (malloc_sizes s)" for j
  proof -
    have "length ?szs + (j - Suc i) = length szs + (j - i)" if "i < j" using that by simp
    then show ?thesis using t(5) that i by (auto simp: nth_update_if not_less_eq_eq)
  qed
  ultimately show ?case using t(2-4) sz by (intro exI [of _ t]) (simp add: comp_def)
qed auto

lemma pool_frame_const:
  assumes "pool_frame c a s t"
  shows "cache_cache t = cache_cache s" and "malloc_sizes t = malloc_sizes s" and "pages t = pages s"
  using assms by (auto simp: pool_frame_def)

lemma init_cache_cache:
  assumes "slabs_partial (cache_at s (cache_cache s)) = None" and "alloc_pages 0 (pages s) = Some (Some p, b)"
  shows "\<exists>t. init_kmem_cache_cache s = Some t \<and> cache_cache t = cache_cache s
    \<and> first_slab (cache_cache s) (page_address p) (page_address p + 256) 32 120 t 0"
proof -
  let ?k = "(cache_at s (cache_cache s))\<lparr>obj_size := 32, slab_order := 0, cache_name := ''cache_cache'', slabp_cache := None,
    slabs_full := None, slab_obj_num := 120, slab_size := 256\<rparr>"
  let ?s = "s\<lparr>cache_at := (cache_at s)(cache_cache s := ?k)\<rparr>"
  have e: "cache_estimate 0 32 = Some (120, 0)" using cache_estimate_eq [of 0 32] by (simp add: max_objs_def)
  have i: "init_kmem_cache_cache s = slab_create (cache_cache s) ?s"
    by (simp add: init_kmem_cache_cache_def e Let_def upd_cache_def)
  have "\<exists>t. slab_create (cache_cache s) ?s = Some t
    \<and> first_slab (cache_cache s) (page_address p) (page_address p + 256) 32 120 t 0
    \<and> pool_frame (cache_cache s) (page_address p) (?s\<lparr>pages := pages t\<rparr>) t"
    using slab_create_first [of ?s "cache_cache s" 120 p b] assms by auto
  then obtain t where t: "slab_create (cache_cache s) ?s = Some t"
    "first_slab (cache_cache s) (page_address p) (page_address p + 256) 32 120 t 0"
    "pool_frame (cache_cache s) (page_address p) (?s\<lparr>pages := pages t\<rparr>) t" by blast
  moreover have "cache_cache t = cache_cache s" using pool_frame_const(1) [OF t(3)] by simp
  ultimately show ?thesis using i by auto
qed

text \<open>The sizes of the caches the kernel makes, in the order in which it makes them.\<close>

definition kernel_sizes :: "nat list" where
  "kernel_sizes = [32, 64, 128, 256, 512, 1024, 68, 44, 464, 24, 64]"

lemma caches_made_ptrs:
  "caches_made p szs (u\<lparr>mm_cachep := x\<rparr>) \<longleftrightarrow> caches_made p szs u"
  "caches_made p szs (u\<lparr>vm_area_cachep := x\<rparr>) \<longleftrightarrow> caches_made p szs u"
  "caches_made p szs (u\<lparr>task_struct_cachep := x\<rparr>) \<longleftrightarrow> caches_made p szs u"
  "caches_made p szs (u\<lparr>filp_cachep := x\<rparr>) \<longleftrightarrow> caches_made p szs u"
  by (simp_all add: caches_made_def first_slab_def)

text \<open>What creating a cache does not change.\<close>

definition tables :: "slabs \<Rightarrow> u32 \<times> cache_sizes_struct list \<times> u32 option list" where
  "tables s = (cache_cache s, malloc_sizes s, [mm_cachep s, vm_area_cachep s, task_struct_cachep s, filp_cachep s, inode_cachep s])"

text \<open>From an unused \<open>cache_cache\<close> and a free page all caches are made.\<close>

lemma cache_init_all:
  assumes "slabs_partial (cache_at s (cache_cache s)) = None" and "alloc_pages 0 (pages s) = Some (Some p, b)"
    and "\<forall>i < 11. cache_place p i \<noteq> cache_cache s"
  shows "\<exists>t. kmem_cache_init s = Some t
    \<and> map cs_size (malloc_sizes t) = [32, 64, 128, 256, 512, 1024]
    \<and> map cs_cachep (malloc_sizes t) = map (\<lambda>i. Some (cache_place p i)) [0..<6]
    \<and> mm_cachep t = Some (cache_place p 6) \<and> vm_area_cachep t = Some (cache_place p 7)
    \<and> task_struct_cachep t = Some (cache_place p 8) \<and> filp_cachep t = Some (cache_place p 9)
    \<and> inode_cachep t = Some (cache_place p 10)
    \<and> distinct (map (cache_place p) [0..<11])
    \<and> (\<forall>i < 11. cache_ready (cache_at t (cache_place p i)) (kernel_sizes ! i)
          \<and> 0 < slab_obj_num (cache_at t (cache_place p i)))"
proof -
  have p: "p < NR_PAGES" using alloc_pages_bound [of 0 "pages s" p b] assms(2) by (simp add: alloc_pages_def)
  from init_cache_cache [OF assms(1,2)] obtain s0 where
    s0: "init_kmem_cache_cache s = Some s0" "cache_cache s0 = cache_cache s"
      "first_slab (cache_cache s) (page_address p) (page_address p + 256) 32 120 s0 0" by blast
  let ?s0 = "s0\<lparr>malloc_sizes := general_sizes\<rparr>"
  have made: "caches_made p [] ?s0" using s0(2,3) by (simp add: caches_made_def first_slab_def general_sizes_def)
  have good: "\<forall>e \<in> set (malloc_sizes ?s0). good_size (unat (cs_size e))" by (simp add: general_sizes_def good_size_def)
  have gen: "length general_sizes = 6" "map (\<lambda>e. unat (cs_size e)) general_sizes = [32, 64, 128, 256, 512, 1024]"
    "map cs_size general_sizes = [32, 64, 128, 256, 512, 1024]" by (simp_all add: general_sizes_def)
  have "\<exists>t. create_general 6 0 ?s0 = Some t \<and> caches_made p [32, 64, 128, 256, 512, 1024] t
      \<and> map cs_size (malloc_sizes t) = [32, 64, 128, 256, 512, 1024] \<and> cache_cache t = cache_cache s
      \<and> (\<forall>j < 6. cs_cachep (malloc_sizes t ! j) = Some (cache_place p j))"
    using create_general_ready [OF made _ _ p _ good, of 0 6] assms(3) s0(2) gen by (simp add: comp_def)
  then obtain g where g: "create_general 6 0 ?s0 = Some g" "caches_made p [32, 64, 128, 256, 512, 1024] g"
    "map cs_size (malloc_sizes g) = [32, 64, 128, 256, 512, 1024]" "cache_cache g = cache_cache s"
    "\<forall>j < 6. cs_cachep (malloc_sizes g ! j) = Some (cache_place p j)" by (elim exE conjE)
  have len: "length (malloc_sizes g) = 6" using arg_cong [OF g(3), of length] by simp
  have step: "\<exists>u'. kmem_cache_create nm sz u = Some (cache_place p n, u') \<and> caches_made p (szs @ [unat sz]) u' \<and> tables u' = tables u"
    if "caches_made p szs u" "good_size (unat sz)" "n < 11" "cache_cache u = cache_cache s" "length szs = n" for nm sz u szs n
    using create_ready [OF that(1,2) _ p, of nm] that(3-5) assms(3) by (fastforce simp: tables_def)
  let ?six = "[32, 64, 128, 256, 512, 1024] :: nat list"
  obtain u1 where u1: "kmem_cache_create ''mm_cachep'' 68 g = Some (cache_place p 6, u1)" "caches_made p (?six @ [68]) u1" "tables u1 = tables g"
    using step [OF g(2), of 68 6 "''mm_cachep''"] g(4) by (auto simp: good_size_def)
  let ?u1 = "u1\<lparr>mm_cachep := Some (cache_place p 6)\<rparr>"
  obtain u2 where u2: "kmem_cache_create ''vm_area_cachep'' 44 ?u1 = Some (cache_place p 7, u2)" "caches_made p (?six @ [68, 44]) u2" "tables u2 = tables ?u1"
    using step [of "?six @ [68]" ?u1 44 7 "''vm_area_cachep''"] u1 g(4) by (auto simp: good_size_def caches_made_ptrs tables_def)
  let ?u2 = "u2\<lparr>vm_area_cachep := Some (cache_place p 7)\<rparr>"
  obtain u3 where u3: "kmem_cache_create ''task_cachep'' 464 ?u2 = Some (cache_place p 8, u3)" "caches_made p (?six @ [68, 44, 464]) u3" "tables u3 = tables ?u2"
    using step [of "?six @ [68, 44]" ?u2 464 8 "''task_cachep''"] u1 u2 g(4) by (auto simp: good_size_def caches_made_ptrs tables_def)
  let ?u3 = "u3\<lparr>task_struct_cachep := Some (cache_place p 8)\<rparr>"
  obtain u4 where u4: "kmem_cache_create ''file_cachep'' 24 ?u3 = Some (cache_place p 9, u4)" "caches_made p (?six @ [68, 44, 464, 24]) u4" "tables u4 = tables ?u3"
    using step [of "?six @ [68, 44, 464]" ?u3 24 9 "''file_cachep''"] u1 u2 u3 g(4) by (auto simp: good_size_def caches_made_ptrs tables_def)
  let ?u4 = "u4\<lparr>filp_cachep := Some (cache_place p 9)\<rparr>"
  obtain u5 where u5: "kmem_cache_create ''inode_cachep'' 64 ?u4 = Some (cache_place p 10, u5)" "caches_made p kernel_sizes u5" "tables u5 = tables ?u4"
    using step [of "?six @ [68, 44, 464, 24]" ?u4 64 10 "''inode_cachep''"] u1 u2 u3 u4 g(4)
    by (auto simp: good_size_def caches_made_ptrs tables_def kernel_sizes_def)
  have "kmem_cache_init s = Some (u5\<lparr>inode_cachep := Some (cache_place p 10)\<rparr>)"
    by (simp add: kmem_cache_init_def s0(1) g(1) u1(1) u2(1) u3(1) u4(1) u5(1) Let_def)
  moreover have "map cs_cachep (malloc_sizes g) = map (\<lambda>i. Some (cache_place p i)) [0..<6]"
    using g(5) len by (intro nth_equalityI) simp_all
  moreover have "distinct (map (cache_place p) [0..<11])"
    using cache_place_inj [OF p] by (auto simp: distinct_map inj_on_def)
  moreover have "length kernel_sizes = 11" by (simp add: kernel_sizes_def)
  ultimately show ?thesis
    using g(3) u1(3) u2(3) u3(3) u4(3) u5(2,3) by (auto simp: tables_def caches_made_def)
qed

subsection \<open>Witnesses\<close>

text \<open>A cache at 0x2000 with objects of 512 bytes, \<open>cache_cache\<close> at 0x1000, and the slab at
  page 16 of both, with \<open>k\<close> of \<open>n\<close> objects in use; without a slab when \<open>n = 0\<close>.\<close>

definition sample_cache :: "nat \<Rightarrow> nat \<Rightarrow> u16 \<Rightarrow> u16 \<Rightarrow> kmem_cache_struct" where
  "sample_cache k n sz ssz = \<lparr>slabs_partial = (if n = 0 then None else Some 0x10000), slabs_full = (if n = 0 \<or> k < n then None else Some 0x10000),
     cache_next = None, slabp_cache = None, cache_name = '''', obj_size = sz, slab_obj_num = (if n = 0 then 7 else of_nat n), slab_size = ssz, slab_order = 0, left_over = 0\<rparr>"

definition sample_slabs :: "nat \<Rightarrow> nat \<Rightarrow> u16 \<Rightarrow> u16 \<Rightarrow> slabs" where
  "sample_slabs k n sz ssz = \<lparr>pages = two_blocks\<lparr>mem_map := (mem_map two_blocks)(16 := (mem_map two_blocks 16)
       \<lparr>pg_prev := to_page_ptr 0x10000, pg_next := to_page_ptr 0x2000\<rparr>)\<rparr>,
     slab_at = (\<lambda>_. \<lparr>sl_next = Some 0x10000, sl_prev = Some 0x10000, obj_mem = 0x10000 + ucast ssz,
       free_idx = (if k < n then of_nat k else SLAB_END), free_num = of_nat (n - k), bufctl = fresh_ctl n\<rparr>),
     cache_at = (\<lambda>_. sample_cache k n sz ssz), cache_cache = 0x1000, malloc_sizes = map (\<lambda>e. e\<lparr>cs_cachep := Some 0x2000\<rparr>) general_sizes,
     mm_cachep = None, vm_area_cachep = None, task_struct_cachep = None, filp_cachep = None, inode_cachep = None\<rparr>"

lemmas sample_slab_defs = sample_slabs_def sample_cache_def

lemma sample_first_slab:
  assumes "k \<le> n" and "0 < n" and "n < 65535"
  shows "first_slab c 0x10000 (0x10000 + ucast ssz) sz n (sample_slabs k n sz ssz) k"
  using assms by (auto simp: first_slab_def sample_slab_defs)

lemma sample_alloc: "\<exists>b. alloc_pages 0 (pages (sample_slabs k n sz ssz)) = Some (Some 4098, b)"
proof -
  let ?s = "pages (sample_slabs k n sz ssz)"
  have "buddy_ok ?s ((\<lambda>_. [])(0 := [4096, 4098]))"
    using two_blocks_ok by (auto simp: buddy_ok_def area_ring_def sample_slab_defs two_blocks_def)
  from alloc_exact_links [OF this, of 0 4096 "[4098]"] show ?thesis by (auto simp: alloc_pages_def)
qed

theorem cache_objects_in_order_witness:
  "\<exists>t. alloc_many (kmem_object_alloc 0x2000) 9 (sample_slabs 0 0 512 32)
      = Some (map (\<lambda>i. if i < 7 then Some (slab_obj (sample_cache 0 0 512 32) 4098 i) else None) [0..<9], t)"
proof -
  obtain b where "alloc_pages 0 (pages (sample_slabs 0 0 512 32)) = Some (Some 4098, b)" using sample_alloc by blast
  moreover have "cache_at (sample_slabs 0 0 512 32) 0x2000 = sample_cache 0 0 512 32" by (simp add: sample_slabs_def)
  moreover have "slabs_partial (sample_cache 0 0 512 32) = None" "slabs_full (sample_cache 0 0 512 32) = None"
    "slabp_cache (sample_cache 0 0 512 32) = None" "slab_obj_num (sample_cache 0 0 512 32) = 7"
    "slab_size (sample_cache 0 0 512 32) = 32" "obj_size (sample_cache 0 0 512 32) = 512" "slab_order (sample_cache 0 0 512 32) = 0"
    by (simp_all add: sample_cache_def)
  ultimately show ?thesis
    using cache_objects_in_order [of "sample_slabs 0 0 512 32" "0x2000" 4098 b 9] by (simp cong: if_cong)
qed

theorem free_hands_out_used_object_witness:
  "\<exists>t u v. kmem_object_free 0x2000 (0x10020 + of_nat 0 * ucast (512 :: u16)) (sample_slabs 3 7 512 32) = Some t
    \<and> kmem_object_alloc 0x2000 t = Some (Some (0x10020 + of_nat 0 * ucast (512 :: u16)), u)
    \<and> kmem_object_alloc 0x2000 u = Some (Some (0x10020 + of_nat (0 + 1) * ucast (512 :: u16)), v)"
proof (rule free_hands_out_used_object)
  show "first_slab 0x2000 0x10000 0x10020 512 7 (sample_slabs 3 7 512 32) 3"
    using sample_first_slab [of 3 7 "0x2000" 32 512] by simp
  show "slab_pages 0x2000 0x10000 (unat (drop_bit 12 (0x10020 + of_nat 0 * ucast (512 :: u16) :: u32))) 1 (sample_slabs 3 7 512 32)"
    by (simp add: slab_pages_def sample_slab_defs)
qed simp_all

theorem free_full_slab_faults_witness: "kmem_object_free 0x2000 0x10020 (sample_slabs 7 7 512 32) = None"
  by (rule free_full_slab_faults [OF sample_first_slab [of 7 7 "0x2000" 32 512]])
     (simp_all add: slab_pages_def sample_slab_defs)

theorem kmalloc_smallest_witness:
  "\<exists>i < 6. kmalloc 100 (sample_slabs 0 0 512 32)
      = kmem_object_alloc ([0x2000, 0x2000, 0x2000, 0x2000, 0x2000, 0x2000] ! i) (sample_slabs 0 0 512 32)"
proof -
  have "map cs_size (malloc_sizes (sample_slabs 0 0 512 32)) = [32, 64, 128, 256, 512, 1024]"
    "map cs_cachep (malloc_sizes (sample_slabs 0 0 512 32)) = map Some [0x2000, 0x2000, 0x2000, 0x2000, 0x2000, 0x2000]"
    by (simp_all add: sample_slab_defs general_sizes_def)
  from kmalloc_smallest [OF this, of 100] show ?thesis by (auto simp del: nth_Cons_numeral)
qed

theorem cache_create_fits_witness:
  "\<exists>c t. kmem_cache_create ''mm'' 68 (sample_slabs 0 120 32 256) = Some (c, t) \<and> cache_ready (cache_at t c) 68
     \<and> unat (slab_obj_num (cache_at t c)) = 58 \<and> slab_order (cache_at t c) = 0"
proof -
  have "caches_made 16 [] (sample_slabs 0 120 32 256)"
    using sample_first_slab [of 0 120 "0x1000" 256 32]
    by (simp add: caches_made_def sample_slab_defs general_sizes_def page_address_nat)
  then obtain c t where "kmem_cache_create ''mm'' 68 (sample_slabs 0 120 32 256) = Some (c, t)"
    using create_ready [of 16 "[]" "sample_slabs 0 120 32 256" 68 "''mm''"]
    by (force simp: good_size_def cache_place_def page_address_nat sample_slab_defs)
  with cache_create_fits [OF this] show ?thesis by auto
qed

subsection \<open>Set-up of the memory\<close>

text \<open>The whole of \<open>mem_init\<close>: the page allocator, then the caches.\<close>

definition mem_init :: "u32 \<Rightarrow> u32 \<Rightarrow> slabs \<Rightarrow> slabs option" where
  "mem_init start_mem end_mem s = do {
     b \<leftarrow> mem_init_pages start_mem end_mem (pages s);
     kmem_cache_init (s\<lparr>pages := b\<rparr>) }"

lemma alloc_first_boot_page:
  assumes "buddy_ok t (boot_blocks 8 23)"
  shows "\<exists>b. alloc_pages 0 t = Some (Some 2052, b)"
proof -
  have r: "length (free_area t) = 9" "area_ring t 0 []" "area_ring t 1 []" "area_ring t 2 [2052]"
    using assms by (auto simp: buddy_ok_def boot_blocks_def dest: spec [of _ 0] spec [of _ 1] spec [of _ 2])
  then have a: "free_area t ! 0 = \<lparr>free_list = None, nr_free = 0\<rparr>" "free_area t ! 1 = \<lparr>free_list = None, nr_free = 0\<rparr>"
    "free_area t ! 2 = \<lparr>free_list = Some 2052, nr_free = 1\<rparr>"
    "pg_next (mem_map t 2052) = Some 2052" "pg_prev (mem_map t 2052) = Some 2052"
    by (simp_all add: area_ring_def)
  have z: "\<forall>j. 0 \<le> j \<and> j < 2 \<longrightarrow> nr_free (free_area t ! j) = 0" using a by (auto simp: less_2_cases_iff)
  have e: "expand 0 2 2052 s = do {
      s \<leftarrow> set_orders (Suc 0) 2054 (Suc 0) s; s \<leftarrow> add_free_area 2054 (Suc 0) s; add_free_area 2053 0 s }" for s
  proof -
    have "expand 0 2 2052 s = expand_loop 0 (Suc (Suc 0)) 4 2052 s" by (simp add: expand_def numeral_2_eq_2 [symmetric])
    moreover have "expand_loop 0 (Suc 0) 2 2052 = add_free_area 2053 0" by (rule ext) (simp split: bind_splits)
    ultimately show ?thesis by simp
  qed
  have "\<exists>b. take_block 0 2 t = Some (2052, b)"
    using r(1) a
    by (simp add: take_block_def Let_def page_at_def upd_area_def upd_page_def e add_free_area_def nth_list_update)
  then show ?thesis using alloc_first_order [OF z] r(1) a(3) by (auto simp: alloc_pages_def)
qed

lemma mem_init_ready:
  assumes "free_area (pages s) = replicate MAX_ORDER \<lparr>free_list = None, nr_free = 0\<rparr>"
    and "slabs_partial (cache_at s (cache_cache s)) = None" and "\<forall>i < 11. cache_place 2052 i \<noteq> cache_cache s"
  shows "\<exists>t. mem_init 0x804000 0x2000000 s = Some t
    \<and> map cs_cachep (malloc_sizes t) = map (\<lambda>i. Some (cache_place 2052 i)) [0..<6]
    \<and> [mm_cachep t, vm_area_cachep t, task_struct_cachep t, filp_cachep t, inode_cachep t]
        = map (\<lambda>i. Some (cache_place 2052 i)) [6..<11]
    \<and> distinct (map (cache_place 2052) [0..<11])
    \<and> (\<forall>i < 11. cache_ready (cache_at t (cache_place 2052 i)) (kernel_sizes ! i)
          \<and> 0 < slab_obj_num (cache_at t (cache_place 2052 i)))"
proof -
  from mem_init_boot [OF assms(1)] obtain u where
    u: "mem_init_pages 0x804000 0x2000000 (pages s) = Some u" "buddy_ok u (boot_blocks 8 23)" by blast
  from alloc_first_boot_page [OF u(2)] obtain b where b: "alloc_pages 0 u = Some (Some 2052, b)" by blast
  show ?thesis
    using cache_init_all [of "s\<lparr>pages := u\<rparr>" 2052 b] b u(1) assms(2,3) by (auto simp: mem_init_def upt_rec)
qed

text \<open>
  \<open>mem_init\<close>, with the arguments the kernel passes, ends: from the cleared variables of the
  kernel it sets up the page allocator, takes page 2052 for the descriptors of the caches and
  makes all caches there, ready for use.
\<close>
theorem mem_init_makes_caches:
  assumes "free_area (pages s) = replicate MAX_ORDER \<lparr>free_list = None, nr_free = 0\<rparr>"
    and "slabs_partial (cache_at s (cache_cache s)) = None" and "\<forall>i < 11. cache_place 2052 i \<noteq> cache_cache s"
  shows "\<exists>t. mem_init 0x804000 0x2000000 s = Some t
    \<and> map cs_cachep (malloc_sizes t) = map (\<lambda>i. Some (cache_place 2052 i)) [0..<6]
    \<and> [mm_cachep t, vm_area_cachep t, task_struct_cachep t, filp_cachep t, inode_cachep t]
        = map (\<lambda>i. Some (cache_place 2052 i)) [6..<11]
    \<and> distinct (map (cache_place 2052) [0..<11])
    \<and> (\<forall>i < 11. cache_ready (cache_at t (cache_place 2052 i)) (kernel_sizes ! i)
          \<and> 0 < slab_obj_num (cache_at t (cache_place 2052 i)))"
  using assms by (rule mem_init_ready)

theorem mem_init_makes_caches_witness:
  "\<exists>t. mem_init 0x804000 0x2000000 ((sample_slabs 0 0 512 32)\<lparr>pages := empty_buddy 0\<rparr>) = Some t"
proof -
  have "unat (cache_place 2052 i) \<noteq> 0x1000" if "i < 11" for i
  proof -
    have "cache_place 2052 i = of_nat (2052 * 4096 + 256 + i * 32)" by (simp add: cache_place_def page_address_nat)
    then show ?thesis using that by (simp only: unat_of_nat) simp
  qed
  then have "\<forall>i < 11. cache_place 2052 i \<noteq> cache_cache ((sample_slabs 0 0 512 32)\<lparr>pages := empty_buddy 0\<rparr>)"
    by (force simp: sample_slab_defs)
  with mem_init_makes_caches [of "(sample_slabs 0 0 512 32)\<lparr>pages := empty_buddy 0\<rparr>"] show ?thesis
    by (auto simp: sample_slab_defs empty_buddy_def)
qed

end
