(* ===== verification/Bytes.thy ===== *)
theory Bytes
  imports Prelude
begin

unbundle bit_operations_syntax

section \<open>Words as bytes\<close>

text \<open>
  How 16-bit and 32-bit words lie in memory and on disk: the lowest byte first. The theory has
  the encoding as lists of bytes, which the blocks of the file system use, and memory as
  bytes that are read and written as words, which page tables use.
\<close>

subsection \<open>Lists of bytes\<close>

definition bytes16 :: "u16 \<Rightarrow> u8 list" where
  "bytes16 w = [ucast w, ucast (drop_bit 8 w)]"

definition bytes32 :: "u32 \<Rightarrow> u8 list" where
  "bytes32 w = [ucast w, ucast (drop_bit 8 w), ucast (drop_bit 16 w), ucast (drop_bit 24 w)]"

definition word16 :: "u8 list \<Rightarrow> nat \<Rightarrow> u16" where
  "word16 d i = ucast (d ! i) OR push_bit 8 (ucast (d ! (i + 1)))"

definition word32 :: "u8 list \<Rightarrow> nat \<Rightarrow> u32" where
  "word32 d i = ucast (d ! i) OR push_bit 8 (ucast (d ! (i + 1)))
     OR push_bit 16 (ucast (d ! (i + 2))) OR push_bit 24 (ucast (d ! (i + 3)))"

lemma word16_bytes16 [simp]: "word16 (bytes16 w @ d) 0 = w"
  by (rule bit_eqI) (auto simp: word16_def bytes16_def bit_simps)

lemma ucast_byte: "(ucast (ucast (drop_bit n (w :: u32)) :: u8) :: u32) = take_bit 8 (drop_bit n w)"
  by (simp add: unsigned_ucast_eq)

lemma word32_bytes32 [simp]: "word32 (bytes32 w @ d) 0 = w"
proof (rule bit_word_eqI)
  fix i assume "i < LENGTH(32)"
  then have "i < 32" by simp
  then consider "i < 8" | "8 \<le> i \<and> i < 16" | "16 \<le> i \<and> i < 24" | "24 \<le> i \<and> i < 32" by linarith
  then show "bit (word32 (bytes32 w @ d) 0) i = bit w i"
    by cases (auto simp: word32_def bytes32_def bit_simps)
qed

lemma length_bytes [simp]: "length (bytes16 v) = 2" "length (bytes32 w) = 4"
  by (simp_all add: bytes16_def bytes32_def)

lemma word16_skip: "k = length a \<Longrightarrow> word16 (a @ d) (k + i) = word16 d i"
  by (simp add: word16_def nth_append)

lemma word32_skip: "k = length a \<Longrightarrow> word32 (a @ d) (k + i) = word32 d i"
  by (simp add: word32_def nth_append)

subsection \<open>Memory\<close>

type_synonym ram = "u32 \<Rightarrow> u8"

definition rd32 :: "ram \<Rightarrow> u32 \<Rightarrow> u32" where
  "rd32 m a = word32 [m a, m (a + 1), m (a + 2), m (a + 3)] 0"

definition wr32 :: "u32 \<Rightarrow> u32 \<Rightarrow> ram \<Rightarrow> ram" where
  "wr32 a w m = m(a := ucast w, a + 1 := ucast (drop_bit 8 w), a + 2 := ucast (drop_bit 16 w), a + 3 := ucast (drop_bit 24 w))"

lemma rd32_wr32_same [simp]: "rd32 (wr32 a w m) a = w"
  using word32_bytes32 [of w "[]"] by (simp add: rd32_def wr32_def bytes32_def)

lemma wr32_byte:
  assumes "4 dvd unat a" and "unat a \<le> unat b \<longrightarrow> unat a + 4 \<le> unat b"
  shows "wr32 a w m b = m b"
proof -
  have "unat a \<le> 2 ^ 32 - 4" using assms(1) unat_u32_bound [of a] by (auto elim!: dvdE)
  then have "unat (a + 1) = unat a + 1" "unat (a + 2) = unat a + 2" "unat (a + 3) = unat a + 3"
    by (simp_all add: unat_word_ariths)
  then have "b \<noteq> a" "b \<noteq> a + 1" "b \<noteq> a + 2" "b \<noteq> a + 3" using assms(2) by auto
  then show ?thesis by (simp add: wr32_def)
qed

lemma rd32_wr32_other:
  assumes "4 dvd unat a" and "4 dvd unat b" and "a \<noteq> b"
  shows "rd32 (wr32 a w m) b = rd32 m b"
proof -
  obtain x y where xy: "unat a = 4 * x" "unat b = 4 * y" using assms(1,2) by (auto elim!: dvdE)
  then have "x \<noteq> y" using assms(3) by (auto simp: word_unat_eq_iff)
  have "4 * y < 2 ^ 32" using xy(2) unat_u32_bound [of b] by simp
  then have "unat (b + 1) = 4 * y + 1" "unat (b + 2) = 4 * y + 2" "unat (b + 3) = 4 * y + 3"
    using xy(2) by (simp_all add: unat_word_ariths)
  then have "wr32 a w m c = m c" if "c \<in> {b, b + 1, b + 2, b + 3}" for c
    using that xy \<open>x \<noteq> y\<close> assms(1) by (intro wr32_byte) auto
  then show ?thesis by (simp add: rd32_def)
qed

text \<open>A list of bytes stored from an address on.\<close>

fun put_ram :: "u32 \<Rightarrow> u8 list \<Rightarrow> ram \<Rightarrow> ram" where
  "put_ram a [] m = m"
| "put_ram a (d # bytes) m = put_ram (a + 1) bytes (m(a := d))"

lemma put_ram_apply:
  "unat a + length bs < 2 ^ 32 \<Longrightarrow>
   put_ram a bs m x = (if unat a \<le> unat x \<and> unat x < unat a + length bs then bs ! (unat x - unat a) else m x)"
proof (induction bs arbitrary: a m)
  case (Cons b bs)
  have "unat (a + 1) = unat a + 1" using Cons.prems by (simp add: unat_add1_u32)
  then have "put_ram a (b # bs) m x = (if unat a + 1 \<le> unat x \<and> unat x < unat a + 1 + length bs
      then bs ! (unat x - (unat a + 1)) else (m(a := b)) x)"
    using Cons by simp
  also have "\<dots> = (if unat a \<le> unat x \<and> unat x < unat a + length (b # bs) then (b # bs) ! (unat x - unat a) else m x)"
    by (auto simp: nth_Cons' word_unat_eq_iff)
  finally show ?case .
qed auto

lemma put_ram_read:
  assumes "unat a + length bs < 2 ^ 32" and "i < length bs"
  shows "put_ram a bs m (a + of_nat i) = bs ! i"
proof -
  have "unat (a + of_nat i) = unat a + i" using assms by (simp add: unat_word_ariths unat_of_nat)
  then show ?thesis using put_ram_apply [OF assms(1)] assms(2) by simp
qed

end
