(* ===== verification/Paging.thy ===== *)
theory Paging
  imports Buddy Bytes
begin

unbundle bit_operations_syntax

section \<open>Page tables\<close>

text \<open>
  Models the operations on page tables of mm/memory.c (\<open>do_wp_page\<close>, \<open>paging_init\<close>) and of
  mm/vmalloc.c (\<open>unmap_page_range\<close>, \<open>zeromap_page_range\<close> and the loop of \<open>copy_page_tables\<close>),
  with the macros of include/mm/pagetable.h. The kernel's page directory is at address 0, and
  the kernel reaches every frame under its own address, so tables are words of \<open>ram\<close> at their
  physical address. The state is this memory with the page allocator.

  The specification is the walk of the memory management unit: \<open>pte_of\<close> is the table entry
  for an address if both levels are present. Shown: how a write fault copies a shared page and
  changes no other mapping; that the copied tables of a child map the same frames; and where
  clearing and filling tables touches more than the area.
\<close>

subsection \<open>Data\<close>

abbreviation PAGE_ATTR :: u32 where "PAGE_ATTR \<equiv> 7"
abbreviation PAGE_US :: u32 where "PAGE_US \<equiv> 4"
abbreviation PAGE_ENTRY_NUMBER :: nat where "PAGE_ENTRY_NUMBER \<equiv> 1024"
abbreviation FRAME_MASK :: u32 where "FRAME_MASK \<equiv> 0xfffff000"

record paging =
  ram :: ram
  frames :: buddy

definition pgd_index :: "u32 \<Rightarrow> u32" where
  "pgd_index vaddr = drop_bit 22 vaddr * 4"

definition pte_index :: "u32 \<Rightarrow> u32" where
  "pte_index vaddr = (drop_bit 12 vaddr AND 0x3ff) * 4"

definition frame_addr :: "nat \<Rightarrow> u32" where
  "frame_addr p = push_bit PAGE_SHIFT (of_nat p)"

abbreviation get :: "u32 \<Rightarrow> paging \<Rightarrow> u32" where "get a s \<equiv> rd32 (ram s) a"

definition put :: "u32 \<Rightarrow> u32 \<Rightarrow> paging \<Rightarrow> paging" where
  "put a w s = s\<lparr>ram := wr32 a w (ram s)\<rparr>"

text \<open>A page that must be there: the code uses the result without a test.\<close>

definition new_frame :: "paging \<Rightarrow> (nat \<times> paging) option" where
  "new_frame s = do {
     (r, b) \<leftarrow> alloc_one_page (frames s);
     p \<leftarrow> r;
     Some (p, s\<lparr>frames := b\<rparr>) }"

definition upd_frame :: "nat \<Rightarrow> (page \<Rightarrow> page) \<Rightarrow> paging \<Rightarrow> paging option" where
  "upd_frame p f s = do { b \<leftarrow> upd_page p f (frames s); Some (s\<lparr>frames := b\<rparr>) }"

subsection \<open>Write faults\<close>

text \<open>\<open>rep movsb\<close>: bytes are copied upwards, one after the other.\<close>

fun copy_bytes :: "nat \<Rightarrow> u32 \<Rightarrow> u32 \<Rightarrow> ram \<Rightarrow> ram" where
  "copy_bytes 0 from to m = m"
| "copy_bytes (Suc n) from to m = copy_bytes n (from + 1) (to + 1) (m(to := m from))"

definition copy_page :: "u32 \<Rightarrow> u32 \<Rightarrow> paging \<Rightarrow> paging" where
  "copy_page from to s = s\<lparr>ram := copy_bytes 4096 from to (ram s)\<rparr>"

definition do_wp_page :: "u32 \<Rightarrow> paging \<Rightarrow> paging option" where
  "do_wp_page vaddr s = do {
     let pgd_entry = pgd_index vaddr;
     let pte_entry = (get pgd_entry s AND FRAME_MASK) + pte_index vaddr;
     let old = unat (drop_bit PAGE_SHIFT (get pte_entry s));
     page \<leftarrow> page_at old (frames s);
     if pg_count page = 1 then Some (put pte_entry (get pte_entry s OR PAGE_RWE) s)
     else do {
       s \<leftarrow> upd_frame old (\<lambda>g. g\<lparr>pg_count := pg_count g - 1\<rparr>) s;
       (new, s) \<leftarrow> new_frame s;
       s \<leftarrow> upd_frame new (\<lambda>g. g\<lparr>pg_count := pg_count g + 1\<rparr>) s;
       let s = put pte_entry (frame_addr new OR PAGE_ATTR) s;
       Some (copy_page (frame_addr old) (frame_addr new) s) } }"

subsection \<open>Releasing, clearing and copying tables\<close>

fun unmap_entries :: "nat \<Rightarrow> u32 \<Rightarrow> paging \<Rightarrow> paging option" where
  "unmap_entries 0 pte_addr s = Some s"
| "unmap_entries (Suc n) pte_addr s = do {
     s \<leftarrow> (let e = get pte_addr s in
       if e \<noteq> 0
       then do {
         s \<leftarrow> (if e AND 1 \<noteq> 0
           then do {
             let p = unat (drop_bit 12 e);
             g \<leftarrow> page_at p (frames s);
             (_, b) \<leftarrow> do_free_pages p (unat (pg_order g)) (frames s);
             Some (s\<lparr>frames := b\<rparr>) }
           else Some s);
         Some (put pte_addr 0 s) }
       else Some s);
     unmap_entries n (pte_addr + 4) s }"

fun unmap_tables :: "nat \<Rightarrow> u32 \<Rightarrow> paging \<Rightarrow> paging option" where
  "unmap_tables 0 pgd_addr s = Some s"
| "unmap_tables (Suc n) pgd_addr s = do {
     s \<leftarrow> (if get pgd_addr s AND 1 = 0 then Some s
       else unmap_entries PAGE_ENTRY_NUMBER (get pgd_addr s AND FRAME_MASK) s);
     unmap_tables n (pgd_addr + 4) s }"

text \<open>The directory is walked from \<open>pgd_base\<close> on, whatever the start of the area.\<close>

definition unmap_page_range :: "u32 \<Rightarrow> u32 \<Rightarrow> u32 \<Rightarrow> paging \<Rightarrow> paging option" where
  "unmap_page_range pgd_base vm_start vm_end s = unmap_tables (unat (drop_bit 22 (vm_end - vm_start))) pgd_base s"

fun zero_entries :: "nat \<Rightarrow> u32 \<Rightarrow> paging \<Rightarrow> paging" where
  "zero_entries 0 pte_addr s = s"
| "zero_entries (Suc n) pte_addr s = zero_entries n (pte_addr + 4) (put pte_addr 0 s)"

text \<open>The inner loop runs while \<open>c_pte <= PAGE_ENTRY_NUMBER\<close>.\<close>

partial_function (option) zeromap_loop :: "u32 \<Rightarrow> u32 \<Rightarrow> u32 \<Rightarrow> paging \<Rightarrow> paging option" where
  "zeromap_loop start_vaddr end_vaddr pgd_addr s =
     (if start_vaddr < end_vaddr
      then do {
        (p, s) \<leftarrow> new_frame s;
        let s = put pgd_addr (frame_addr p) s;
        let s = put pgd_addr (get pgd_addr s OR PAGE_ATTR) s;
        let s = zero_entries (PAGE_ENTRY_NUMBER + 1) (frame_addr p) s;
        zeromap_loop (start_vaddr + 0x400000) end_vaddr (pgd_addr + 4) s }
      else Some s)"

text \<open>\<open>base\<close> is the start of the task's first area.\<close>

definition zeromap_page_range :: "u32 \<Rightarrow> u32 \<Rightarrow> u32 \<Rightarrow> paging \<Rightarrow> paging option" where
  "zeromap_page_range base start_vaddr sz s =
     (let start_vaddr = start_vaddr + base
      in zeromap_loop start_vaddr (start_vaddr + sz) (pgd_index start_vaddr) s)"

fun copy_entries :: "nat \<Rightarrow> u32 \<Rightarrow> u32 \<Rightarrow> paging \<Rightarrow> paging" where
  "copy_entries 0 from to s = s"
| "copy_entries (Suc n) from to s = copy_entries n (from + 4) (to + 4) (put to (get from s) s)"

text \<open>The result says whether there was a page for every table.\<close>

fun copy_tables :: "nat \<Rightarrow> u32 \<Rightarrow> u32 \<Rightarrow> paging \<Rightarrow> (bool \<times> paging) option" where
  "copy_tables 0 from_pgd to_pgd s = Some (True, s)"
| "copy_tables (Suc n) from_pgd to_pgd s =
     (if get from_pgd s AND PAGE_P = 0 then copy_tables n (from_pgd + 4) (to_pgd + 4) s
      else do {
        (r, b) \<leftarrow> alloc_one_page (frames s);
        case r of
          None \<Rightarrow> Some (False, s\<lparr>frames := b\<rparr>)
        | Some p \<Rightarrow> do {
            let s = put to_pgd (frame_addr p OR PAGE_P OR PAGE_RWE OR PAGE_US) (s\<lparr>frames := b\<rparr>);
            let s = copy_entries PAGE_ENTRY_NUMBER (get from_pgd s AND FRAME_MASK) (frame_addr p) s;
            copy_tables n (from_pgd + 4) (to_pgd + 4) s } })"

subsection \<open>Set-up\<close>

fun fill_table :: "nat \<Rightarrow> u32 \<Rightarrow> u32 \<Rightarrow> u32 \<Rightarrow> paging \<Rightarrow> u32 \<times> paging" where
  "fill_table 0 pg_table address end_mem s = (address, s)"
| "fill_table (Suc n) pg_table address end_mem s =
     (if address < end_mem
      then fill_table n (pg_table + 4) (address + 4096) end_mem (put pg_table (address OR PAGE_RWE OR PAGE_P) s)
      else fill_table n (pg_table + 4) address end_mem s)"

text \<open>The entry of the directory, with its flags, is used as the address of the table.\<close>

partial_function (option) paging_loop :: "u32 \<Rightarrow> u32 \<Rightarrow> u32 \<Rightarrow> u32 \<Rightarrow> paging \<Rightarrow> (u32 \<times> paging) option" where
  "paging_loop pg_dir address start_mem end_mem s =
     (if address < end_mem
      then let tmp = get pg_dir s;
             (tmp, start_mem, s) = (if tmp = 0
               then (start_mem OR PAGE_RWE OR PAGE_P, start_mem + 4096, put pg_dir (start_mem OR PAGE_RWE OR PAGE_P) s)
               else (tmp, start_mem, s));
             (address, s) = fill_table 1024 tmp address end_mem s
           in paging_loop (pg_dir + 4) address start_mem end_mem s
      else Some (start_mem, s))"

definition paging_init :: "u32 \<Rightarrow> u32 \<Rightarrow> paging \<Rightarrow> (u32 \<times> paging) option" where
  "paging_init start_mem end_mem s = paging_loop (768 + 4) 0x1000000 start_mem end_mem s"

subsection \<open>The walk of the memory management unit\<close>

definition pgd_present :: "ram \<Rightarrow> u32 \<Rightarrow> bool" where
  "pgd_present m v \<longleftrightarrow> rd32 m (pgd_index v) AND 1 \<noteq> 0"

definition table_of :: "ram \<Rightarrow> u32 \<Rightarrow> u32" where
  "table_of m v = rd32 m (pgd_index v) AND FRAME_MASK"

definition pte_at :: "ram \<Rightarrow> u32 \<Rightarrow> u32" where
  "pte_at m v = table_of m v + pte_index v"

definition pte_of :: "ram \<Rightarrow> u32 \<Rightarrow> u32 option" where
  "pte_of m v =
     (if pgd_present m v \<and> rd32 m (pte_at m v) AND 1 \<noteq> 0 then Some (rd32 m (pte_at m v)) else None)"

definition same_page :: "u32 \<Rightarrow> u32 \<Rightarrow> bool" where
  "same_page v w \<longleftrightarrow> unat v div 4096 = unat w div 4096"

text \<open>The tables of the directory are different pages, and none is the page of the directory.\<close>

definition dir_ok :: "ram \<Rightarrow> bool" where
  "dir_ok m \<longleftrightarrow> (\<forall>v. pgd_present m v \<longrightarrow> 4096 \<le> unat (table_of m v))
     \<and> (\<forall>v w. pgd_present m v \<and> pgd_present m w \<and> table_of m v = table_of m w \<longrightarrow> pgd_index v = pgd_index w)"

lemma unat_pgd_index: "unat (pgd_index v) = 4 * (unat v div 4194304)"
proof -
  have "unat (drop_bit 22 v) = unat v div 4194304" using unat_u32_bound [of v] unfolding unsigned_drop_bit_eq by (simp add: drop_bit_eq_div take_bit_nat_eq_self)
  then show ?thesis using unat_u32_bound [of v] by (simp add: pgd_index_def unat_word_ariths)
qed

lemma unat_pte_index: "unat (pte_index v) = 4 * (unat v div 4096 mod 1024)"
proof -
  have "unat (drop_bit 12 v) = unat v div 4096" using unat_u32_bound [of v] unfolding unsigned_drop_bit_eq by (simp add: drop_bit_eq_div take_bit_nat_eq_self)
  then show ?thesis by (simp add: pte_index_def unat_word_ariths unat_and_mask10)
qed

lemma index_bounds: "unat (pgd_index v) < 4096" "4 dvd unat (pgd_index v)" "unat (pte_index v) < 4096" "4 dvd unat (pte_index v)"
  using unat_u32_bound [of v] by (simp_all add: unat_pgd_index unat_pte_index)

lemma unat_frame: "unat (x AND FRAME_MASK) = unat x div 4096 * 4096"
proof -
  have "FRAME_MASK = NOT (mask 12)" by (simp add: mask_eq_exp_minus_1)
  then show ?thesis by (simp only: unat_and_not_mask) simp
qed

lemma same_page_iff: "same_page v w \<longleftrightarrow> pgd_index v = pgd_index w \<and> pte_index v = pte_index w"
proof -
  have d: "unat x div 4194304 = unat x div 4096 div 1024" for x :: u32 by (simp add: div_mult2_eq [symmetric])
  have "unat v div 4096 = unat w div 4096 \<longleftrightarrow>
    unat v div 4096 div 1024 = unat w div 4096 div 1024 \<and> unat v div 4096 mod 1024 = unat w div 4096 mod 1024"
    by (metis div_mult_mod_eq)
  then show ?thesis by (simp add: same_page_def word_unat_eq_iff unat_pgd_index unat_pte_index d)
qed

lemma unat_table: "unat (table_of m v) mod 4096 = 0" "unat (table_of m v) \<le> 4294963200"
proof -
  show "unat (table_of m v) mod 4096 = 0" by (simp add: table_of_def unat_frame)
  have "unat (rd32 m (pgd_index v)) div 4096 < 1048576" using unat_u32_bound [of "rd32 m (pgd_index v)"] by simp
  then show "unat (table_of m v) \<le> 4294963200" by (simp add: table_of_def unat_frame)
qed

lemma unat_pte_at: "unat (pte_at m v) = unat (table_of m v) + unat (pte_index v)"
  using unat_table(2) [of m v] index_bounds(3) [of v] by (simp add: pte_at_def unat_word_ariths)

lemma pte_at_aligned: "4 dvd unat (pte_at m v)"
  using dvd_trans [of 4 4096 "unat (table_of m v)"] unat_table(1) [of m v] index_bounds(4) [of v]
  by (simp add: unat_pte_at dvd_eq_mod_eq_0 [of 4096])

lemma page_split:
  assumes "a mod 4096 = 0" "b mod 4096 = 0" "x < 4096" "y < 4096" and "a + x = b + (y :: nat)"
  shows "a = b" and "x = y"
proof -
  have "x = (a + x) mod 4096" "y = (b + y) mod 4096"
    using assms(1-4) mod_add_eq [of a 4096 x] mod_add_eq [of b 4096 y] by simp_all
  then show "x = y" using assms(5) by simp
  then show "a = b" using assms(5) by simp
qed

text \<open>Changing a table entry changes the mapping of its page only.\<close>

lemma pte_of_wr32:
  assumes "dir_ok m" and "pgd_present m v"
  shows "pte_of (wr32 (pte_at m v) x m) w
    = (if same_page v w then (if x AND 1 \<noteq> 0 then Some x else None) else pte_of m w)"
proof -
  let ?m = "wr32 (pte_at m v) x m"
  have t: "4096 \<le> unat (table_of m v)" using assms by (simp add: dir_ok_def)
  have "pte_at m v \<noteq> pgd_index w" for w
    using t index_bounds(1) [of w] unat_pte_at [of m v] by auto
  then have g: "rd32 ?m (pgd_index w) = rd32 m (pgd_index w)" for w
    by (intro rd32_wr32_other pte_at_aligned index_bounds(2))
  then have s: "pgd_present ?m w = pgd_present m w" "table_of ?m w = table_of m w" "pte_at ?m w = pte_at m w" for w
    by (simp_all add: pgd_present_def table_of_def pte_at_def)
  show ?thesis
  proof (cases "same_page v w")
    case True
    then have "pgd_index v = pgd_index w" "pte_index v = pte_index w" by (simp_all add: same_page_iff)
    then have "pte_at m w = pte_at m v" "pgd_present m w" using assms(2) by (simp_all add: pte_at_def table_of_def pgd_present_def)
    then show ?thesis using True s by (simp add: pte_of_def)
  next
    case False
    have "pte_at m v \<noteq> pte_at m w" if "pgd_present m w"
    proof
      assume "pte_at m v = pte_at m w"
      then have "unat (table_of m v) + unat (pte_index v) = unat (table_of m w) + unat (pte_index w)"
        using unat_pte_at by metis
      from page_split [OF unat_table(1) unat_table(1) index_bounds(3) index_bounds(3) this]
      have "unat (table_of m v) = unat (table_of m w)" "unat (pte_index v) = unat (pte_index w)" .
      then have "table_of m v = table_of m w" "pte_index v = pte_index w" by (simp_all add: word_unat_eq_iff)
      moreover from this(1) have "pgd_index v = pgd_index w" using assms that unfolding dir_ok_def by blast
      ultimately show False using False by (simp add: same_page_iff)
    qed
    then show ?thesis using False s by (auto simp: pte_of_def rd32_wr32_other pte_at_aligned)
  qed
qed

subsection \<open>Frames\<close>

lemma unat_frame_addr: "p < NR_PAGES \<Longrightarrow> unat (frame_addr p) = p * 4096"
proof -
  assume "p < NR_PAGES"
  moreover have "frame_addr p = of_nat (p * 4096)" by (simp add: frame_addr_def push_bit_eq_mult mult.commute)
  ultimately show ?thesis by (simp only: unat_of_nat) simp
qed

definition in_frame :: "nat \<Rightarrow> u32 \<Rightarrow> bool" where
  "in_frame p a \<longleftrightarrow> unat a div 4096 = p"

lemma in_frame_iff: "p < NR_PAGES \<Longrightarrow> in_frame p a \<longleftrightarrow> unat (frame_addr p) \<le> unat a \<and> unat a < unat (frame_addr p) + 4096"
  by (auto simp: in_frame_def unat_frame_addr div_nat_eqI)

lemma frame_attr:
  assumes "p < NR_PAGES"
  shows "(frame_addr p OR PAGE_ATTR) AND FRAME_MASK = frame_addr p" and "(frame_addr p OR PAGE_ATTR) AND 1 \<noteq> 0"
    and "unat (drop_bit 12 (frame_addr p OR PAGE_ATTR)) = p"
proof -
  have b: "bit (frame_addr p) i \<Longrightarrow> 12 \<le> i" for i by (simp add: frame_addr_def bit_simps)
  have 7: "bit (7::u32) i \<Longrightarrow> i < 3" for i
  proof (rule ccontr)
    assume "bit (7::u32) i" "\<not> i < 3"
    moreover have "(7::u32) = mask 3" by (simp add: mask_eq_exp_minus_1)
    ultimately show False by (simp add: bit_mask_iff)
  qed
  have fm: "FRAME_MASK = NOT (mask 12)" by (simp add: mask_eq_exp_minus_1)
  show "(frame_addr p OR PAGE_ATTR) AND FRAME_MASK = frame_addr p"
    unfolding fm using b 7 by (intro bit_word_eqI) (force simp: bit_simps)
  have "bit ((frame_addr p OR PAGE_ATTR) AND 1) 0" by (simp add: bit_simps)
  then show "(frame_addr p OR PAGE_ATTR) AND 1 \<noteq> 0" by force
  have "drop_bit 12 (frame_addr p OR PAGE_ATTR) = of_nat p"
  proof (rule bit_word_eqI)
    fix i assume "i < LENGTH(32)"
    have "\<not> bit (7::u32) (i + 12)" using 7 [of "i + 12"] by auto
    moreover have "bit (of_nat p :: u32) i \<Longrightarrow> i + 12 < 32"
    proof (rule ccontr)
      assume "bit (of_nat p :: u32) i" "\<not> i + 12 < 32"
      then have "bit p i" "20 \<le> i" by (auto simp: bit_simps)
      moreover have "p < 2 ^ 20" using assms by simp
      ultimately show False by (metis bit_take_bit_iff le_antisym less_imp_le linorder_not_le take_bit_nat_eq_self)
    qed
    ultimately show "bit (drop_bit 12 (frame_addr p OR PAGE_ATTR)) i = bit (of_nat p :: u32) i"
      by (auto simp: bit_simps frame_addr_def)
  qed
  then show "unat (drop_bit 12 (frame_addr p OR PAGE_ATTR)) = p" using assms by (simp add: unat_of_nat)
qed

lemma copy_bytes_apply:
  assumes "unat f + n < 2 ^ 32" and "unat t + n < 2 ^ 32" and "unat f + n \<le> unat t \<or> unat t + n \<le> unat f"
  shows "copy_bytes n f t m a = (if unat t \<le> unat a \<and> unat a < unat t + n then m (f + (a - t)) else m a)"
  using assms
proof (induction n arbitrary: f t m)
  case (Suc n)
  have s: "unat (f + 1) = unat f + 1" "unat (t + 1) = unat t + 1" using Suc.prems by (simp_all add: unat_add1_u32)
  have IH: "copy_bytes n (f + 1) (t + 1) (m(t := m f)) a
    = (if unat t + 1 \<le> unat a \<and> unat a < unat t + 1 + n then (m(t := m f)) (f + 1 + (a - (t + 1))) else (m(t := m f)) a)"
  proof -
    have "unat (f + 1) + n < 2 ^ 32" "unat (t + 1) + n < 2 ^ 32" "unat (f + 1) + n \<le> unat (t + 1) \<or> unat (t + 1) + n \<le> unat (f + 1)"
      using Suc.prems s by auto
    from Suc.IH [OF this, of "m(t := m f)"] show ?thesis unfolding s .
  qed
  have w: "f + 1 + (a - (t + 1)) = f + (a - t)" by simp
  show ?case
  proof (cases "unat t < unat a \<and> unat a < unat t + Suc n")
    case True
    then have d: "unat (a - t) = unat a - unat t" by (simp add: unat_sub word_le_nat_alt)
    have "unat f + unat (a - t) < 2 ^ LENGTH(32)" using True Suc.prems(1) unfolding d by auto
    then have "unat (f + (a - t)) = unat f + (unat a - unat t)" unfolding d [symmetric] by (simp only: unat_word_ariths mod_less)
    then have "unat (f + (a - t)) \<noteq> unat t" using True Suc.prems by arith
    then have "f + (a - t) \<noteq> t" by metis
    with True w IH show ?thesis by simp
  next
    case False
    then have "copy_bytes (Suc n) f t m a = (m(t := m f)) a" using IH by auto
    moreover have "unat t \<le> unat a \<and> unat a < unat t + Suc n \<longleftrightarrow> a = t" using False by (auto simp: word_unat_eq_iff)
    ultimately show ?thesis by simp
  qed
qed auto

lemma in_frame_aligned:
  assumes "4 dvd unat a"
  shows "in_frame p (a + 1) = in_frame p a" "in_frame p (a + 2) = in_frame p a" "in_frame p (a + 3) = in_frame p a"
proof -
  obtain x where x: "unat a = 4 * x" using assms by (auto elim!: dvdE)
  have "4 * x < 2 ^ 32" using x unat_u32_bound [of a] by simp
  then have u: "unat (a + 1) = 4 * x + 1" "unat (a + 2) = 4 * x + 2" "unat (a + 3) = 4 * x + 3"
    using x by (simp_all add: unat_word_ariths)
  have d: "(4 * x + i) div 4096 = 4 * x div 4096" if "i < 4" for i
  proof -
    have "(4 * x + i) div 4096 = (4 * x + i) div 4 div 1024" by (simp add: div_mult2_eq [symmetric])
    also have "(4 * x + i) div 4 = x" using that by simp
    finally show ?thesis by (simp add: div_mult2_eq [of "4 * x" 4 1024, simplified])
  qed
  show "in_frame p (a + 1) = in_frame p a" "in_frame p (a + 2) = in_frame p a" "in_frame p (a + 3) = in_frame p a"
    unfolding in_frame_def u x by (simp_all only: d)
qed

lemma rd32_outside:
  assumes "\<forall>a. \<not> in_frame p a \<longrightarrow> m' a = m a" and "4 dvd unat a" and "\<not> in_frame p a"
  shows "rd32 m' a = rd32 m a"
  using assms by (simp add: rd32_def in_frame_aligned)

text \<open>A page that holds no table: changing it changes no mapping.\<close>

definition no_table :: "nat \<Rightarrow> ram \<Rightarrow> bool" where
  "no_table p m \<longleftrightarrow> 0 < p \<and> p < NR_PAGES \<and> (\<forall>w. pgd_present m w \<longrightarrow> table_of m w \<noteq> frame_addr p)"

lemma pte_at_in_frame:
  assumes "no_table p m" and "pgd_present m w"
  shows "\<not> in_frame p (pte_at m w)"
proof
  assume i: "in_frame p (pte_at m w)"
  have "p < NR_PAGES" using assms(1) by (simp add: no_table_def)
  then have c: "p * 4096 + (unat (pte_at m w) - p * 4096) = unat (table_of m w) + unat (pte_index w)"
    "unat (pte_at m w) - p * 4096 < 4096"
    using i unat_pte_at [of m w] by (auto simp: in_frame_iff unat_frame_addr)
  have "p * 4096 = unat (table_of m w)" by (rule page_split(1) [OF _ unat_table(1) c(2) index_bounds(3) c(1)]) simp
  then have "table_of m w = frame_addr p" using \<open>p < NR_PAGES\<close> by (simp add: word_unat_eq_iff unat_frame_addr)
  then show False using assms by (simp add: no_table_def)
qed

lemma pte_of_cong:
  assumes "no_table p m" and "\<forall>a. \<not> in_frame p a \<longrightarrow> m' a = m a"
  shows "pte_of m' w = pte_of m w"
proof -
  have "\<not> in_frame p (pgd_index w)" using assms(1) index_bounds(1) [of w] by (simp add: in_frame_def no_table_def)
  then have g: "rd32 m' (pgd_index w) = rd32 m (pgd_index w)" by (rule rd32_outside [OF assms(2) index_bounds(2)])
  then have s: "pgd_present m' w = pgd_present m w" "pte_at m' w = pte_at m w"
    by (simp_all add: pgd_present_def table_of_def pte_at_def)
  then show ?thesis
    using rd32_outside [OF assms(2) pte_at_aligned pte_at_in_frame [OF assms(1)]] by (auto simp: pte_of_def)
qed

lemma no_table_wr32:
  assumes "dir_ok m" and "pgd_present m v" and "no_table p m"
  shows "no_table p (wr32 (pte_at m v) x m)"
proof -
  have t: "4096 \<le> unat (table_of m v)" using assms(1,2) by (simp add: dir_ok_def)
  have "pte_at m v \<noteq> pgd_index w" for w
    using t index_bounds(1) [of w] unat_pte_at [of m v] by auto
  then have "rd32 (wr32 (pte_at m v) x m) (pgd_index w) = rd32 m (pgd_index w)" for w
    by (intro rd32_wr32_other pte_at_aligned index_bounds(2))
  then show ?thesis using assms(3) by (simp add: no_table_def pgd_present_def table_of_def)
qed

subsection \<open>Properties\<close>

text \<open>
  C25. A write fault on a page with more than one user gives the task a copy: the page of the
  fault is mapped to the new frame, present and writable, the frame has the contents of the
  old one, no other page is mapped differently, and the user count of the old frame is one
  less when the new frame is taken.
\<close>
theorem wp_copies_shared_page:
  fixes s and old
  defines "m \<equiv> ram s" and "shared \<equiv> (frames s)\<lparr>mem_map := (mem_map (frames s))
      (old := (mem_map (frames s) old)\<lparr>pg_count := pg_count (mem_map (frames s) old) - 1\<rparr>)\<rparr>"
  assumes "dir_ok m" and "pte_of m v = Some e" and "unat (drop_bit 12 e) = old"
    and "pg_count (mem_map (frames s) old) \<noteq> 1"
    and "alloc_one_page shared = Some (Some new, b)"
    and "no_table old m" and "no_table new m" and "new \<noteq> old"
  shows "\<exists>t. do_wp_page v s = Some t
    \<and> pte_of (ram t) v = Some (frame_addr new OR PAGE_ATTR)
    \<and> (\<forall>w. \<not> same_page v w \<longrightarrow> pte_of (ram t) w = pte_of m w)
    \<and> (\<forall>i < 4096. ram t (frame_addr new + of_nat i) = m (frame_addr old + of_nat i))
    \<and> frames t = b\<lparr>mem_map := (mem_map b)(new := (mem_map b new)\<lparr>pg_count := pg_count (mem_map b new) + 1\<rparr>)\<rparr>"
proof -
  have pr: "pgd_present m v" "rd32 m (pte_at m v) = e" using assms(4) by (auto simp: pte_of_def split: if_splits)
  have lt: "old < NR_PAGES" "new < NR_PAGES" using assms(8,9) by (simp_all add: no_table_def)
  let ?m1 = "wr32 (pte_at m v) (frame_addr new OR PAGE_ATTR) m"
  let ?m2 = "copy_bytes 4096 (frame_addr old) (frame_addr new) ?m1"
  let ?b = "b\<lparr>mem_map := (mem_map b)(new := (mem_map b new)\<lparr>pg_count := pg_count (mem_map b new) + 1\<rparr>)\<rparr>"
  have "do_wp_page v s = Some \<lparr>ram = ?m2, frames = ?b\<rparr>"
    using lt assms(5-7) pr(2)
    by (cases s) (simp add: do_wp_page_def Let_def page_at_def upd_frame_def upd_page_def new_frame_def shared_def
        put_def copy_page_def m_def pte_at_def table_of_def)
  moreover have c: "?m2 a = (if in_frame new a then ?m1 (frame_addr old + (a - frame_addr new)) else ?m1 a)" for a
    using lt assms(10) by (subst copy_bytes_apply) (auto simp: unat_frame_addr in_frame_iff)
  moreover have "pte_of ?m2 w = pte_of ?m1 w" for w
    by (rule pte_of_cong [OF no_table_wr32 [OF assms(3) pr(1) assms(9)]]) (simp add: c)
  moreover note pte_of_wr32 [OF assms(3) pr(1), of "frame_addr new OR PAGE_ATTR"] frame_attr(2) [OF lt(2)]
  moreover have "?m2 (frame_addr new + of_nat i) = m (frame_addr old + of_nat i)" if "i < 4096" for i
  proof -
    have u: "unat (frame_addr p + of_nat i :: u32) = p * 4096 + i" if "p < NR_PAGES" for p
      using that \<open>i < 4096\<close> unat_frame_addr [OF that] by (simp add: unat_word_ariths unat_of_nat)
    have "in_frame new (frame_addr new + of_nat i)" "in_frame old (frame_addr old + of_nat i)"
      using that by (simp_all add: in_frame_def u [OF lt(1)] u [OF lt(2)])
    moreover have "\<not> in_frame old (pte_at m v)" by (rule pte_at_in_frame [OF assms(8) pr(1)])
    then have "?m1 a = m a" if "in_frame old a" for a
      using that in_frame_aligned [OF pte_at_aligned, of old m v] by (auto simp: wr32_def)
    ultimately show ?thesis by (simp add: c)
  qed
  ultimately show ?thesis by (auto simp: same_page_def)
qed

text \<open>
  A write fault on a page with one user only makes it writable: the entry of the page gets
  the write bit, no other mapping, no byte outside the entry and no frame changes.
\<close>
theorem wp_last_user:
  assumes "dir_ok (ram s)" and "pte_of (ram s) v = Some e" and "unat (drop_bit 12 e) < NR_PAGES"
    and "pg_count (mem_map (frames s) (unat (drop_bit 12 e))) = 1"
  shows "\<exists>t. do_wp_page v s = Some t \<and> frames t = frames s
    \<and> pte_of (ram t) v = Some (e OR PAGE_RWE)
    \<and> (\<forall>w. \<not> same_page v w \<longrightarrow> pte_of (ram t) w = pte_of (ram s) w)"
proof -
  let ?m = "ram s"
  have pr: "pgd_present ?m v" "rd32 ?m (pte_at ?m v) = e" "e AND 1 \<noteq> 0" using assms(2) by (auto simp: pte_of_def split: if_splits)
  have "do_wp_page v s = Some (s\<lparr>ram := wr32 (pte_at ?m v) (e OR PAGE_RWE) ?m\<rparr>)"
    using assms(3,4) pr(2) by (simp add: do_wp_page_def Let_def page_at_def put_def pte_at_def table_of_def)
  moreover have "(e OR PAGE_RWE) AND 1 = e AND 1" by (rule bit_eqI) (auto simp: bit_simps)
  ultimately show ?thesis
    using pte_of_wr32 [OF assms(1) pr(1), of "e OR PAGE_RWE"] pr(3) by (auto simp: same_page_def)
qed

lemma get_put_same [simp]: "rd32 (ram (put a w s)) a = w"
  by (simp add: put_def)

lemma frames_put [simp]: "frames (put a w s) = frames s"
  by (simp add: put_def)

text \<open>Words of a range of addresses, as table loops visit them.\<close>

lemma add_words:
  assumes "unat a + 4 * n < 2 ^ 32" and "i \<le> n"
  shows "unat (a + of_nat (4 * i) :: u32) = unat a + 4 * i"
proof -
  have "unat (of_nat (4 * i) :: u32) = 4 * i" using assms by (simp only: unat_of_nat) simp
  then show ?thesis using assms by (simp only: unat_word_ariths) simp
qed

lemma zero_entries_put: "zero_entries (Suc n) a s = put (a + of_nat (4 * n)) 0 (zero_entries n a s)"
proof (induction n arbitrary: a s)
  case (Suc n)
  have "zero_entries (Suc (Suc n)) a s = zero_entries (Suc n) (a + 4) (put a 0 s)" by (rule zero_entries.simps)
  also have "\<dots> = put (a + 4 + of_nat (4 * n)) 0 (zero_entries n (a + 4) (put a 0 s))" by (rule Suc.IH)
  also have "a + 4 + of_nat (4 * n) = a + of_nat (4 * Suc n)" by simp
  finally show ?case by (simp only: zero_entries.simps)
qed simp

lemma copy_entries_put:
  "copy_entries (Suc n) f t s = (let u = copy_entries n f t s in put (t + of_nat (4 * n)) (get (f + of_nat (4 * n)) u) u)"
proof (induction n arbitrary: f t s)
  case (Suc n)
  let ?u = "copy_entries n (f + 4) (t + 4) (put t (get f s) s)"
  have "copy_entries (Suc (Suc n)) f t s = copy_entries (Suc n) (f + 4) (t + 4) (put t (get f s) s)" by (rule copy_entries.simps)
  also have "\<dots> = put (t + 4 + of_nat (4 * n)) (get (f + 4 + of_nat (4 * n)) ?u) ?u" unfolding Suc.IH Let_def ..
  also have "t + 4 + of_nat (4 * n) = t + of_nat (4 * Suc n)" by simp
  also have "f + 4 + of_nat (4 * n) = f + of_nat (4 * Suc n)" by simp
  finally show ?case by (simp only: copy_entries.simps Let_def)
qed simp

text \<open>What \<open>zero_entries\<close> leaves in memory.\<close>

lemma zero_entries_rd32:
  assumes "4 dvd unat a" and "unat a + 4 * n < 2 ^ 32" and "4 dvd unat b"
  shows "rd32 (ram (zero_entries n a s)) b
    = (if unat a \<le> unat b \<and> unat b < unat a + 4 * n then 0 else rd32 (ram s) b)"
  using assms(2)
proof (induction n)
  case (Suc n)
  let ?c = "a + of_nat (4 * n) :: u32"
  have c: "unat ?c = unat a + 4 * n" by (rule add_words [of a "Suc n"]) (use Suc.prems in simp_all)
  have "rd32 (ram (zero_entries (Suc n) a s)) b = (if b = ?c then 0 else rd32 (ram (zero_entries n a s)) b)"
    unfolding zero_entries_put using assms(1,3) c by (auto simp: put_def rd32_wr32_other)
  moreover have "unat a \<le> unat b \<and> unat b < unat a + 4 * Suc n \<longleftrightarrow> b = ?c \<or> (unat a \<le> unat b \<and> unat b < unat a + 4 * n)"
  proof -
    obtain x y where "unat a = 4 * x" "unat b = 4 * y" using assms(1,3) by (auto elim!: dvdE)
    moreover have "b = ?c \<longleftrightarrow> unat b = unat a + 4 * n" using c by (metis word_unat_eq_iff)
    ultimately show ?thesis by presburger
  qed
  ultimately show ?case using Suc by auto
qed auto

lemma copy_entries_rd32:
  assumes "4 dvd unat f" and "4 dvd unat t" and "unat f + 4 * n < 2 ^ 32" and "unat t + 4 * n < 2 ^ 32"
    and "unat f + 4 * n \<le> unat t \<or> unat t + 4 * n \<le> unat f" and "4 dvd unat b"
  shows "rd32 (ram (copy_entries n f t s)) b
    = (if unat t \<le> unat b \<and> unat b < unat t + 4 * n then rd32 (ram s) (f + (b - t)) else rd32 (ram s) b)"
  using assms(3-6)
proof (induction n arbitrary: b)
  case (Suc n)
  let ?c = "t + of_nat (4 * n) :: u32" and ?d = "f + of_nat (4 * n) :: u32"
  have c: "unat ?c = unat t + 4 * n" by (rule add_words [of t "Suc n"]) (use Suc.prems in simp_all)
  have d: "unat ?d = unat f + 4 * n" by (rule add_words [of f "Suc n"]) (use Suc.prems in simp_all)
  have ca: "4 dvd unat ?c" "4 dvd unat ?d" unfolding c d using assms(1,2) by simp_all
  have IH: "rd32 (ram (copy_entries n f t s)) x
      = (if unat t \<le> unat x \<and> unat x < unat t + 4 * n then rd32 (ram s) (f + (x - t)) else rd32 (ram s) x)"
    if "4 dvd unat x" for x
    using Suc.IH [of x] Suc.prems that by auto
  have "rd32 (ram (copy_entries n f t s)) ?d = rd32 (ram s) ?d"
    using IH [OF ca(2)] Suc.prems(3) unfolding d by auto
  moreover have "?d = f + (?c - t)" by simp
  ultimately have "rd32 (ram (copy_entries (Suc n) f t s)) b
      = (if b = ?c then rd32 (ram s) (f + (b - t)) else rd32 (ram (copy_entries n f t s)) b)"
    unfolding copy_entries_put Let_def using ca Suc.prems(4) by (auto simp: put_def rd32_wr32_other)
  moreover have "unat t \<le> unat b \<and> unat b < unat t + 4 * Suc n \<longleftrightarrow> b = ?c \<or> (unat t \<le> unat b \<and> unat b < unat t + 4 * n)"
  proof -
    obtain x y where "unat t = 4 * x" "unat b = 4 * y" using assms(2) Suc.prems(4) by (auto elim!: dvdE)
    moreover have "b = ?c \<longleftrightarrow> unat b = unat t + 4 * n" using c by (metis word_unat_eq_iff)
    ultimately show ?thesis by presburger
  qed
  ultimately show ?case using IH [OF Suc.prems(4)] by auto
qed auto

lemma frame_word:
  assumes "p < NR_PAGES" and "k < 1024"
  shows "unat (frame_addr p + of_nat (4 * k)) = p * 4096 + 4 * k" and "in_frame p (frame_addr p + of_nat (4 * k))"
proof -
  show u: "unat (frame_addr p + of_nat (4 * k)) = p * 4096 + 4 * k"
    using add_words [of "frame_addr p" 1024 k] assms unat_frame_addr [OF assms(1)] by simp
  show "in_frame p (frame_addr p + of_nat (4 * k))" unfolding in_frame_def u using assms(2) by simp
qed

lemma frame_aligned: "p < NR_PAGES \<Longrightarrow> 4 dvd unat (frame_addr p)"
  by (simp add: unat_frame_addr)

text \<open>
  Preparing an area of up to 4 MiB makes a page table for it in which nothing is mapped;
  but the loop over the entries runs once too often and also clears the first word of the
  page behind the table.
\<close>
theorem zeromap_clears_next_page:
  fixes start base
  defines "a \<equiv> start + base"
  assumes "new_frame s = Some (p, u)" and "0 < p" and "p < NR_PAGES" and "a < a + sz" and "a + sz \<le> a + 0x400000"
  shows "\<exists>t. zeromap_page_range base start sz s = Some t
    \<and> rd32 (ram t) (pgd_index a) = frame_addr p OR PAGE_ATTR
    \<and> (\<forall>w. pgd_index w = pgd_index a \<longrightarrow> pgd_present (ram t) w \<and> pte_of (ram t) w = None)
    \<and> rd32 (ram t) (frame_addr p + 4096) = 0"
proof -
  let ?g = "pgd_index a"
  let ?u = "put ?g (frame_addr p OR PAGE_ATTR) (put ?g (frame_addr p) u)"
  let ?t = "zero_entries (PAGE_ENTRY_NUMBER + 1) (frame_addr p) ?u"
  have up: "unat (frame_addr p) = p * 4096" by (rule unat_frame_addr) fact
  have "\<not> a + 0x400000 < a + sz" using assms(6) by simp
  then have "zeromap_page_range base start sz s = Some ?t"
    using assms(2,5)
    by (simp add: zeromap_page_range_def Let_def a_def zeromap_loop.simps [of "start + base"] zeromap_loop.simps [of "start + base + 0x400000"]
        del: zero_entries.simps)
  moreover have r: "rd32 (ram ?t) b = (if p * 4096 \<le> unat b \<and> unat b < p * 4096 + 4100 then 0 else rd32 (ram ?u) b)" if "4 dvd unat b" for b
    using zero_entries_rd32 [OF frame_aligned [OF assms(4)] _ that, of 1025 ?u] assms(4) up
    by (simp del: zero_entries.simps)
  have g: "rd32 (ram ?t) ?g = frame_addr p OR PAGE_ATTR"
    using r [OF index_bounds(2)] index_bounds(1) [of a] assms(3) by simp
  moreover have "pgd_present (ram ?t) w \<and> pte_of (ram ?t) w = None" if "pgd_index w = ?g" for w
  proof -
    have pr: "pgd_present (ram ?t) w" "table_of (ram ?t) w = frame_addr p"
      using g that frame_attr [OF assms(4)] by (simp_all add: pgd_present_def table_of_def del: zero_entries.simps)
    have "rd32 (ram ?t) (pte_at (ram ?t) w) = 0"
      using r [OF pte_at_aligned] unat_pte_at [of "ram ?t" w] pr(2) up index_bounds(3) [of w] by (simp del: zero_entries.simps)
    then show ?thesis using pr(1) by (simp add: pte_of_def)
  qed
  moreover have "unat (frame_addr p + 4096) = p * 4096 + 4096" using up assms(4) by (simp add: unat_word_ariths)
  then have "rd32 (ram ?t) (frame_addr p + 4096) = 0" using r [of "frame_addr p + 4096"] by simp
  ultimately show ?thesis by blast
qed

text \<open>
  An area of less than 4 MiB is never unmapped: the length is rounded down to whole page
  tables, so nothing is cleared and no page is freed.
\<close>
theorem unmap_small_area:
  assumes "unat (vm_end - vm_start) < 0x400000"
  shows "unmap_page_range pgd_base vm_start vm_end s = Some s"
proof -
  have "unat (drop_bit 22 (vm_end - vm_start)) = 0"
    using assms unat_u32_bound [of "vm_end - vm_start"]
    by (simp only: unsigned_drop_bit_eq) (simp add: drop_bit_eq_div take_bit_nat_eq_self)
  then show ?thesis by (simp add: unmap_page_range_def)
qed

subsection \<open>Copied tables\<close>

definition dirent :: "ram \<Rightarrow> nat \<Rightarrow> u32" where
  "dirent m i = rd32 m (of_nat (4 * i))"

definition entry :: "ram \<Rightarrow> nat \<Rightarrow> nat \<Rightarrow> u32" where
  "entry m i k = rd32 m ((dirent m i AND FRAME_MASK) + of_nat (4 * k))"

text \<open>The page allocator gives the pages \<open>ps\<close>, one after the other.\<close>

fun alloc_seq :: "nat list \<Rightarrow> buddy \<Rightarrow> buddy option" where
  "alloc_seq [] b = Some b"
| "alloc_seq (p # ps) b = do { (r, b) \<leftarrow> alloc_one_page b; if r = Some p then alloc_seq ps b else None }"

lemma unat_dirent: "i < 1024 \<Longrightarrow> unat (of_nat (4 * i) :: u32) = 4 * i"
  by (simp only: unat_of_nat) simp

lemma entry_word:
  assumes "k < 1024"
  shows "unat ((x AND FRAME_MASK) + of_nat (4 * k)) = unat x div 4096 * 4096 + 4 * k"
proof -
  have "unat x div 4096 < 1048576" using unat_u32_bound [of x] by simp
  then have "unat x div 4096 \<le> 1048575" by simp
  then have "unat (x AND FRAME_MASK) + 4 * 1023 < 2 ^ 32" by (simp add: unat_frame)
  from add_words [OF this, of k] assms show ?thesis by (simp add: unat_frame)
qed

lemma entry_word_frame: "k < 1024 \<Longrightarrow> in_frame p ((x AND FRAME_MASK) + of_nat (4 * k)) \<longleftrightarrow> unat x div 4096 = p"
  by (simp only: in_frame_def entry_word) simp

lemma entry_word_aligned: "k < 1024 \<Longrightarrow> 4 dvd unat ((x AND FRAME_MASK) + of_nat (4 * k))"
  by (simp only: entry_word) (simp add: dvd_mult)

text \<open>One table: the directory entry \<open>j\<close> gets a table in page \<open>p\<close> with the entries of table \<open>i\<close>.\<close>

lemma copy_one_table:
  fixes s i j p
  defines "u \<equiv> put (of_nat (4 * j)) (frame_addr p OR PAGE_ATTR) s"
  defines "t \<equiv> copy_entries 1024 (get (of_nat (4 * i)) u AND FRAME_MASK) (frame_addr p) u"
  assumes "i < j" and "j < 1024" and "0 < p" and "p < NR_PAGES"
    and "0 < unat (dirent (ram s) i) div 4096" and "unat (dirent (ram s) i) div 4096 < NR_PAGES" and "unat (dirent (ram s) i) div 4096 \<noteq> p"
  shows "frames t = frames s" and "dirent (ram t) j = frame_addr p OR PAGE_ATTR"
    and "k < 1024 \<Longrightarrow> entry (ram t) j k = entry (ram s) i k"
    and "4 dvd unat a \<Longrightarrow> \<not> in_frame p a \<Longrightarrow> unat a \<noteq> 4 * j \<Longrightarrow> rd32 (ram t) a = rd32 (ram s) a"
proof -
  let ?x = "dirent (ram s) i" and ?f = "dirent (ram s) i AND FRAME_MASK"
  have j: "unat (of_nat (4 * j) :: u32) = 4 * j" "unat (of_nat (4 * i) :: u32) = 4 * i" by (rule unat_dirent, use assms(3,4) in simp)+
  then have ne: "(of_nat (4 * j) :: u32) \<noteq> of_nat (4 * i)" using assms(3) by (metis less_irrefl mult_cancel1 zero_neq_numeral)
  have ru: "rd32 (ram u) a = rd32 (ram s) a" if "4 dvd unat a" "unat a \<noteq> 4 * j" for a
    using that j by (auto simp: u_def put_def intro!: rd32_wr32_other)
  then have x: "get (of_nat (4 * i)) u = ?x" using j assms(3) by (simp add: dirent_def)
  have t: "t = copy_entries 1024 ?f (frame_addr p) u" by (simp only: t_def x)
  have up: "unat (frame_addr p) = p * 4096" by (rule unat_frame_addr) fact
  have uf: "unat ?f = unat ?x div 4096 * 4096" by (rule unat_frame)
  have rt: "rd32 (ram t) b = (if p * 4096 \<le> unat b \<and> unat b < p * 4096 + 4096 then rd32 (ram u) (?f + (b - frame_addr p)) else rd32 (ram u) b)"
    if "4 dvd unat b" for b
  proof -
    have "unat ?f + 4 * 1024 \<le> unat (frame_addr p) \<or> unat (frame_addr p) + 4 * 1024 \<le> unat ?f"
      using assms(9) unfolding up uf by arith
    moreover have "4 dvd unat ?f" "unat ?f + 4 * 1024 < 2 ^ 32" "unat (frame_addr p) + 4 * 1024 < 2 ^ 32"
      using assms(6,8) unfolding up uf by (simp_all add: dvd_mult)
    ultimately show ?thesis
      using copy_entries_rd32 [of ?f "frame_addr p" 1024 b u] that frame_aligned [OF assms(6)] unfolding t up by simp
  qed
  have "frames (copy_entries n f t' v) = frames v" for n f t' v by (induction n arbitrary: f t' v) simp_all
  then show "frames t = frames s" by (simp add: t u_def)
  have "unat (of_nat (4 * j) :: u32) < p * 4096" unfolding j(1) using assms(4,5) by simp
  then have "dirent (ram t) j = rd32 (ram u) (of_nat (4 * j))"
    unfolding dirent_def using rt [of "of_nat (4 * j)"] j(1) by auto
  then show d: "dirent (ram t) j = frame_addr p OR PAGE_ATTR" by (simp add: u_def)
  show "entry (ram t) j k = entry (ram s) i k" if k: "k < 1024"
  proof -
    have "entry (ram t) j k = rd32 (ram t) (frame_addr p + of_nat (4 * k))" by (simp only: entry_def d frame_attr(1) [OF assms(6)])
    also have "\<dots> = rd32 (ram u) (?f + of_nat (4 * k))"
      using rt [of "frame_addr p + of_nat (4 * k)"] frame_word(1) [OF assms(6) k] k by (simp add: dvd_mult)
    also have "\<dots> = rd32 (ram s) (?f + of_nat (4 * k))"
    proof (rule ru)
      show "4 dvd unat (?f + of_nat (4 * k))" by (rule entry_word_aligned [OF k])
      show "unat (?f + of_nat (4 * k)) \<noteq> 4 * j" unfolding entry_word [OF k] using assms(4,7) by (cases "unat ?x div 4096") auto
    qed
    finally show ?thesis by (simp only: entry_def)
  qed
  show "rd32 (ram t) a = rd32 (ram s) a" if "4 dvd unat a" "\<not> in_frame p a" "unat a \<noteq> 4 * j"
    using rt [OF that(1)] ru [OF that(1,3)] that(2) up by (auto simp: in_frame_iff [OF assms(6)])
qed

text \<open>The source entries from \<open>i\<close> on are present, and their tables are pages of memory that are
  neither the directory nor one of the new pages.\<close>

definition source_tables :: "nat \<Rightarrow> nat \<Rightarrow> nat list \<Rightarrow> ram \<Rightarrow> bool" where
  "source_tables n i ps m \<longleftrightarrow> (\<forall>l < n. dirent m (i + l) AND 1 \<noteq> 0 \<and> 0 < unat (dirent m (i + l)) div 4096
     \<and> unat (dirent m (i + l)) div 4096 < NR_PAGES \<and> unat (dirent m (i + l)) div 4096 \<notin> set ps)"

lemma copy_tables_ok:
  assumes "alloc_seq ps (frames s) = Some b" and "distinct ps" and "\<forall>p \<in> set ps. 0 < p \<and> p < NR_PAGES"
    and "i + length ps \<le> j" and "j + length ps \<le> 1024" and "source_tables (length ps) i ps (ram s)"
  shows "\<exists>t. copy_tables (length ps) (of_nat (4 * i)) (of_nat (4 * j)) s = Some (True, t) \<and> frames t = b
    \<and> (\<forall>l < length ps. dirent (ram t) (j + l) = frame_addr (ps ! l) OR PAGE_ATTR
          \<and> (\<forall>k < 1024. entry (ram t) (j + l) k = entry (ram s) (i + l) k))
    \<and> (\<forall>a. 4 dvd unat a \<longrightarrow> unat a div 4096 \<notin> set ps \<longrightarrow> \<not> (4 * j \<le> unat a \<and> unat a < 4 * (j + length ps))
          \<longrightarrow> rd32 (ram t) a = rd32 (ram s) a)"
  using assms
proof (induction ps arbitrary: i j s)
  case (Cons p ps)
  let ?n = "length ps"
  let ?u = "put (of_nat (4 * j)) (frame_addr p OR PAGE_ATTR) s"
  obtain b' where b': "alloc_one_page (frames s) = Some (Some p, b')" "alloc_seq ps b' = Some b"
    using Cons.prems(1) by (auto dest!: bind_SomeD split: if_splits)
  let ?s = "s\<lparr>frames := b'\<rparr>"
  let ?u = "put (of_nat (4 * j)) (frame_addr p OR PAGE_ATTR) ?s"
  let ?t = "copy_entries 1024 (get (of_nat (4 * i)) ?u AND FRAME_MASK) (frame_addr p) ?u"
  have p: "0 < p" "p < NR_PAGES" "p \<notin> set ps" using Cons.prems(2,3) by auto
  have ij: "i < j" "j < 1024" using Cons.prems(4,5) by simp_all
  have src: "0 < unat (dirent (ram ?s) i) div 4096" "unat (dirent (ram ?s) i) div 4096 < NR_PAGES" "unat (dirent (ram ?s) i) div 4096 \<noteq> p"
    "dirent (ram s) i AND 1 \<noteq> 0"
    using Cons.prems(6) by (auto simp: source_tables_def dest: spec [of _ 0])
  note one = copy_one_table [OF ij p(1,2) src(1-3)]
  have same: "rd32 (ram ?t) a = rd32 (ram s) a" if "4 dvd unat a" "unat a div 4096 \<noteq> p" "unat a \<noteq> 4 * j" for a
    using one(4) [of a] that by (simp add: in_frame_def)
  have du: "unat (of_nat (4 * l) :: u32) = 4 * l" if "l < 1024" for l using that by (rule unat_dirent)
  have dir: "dirent (ram ?t) l = dirent (ram s) l" if "l < 1024" "l \<noteq> j" for l
    unfolding dirent_def using that du [OF that(1)] p(1) by (intro same) simp_all
  have ent: "entry (ram ?t) l k = entry (ram s) l k"
    if "l < 1024" "l \<noteq> j" "k < 1024" "0 < unat (dirent (ram s) l) div 4096" "unat (dirent (ram s) l) div 4096 \<noteq> p" for l k
    unfolding entry_def dir [OF that(1,2)] using that(3-5) ij(2)
    by (intro same) (simp_all only: entry_word entry_word_aligned, auto)
  have src': "source_tables ?n (Suc i) ps (ram ?t)"
    unfolding source_tables_def
  proof (intro allI impI)
    fix l assume l: "l < ?n"
    have "dirent (ram ?t) (Suc i + l) = dirent (ram s) (i + Suc l)" using dir [of "Suc i + l"] l Cons.prems(4,5) by simp
    then show "dirent (ram ?t) (Suc i + l) AND 1 \<noteq> 0 \<and> 0 < unat (dirent (ram ?t) (Suc i + l)) div 4096
        \<and> unat (dirent (ram ?t) (Suc i + l)) div 4096 < NR_PAGES \<and> unat (dirent (ram ?t) (Suc i + l)) div 4096 \<notin> set ps"
      using Cons.prems(6) l unfolding source_tables_def by (auto dest: spec [of _ "Suc l"])
  qed
  have step: "copy_tables (Suc ?n) (of_nat (4 * i)) (of_nat (4 * j)) s = copy_tables ?n (of_nat (4 * Suc i)) (of_nat (4 * Suc j)) ?t"
    using b'(1) src(4) by (simp add: dirent_def Let_def or.assoc add.commute del: copy_entries.simps)
  from Cons.IH [of ?t "Suc i" "Suc j"] b'(2) Cons.prems(2-5) src' one(1) obtain t where
    t: "copy_tables ?n (of_nat (4 * Suc i)) (of_nat (4 * Suc j)) ?t = Some (True, t)" "frames t = b"
      "\<And>l. l < ?n \<Longrightarrow> dirent (ram t) (Suc j + l) = frame_addr (ps ! l) OR PAGE_ATTR"
      "\<And>l k. l < ?n \<Longrightarrow> k < 1024 \<Longrightarrow> entry (ram t) (Suc j + l) k = entry (ram ?t) (Suc i + l) k"
      "\<And>a. 4 dvd unat a \<Longrightarrow> unat a div 4096 \<notin> set ps \<Longrightarrow> \<not> (4 * Suc j \<le> unat a \<and> unat a < 4 * (Suc j + ?n))
          \<Longrightarrow> rd32 (ram t) a = rd32 (ram ?t) a"
    by (auto simp del: copy_tables.simps copy_entries.simps mult_Suc_right)
  have z: "0 \<notin> set ps" using Cons.prems(3) by auto
  have "dirent (ram t) j = dirent (ram ?t) j"
    unfolding dirent_def using du [OF ij(2)] ij(2) z by (intro t(5)) simp_all
  with one(2) have d0: "dirent (ram t) j = frame_addr p OR PAGE_ATTR" by (rule trans [rotated])
  have e0: "entry (ram t) j k = entry (ram s) i k" if k: "k < 1024" for k
  proof -
    have "entry (ram t) j k = rd32 (ram ?t) (frame_addr p + of_nat (4 * k))"
      unfolding entry_def d0 frame_attr(1) [OF p(2)] using frame_word [OF p(2) k] k p Cons.prems(5)
      by (intro t(5)) (auto simp: in_frame_def dvd_mult)
    also have "\<dots> = entry (ram ?t) j k" unfolding entry_def one(2) frame_attr(1) [OF p(2)] ..
    finally show ?thesis using one(3) [OF k] by simp
  qed
  have "dirent (ram t) (j + l) = frame_addr ((p # ps) ! l) OR PAGE_ATTR
      \<and> (\<forall>k < 1024. entry (ram t) (j + l) k = entry (ram s) (i + l) k)" if l: "l < Suc ?n" for l
  proof (cases l)
    case (Suc l')
    have "entry (ram ?t) (Suc i + l') k = entry (ram s) (i + l) k" if "k < 1024" for k
      using ent [of "Suc i + l'" k] that Suc l Cons.prems(4-6) by (auto simp: source_tables_def dest: spec [of _ l])
    then show ?thesis using t(3,4) [of l'] Suc l by auto
  qed (use d0 e0 in simp)
  moreover have "rd32 (ram t) a = rd32 (ram s) a"
    if "4 dvd unat a" "unat a div 4096 \<notin> set (p # ps)" "\<not> (4 * j \<le> unat a \<and> unat a < 4 * (j + Suc ?n))" for a
    using t(5) [of a] same [of a] that by auto
  ultimately show ?case using step t(1,2) by (intro exI [of _ t]) (simp del: copy_tables.simps copy_entries.simps)
qed simp

lemma pte_of_entry:
  fixes v m
  defines "i \<equiv> unat v div 0x400000" and "k \<equiv> unat v div 4096 mod 1024"
  shows "pte_of m v = (if dirent m i AND 1 \<noteq> 0 \<and> entry m i k AND 1 \<noteq> 0 then Some (entry m i k) else None)"
proof -
  have "pgd_index v = of_nat (4 * i)" by (rule word_of_unat) (simp add: unat_pgd_index i_def)
  moreover have "pte_index v = of_nat (4 * k)" by (rule word_of_unat) (simp add: unat_pte_index k_def)
  ultimately show ?thesis by (simp only: pte_of_def pgd_present_def pte_at_def table_of_def dirent_def entry_def)
qed

lemma range_address:
  assumes "off < n * 0x400000" and "x + n \<le> 1024"
  shows "unat (of_nat (x * 0x400000 + off) :: u32) div 0x400000 = x + off div 0x400000"
    and "unat (of_nat (x * 0x400000 + off) :: u32) div 4096 mod 1024 = off div 4096 mod 1024"
proof -
  have "(x + n) * 0x400000 \<le> 1024 * 0x400000" using assms(2) by (rule mult_right_mono) simp
  then have b: "x * 0x400000 + off < 2 ^ 32" using assms(1) unfolding add_mult_distrib by simp
  have d: "(x * 0x400000 + off) div 4096 = x * 1024 + off div 4096" by simp
  show "unat (of_nat (x * 0x400000 + off) :: u32) div 0x400000 = x + off div 0x400000"
    "unat (of_nat (x * 0x400000 + off) :: u32) div 4096 mod 1024 = off div 4096 mod 1024"
    using b d by (simp_all only: unat_of_nat) simp_all
qed

text \<open>
  C26. Copying page tables for a child shares the parent's pages: with enough memory for the
  tables, every address of the target range is mapped, with the same rights, to the page that
  the parent has at the same offset, and no address outside the range is mapped differently.
\<close>
theorem copied_tables_share_pages:
  assumes "alloc_seq ps (frames s) = Some b" and "distinct ps" and "\<forall>p \<in> set ps. no_table p (ram s)"
    and "i + length ps \<le> j" and "j + length ps \<le> 1024" and "source_tables (length ps) i ps (ram s)"
    and "dir_ok (ram s)"
  shows "\<exists>t. copy_tables (length ps) (of_nat (4 * i)) (of_nat (4 * j)) s = Some (True, t)
    \<and> (\<forall>off < length ps * 0x400000. pte_of (ram t) (of_nat (j * 0x400000 + off)) = pte_of (ram s) (of_nat (i * 0x400000 + off)))
    \<and> (\<forall>w. \<not> (j \<le> unat w div 0x400000 \<and> unat w div 0x400000 < j + length ps) \<longrightarrow> pte_of (ram t) w = pte_of (ram s) w)"
proof -
  let ?n = "length ps"
  have "\<forall>p \<in> set ps. 0 < p \<and> p < NR_PAGES" using assms(3) by (simp add: no_table_def)
  from copy_tables_ok [OF assms(1,2) this assms(4-6)] obtain t where
    t: "copy_tables ?n (of_nat (4 * i)) (of_nat (4 * j)) s = Some (True, t)"
      "\<And>l. l < ?n \<Longrightarrow> dirent (ram t) (j + l) = frame_addr (ps ! l) OR PAGE_ATTR"
      "\<And>l k. l < ?n \<Longrightarrow> k < 1024 \<Longrightarrow> entry (ram t) (j + l) k = entry (ram s) (i + l) k"
      "\<And>a. 4 dvd unat a \<Longrightarrow> unat a div 4096 \<notin> set ps \<Longrightarrow> \<not> (4 * j \<le> unat a \<and> unat a < 4 * (j + ?n))
          \<Longrightarrow> rd32 (ram t) a = rd32 (ram s) a" by blast
  have "pte_of (ram t) (of_nat (j * 0x400000 + off)) = pte_of (ram s) (of_nat (i * 0x400000 + off))" if off: "off < ?n * 0x400000" for off
  proof -
    define l k where "l = off div 0x400000" and "k = off div 4096 mod 1024"
    have l: "l < ?n" using off by (simp add: l_def div_less_iff_less_mult)
    note u = range_address [OF off, folded l_def k_def]
    have "k < 1024" by (simp add: k_def)
    moreover have "dirent (ram s) (i + l) AND 1 \<noteq> 0" using assms(6) l by (simp add: source_tables_def)
    moreover have "dirent (ram t) (j + l) AND 1 \<noteq> 0" using t(2) [OF l] frame_attr(2) assms(3) l by (simp add: no_table_def)
    ultimately show ?thesis using assms(4,5) by (simp only: pte_of_entry u t(3) [OF l])
  qed
  moreover have "pte_of (ram t) w = pte_of (ram s) w" if w: "\<not> (j \<le> unat w div 0x400000 \<and> unat w div 0x400000 < j + ?n)" for w
  proof -
    have "unat (pgd_index w) = 4 * (unat w div 0x400000)" by (simp add: unat_pgd_index)
    then have g: "rd32 (ram t) (pgd_index w) = rd32 (ram s) (pgd_index w)"
      using w assms(3) index_bounds(1) [of w] by (intro t(4) index_bounds(2)) (auto simp: no_table_def)
    have "rd32 (ram t) (pte_at (ram s) w) = rd32 (ram s) (pte_at (ram s) w)" if pr: "pgd_present (ram s) w"
    proof (rule t(4) [OF pte_at_aligned])
      show "unat (pte_at (ram s) w) div 4096 \<notin> set ps"
        using pte_at_in_frame [OF _ pr] assms(3) by (auto simp: in_frame_def)
      show "\<not> (4 * j \<le> unat (pte_at (ram s) w) \<and> unat (pte_at (ram s) w) < 4 * (j + ?n))"
        using assms(5,7) pr by (auto simp: dir_ok_def unat_pte_at)
    qed
    then show ?thesis using g by (auto simp: pte_of_def pgd_present_def pte_at_def table_of_def)
  qed
  ultimately show ?thesis using t(1) by blast
qed

subsection \<open>Witnesses\<close>

text \<open>A directory whose entry 0 has its table in page 256, where the page at 0x5000 is mapped to
  page 512; that page has \<open>c\<close> users, and the pages 4096 and 4098 are free.\<close>

definition sample_ram :: ram where
  "sample_ram = wr32 0x100014 0x200005 (wr32 0 0x100007 (\<lambda>_. 0))"

definition sample_paging :: "u16 \<Rightarrow> paging" where
  "sample_paging c = \<lparr>ram = sample_ram, frames = two_blocks\<lparr>mem_map := (mem_map two_blocks)(512 := (mem_map two_blocks 512)\<lparr>pg_count := c\<rparr>)\<rparr>\<rparr>"

lemma sample_rd32:
  assumes "4 dvd unat a"
  shows "rd32 sample_ram a = (if a = 0x100014 then 0x200005 else if a = 0 then 0x100007 else 0)"
proof -
  have z: "rd32 (\<lambda>_. 0) b = 0" for b by (simp add: rd32_def word32_def)
  show ?thesis using assms by (simp add: sample_ram_def rd32_wr32_other z)
qed

lemma sample_dir: "pgd_present sample_ram v \<longleftrightarrow> pgd_index v = 0" "pgd_index v = 0 \<Longrightarrow> table_of sample_ram v = 0x100000"
proof -
  have "pgd_index v \<noteq> 0x100014" using index_bounds(1) [of v] by auto
  then show "pgd_present sample_ram v \<longleftrightarrow> pgd_index v = 0" "pgd_index v = 0 \<Longrightarrow> table_of sample_ram v = 0x100000"
    using sample_rd32 [OF index_bounds(2), of v] by (simp_all add: pgd_present_def table_of_def)
qed

lemma sample_dir_ok: "dir_ok sample_ram"
  by (simp add: dir_ok_def sample_dir)

lemma sample_pte: "pte_of sample_ram 0x5000 = Some 0x200005"
proof -
  have "pgd_index 0x5000 = 0" "pte_index 0x5000 = 0x14" by (simp_all add: pgd_index_def pte_index_def)
  then have "pgd_present sample_ram 0x5000" "pte_at sample_ram 0x5000 = 0x100014" by (simp_all add: sample_dir pte_at_def)
  then show ?thesis using sample_rd32 [of "0x100014"] by (simp add: pte_of_def)
qed

lemma sample_no_table:
  assumes "0 < p" "p < NR_PAGES" "p \<noteq> 256"
  shows "no_table p sample_ram"
proof -
  have "unat (frame_addr p) \<noteq> 0x100000" using assms by (simp add: unat_frame_addr)
  then have "frame_addr p \<noteq> 0x100000" by auto
  then show ?thesis using assms by (auto simp: no_table_def sample_dir)
qed

lemma sample_free_page: "\<exists>b. alloc_one_page (two_blocks\<lparr>mem_map := (mem_map two_blocks)(512 := g)\<rparr>) = Some (Some 4098, b)"
proof -
  have "buddy_ok (two_blocks\<lparr>mem_map := (mem_map two_blocks)(512 := g)\<rparr>) ((\<lambda>_. [])(0 := [4096, 4098]))"
    using two_blocks_ok by (auto simp: buddy_ok_def area_ring_def two_blocks_def)
  from alloc_exact_links [OF this, of 0 4096 "[4098]"] show ?thesis by (auto simp: alloc_one_page_def)
qed

theorem wp_copies_shared_page_witness:
  "\<exists>t. do_wp_page 0x5000 (sample_paging 2) = Some t \<and> pte_of (ram t) 0x5000 = Some (frame_addr 4098 OR PAGE_ATTR)"
proof -
  obtain b where "alloc_one_page (two_blocks\<lparr>mem_map := (mem_map two_blocks)(512 := (mem_map two_blocks 512)\<lparr>pg_count := 1\<rparr>)\<rparr>)
      = Some (Some 4098, b)" using sample_free_page by blast
  then show ?thesis
    using wp_copies_shared_page [of "sample_paging 2" "0x5000" "0x200005" 512 4098 b]
    by (auto simp: sample_paging_def sample_dir_ok sample_pte sample_no_table)
qed

theorem wp_last_user_witness:
  "\<exists>t. do_wp_page 0x5000 (sample_paging 1) = Some t \<and> pte_of (ram t) 0x5000 = Some (0x200005 OR PAGE_RWE)"
  using wp_last_user [of "sample_paging 1" "0x5000" "0x200005"]
  by (auto simp: sample_paging_def sample_dir_ok sample_pte)

theorem zeromap_clears_next_page_witness:
  "\<exists>t. zeromap_page_range 0 0x400000 0x1000 (sample_paging 0) = Some t \<and> rd32 (ram t) (frame_addr 4098 + 4096) = 0"
proof -
  obtain u where "new_frame (sample_paging 0) = Some (4098, u)"
    using sample_free_page [of "(mem_map two_blocks 512)\<lparr>pg_count := 0\<rparr>"] by (auto simp: new_frame_def sample_paging_def)
  from zeromap_clears_next_page [OF this, of "0x400000" 0 "0x1000"] show ?thesis by auto
qed

theorem unmap_small_area_witness: "unmap_page_range 0 0x5000 0x9000 (sample_paging 2) = Some (sample_paging 2)"
  by (rule unmap_small_area) simp

theorem copied_tables_share_pages_witness:
  "\<exists>t. copy_tables 1 0 4 (sample_paging 0) = Some (True, t) \<and> pte_of (ram t) 0x405000 = pte_of sample_ram 0x5000"
proof -
  obtain b where b: "alloc_seq [4098] (frames (sample_paging 0)) = Some b"
    using sample_free_page [of "(mem_map two_blocks 512)\<lparr>pg_count := 0\<rparr>"] by (auto simp: sample_paging_def)
  have "dirent sample_ram 0 = 0x100007" using sample_rd32 [of 0] by (simp add: dirent_def)
  then have "source_tables 1 0 [4098] sample_ram" by (simp add: source_tables_def)
  then obtain t where "copy_tables 1 0 4 (sample_paging 0) = Some (True, t)"
    "\<forall>off < 0x400000. pte_of (ram t) (of_nat (0x400000 + off)) = pte_of sample_ram (of_nat off)"
    using copied_tables_share_pages [OF b, of 0 1] by (auto simp: sample_paging_def sample_dir_ok sample_no_table)
  then show ?thesis by (auto dest: spec [of _ "0x5000"])
qed

end
