(* ===== verification/Sched.thy ===== *)
theory Sched
  imports Prelude
begin

unbundle bit_operations_syntax

section \<open>The scheduler\<close>

text \<open>
  Models kernel/sched_os.c, kernel/wait.c and kernel/atomic.c with the data of
  include/kernel/sched_os.h and include/kernel/wait.h. Task structures live at 32-bit
  addresses, 0 is the null pointer. The two run queues are the array \<open>arrays\<close>; \<open>active\<close> and
  \<open>expired\<close> are indices into it. \<open>switch_to\<close> saves the registers of the processor in the task state
  segment of the old task; they depend on the compiled code and are a parameter. The registers that
  the processor then has are those of the new task's segment. The functions that timers call are a
  parameter too. Messages printed by \<open>printk\<close>, which change the console only, and the set-up of
  descriptors and of the timer chip are left out.

  A run queue level is abstracted to the list of its tasks: \<open>level s q i ts\<close>.
\<close>

subsection \<open>Data\<close>

abbreviation NR_TASKS :: nat where "NR_TASKS \<equiv> 64"
abbreviation MAX_PRIO :: nat where "MAX_PRIO \<equiv> 140"
abbreviation TIME_REQUESTS :: nat where "TIME_REQUESTS \<equiv> 32"
abbreviation SCHED_RR :: u32 where "SCHED_RR \<equiv> 2"
abbreviation SCHED_NORMAL :: u32 where "SCHED_NORMAL \<equiv> 3"
abbreviation TASK_RUNNING :: u32 where "TASK_RUNNING \<equiv> 1"
abbreviation TASK_INTERRUPTIBLE :: u32 where "TASK_INTERRUPTIBLE \<equiv> 2"
abbreviation TASK_STOPPED :: u32 where "TASK_STOPPED \<equiv> 3"

record thread_struct =
  back_link :: u32
  esp0 :: u32
  ss0 :: u32
  esp1 :: u32
  ss1 :: u32
  esp2 :: u32
  ss2 :: u32
  cr3 :: u32
  eip :: u32
  eflags :: u32
  eax :: u32
  ecx :: u32
  edx :: u32
  ebx :: u32
  esp :: u32
  ebp :: u32
  esi :: u32
  edi :: u32
  es :: u32
  cs :: u32
  ss :: u32
  ds :: u32
  fs :: u32
  gs :: u32
  ldt :: u32
  trace_bitmap :: u32
  tr :: u32
  kernel_stack_page :: u32
  user_stack_page :: u32
  cache_eip :: u32

record task_struct =
  t_state :: u32
  t_pid :: u32
  umask :: u16
  euid :: u16
  egid :: u16
  t_tty :: int
  time_slice :: u32
  start_time :: u32
  stime :: u32
  utime :: u32
  policy :: u32
  prio :: u8
  t_next :: u32
  t_prev :: u32
  t_root :: u32
  t_pwd :: u32
  filps :: "u32 list"
  t_mm :: u32
  tss :: thread_struct
  ldt_table :: "(u32 \<times> u32) list"

record run_task_head =
  task_count :: u32
  task :: u32

record runqueue =
  nr_running :: u32
  task_list :: "run_task_head list"
  bitmap :: "u8 list"

record timer_list =
  tl_next :: "nat option"
  tl_jiffies :: u32
  tl_data :: u32
  tl_fn :: u32

record wait_queue =
  w_task :: u32
  w_next :: "nat option"
  w_count :: u8

record sched =
  tasks :: "u32 \<Rightarrow> task_struct"
  arrays :: "runqueue list"
  active :: nat
  expired :: nat
  current :: u32
  init_task :: u32
  need_resched :: bool
  timer_head :: timer_list
  timer_lists :: "timer_list list"
  w_queues :: "wait_queue list"

subsection \<open>Accessors\<close>

definition task_at :: "u32 \<Rightarrow> sched \<Rightarrow> task_struct option" where
  "task_at p s = (if p = 0 then None else Some (tasks s p))"

definition upd_task :: "u32 \<Rightarrow> (task_struct \<Rightarrow> task_struct) \<Rightarrow> sched \<Rightarrow> sched option" where
  "upd_task p f s = (if p = 0 then None else Some (s\<lparr>tasks := (tasks s)(p := f (tasks s p))\<rparr>))"

definition upd_rq :: "nat \<Rightarrow> (runqueue \<Rightarrow> runqueue) \<Rightarrow> sched \<Rightarrow> sched option" where
  "upd_rq q f s = do {
     r \<leftarrow> cell (arrays s) q;
     Some (s\<lparr>arrays := (arrays s)[q := f r]\<rparr>) }"

definition head_at :: "nat \<Rightarrow> nat \<Rightarrow> sched \<Rightarrow> run_task_head option" where
  "head_at q i s = do { r \<leftarrow> cell (arrays s) q; cell (task_list r) i }"

definition upd_head :: "nat \<Rightarrow> nat \<Rightarrow> (run_task_head \<Rightarrow> run_task_head) \<Rightarrow> sched \<Rightarrow> sched option" where
  "upd_head q i f s = do {
     h \<leftarrow> head_at q i s;
     upd_rq q (\<lambda>r. r\<lparr>task_list := (task_list r)[i := f h]\<rparr>) s }"

definition set_bitmap :: "nat \<Rightarrow> nat \<Rightarrow> u8 \<Rightarrow> sched \<Rightarrow> sched option" where
  "set_bitmap q i b s = do {
     r \<leftarrow> cell (arrays s) q;
     bm \<leftarrow> put_cell i b (bitmap r);
     upd_rq q (\<lambda>r. r\<lparr>bitmap := bm\<rparr>) s }"

subsection \<open>Time slices and the list of all tasks\<close>

definition task_timeslice :: "task_struct \<Rightarrow> int" where
  "task_timeslice t =
     (if prio t < 120 then (int MAX_PRIO - int (unat (prio t))) * 20
      else (int MAX_PRIO - int (unat (prio t))) * 5)"

definition set_links :: "u32 \<Rightarrow> sched \<Rightarrow> sched option" where
  "set_links p s = do {
     it \<leftarrow> task_at (init_task s) s;
     if t_next it = 0
     then do {
       s \<leftarrow> upd_task (init_task s) (\<lambda>t. t\<lparr>t_next := p\<rparr>) s;
       s \<leftarrow> upd_task (init_task s) (\<lambda>t. t\<lparr>t_prev := p\<rparr>) s;
       upd_task p (\<lambda>t. t\<lparr>t_prev := init_task s\<rparr>) s }
     else do {
       s \<leftarrow> upd_task (t_prev it) (\<lambda>t. t\<lparr>t_next := p\<rparr>) s;
       it \<leftarrow> task_at (init_task s) s;
       s \<leftarrow> upd_task p (\<lambda>t. t\<lparr>t_prev := t_prev it\<rparr>) s;
       upd_task (init_task s) (\<lambda>t. t\<lparr>t_prev := p\<rparr>) s } }"

definition remove_links :: "u32 \<Rightarrow> sched \<Rightarrow> sched option" where
  "remove_links p s = do {
     t \<leftarrow> task_at p s;
     if t_next t = 0
     then do {
       s \<leftarrow> upd_task (t_prev t) (\<lambda>t. t\<lparr>t_next := 0\<rparr>) s;
       t \<leftarrow> task_at p s;
       upd_task (init_task s) (\<lambda>i. i\<lparr>t_prev := t_prev t\<rparr>) s }
     else do {
       s \<leftarrow> upd_task (t_next t) (\<lambda>n. n\<lparr>t_prev := t_prev t\<rparr>) s;
       t \<leftarrow> task_at p s;
       upd_task (t_prev t) (\<lambda>n. n\<lparr>t_next := t_next t\<rparr>) s } }"

subsection \<open>Run queues\<close>

definition enqueue_task :: "u32 \<Rightarrow> nat \<Rightarrow> sched \<Rightarrow> sched option" where
  "enqueue_task p q s = do {
     t \<leftarrow> task_at p s;
     let i = unat (prio t);
     h \<leftarrow> head_at q i s;
     s \<leftarrow> upd_task p (\<lambda>t. t\<lparr>t_state := TASK_RUNNING\<rparr>) s;
     s \<leftarrow> upd_head q i (\<lambda>h. h\<lparr>task_count := task_count h + 1\<rparr>) s;
     if task h = 0
     then do {
       s \<leftarrow> upd_head q i (\<lambda>h. h\<lparr>task := p\<rparr>) s;
       upd_task p (\<lambda>t. t\<lparr>t_prev := p\<rparr>) s }
     else do {
       first \<leftarrow> task_at (task h) s;
       s \<leftarrow> upd_task (t_prev first) (\<lambda>t. t\<lparr>t_next := p\<rparr>) s;
       upd_task (task h) (\<lambda>t. t\<lparr>t_prev := p\<rparr>) s } }"

definition dequeue_task :: "u32 \<Rightarrow> nat \<Rightarrow> sched \<Rightarrow> sched option" where
  "dequeue_task p q s = do {
     t \<leftarrow> task_at p s;
     let i = unat (prio t);
     s \<leftarrow> upd_head q i (\<lambda>h. h\<lparr>task_count := task_count h - 1\<rparr>) s;
     h \<leftarrow> head_at q i s;
     s \<leftarrow> (if task_count h \<le> 0 then set_bitmap q i 0 s else Some s);
     first \<leftarrow> task_at (task h) s;
     upd_head q i (\<lambda>h. h\<lparr>task := t_next first\<rparr>) s }"

definition activate_on :: "nat \<Rightarrow> u32 \<Rightarrow> sched \<Rightarrow> sched option" where
  "activate_on q p s = do {
     s \<leftarrow> enqueue_task p q s;
     s \<leftarrow> upd_rq q (\<lambda>r. r\<lparr>nr_running := nr_running r + 1\<rparr>) s;
     t \<leftarrow> task_at p s;
     set_bitmap q (unat (prio t)) 1 s }"

definition activate_task :: "u32 \<Rightarrow> sched \<Rightarrow> sched option" where
  "activate_task p s = activate_on (active s) p s"

definition expired_task :: "u32 \<Rightarrow> sched \<Rightarrow> sched option" where
  "expired_task p s = activate_on (expired s) p s"

definition deactivate_task :: "u32 \<Rightarrow> sched \<Rightarrow> sched option" where
  "deactivate_task p s = do {
     s \<leftarrow> dequeue_task p (active s) s;
     upd_rq (active s) (\<lambda>r. r\<lparr>nr_running := nr_running r - 1\<rparr>) s }"

definition deexpired_task :: "u32 \<Rightarrow> sched \<Rightarrow> sched option" where
  "deexpired_task p s = do {
     s \<leftarrow> dequeue_task p (expired s) s;
     upd_rq (expired s) (\<lambda>r. r\<lparr>nr_running := nr_running r - 1\<rparr>) s }"

subsection \<open>Choosing the next task\<close>

text \<open>The first level whose bitmap byte is set.\<close>

definition first_level :: "u8 list \<Rightarrow> nat option" where
  "first_level bs = find_from (\<lambda>b. b \<noteq> 0) bs 0"

text \<open>The jump to the task state segment of another task: the processor stores its registers, here
  the fields of \<open>regs\<close>, in the segment of the running task, and takes those of the other task. The
  task state segment that the task register selects is the one of \<open>current\<close>.\<close>

definition save_regs :: "thread_struct \<Rightarrow> thread_struct \<Rightarrow> thread_struct" where
  "save_regs regs t = t\<lparr>eip := eip regs, eflags := eflags regs, eax := eax regs, ecx := ecx regs, edx := edx regs,
     ebx := ebx regs, esp := esp regs, ebp := ebp regs, esi := esi regs, edi := edi regs, es := es regs, cs := cs regs,
     ss := ss regs, ds := ds regs, fs := fs regs, gs := gs regs\<rparr>"

definition switch_to :: "thread_struct \<Rightarrow> u32 \<Rightarrow> sched \<Rightarrow> sched" where
  "switch_to regs p s =
     (if current s = p then s
      else let old = current s
           in s\<lparr>current := p, tasks := (tasks s)(old := (tasks s old)\<lparr>tss := save_regs regs (tss (tasks s old))\<rparr>)\<rparr>)"

text \<open>The task pointer is dereferenced before it is compared with the null pointer, so that
  the comparison is never reached with a null pointer.\<close>

definition schedule :: "thread_struct \<Rightarrow> sched \<Rightarrow> sched option" where
  "schedule regs s = do {
     rq \<leftarrow> cell (arrays s) (active s);
     let s = (if nr_running rq = 0 then s\<lparr>active := expired s, expired := active s\<rparr> else s);
     rq \<leftarrow> cell (arrays s) (active s);
     i \<leftarrow> first_level (bitmap rq);
     h \<leftarrow> cell (task_list rq) i;
     let nxt = task h;
     t \<leftarrow> task_at nxt s;
     let nxt = (if nxt = 0 then init_task s else nxt);
     if nxt = current s then Some s
     else do {
       s \<leftarrow> upd_task nxt (\<lambda>t. t\<lparr>t_prev := current s\<rparr>) s;
       Some (switch_to regs nxt (s\<lparr>need_resched := False\<rparr>)) } }"

subsection \<open>Priorities, pausing, forking, leaving\<close>

definition do_nice :: "int \<Rightarrow> sched \<Rightarrow> int option" where
  "do_nice increment s = do {
     t \<leftarrow> task_at (current s) s;
     let newprio = int (unat (prio t)) - increment;
     let newprio = (if newprio < 1 then 1 else newprio);
     Some (if newprio > 139 then 139 else newprio) }"

definition set_nice :: "u32 \<Rightarrow> int \<Rightarrow> sched \<Rightarrow> sched option" where
  "set_nice p pr s = do {
     s \<leftarrow> upd_task p (\<lambda>t. t\<lparr>prio := word_of_int pr\<rparr>) s;
     upd_task p (\<lambda>t. t\<lparr>policy := (if pr < 100 then SCHED_RR else SCHED_NORMAL)\<rparr>) s }"

definition do_pause :: "sched \<Rightarrow> sched option" where
  "do_pause s = do {
     s \<leftarrow> upd_task (current s) (\<lambda>t. t\<lparr>t_state := TASK_INTERRUPTIBLE\<rparr>) s;
     s \<leftarrow> deactivate_task (current s) s;
     Some (s\<lparr>need_resched := True\<rparr>) }"

definition sched_fork :: "u32 \<Rightarrow> sched \<Rightarrow> sched option" where
  "sched_fork p s = do {
     s \<leftarrow> upd_task p (\<lambda>t. t\<lparr>t_state := TASK_RUNNING\<rparr>) s;
     activate_task p (s\<lparr>need_resched := True\<rparr>) }"

definition sched_exit :: "u32 \<Rightarrow> sched \<Rightarrow> sched option" where
  "sched_exit p s = do {
     s \<leftarrow> upd_task p (\<lambda>t. t\<lparr>t_state := TASK_STOPPED\<rparr>) s;
     s \<leftarrow> deactivate_task p s;
     Some (s\<lparr>need_resched := True\<rparr>) }"

text \<open>\<open>memset(arrays, '0', ...)\<close> fills the queues with the byte \<open>0x30\<close>, the character 0.\<close>

definition memset_runqueue :: "u8 \<Rightarrow> runqueue" where
  "memset_runqueue b =
     (let w = ucast b * 0x01010101 in
      \<lparr>nr_running = w, task_list = replicate MAX_PRIO \<lparr>task_count = w, task = w\<rparr>,
       bitmap = replicate MAX_PRIO b\<rparr>)"

definition sched_init :: "sched \<Rightarrow> sched" where
  "sched_init s = s\<lparr>arrays := [memset_runqueue 0x30, memset_runqueue 0x30], active := 0, expired := 1\<rparr>"

subsection \<open>Timers and the clock tick\<close>

datatype timer_ref = Timer_Head | Timer_Slot nat

definition timer_at :: "timer_ref \<Rightarrow> sched \<Rightarrow> timer_list option" where
  "timer_at r s = (case r of Timer_Head \<Rightarrow> Some (timer_head s) | Timer_Slot i \<Rightarrow> cell (timer_lists s) i)"

definition upd_timer :: "timer_ref \<Rightarrow> (timer_list \<Rightarrow> timer_list) \<Rightarrow> sched \<Rightarrow> sched option" where
  "upd_timer r f s =
     (case r of
        Timer_Head \<Rightarrow> Some (s\<lparr>timer_head := f (timer_head s)\<rparr>)
      | Timer_Slot i \<Rightarrow> do {
          t \<leftarrow> cell (timer_lists s) i;
          Some (s\<lparr>timer_lists := (timer_lists s)[i := f t]\<rparr>) })"

text \<open>A slot with a zero counter is free; when there is none the request is dropped.\<close>

definition free_slot :: "timer_list list \<Rightarrow> nat option" where
  "free_slot ts = find_from (\<lambda>t. tl_jiffies t = 0) ts 0"

definition add_timer :: "u32 \<Rightarrow> u32 \<Rightarrow> sched \<Rightarrow> sched option" where
  "add_timer fn jiffies s =
     (case free_slot (timer_lists s) of
        None \<Rightarrow> Some s
      | Some i \<Rightarrow> do {
          s \<leftarrow> upd_timer (Timer_Slot i) (\<lambda>t. t\<lparr>tl_fn := fn, tl_jiffies := jiffies\<rparr>) s;
          s \<leftarrow> upd_timer (Timer_Slot i) (\<lambda>t. t\<lparr>tl_next := tl_next (timer_head s)\<rparr>) s;
          upd_timer Timer_Head (\<lambda>t. t\<lparr>tl_next := Some i\<rparr>) s })"

text \<open>The loop of \<open>scheduler_tick\<close> over the timers, starting with \<open>timer_head\<close> itself. The
  callbacks that run are collected in order; what they do is the parameter \<open>call\<close>, and the link of
  the timer is read after the call. \<open>prev\<close> is \<open>None\<close> before its first assignment. A cyclic list makes the loop run for ever.\<close>

partial_function (option) tick_timers :: "(u32 \<Rightarrow> sched \<Rightarrow> sched option) \<Rightarrow>
    timer_ref option \<Rightarrow> timer_ref option \<Rightarrow> u32 list \<Rightarrow> sched \<Rightarrow> (u32 list \<times> sched) option" where
  "tick_timers call prev p fired s =
     (case p of
        None \<Rightarrow> Some (fired, s)
      | Some r \<Rightarrow>
          Option.bind (upd_timer r (\<lambda>t. t\<lparr>tl_jiffies := tl_jiffies t - 1\<rparr>) s) (\<lambda>s.
          Option.bind (timer_at r s) (\<lambda>t.
            if tl_jiffies t \<le> 0 \<and> tl_fn t \<noteq> 0
            then Option.bind (upd_timer r (\<lambda>t. t\<lparr>tl_fn := 0\<rparr>) s) (\<lambda>s.
                 Option.bind prev (\<lambda>q.
                 Option.bind (upd_timer q (\<lambda>b. b\<lparr>tl_next := tl_next t\<rparr>) s) (\<lambda>s.
                 Option.bind (call (tl_fn t) s) (\<lambda>s.
                 Option.bind (timer_at r s) (\<lambda>t'.
                   tick_timers call (Some r) (map_option Timer_Slot (tl_next t')) (fired @ [tl_fn t]) s)))))
            else tick_timers call (Some r) (map_option Timer_Slot (tl_next t)) fired s)))"

text \<open>The task whose slice is used up moves from the active to the expired queue.\<close>

definition slice_used_up :: "sched \<Rightarrow> sched option" where
  "slice_used_up s = do {
     t \<leftarrow> task_at (current s) s;
     s \<leftarrow> upd_task (current s) (\<lambda>t. t\<lparr>time_slice := word_of_int (task_timeslice t)\<rparr>) s;
     s \<leftarrow> deactivate_task (current s) (s\<lparr>need_resched := True\<rparr>);
     expired_task (current s) s }"

definition tick_current :: "sched \<Rightarrow> sched option" where
  "tick_current s = do {
     t \<leftarrow> task_at (current s) s;
     if prio t < 100
     then (if policy t = SCHED_RR
           then do {
             s \<leftarrow> upd_task (current s) (\<lambda>t. t\<lparr>time_slice := time_slice t - 1\<rparr>) s;
             if sint (time_slice t - 1) \<le> 0 then slice_used_up s else Some s }
           else Some s)
     else do {
       s \<leftarrow> upd_task (current s) (\<lambda>t. t\<lparr>time_slice := time_slice t - 1\<rparr>) s;
       if time_slice t - 1 = 0 then slice_used_up s else Some s } }"

definition scheduler_tick :: "(u32 \<Rightarrow> sched \<Rightarrow> sched option) \<Rightarrow> sched \<Rightarrow> (u32 list \<times> sched) option" where
  "scheduler_tick call s = do {
     (fired, s) \<leftarrow> tick_timers call None (Some Timer_Head) [] s;
     s \<leftarrow> tick_current s;
     Some (fired, s) }"

subsection \<open>Wait queues\<close>

text \<open>A wait queue head is its \<open>waits\<close> pointer, passed in and returned. Interrupts are
  switched off inside the operations, so each of them is one step.\<close>

definition free_wait :: "wait_queue list \<Rightarrow> nat option" where
  "free_wait ws = find_from (\<lambda>w. w_count w = 0) ws 0"

definition get_free_wait_queue :: "sched \<Rightarrow> nat option \<times> sched" where
  "get_free_wait_queue s =
     (case free_wait (w_queues s) of
        None \<Rightarrow> (None, s)
      | Some i \<Rightarrow> (Some i, s\<lparr>w_queues := (w_queues s)[i := (w_queues s ! i)\<lparr>w_count := 1\<rparr>]\<rparr>))"

definition upd_wait :: "nat \<Rightarrow> (wait_queue \<Rightarrow> wait_queue) \<Rightarrow> sched \<Rightarrow> sched option" where
  "upd_wait i f s = do {
     w \<leftarrow> cell (w_queues s) i;
     Some (s\<lparr>w_queues := (w_queues s)[i := f w]\<rparr>) }"

definition init_waitqueue :: "u32 \<Rightarrow> sched \<Rightarrow> (nat \<times> sched) option" where
  "init_waitqueue p s = do {
     let (w, s) = get_free_wait_queue s;
     i \<leftarrow> w;
     s \<leftarrow> upd_wait i (\<lambda>w. w\<lparr>w_task := p\<rparr>) s;
     s \<leftarrow> upd_task (current s) (\<lambda>t. t\<lparr>t_state := TASK_INTERRUPTIBLE\<rparr>) s;
     Some (i, s) }"

definition add_wait_queue :: "nat option \<Rightarrow> nat \<Rightarrow> sched \<Rightarrow> (nat option \<times> sched) option" where
  "add_wait_queue waits i s =
     (case waits of
        None \<Rightarrow> do { s \<leftarrow> upd_wait i (\<lambda>w. w\<lparr>w_next := Some i\<rparr>) s; Some (Some i, s) }
      | Some h \<Rightarrow> do {
          w \<leftarrow> cell (w_queues s) h;
          s \<leftarrow> upd_wait i (\<lambda>x. x\<lparr>w_next := w_next w\<rparr>) s;
          s \<leftarrow> upd_wait h (\<lambda>x. x\<lparr>w_next := Some i\<rparr>) s;
          Some (waits, s) })"

text \<open>The loop \<open>while (!q)\<close> starts at the first entry, so it is entered with the null pointer
  only, and then \<open>q->next\<close> is read through it.\<close>

definition remove_wait_queue :: "nat option \<Rightarrow> nat \<Rightarrow> sched \<Rightarrow> nat option option" where
  "remove_wait_queue waits i s =
     (if waits = Some i
      then do { w \<leftarrow> cell (w_queues s) i; Some (w_next w) }
      else (case waits of None \<Rightarrow> None | Some q \<Rightarrow> Some waits))"

text \<open>The walk of \<open>wake_up\<close>; it ends at the null pointer or back at the first entry.\<close>

partial_function (option) wake_loop :: "nat option \<Rightarrow> nat option \<Rightarrow> sched \<Rightarrow> sched option" where
  "wake_loop waits temp s =
     (case temp of
        None \<Rightarrow> Some s
      | Some i \<Rightarrow>
          Option.bind (cell (w_queues s) i) (\<lambda>w.
          Option.bind (upd_task (w_task w) (\<lambda>t. t\<lparr>t_state := TASK_RUNNING\<rparr>) s) (\<lambda>s.
          Option.bind (activate_task (w_task w) s) (\<lambda>s.
          Option.bind (cell (w_queues s) i) (\<lambda>w.
            if w_next w = waits then Some s else wake_loop waits (w_next w) s)))))"

definition wake_up :: "nat option \<Rightarrow> sched \<Rightarrow> sched option" where
  "wake_up waits s = wake_loop waits waits s"

text \<open>\<open>sleep_on\<close> up to the task switch inside \<open>schedule\<close>, and what it does when the task runs
  again.\<close>

definition sleep_on :: "thread_struct \<Rightarrow> nat option \<Rightarrow> sched \<Rightarrow> (nat \<times> nat option \<times> sched) option" where
  "sleep_on regs waits s = do {
     (i, s) \<leftarrow> init_waitqueue (current s) s;
     (waits, s) \<leftarrow> add_wait_queue waits i s;
     s \<leftarrow> deactivate_task (current s) s;
     s \<leftarrow> schedule regs s;
     Some (i, waits, s) }"

definition sleep_on_resumed :: "nat option \<Rightarrow> nat \<Rightarrow> sched \<Rightarrow> nat option option" where
  "sleep_on_resumed waits i s = remove_wait_queue waits i s"

subsection \<open>Counters, mutexes and semaphores\<close>

definition atomic_inc :: "u32 \<Rightarrow> u32" where "atomic_inc v = v + 1"
definition atomic_dec :: "u32 \<Rightarrow> u32" where "atomic_dec v = v - 1"

definition mutex_lock_test :: "u32 \<Rightarrow> int \<times> u32" where
  "mutex_lock_test v = (let v = atomic_inc v in (if v = 1 then 1 else -1, v))"

definition mutex_lock :: "u32 \<Rightarrow> int \<times> u32" where
  "mutex_lock v = (let v = atomic_inc v in (sint v, v))"

definition mutex_unlock :: "u32 \<Rightarrow> int \<times> u32" where
  "mutex_unlock v = (let v = atomic_dec v in (sint v, v))"

definition atomic_inc_and_test :: "u32 \<Rightarrow> bool \<times> u32" where
  "atomic_inc_and_test v = (v + 1 = 0, v + 1)"

definition atomic_dec_and_test :: "u32 \<Rightarrow> bool \<times> u32" where
  "atomic_dec_and_test v = (v - 1 = 0, v - 1)"

definition atomic_sub_and_test :: "u32 \<Rightarrow> u32 \<Rightarrow> bool \<times> u32" where
  "atomic_sub_and_test v i = (v - i = 0, v - i)"

record semaphore =
  sem_count :: u32
  sem_waits :: "nat option"

definition sem_down :: "thread_struct \<Rightarrow> semaphore \<Rightarrow> sched \<Rightarrow> (nat \<times> semaphore \<times> sched) option" where
  "sem_down regs sem s = do {
     (i, waits, s) \<leftarrow> sleep_on regs (sem_waits sem) s;
     Some (i, sem\<lparr>sem_waits := waits\<rparr>, s) }"

definition sem_up :: "semaphore \<Rightarrow> sched \<Rightarrow> (semaphore \<times> sched) option" where
  "sem_up sem s = do {
     let sem = sem\<lparr>sem_count := atomic_inc (sem_count sem)\<rparr>;
     s \<leftarrow> wake_up (sem_waits sem) s;
     Some (sem, s) }"

subsection \<open>A level of a run queue as a list of tasks\<close>

fun linked :: "(u32 \<Rightarrow> task_struct) \<Rightarrow> u32 list \<Rightarrow> bool" where
  "linked m [] \<longleftrightarrow> True"
| "linked m [p] \<longleftrightarrow> t_next (m p) = 0"
| "linked m (p # r # ts) \<longleftrightarrow> t_next (m p) = r \<and> linked m (r # ts)"

text \<open>The first task of the list, or the null pointer.\<close>

fun first_of :: "u32 list \<Rightarrow> u32" where
  "first_of [] = 0"
| "first_of (p # ts) = p"

definition rq_shape :: "sched \<Rightarrow> nat \<Rightarrow> bool" where
  "rq_shape s q \<longleftrightarrow> q < length (arrays s) \<and> length (task_list (arrays s ! q)) = MAX_PRIO
     \<and> length (bitmap (arrays s ! q)) = MAX_PRIO"

definition level :: "sched \<Rightarrow> nat \<Rightarrow> nat \<Rightarrow> u32 list \<Rightarrow> bool" where
  "level s q i ts \<longleftrightarrow>
     task_list (arrays s ! q) ! i = \<lparr>task_count = of_nat (length ts), task = first_of ts\<rparr>
     \<and> (bitmap (arrays s ! q) ! i \<noteq> 0 \<longleftrightarrow> ts \<noteq> [])
     \<and> linked (tasks s) ts \<and> 0 \<notin> set ts \<and> distinct ts
     \<and> (ts \<noteq> [] \<longrightarrow> t_prev (tasks s (hd ts)) = last ts)
     \<and> (\<forall>p \<in> set ts. unat (prio (tasks s p)) = i)"

lemmas rq_access = head_at_def upd_head_def upd_rq_def upd_task_def task_at_def set_bitmap_def

lemma linked_append:
  "linked m ts \<Longrightarrow> ts \<noteq> [] \<Longrightarrow> distinct (ts @ [p]) \<Longrightarrow> t_next (m' p) = 0 \<Longrightarrow>
     t_next (m' (last ts)) = p \<Longrightarrow> (\<And>x. x \<in> set ts \<Longrightarrow> x \<noteq> last ts \<Longrightarrow> t_next (m' x) = t_next (m x)) \<Longrightarrow>
     linked m' (ts @ [p])"
proof (induction m ts rule: linked.induct)
  case (3 m q r ts)
  have "linked m' ((r # ts) @ [p])" by (rule "3.IH") (use "3.prems" in auto)
  moreover have "q \<noteq> last (q # r # ts)" using "3.prems"(3) by auto
  then have "t_next (m' q) = t_next (m q)" using "3.prems"(6) [of q] by simp
  ultimately show ?case using "3.prems"(1) by simp
qed auto

text \<open>\<open>enqueue_task\<close> with its three assignments to the task memory.\<close>

lemma enqueue_append:
  assumes "rq_shape s q" and "i < MAX_PRIO" and "level s q i ts" and "p \<noteq> 0" and "p \<notin> set ts"
    and "unat (prio (tasks s p)) = i" and "t_next (tasks s p) = 0"
  shows "\<exists>s'. enqueue_task p q s = Some s' \<and> rq_shape s' q
    \<and> task_list (arrays s' ! q) ! i = \<lparr>task_count = of_nat (length (ts @ [p])), task = first_of (ts @ [p])\<rparr>
    \<and> (\<forall>j. j \<noteq> i \<longrightarrow> task_list (arrays s' ! q) ! j = task_list (arrays s ! q) ! j)
    \<and> bitmap (arrays s' ! q) = bitmap (arrays s ! q) \<and> nr_running (arrays s' ! q) = nr_running (arrays s ! q)
    \<and> linked (tasks s') (ts @ [p]) \<and> t_prev (tasks s' (hd (ts @ [p]))) = p
    \<and> (\<forall>x. prio (tasks s' x) = prio (tasks s x)) \<and> (\<forall>x. x \<notin> set (ts @ [p]) \<longrightarrow> tasks s' x = tasks s x)
    \<and> t_state (tasks s' p) = TASK_RUNNING \<and> length (arrays s') = length (arrays s)"
proof (cases ts)
  case Nil
  then show ?thesis
    using assms by (auto simp: enqueue_task_def rq_access rq_shape_def level_def Let_def)
next
  case (Cons h ts')
  define m1 where "m1 = (tasks s)(p := (tasks s p)\<lparr>t_state := TASK_RUNNING\<rparr>)"
  define m2 where "m2 = m1(last ts := (m1 (last ts))\<lparr>t_next := p\<rparr>)"
  define m3 where "m3 = m2(h := (m2 h)\<lparr>t_prev := p\<rparr>)"
  let ?r = "arrays s ! q"
  let ?A = "(arrays s)[q := ?r\<lparr>task_list := (task_list ?r)[i := \<lparr>task_count = of_nat (length ts) + 1, task = h\<rparr>]\<rparr>]"
  let ?s' = "s\<lparr>tasks := m3, arrays := ?A\<rparr>"
  have sh: "q < length (arrays s)" "length (task_list ?r) = MAX_PRIO" "length (bitmap ?r) = MAX_PRIO"
    using assms(1) by (simp_all add: rq_shape_def)
  have H: "task_list ?r ! i = \<lparr>task_count = of_nat (length ts), task = h\<rparr>"
    using assms(3) Cons by (simp add: level_def)
  have lv: "linked (tasks s) ts" "distinct ts" "0 \<notin> set ts" "t_prev (tasks s h) = last ts"
    using assms(3) Cons by (auto simp: level_def)
  have ne: "ts \<noteq> []" "h \<noteq> p" "last ts \<in> set ts" "last ts \<noteq> p" "h \<noteq> 0" "last ts \<noteq> 0"
    using Cons assms(5) lv(3) last_in_set [of ts] by (auto simp del: last_in_set)
  have "linked m3 (ts @ [p])"
  proof (rule linked_append [OF lv(1) ne(1)])
    show "distinct (ts @ [p])" using lv(2) assms(5) by simp
    show "t_next (m3 p) = 0" using assms(7) ne by (simp add: m3_def m2_def m1_def)
    show "t_next (m3 (last ts)) = p" by (simp add: m3_def m2_def)
    show "t_next (m3 x) = t_next (tasks s x)" if "x \<in> set ts" "x \<noteq> last ts" for x
      using that ne by (simp add: m3_def m2_def m1_def)
  qed
  moreover have "t_prev (m3 h) = p" "\<And>x. prio (m3 x) = prio (tasks s x)" "t_state (m3 p) = TASK_RUNNING"
    using ne by (simp_all add: m3_def m2_def m1_def)
  moreover have "m3 x = tasks s x" if "x \<notin> set (ts @ [p])" for x
  proof -
    have "x \<noteq> p" "x \<noteq> h" "x \<noteq> last ts" using that ne Cons by auto
    then show ?thesis by (simp add: m3_def m2_def m1_def)
  qed
  moreover have "enqueue_task p q s = Some ?s'"
  proof -
    have st: "task_at p s = Some (tasks s p)" "head_at q i s = Some \<lparr>task_count = of_nat (length ts), task = h\<rparr>"
      "upd_task p (\<lambda>t. t\<lparr>t_state := TASK_RUNNING\<rparr>) s = Some (s\<lparr>tasks := m1\<rparr>)"
      "upd_head q i (\<lambda>h. h\<lparr>task_count := task_count h + 1\<rparr>) (s\<lparr>tasks := m1\<rparr>) = Some (s\<lparr>tasks := m1, arrays := ?A\<rparr>)"
      "task_at h (s\<lparr>tasks := m1, arrays := ?A\<rparr>) = Some (m1 h)"
      "upd_task (last ts) (\<lambda>t. t\<lparr>t_next := p\<rparr>) (s\<lparr>tasks := m1, arrays := ?A\<rparr>) = Some (s\<lparr>tasks := m2, arrays := ?A\<rparr>)"
      "upd_task h (\<lambda>t. t\<lparr>t_prev := p\<rparr>) (s\<lparr>tasks := m2, arrays := ?A\<rparr>) = Some ?s'"
      using sh assms(2,4) ne H by (simp_all add: rq_access m1_def m2_def m3_def)
    moreover have "t_prev (m1 h) = last ts" using lv(4) ne by (simp add: m1_def)
    ultimately show ?thesis
      unfolding enqueue_task_def Let_def assms(6) using ne by (simp add: assms(6))
  qed
  ultimately show ?thesis using Cons sh assms(2) by (intro exI [of _ ?s']) (simp add: rq_shape_def)
qed

lemma activate_append:
  assumes "rq_shape s q" and "i < MAX_PRIO" and "level s q i ts" and "p \<noteq> 0" and "p \<notin> set ts"
    and "unat (prio (tasks s p)) = i" and "t_next (tasks s p) = 0"
  shows "\<exists>s'. activate_on q p s = Some s' \<and> rq_shape s' q \<and> level s' q i (ts @ [p])
    \<and> nr_running (arrays s' ! q) = nr_running (arrays s ! q) + 1
    \<and> (\<forall>j us. j < MAX_PRIO \<and> j \<noteq> i \<and> level s q j us \<longrightarrow> level s' q j us)
    \<and> t_state (tasks s' p) = TASK_RUNNING"
proof -
  from enqueue_append [OF assms] obtain s1 where s1: "enqueue_task p q s = Some s1" "rq_shape s1 q"
    "task_list (arrays s1 ! q) ! i = \<lparr>task_count = of_nat (length (ts @ [p])), task = first_of (ts @ [p])\<rparr>"
    "\<forall>j. j \<noteq> i \<longrightarrow> task_list (arrays s1 ! q) ! j = task_list (arrays s ! q) ! j"
    "bitmap (arrays s1 ! q) = bitmap (arrays s ! q)" "nr_running (arrays s1 ! q) = nr_running (arrays s ! q)"
    "linked (tasks s1) (ts @ [p])" "t_prev (tasks s1 (hd (ts @ [p]))) = p"
    "\<forall>x. prio (tasks s1 x) = prio (tasks s x)" "\<forall>x. x \<notin> set (ts @ [p]) \<longrightarrow> tasks s1 x = tasks s x"
    "t_state (tasks s1 p) = TASK_RUNNING" by blast
  let ?r = "arrays s1 ! q"
  let ?s' = "s1\<lparr>arrays := (arrays s1)[q := ?r\<lparr>nr_running := nr_running ?r + 1, bitmap := (bitmap ?r)[i := 1]\<rparr>]\<rparr>"
  have "activate_on q p s = Some ?s'"
    using s1(1,2,9) assms(2,4,6) by (simp add: activate_on_def rq_access rq_shape_def)
  moreover have "level ?s' q i (ts @ [p])"
    using s1(2,3,7,8,9) assms by (auto simp: level_def rq_shape_def)
  moreover have "level ?s' q j us" if "j < MAX_PRIO" "j \<noteq> i" "level s q j us" for j us
  proof -
    have "x \<notin> set (ts @ [p])" if "x \<in> set us" for x
      using that \<open>level s q j us\<close> \<open>j \<noteq> i\<close> assms(3,6) by (auto simp: level_def)
    then have same: "\<And>x. x \<in> set us \<Longrightarrow> tasks s1 x = tasks s x" using s1(10) by blast
    then have "linked (tasks s1) us \<longleftrightarrow> linked (tasks s) us"
      by (induction "tasks s1" us rule: linked.induct) auto
    moreover have "us \<noteq> [] \<Longrightarrow> tasks s1 (hd us) = tasks s (hd us)" using same by simp
    ultimately show ?thesis
      using that s1(2,4,5) same by (simp add: level_def rq_shape_def)
  qed
  moreover have "rq_shape ?s' q" "nr_running (arrays ?s' ! q) = nr_running (arrays s ! q) + 1"
    using s1(2,6) by (simp_all add: rq_shape_def)
  ultimately show ?thesis using s1(11) by (intro exI [of _ ?s']) simp
qed

lemma linked_first: "linked m (p # ts) \<Longrightarrow> t_next (m p) = first_of ts"
  by (cases ts) auto

text \<open>\<open>dequeue_task\<close> on a level with the tasks \<open>p # ts\<close>: the head of the level moves on.\<close>

lemma dequeue_head:
  assumes "rq_shape s q" and "i < MAX_PRIO" and "level s q i (p # ts)" and "x \<noteq> 0"
    and "unat (prio (tasks s x)) = i" and "length ts < 2 ^ 32 - 1"
  shows "\<exists>s'. dequeue_task x q s = Some s' \<and> tasks s' = tasks s \<and> rq_shape s' q
    \<and> task_list (arrays s' ! q) ! i = \<lparr>task_count = of_nat (length ts), task = first_of ts\<rparr>
    \<and> (bitmap (arrays s' ! q) ! i \<noteq> 0 \<longleftrightarrow> ts \<noteq> [])
    \<and> nr_running (arrays s' ! q) = nr_running (arrays s ! q)
    \<and> active s' = active s \<and> current s' = current s"
proof -
  let ?r = "arrays s ! q"
  have sh: "q < length (arrays s)" "length (task_list ?r) = MAX_PRIO" "length (bitmap ?r) = MAX_PRIO"
    using assms(1) by (simp_all add: rq_shape_def)
  have H: "task_list ?r ! i = \<lparr>task_count = of_nat (length ts) + 1, task = p\<rparr>" "p \<noteq> 0"
    "bitmap ?r ! i \<noteq> 0" "t_next (tasks s p) = first_of ts"
    using assms(3) by (auto simp: level_def dest: linked_first)
  have "unat (of_nat (length ts) :: u32) = length ts" using assms(6) by (simp add: unat_of_nat)
  then have z: "(of_nat (length ts) :: u32) = 0 \<longleftrightarrow> ts = []" by (metis length_0_conv unat_eq_0)
  show ?thesis
    using sh H assms(2,4) z
    by (cases "ts = []") (simp_all add: dequeue_task_def rq_access Let_def assms(5) rq_shape_def)
qed

subsection \<open>Properties of the run queues\<close>

text \<open>
  C12. \<open>activate_task\<close> appends a task at the tail of the list of its priority in the active
  queue: that list grows by the task, the other levels keep theirs, the level's bitmap byte
  is set and \<open>nr_running\<close> counts it; the task is in the running state.
\<close>
theorem activate_task_appends:
  assumes "rq_shape s (active s)" and "i < MAX_PRIO" and "level s (active s) i ts" and "p \<noteq> 0"
    and "p \<notin> set ts" and "unat (prio (tasks s p)) = i" and "t_next (tasks s p) = 0"
  shows "\<exists>s'. activate_task p s = Some s' \<and> rq_shape s' (active s) \<and> level s' (active s) i (ts @ [p])
    \<and> nr_running (arrays s' ! active s) = nr_running (arrays s ! active s) + 1
    \<and> (\<forall>j us. j < MAX_PRIO \<and> j \<noteq> i \<and> level s (active s) j us \<longrightarrow> level s' (active s) j us)
    \<and> t_state (tasks s' p) = TASK_RUNNING"
  unfolding activate_task_def using assms by (rule activate_append)

text \<open>
  C34. \<open>schedule\<close> runs the first task of the highest priority level (the lowest number) that
  has one, in the active queue, or in the expired queue when no task of the active one is
  left; in that case the two queues change places, otherwise both keep theirs. A switch saves the
  registers in the segment of the old task, and no other task changes but for the link of the new
  one.
\<close>
theorem schedule_highest_priority:
  assumes "q = (if nr_running (arrays s ! active s) = 0 then expired s else active s)"
    and "active s < length (arrays s)" and "rq_shape s q" and "\<forall>j < MAX_PRIO. level s q j (L j)"
    and "i < MAX_PRIO" and "L i = p # ts" and "\<forall>j < i. L j = []"
  shows "\<exists>s'. schedule regs s = Some s' \<and> current s' = p \<and> active s' = q
           \<and> expired s' = (if nr_running (arrays s ! active s) = 0 then active s else expired s) \<and> arrays s' = arrays s
           \<and> (p = current s \<longrightarrow> tasks s' = tasks s)
           \<and> (p \<noteq> current s \<longrightarrow> \<not> need_resched s'
                \<and> tss (tasks s' (current s)) = save_regs regs (tss (tasks s (current s)))
                \<and> tasks s' p = (tasks s p)\<lparr>t_prev := current s\<rparr>
                \<and> (\<forall>x. x \<noteq> p \<and> x \<noteq> current s \<longrightarrow> tasks s' x = tasks s x))"
proof -
  let ?r = "arrays s ! q"
  have bm: "bitmap ?r ! i \<noteq> 0" "\<forall>j < i. bitmap ?r ! j = 0"
    using assms(4-7) by (auto simp: level_def)
  moreover have "length (bitmap ?r) = MAX_PRIO" "q < length (arrays s)" "length (task_list ?r) = MAX_PRIO"
    using assms(3) by (simp_all add: rq_shape_def)
  ultimately have "first_level (bitmap ?r) = Some i"
    using find_from_SomeI [of i "bitmap ?r" "\<lambda>b. b \<noteq> 0" 0] assms(5) by (simp add: first_level_def)
  moreover have "task_list ?r ! i = \<lparr>task_count = of_nat (length (p # ts)), task = p\<rparr>" "p \<noteq> 0"
    using assms(4-6) by (auto simp: level_def)
  ultimately show ?thesis
    using assms(1,2,5) \<open>q < length (arrays s)\<close> \<open>length (task_list ?r) = MAX_PRIO\<close>
    by (auto simp: schedule_def task_at_def upd_task_def switch_to_def Let_def)
qed

text \<open>
  After \<open>sched_init\<close> the scheduler runs garbage: the queues are filled with the
  character 0 instead of zero bytes, so every level looks occupied and \<open>schedule\<close> switches to
  the task at address \<open>0x30303030\<close>.
\<close>
theorem sched_init_garbage:
  assumes "current s \<noteq> 0x30303030"
  shows "\<exists>s'. schedule regs (sched_init s) = Some s' \<and> current s' = 0x30303030"
proof -
  have "replicate MAX_PRIO (0x30::u8) = 0x30 # replicate 139 0x30" by (simp add: replicate_Suc [symmetric])
  then have "first_level (replicate MAX_PRIO (0x30::u8)) = Some 0"
    by (simp add: first_level_def)
  then show ?thesis
    using assms by (simp add: schedule_def sched_init_def memset_runqueue_def task_at_def upd_task_def
        switch_to_def Let_def)
qed


text \<open>
  A run queue level does not survive the removal of its first task: the new first task
  has no pointer to the last one, and the next task that is queued at this level is stored
  through a null pointer.
\<close>
theorem enqueue_after_dequeue_null:
  assumes "rq_shape s q" and "i < MAX_PRIO" and "level s q i [a, b]" and "t_prev (tasks s b) = 0"
    and "c \<noteq> 0" and "c \<notin> {a, b}" and "unat (prio (tasks s c)) = i"
  shows "\<exists>s'. dequeue_task a q s = Some s' \<and> enqueue_task c q s' = None"
proof -
  have ab: "a \<noteq> 0" "b \<noteq> 0" "unat (prio (tasks s a)) = i" using assms(3) by (auto simp: level_def)
  from dequeue_head [OF assms(1-3) ab(1,3)] obtain s1 where
    s1: "dequeue_task a q s = Some s1" "tasks s1 = tasks s" "rq_shape s1 q"
      "task_list (arrays s1 ! q) ! i = \<lparr>task_count = 1, task = b\<rparr>" by auto
  have "enqueue_task c q s1 = None"
    using s1(2-4) assms(2,4-7) ab(2) by (auto simp add: enqueue_task_def rq_access Let_def rq_shape_def)
  with s1(1) show ?thesis by blast
qed

text \<open>
  A higher priority (a lower number) always gets a longer time slice, and every slice is
  positive.
\<close>
theorem timeslice_by_priority:
  assumes "unat (prio t) < unat (prio u)" and "unat (prio u) < MAX_PRIO"
  shows "0 < task_timeslice u \<and> task_timeslice u < task_timeslice t"
proof -
  let ?f = "\<lambda>n. if n < 120 then (int MAX_PRIO - int n) * 20 else (int MAX_PRIO - int n) * 5"
  have "0 < ?f b \<and> ?f b < ?f a" if "a < b" "b < MAX_PRIO" for a b :: nat using that by auto
  moreover have "task_timeslice v = ?f (unat (prio v))" for v
    by (simp only: task_timeslice_def word_less_nat_alt) simp
  ultimately show ?thesis using assms by (simp only:)
qed

subsection \<open>Timers\<close>

text \<open>From the link \<open>n\<close> on, the timer list consists of the slots \<open>is\<close>.\<close>

fun tchain :: "timer_list list \<Rightarrow> nat option \<Rightarrow> nat list \<Rightarrow> bool" where
  "tchain ts n [] \<longleftrightarrow> n = None"
| "tchain ts n (i # is) \<longleftrightarrow> n = Some i \<and> i < length ts \<and> tchain ts (tl_next (ts ! i)) is"

definition expires :: "timer_list \<Rightarrow> bool" where
  "expires t \<longleftrightarrow> tl_jiffies t = 1 \<and> tl_fn t \<noteq> 0"

lemma tchain_cong:
  "tchain ts n is \<Longrightarrow> length ts' = length ts \<Longrightarrow> (\<And>i. i \<in> set is \<Longrightarrow> ts' ! i = ts ! i) \<Longrightarrow> tchain ts' n is"
  by (induction ts n "is" rule: tchain.induct) auto

lemma timers_self: "\<exists>h ts. s = s\<lparr>timer_head := h, timer_lists := ts\<rparr>"
  by (rule exI [of _ "timer_head s"], rule exI [of _ "timer_lists s"]) simp

text \<open>Linking the previous timer past the current one leaves the timers ahead alone.\<close>

lemma unlink_prev:
  assumes "q = Timer_Head \<or> (\<exists>j. q = Timer_Slot j \<and> j \<notin> set is \<and> j < length ts)"
  shows "\<exists>s'. upd_timer q (\<lambda>b. b\<lparr>tl_next := n\<rparr>) (s\<lparr>timer_lists := ts\<rparr>) = Some s'
    \<and> length (timer_lists s') = length ts \<and> (\<forall>j \<in> set is. timer_lists s' ! j = ts ! j)
    \<and> (\<exists>h ts'. s' = s\<lparr>timer_head := h, timer_lists := ts'\<rparr>)"
proof (cases q)
  case Timer_Head
  let ?s' = "s\<lparr>timer_lists := ts, timer_head := (timer_head s)\<lparr>tl_next := n\<rparr>\<rparr>"
  have "\<exists>h ts'. ?s' = s\<lparr>timer_head := h, timer_lists := ts'\<rparr>"
    by (rule exI [of _ "(timer_head s)\<lparr>tl_next := n\<rparr>"], rule exI [of _ ts]) simp
  then show ?thesis by (intro exI [of _ ?s']) (simp add: Timer_Head upd_timer_def)
next
  case (Timer_Slot j)
  let ?ts = "ts[j := (ts ! j)\<lparr>tl_next := n\<rparr>]"
  have "\<exists>h ts'. s\<lparr>timer_lists := ?ts\<rparr> = s\<lparr>timer_head := h, timer_lists := ts'\<rparr>"
    by (rule exI [of _ "timer_head s"], rule exI [of _ ?ts]) simp
  then show ?thesis
    using assms Timer_Slot by (intro exI [of _ "s\<lparr>timer_lists := ?ts\<rparr>"]) (auto simp: upd_timer_def nth_update_if)
qed

text \<open>The callbacks \<open>fns\<close> one after the other, and callbacks that neither look at the timers nor change
  them.\<close>

fun run_calls :: "(u32 \<Rightarrow> sched \<Rightarrow> sched option) \<Rightarrow> u32 list \<Rightarrow> sched \<Rightarrow> sched option" where
  "run_calls call [] s = Some s"
| "run_calls call (f # fns) s = do { s \<leftarrow> call f s; run_calls call fns s }"

definition timer_blind :: "(u32 \<Rightarrow> sched \<Rightarrow> sched option) \<Rightarrow> bool" where
  "timer_blind call \<longleftrightarrow> (\<forall>f s h ts. call f (s\<lparr>timer_head := h, timer_lists := ts\<rparr>)
     = map_option (\<lambda>t. t\<lparr>timer_head := h, timer_lists := ts\<rparr>) (call f s))"

lemma timer_blindD:
  assumes "timer_blind call" and "call f s = Some t"
  shows "call f (s\<lparr>timer_head := h, timer_lists := ts\<rparr>) = Some (t\<lparr>timer_head := h, timer_lists := ts\<rparr>)"
  using assms by (auto simp: timer_blind_def)

lemma run_calls_blind:
  "timer_blind call \<Longrightarrow> run_calls call fns s = Some t \<Longrightarrow>
     run_calls call fns (s\<lparr>timer_head := h, timer_lists := ts\<rparr>) = Some (t\<lparr>timer_head := h, timer_lists := ts\<rparr>)"
  by (induction fns arbitrary: s) (auto simp: timer_blindD dest!: bind_SomeD)

abbreviation due :: "timer_list list \<Rightarrow> nat list \<Rightarrow> u32 list" where
  "due ts is \<equiv> map (\<lambda>i. tl_fn (ts ! i)) (filter (\<lambda>i. expires (ts ! i)) is)"

lemma due_cong: "(\<And>j. j \<in> set is \<Longrightarrow> ts' ! j = ts ! j) \<Longrightarrow> due ts' is = due ts is"
  by (induction "is") auto

lemma tick_timers_fires:
  assumes "timer_blind call" and "tchain (timer_lists s) n is" and "distinct is"
    and "q = Timer_Head \<or> (\<exists>j. q = Timer_Slot j \<and> j \<notin> set is \<and> j < length (timer_lists s))"
    and "run_calls call (due (timer_lists s) is) s = Some u"
  shows "\<exists>h ts. tick_timers call (Some q) (map_option Timer_Slot n) fired s
     = Some (fired @ due (timer_lists s) is, u\<lparr>timer_head := h, timer_lists := ts\<rparr>)"
  using assms(2-5)
proof (induction "is" arbitrary: n q s fired u)
  case Nil
  then show ?case using timers_self [of s] by (subst tick_timers.simps) auto
next
  case (Cons i "is")
  let ?ts = "timer_lists s"
  let ?t = "?ts ! i"
  define ts1 where "ts1 = ?ts[i := ?t\<lparr>tl_jiffies := tl_jiffies ?t - 1\<rparr>]"
  have i: "n = Some i" "i < length ?ts" "tchain ?ts (tl_next ?t) is" using Cons.prems(1) by auto
  have iq: "q \<noteq> Timer_Slot i" using Cons.prems(3) by auto
  have one: "tl_jiffies ?t - 1 = 0 \<longleftrightarrow> tl_jiffies ?t = 1" by auto
  show ?case
  proof (cases "expires ?t")
    case False
    let ?s1 = "s\<lparr>timer_head := timer_head s, timer_lists := ts1\<rparr>"
    have same: "\<And>j. j \<in> set is \<Longrightarrow> ts1 ! j = ?ts ! j" using Cons.prems(2) by (auto simp: ts1_def nth_update_if)
    have ch: "tchain ts1 (tl_next ?t) is" using i(3) by (rule tchain_cong) (use same in \<open>auto simp: ts1_def\<close>)
    have run: "run_calls call (due (timer_lists ?s1) is) ?s1 = Some (u\<lparr>timer_head := timer_head s, timer_lists := ts1\<rparr>)"
      using run_calls_blind [OF assms(1), of "due ?ts is" s u ts1 "timer_head s"] Cons.prems(4) False due_cong [OF same] by simp
    have "tick_timers call (Some q) (map_option Timer_Slot n) fired s
        = tick_timers call (Some (Timer_Slot i)) (map_option Timer_Slot (tl_next ?t)) fired ?s1"
      using i(1,2) False one
      by (subst tick_timers.simps) (auto simp: upd_timer_def timer_at_def ts1_def expires_def)
    moreover have "\<exists>h ts. tick_timers call (Some (Timer_Slot i)) (map_option Timer_Slot (tl_next ?t)) fired ?s1
       = Some (fired @ due (timer_lists ?s1) is, u\<lparr>timer_head := timer_head s, timer_lists := ts1, timer_head := h, timer_lists := ts\<rparr>)"
      by (rule Cons.IH [OF _ _ _ run]) (use i Cons.prems(2) ch in \<open>auto simp: ts1_def\<close>)
    ultimately show ?thesis using False due_cong [OF same] by auto
  next
    case True
    define ts2 where "ts2 = ts1[i := (ts1 ! i)\<lparr>tl_fn := 0\<rparr>]"
    have t2: "length ts2 = length ?ts" "\<And>j. j \<in> set is \<Longrightarrow> ts2 ! j = ?ts ! j"
      using Cons.prems(2) by (auto simp: ts2_def ts1_def nth_update_if)
    have "q = Timer_Head \<or> (\<exists>j. q = Timer_Slot j \<and> j \<notin> set (i # is) \<and> j < length ts2)"
      using Cons.prems(3) by (simp add: ts2_def ts1_def)
    from unlink_prev [OF this, of "tl_next ?t" s] obtain s3 h3 ts3 where
      s3: "upd_timer q (\<lambda>b. b\<lparr>tl_next := tl_next ?t\<rparr>) (s\<lparr>timer_lists := ts2\<rparr>) = Some s3"
        "length ts3 = length ?ts" "ts3 ! i = ts2 ! i"
        "\<And>j. j \<in> set is \<Longrightarrow> ts3 ! j = ?ts ! j" "s3 = s\<lparr>timer_head := h3, timer_lists := ts3\<rparr>"
      using t2 by auto
    obtain s4 where s4: "call (tl_fn ?t) s = Some s4" "run_calls call (due ?ts is) s4 = Some u"
      using Cons.prems(4) True by (auto dest!: bind_SomeD)
    let ?s5 = "s4\<lparr>timer_head := h3, timer_lists := ts3\<rparr>"
    have c5: "call (tl_fn ?t) s3 = Some ?s5" unfolding s3(5) by (rule timer_blindD [OF assms(1) s4(1)])
    have run: "run_calls call (due (timer_lists ?s5) is) ?s5 = Some (u\<lparr>timer_head := h3, timer_lists := ts3\<rparr>)"
      using run_calls_blind [OF assms(1) s4(2), of ts3 h3] due_cong [OF s3(4)] by simp
    have "tick_timers call (Some q) (map_option Timer_Slot n) fired s
        = tick_timers call (Some (Timer_Slot i)) (map_option Timer_Slot (tl_next ?t)) (fired @ [tl_fn ?t]) ?s5"
      using i(1,2) True one s3(1-3) c5
      by (subst tick_timers.simps) (auto simp: upd_timer_def timer_at_def ts1_def ts2_def expires_def)
    moreover have "\<exists>h ts. tick_timers call (Some (Timer_Slot i)) (map_option Timer_Slot (tl_next ?t)) (fired @ [tl_fn ?t]) ?s5
       = Some ((fired @ [tl_fn ?t]) @ due (timer_lists ?s5) is, u\<lparr>timer_head := h3, timer_lists := ts3, timer_head := h, timer_lists := ts\<rparr>)"
      by (rule Cons.IH [OF _ _ _ run]) (use i Cons.prems(2) s3(2-4) in \<open>auto intro: tchain_cong\<close>)
    ultimately show ?thesis using True due_cong [OF s3(4)] by auto
  qed
qed

lemma sint_dec:
  fixes x :: u32
  assumes "1 < sint x"
  shows "sint (x - 1) = sint x - 1"
proof -
  have "sint (x - 1) = signed_take_bit (32 - Suc 0) (sint x - 1)"
    using sint_word_ariths(2) [of x 1] by simp
  also have "\<dots> = sint x - 1"
    by (rule signed_take_bit_int_eq_self) (use assms sint_less [of x] in simp_all)
  finally show ?thesis .
qed

lemma scheduler_tick_timers:
  assumes "timer_blind call" and "tchain (timer_lists s) (tl_next (timer_head s)) is" and "distinct is"
    and "tl_fn (timer_head s) = 0" and "run_calls call (due (timer_lists s) is) s = Some u"
  shows "\<exists>h ts. tick_timers call None (Some Timer_Head) [] s
     = Some (due (timer_lists s) is, u\<lparr>timer_head := h, timer_lists := ts\<rparr>)"
proof -
  let ?h = "(timer_head s)\<lparr>tl_jiffies := tl_jiffies (timer_head s) - 1\<rparr>"
  let ?s1 = "s\<lparr>timer_head := ?h, timer_lists := timer_lists s\<rparr>"
  have "tick_timers call None (Some Timer_Head) [] s
      = tick_timers call (Some Timer_Head) (map_option Timer_Slot (tl_next (timer_head s))) [] ?s1"
    using assms(4) by (subst tick_timers.simps) (simp add: upd_timer_def timer_at_def)
  moreover have "run_calls call (due (timer_lists ?s1) is) ?s1 = Some (u\<lparr>timer_head := ?h, timer_lists := timer_lists s\<rparr>)"
    using run_calls_blind [OF assms(1,5), of "timer_lists s" ?h] by simp
  with assms(2,3) have "\<exists>h ts. tick_timers call (Some Timer_Head) (map_option Timer_Slot (tl_next (timer_head s))) [] ?s1
      = Some ([] @ due (timer_lists ?s1) is, u\<lparr>timer_head := ?h, timer_lists := timer_lists s, timer_head := h, timer_lists := ts\<rparr>)"
    by (intro tick_timers_fires [OF assms(1)]) simp_all
  ultimately show ?thesis by simp
qed

text \<open>
  C35. One tick of the clock calls exactly the callbacks of the timers whose counter goes from 1 to 0,
  in the order of the timer list, and returns. The list has no cycle, the callbacks do not touch the
  timers (one that adds a timer may be given the slot of its own timer), and the running task has
  more than one tick of its time slice left. Run queues and current task are as the callbacks leave
  them.
\<close>
theorem tick_fires_due_timers:
  assumes "timer_blind call" and "tchain (timer_lists s) (tl_next (timer_head s)) is" and "distinct is"
    and "tl_fn (timer_head s) = 0"
    and "run_calls call (map (\<lambda>i. tl_fn (timer_lists s ! i)) (filter (\<lambda>i. expires (timer_lists s ! i)) is)) s = Some u"
    and "current u \<noteq> 0" and "1 < sint (time_slice (tasks u (current u)))"
  shows "\<exists>s'. scheduler_tick call s = Some (map (\<lambda>i. tl_fn (timer_lists s ! i))
                (filter (\<lambda>i. expires (timer_lists s ! i)) is), s')
     \<and> current s' = current u \<and> arrays s' = arrays u \<and> need_resched s' = need_resched u"
proof -
  from scheduler_tick_timers [OF assms(1-5)] obtain h ts where
    t: "tick_timers call None (Some Timer_Head) [] s = Some (due (timer_lists s) is, u\<lparr>timer_head := h, timer_lists := ts\<rparr>)" by blast
  have "sint (time_slice (tasks u (current u)) - 1) = sint (time_slice (tasks u (current u))) - 1"
    using assms(7) by (rule sint_dec)
  then have "\<not> sint (time_slice (tasks u (current u)) - 1) \<le> 0" "time_slice (tasks u (current u)) - 1 \<noteq> 0"
    using assms(7) by auto
  then show ?thesis
    using assms(6) by (simp add: t scheduler_tick_def tick_current_def task_at_def upd_task_def)
qed

text \<open>
  Two timers next to each other that expire at the same tick corrupt the timer list: the
  second one stays linked, also when the callbacks do nothing, and when its slot is used for the
  next request it becomes its own successor.
\<close>
theorem adjacent_timers_make_cycle:
  assumes "tchain (timer_lists s) (tl_next (timer_head s)) [a, b]" and "a \<noteq> b"
    and "tl_fn (timer_head s) = 0" and "expires (timer_lists s ! a)" and "expires (timer_lists s ! b)"
    and "\<forall>i < b. tl_jiffies (timer_lists s ! i) \<noteq> 0" and "b < a"
  shows "\<exists>fired s' s''. tick_timers (\<lambda>_. Some) None (Some Timer_Head) [] s = Some (fired, s')
     \<and> tl_next (timer_head s') = Some b
     \<and> add_timer f n s' = Some s'' \<and> tl_next (timer_lists s'' ! b) = Some b"
proof -
  let ?ts = "timer_lists s"
  have c: "tl_next (timer_head s) = Some a" "a < length ?ts" "tl_next (?ts ! a) = Some b" "b < length ?ts"
    "tl_next (?ts ! b) = None" using assms(1) by auto
  have e: "tl_jiffies (?ts ! a) = 1" "tl_fn (?ts ! a) \<noteq> 0" "tl_jiffies (?ts ! b) = 1" "tl_fn (?ts ! b) \<noteq> 0"
    using assms(4,5) by (auto simp: expires_def)
  let ?ts' = "?ts[a := (?ts ! a)\<lparr>tl_jiffies := 0, tl_fn := 0, tl_next := None\<rparr>,
                  b := (?ts ! b)\<lparr>tl_jiffies := 0, tl_fn := 0\<rparr>]"
  let ?h = "(timer_head s)\<lparr>tl_jiffies := tl_jiffies (timer_head s) - 1, tl_next := Some b\<rparr>"
  let ?s' = "s\<lparr>timer_head := ?h, timer_lists := ?ts'\<rparr>"
  have "tick_timers (\<lambda>_. Some) None (Some Timer_Head) [] s = Some ([tl_fn (?ts ! a), tl_fn (?ts ! b)], ?s')"
    using assms(2,3) c e
    apply (subst tick_timers.simps)
    apply (simp add: upd_timer_def timer_at_def)
    apply (subst tick_timers.simps)
    apply (simp add: upd_timer_def timer_at_def)
    apply (subst tick_timers.simps)
    apply (simp add: upd_timer_def timer_at_def list_update_swap)
    apply (subst tick_timers.simps)
    apply (simp add: upd_timer_def timer_at_def list_update_swap)
    done
  moreover have "free_slot ?ts' = Some b"
    using find_from_SomeI [of b ?ts' "\<lambda>t. tl_jiffies t = 0" 0] c assms(2,6,7) by (simp add: free_slot_def)
  then have "\<exists>s''. add_timer f n ?s' = Some s'' \<and> tl_next (timer_lists s'' ! b) = Some b"
    using c by (simp add: add_timer_def upd_timer_def)
  ultimately show ?thesis by auto
qed

subsection \<open>Waiting and waking\<close>

fun wring :: "wait_queue list \<Rightarrow> nat \<Rightarrow> nat list \<Rightarrow> nat \<Rightarrow> bool" where
  "wring ws i [] h \<longleftrightarrow> i < length ws \<and> w_next (ws ! i) = Some h"
| "wring ws i (j # js) h \<longleftrightarrow> i < length ws \<and> w_next (ws ! i) = Some j \<and> j \<noteq> h \<and> wring ws j js h"

text \<open>Waking tasks one after the other.\<close>

fun wake_each :: "u32 list \<Rightarrow> sched \<Rightarrow> sched option" where
  "wake_each [] s = Some s"
| "wake_each (p # ps) s = do {
     s \<leftarrow> upd_task p (\<lambda>t. t\<lparr>t_state := TASK_RUNNING\<rparr>) s;
     s \<leftarrow> activate_task p s;
     wake_each ps s }"

lemma wake_each_Nil [simp]: "wake_each [] = Some"
  by (rule ext) simp

lemma rq_ops_w_queues:
  "upd_task p f s = Some s' \<Longrightarrow> w_queues s' = w_queues s"
  "upd_rq q g s = Some s' \<Longrightarrow> w_queues s' = w_queues s"
  "upd_head q i k s = Some s' \<Longrightarrow> w_queues s' = w_queues s"
  "set_bitmap q i b s = Some s' \<Longrightarrow> w_queues s' = w_queues s"
  by (auto simp: rq_access split: if_splits Option.bind_splits)

lemma enqueue_w_queues: "enqueue_task p q s = Some s' \<Longrightarrow> w_queues s' = w_queues s"
  by (auto simp: enqueue_task_def Let_def split: if_splits Option.bind_splits dest!: rq_ops_w_queues)

lemma activate_w_queues: "activate_task p s = Some s' \<Longrightarrow> w_queues s' = w_queues s"
  by (auto simp: activate_task_def activate_on_def split: Option.bind_splits
      dest!: rq_ops_w_queues enqueue_w_queues)

lemma wake_loop_step:
  assumes "i < length (w_queues s)"
  shows "wake_loop waits (Some i) s = do {
     s1 \<leftarrow> upd_task (w_task (w_queues s ! i)) (\<lambda>t. t\<lparr>t_state := TASK_RUNNING\<rparr>) s;
     s2 \<leftarrow> activate_task (w_task (w_queues s ! i)) s1;
     if w_next (w_queues s ! i) = waits then Some s2
     else wake_loop waits (w_next (w_queues s ! i)) (s2\<lparr>w_queues := w_queues s\<rparr>) }"
proof -
  have "w_queues s2 = w_queues s"
    if "upd_task p f s = Some s1" "activate_task p s1 = Some s2" for p f s1 s2
    using rq_ops_w_queues(1) [OF that(1)] activate_w_queues [OF that(2)] by simp
  then have "cell (w_queues s2) i = Some (w_queues s ! i)" "s2\<lparr>w_queues := w_queues s\<rparr> = s2"
    if "upd_task p f s = Some s1" "activate_task p s1 = Some s2" for p f s1 s2
    using that assms by simp_all
  then show ?thesis
    using assms by (subst wake_loop.simps) (auto split: Option.bind_splits)
qed

lemma wake_loop_each:
  "wring (w_queues s) i js h \<Longrightarrow>
     wake_loop (Some h) (Some i) s = wake_each (map (\<lambda>j. w_task (w_queues s ! j)) (i # js)) s"
proof (induction js arbitrary: i s)
  case Nil
  then show ?case by (simp add: wake_loop_step)
next
  case (Cons j js)
  let ?p = "w_task (w_queues s ! i)"
  have step: "wake_loop (Some h) (Some j) (s2\<lparr>w_queues := w_queues s\<rparr>)
      = wake_each (map (\<lambda>j. w_task (w_queues s ! j)) (j # js)) (s2\<lparr>w_queues := w_queues s\<rparr>)" for s2
    using Cons.IH [of "s2\<lparr>w_queues := w_queues s\<rparr>" j] Cons.prems by simp
  have "s2\<lparr>w_queues := w_queues s\<rparr> = s2"
    if "upd_task ?p f s = Some s1" "activate_task ?p s1 = Some s2" for f s1 s2
    using rq_ops_w_queues(1) [OF that(1)] activate_w_queues [OF that(2)] by simp
  with Cons.prems step show ?case
    by (subst wake_loop_step) (auto split: Option.bind_splits)
qed

text \<open>
  \<open>wake_up\<close> on a circular wait queue wakes every waiting task once, in the order of the
  queue: each gets the running state and is appended to the active run queue.
\<close>
theorem wake_up_wakes_all:
  assumes "wring (w_queues s) h js h"
  shows "wake_up (Some h) s = wake_each (map (\<lambda>j. w_task (w_queues s ! j)) (h # js)) s"
  using assms unfolding wake_up_def by (rule wake_loop_each)

definition free_waits :: "sched \<Rightarrow> nat set" where
  "free_waits s = {i. i < length (w_queues s) \<and> w_count (w_queues s ! i) = 0}"

lemma init_waitqueue_takes:
  assumes "init_waitqueue p s = Some (i, s')"
  shows "i \<in> free_waits s \<and> free_waits s' = free_waits s - {i}"
proof -
  from assms obtain j where j: "free_wait (w_queues s) = Some j"
    by (auto simp: init_waitqueue_def get_free_wait_queue_def split: option.splits)
  from find_from_SomeD [OF j [unfolded free_wait_def]] have "j < length (w_queues s)" "w_count (w_queues s ! j) = 0"
    by auto
  with assms j show ?thesis
    by (auto simp: init_waitqueue_def get_free_wait_queue_def upd_wait_def free_waits_def nth_update_if
        split: Option.bind_splits if_splits dest!: rq_ops_w_queues(1))
qed

lemma add_wait_queue_counts:
  "add_wait_queue ws i s = Some (ws', s') \<Longrightarrow> free_waits s' = free_waits s"
  by (auto simp: add_wait_queue_def upd_wait_def free_waits_def nth_update_if cell_def
      split: option.splits Option.bind_splits if_splits)

lemma deactivate_w_queues: "deactivate_task p s = Some s' \<Longrightarrow> w_queues s' = w_queues s"
  by (auto simp: deactivate_task_def dequeue_task_def Let_def split: Option.bind_splits if_splits
      dest!: rq_ops_w_queues)

lemma schedule_w_queues: "schedule regs s = Some s' \<Longrightarrow> w_queues s' = w_queues s"
  by (auto simp: schedule_def switch_to_def Let_def split: Option.bind_splits if_splits
      dest!: rq_ops_w_queues)

text \<open>
  Every call of \<open>sleep_on\<close> takes one entry of the table of wait queues away for good: the
  entry was free and is not free afterwards (nothing gives an entry back). Without a free
  entry \<open>sleep_on\<close> stores through a null pointer.
\<close>
theorem sleep_on_uses_up_entry:
  shows "(sleep_on regs waits s = Some (i, waits', s') \<longrightarrow> i \<in> free_waits s \<and> free_waits s' = free_waits s - {i})
    \<and> (free_waits s = {} \<longrightarrow> sleep_on regs waits s = None)"
proof -
  have used: "i \<in> free_waits s \<and> free_waits s' = free_waits s - {i}" if "sleep_on regs waits s = Some (i, waits', s')"
    for i waits' s'
  proof -
    from that obtain w1 s1 s2 s3 where s1: "init_waitqueue (current s) s = Some (i, s1)"
      "add_wait_queue waits i s1 = Some (w1, s2)" "deactivate_task (current s2) s2 = Some s3"
      "schedule regs s3 = Some s'"
      by (auto simp: sleep_on_def split: Option.bind_splits)
    have "w_queues s' = w_queues s2" using deactivate_w_queues [OF s1(3)] schedule_w_queues [OF s1(4)] by simp
    then have "free_waits s' = free_waits s1"
      using add_wait_queue_counts [OF s1(2)] by (simp add: free_waits_def)
    then show ?thesis using init_waitqueue_takes [OF s1(1)] by simp
  qed
  then have "sleep_on regs waits s = None" if "free_waits s = {}"
    using that by (cases "sleep_on regs waits s") auto
  with used show ?thesis by blast
qed

subsection \<open>Witnesses\<close>

definition zero_tss :: thread_struct where
  "zero_tss = \<lparr>back_link = 0, esp0 = 0, ss0 = 0, esp1 = 0, ss1 = 0, esp2 = 0, ss2 = 0, cr3 = 0, eip = 0,
     eflags = 0, eax = 0, ecx = 0, edx = 0, ebx = 0, esp = 0, ebp = 0, esi = 0, edi = 0, es = 0, cs = 0,
     ss = 0, ds = 0, fs = 0, gs = 0, ldt = 0, trace_bitmap = 0, tr = 0, kernel_stack_page = 0,
     user_stack_page = 0, cache_eip = 0\<rparr>"

definition sample_task :: "u8 \<Rightarrow> u32 \<Rightarrow> u32 \<Rightarrow> task_struct" where
  "sample_task pr nx pv = \<lparr>t_state = 1, t_pid = 1, umask = 0, euid = 0, egid = 0, t_tty = 0, time_slice = 5,
     start_time = 0, stime = 0, utime = 0, policy = 3, prio = pr, t_next = nx, t_prev = pv, t_root = 0,
     t_pwd = 0, filps = [], t_mm = 0, tss = zero_tss, ldt_table = []\<rparr>"

definition queue_with :: "u32 \<Rightarrow> u32 \<Rightarrow> runqueue" where
  "queue_with n p = \<lparr>nr_running = n, task_list = (replicate MAX_PRIO \<lparr>task_count = 0, task = 0\<rparr>)
       [120 := \<lparr>task_count = n, task = p\<rparr>],
     bitmap = (replicate MAX_PRIO 0)[120 := if n = 0 then 0 else 1]\<rparr>"

definition sample_timer :: "nat option \<Rightarrow> u32 \<Rightarrow> u32 \<Rightarrow> timer_list" where
  "sample_timer n j f = \<lparr>tl_next = n, tl_jiffies = j, tl_data = 0, tl_fn = f\<rparr>"

text \<open>A task at \<open>0x1000\<close> followed by one at \<open>0x2000\<close>; two expiring timers; a ring of two
  waiting tasks.\<close>

definition sample_sched :: "u32 \<Rightarrow> sched" where
  "sample_sched n = \<lparr>
     tasks = (\<lambda>_. sample_task 120 0 0)(0x1000 := sample_task 120 (if n = 2 then 0x2000 else 0) (n * 0x1000)),
     arrays = [queue_with n (if n = 0 then 0 else 0x1000), queue_with 0 0], active = 0, expired = 1,
     current = 0x4000, init_task = 0x4000, need_resched = True, timer_head = sample_timer (Some 1) 0 0,
     timer_lists = [sample_timer None 1 0x9000, sample_timer (Some 0) 1 0x9100],
     w_queues = [\<lparr>w_task = 0x1000, w_next = Some 1, w_count = 1\<rparr>, \<lparr>w_task = 0x2000, w_next = Some 0, w_count = 1\<rparr>]\<rparr>"

lemmas sample_sched_defs = sample_sched_def queue_with_def sample_task_def sample_timer_def

lemma sample_rq_shape: "rq_shape (sample_sched n) 0"
  by (simp add: rq_shape_def sample_sched_defs)

lemma sample_levels:
  "j < MAX_PRIO \<Longrightarrow> j \<noteq> 120 \<Longrightarrow> level (sample_sched n) 0 j []"
  "level (sample_sched 0) 0 120 []" "level (sample_sched 1) 0 120 [0x1000]"
  "level (sample_sched 2) 0 120 [0x1000, 0x2000]"
  by (simp_all add: level_def sample_sched_defs)

lemma sample_active [simp]: "active (sample_sched n) = 0" "current (sample_sched n) = 0x4000"
  by (simp_all add: sample_sched_def)

theorem activate_task_appends_witness:
  "\<exists>s'. activate_task 0x3000 (sample_sched 2) = Some s' \<and> rq_shape s' (active (sample_sched 2))
    \<and> level s' (active (sample_sched 2)) 120 ([0x1000, 0x2000] @ [0x3000])
    \<and> nr_running (arrays s' ! active (sample_sched 2)) = nr_running (arrays (sample_sched 2) ! active (sample_sched 2)) + 1
    \<and> (\<forall>j us. j < MAX_PRIO \<and> j \<noteq> 120 \<and> level (sample_sched 2) (active (sample_sched 2)) j us
          \<longrightarrow> level s' (active (sample_sched 2)) j us)
    \<and> t_state (tasks s' 0x3000) = TASK_RUNNING"
  by (rule activate_task_appends) (simp_all add: sample_rq_shape sample_levels, simp_all add: sample_sched_defs)

theorem schedule_highest_priority_witness:
  "\<exists>s'. schedule zero_tss (sample_sched 2) = Some s' \<and> current s' = 0x1000 \<and> active s' = 0 \<and> expired s' = 1 \<and> \<not> need_resched s'"
proof -
  let ?L = "\<lambda>j. if j = 120 then [0x1000, 0x2000] else []"
  have "\<forall>j < MAX_PRIO. level (sample_sched 2) 0 j (?L j)" by (simp add: sample_levels)
  moreover have "nr_running (arrays (sample_sched 2) ! 0) = 2" "expired (sample_sched 2) = 1" "0 < length (arrays (sample_sched 2))"
    by (simp_all add: sample_sched_defs)
  ultimately show ?thesis
    using schedule_highest_priority [of 0 "sample_sched 2" ?L 120 "0x1000" "[0x2000]" zero_tss] sample_rq_shape by auto
qed

theorem sched_init_garbage_witness:
  "\<exists>s'. schedule zero_tss (sched_init (sample_sched 2)) = Some s' \<and> current s' = 0x30303030"
  by (rule sched_init_garbage) simp


theorem enqueue_after_dequeue_null_witness:
  "\<exists>s'. dequeue_task 0x1000 0 (sample_sched 2) = Some s' \<and> enqueue_task 0x3000 0 s' = None"
  by (rule enqueue_after_dequeue_null [OF sample_rq_shape _ sample_levels(4)]) (simp_all add: sample_sched_defs)

theorem timeslice_by_priority_witness:
  "0 < task_timeslice (sample_task 139 0 0) \<and> task_timeslice (sample_task 139 0 0) < task_timeslice (sample_task 20 0 0)"
  by (rule timeslice_by_priority) (simp_all add: sample_task_def)

theorem tick_fires_due_timers_witness:
  "\<exists>s'. scheduler_tick (\<lambda>_ s. Some (s\<lparr>need_resched := True\<rparr>)) (sample_sched 2) = Some ([0x9100, 0x9000], s') \<and> need_resched s'"
proof -
  have "timer_blind (\<lambda>_ s. Some (s\<lparr>need_resched := True\<rparr>))" by (simp add: timer_blind_def)
  from tick_fires_due_timers [OF this, of "sample_sched 2" "[1, 0]" "(sample_sched 2)\<lparr>need_resched := True\<rparr>"] show ?thesis
    by (auto simp: sample_sched_defs expires_def)
qed

theorem adjacent_timers_make_cycle_witness:
  "\<exists>fired s' s''. tick_timers (\<lambda>_. Some) None (Some Timer_Head) [] (sample_sched 2) = Some (fired, s')
     \<and> tl_next (timer_head s') = Some 0
     \<and> add_timer 0x9200 7 s' = Some s'' \<and> tl_next (timer_lists s'' ! 0) = Some 0"
  by (rule adjacent_timers_make_cycle [where a = 1]) (simp_all add: sample_sched_defs expires_def)

theorem wake_up_wakes_all_witness:
  "wake_up (Some 0) (sample_sched 0)
     = wake_each (map (\<lambda>j. w_task (w_queues (sample_sched 0) ! j)) (0 # [1])) (sample_sched 0)"
  by (rule wake_up_wakes_all) (simp add: sample_sched_defs)

theorem sleep_on_uses_up_entry_witness: "sleep_on zero_tss None (sample_sched 2) = None"
proof -
  have "free_waits (sample_sched 2) = {}" by (auto simp: free_waits_def sample_sched_defs nth_Cons')
  with sleep_on_uses_up_entry [of zero_tss None "sample_sched 2"] show ?thesis by blast
qed

end
