(* ===== verification/Buffer_Cache.thy ===== *)
theory Buffer_Cache
  imports Linked_Rings Sched
begin

unbundle bit_operations_syntax

section \<open>The buffer cache\<close>

text \<open>
  Models drivers/block_buffer.c with \<open>struct buffer_head\<close> of include/fs/fs.h. Buffers are
  numbered in the order of the array \<open>start_buffer\<close>; a pointer is a number, the null
  pointer \<open>None\<close>. The disk maps a block number to its 1024 bytes. \<open>transfer_block\<close> is what the
  disk driver promises of \<open>read_write_block\<close>, the completed transfer of one block; theory
  \<open>Hd\<close> shows that the driver keeps the promise. \<open>None\<close> also stands for a caller that goes to
  sleep on a locked or missing buffer.

  The free list is a circular list through \<open>free_next\<close> and \<open>free_prev\<close>; a released buffer
  never returns to it.
\<close>

subsection \<open>Data\<close>

abbreviation NR_FS_START :: nat where "NR_FS_START \<equiv> 128"
abbreviation BLOCK_SIZE :: nat where "BLOCK_SIZE \<equiv> 1024"
abbreviation BUFFER_HASH_NO :: nat where "BUFFER_HASH_NO \<equiv> 400"
abbreviation FILE_READ :: u32 where "FILE_READ \<equiv> 1"
abbreviation FILE_WRITE :: u32 where "FILE_WRITE \<equiv> 2"

text \<open>The size of \<open>struct buffer_head\<close> in bytes.\<close>

abbreviation BUFFER_HEAD_SIZE :: nat where "BUFFER_HEAD_SIZE \<equiv> 44"

record buffer_head =
  b_addr :: nat
  b_data :: "u8 list"
  b_dirty :: bool
  b_count :: int
  b_lock :: u32
  b_block :: nat
  free_next :: "nat option"
  free_prev :: "nat option"
  hash_next :: "nat option"
  hash_prev :: "nat option"

record bcache =
  bufs :: "nat \<Rightarrow> buffer_head"
  active_hash_table :: "nat \<Rightarrow> nat option"
  free_list_table :: "nat option"
  nr_buffers :: nat
  active_buffer_count :: int
  disk :: "nat \<Rightarrow> u8 list"

definition upd_buf :: "nat \<Rightarrow> (buffer_head \<Rightarrow> buffer_head) \<Rightarrow> bcache \<Rightarrow> bcache" where
  "upd_buf b f s = s\<lparr>bufs := (bufs s)(b := f (bufs s b))\<rparr>"

definition upd_buf_at :: "nat option \<Rightarrow> (buffer_head \<Rightarrow> buffer_head) \<Rightarrow> bcache \<Rightarrow> bcache option" where
  "upd_buf_at p f s = map_option (\<lambda>b. upd_buf b f s) p"

subsection \<open>Transfers\<close>

definition transfer_block :: "u32 \<Rightarrow> nat \<Rightarrow> bcache \<Rightarrow> bcache" where
  "transfer_block rw b s =
     (if rw = FILE_READ then upd_buf b (\<lambda>h. h\<lparr>b_data := disk s (b_block h)\<rparr>) s
      else if rw = FILE_WRITE then s\<lparr>disk := (disk s)(b_block (bufs s b) := b_data (bufs s b))\<rparr>
      else s)"

definition sync_buffer :: "nat \<Rightarrow> bcache \<Rightarrow> bcache" where
  "sync_buffer b s = transfer_block FILE_WRITE b s"

text \<open>\<open>mutex_lock_test\<close> returns 1 or -1, so the test for 0 never skips a buffer, and each
  call counts the lock up.\<close>

fun sync_dev_from :: "nat \<Rightarrow> nat \<Rightarrow> bcache \<Rightarrow> bcache" where
  "sync_dev_from 0 b s = s"
| "sync_dev_from (Suc n) b s =
     (case mutex_lock_test (b_lock (bufs s b)) of (r, l) \<Rightarrow>
        let s = upd_buf b (\<lambda>h. h\<lparr>b_lock := l\<rparr>) s;
            s = (if r = 0 then s else if \<not> b_dirty (bufs s b) then s else transfer_block FILE_WRITE b s)
        in sync_dev_from n (b + 1) s)"

definition sync_dev :: "bcache \<Rightarrow> bcache" where
  "sync_dev s = sync_dev_from (nr_buffers s) 0 s"

subsection \<open>The hash table\<close>

definition update_active_hash :: "nat \<Rightarrow> bcache \<Rightarrow> bcache option" where
  "update_active_hash b s = do {
     s \<leftarrow> upd_buf_at (free_prev (bufs s b)) (\<lambda>h. h\<lparr>free_next := free_next (bufs s b)\<rparr>) s;
     s \<leftarrow> upd_buf_at (free_next (bufs s b)) (\<lambda>h. h\<lparr>free_prev := free_prev (bufs s b)\<rparr>) s;
     let s = (if free_list_table s = Some b then s\<lparr>free_list_table := free_next (bufs s b)\<rparr> else s);
     let i = b_block (bufs s b) mod BUFFER_HASH_NO;
     case active_hash_table s i of
       None \<Rightarrow> Some (s\<lparr>active_hash_table := (active_hash_table s)(i := Some b)\<rparr>)
     | Some h \<Rightarrow>
         let s = (case hash_next (bufs s h) of
                    None \<Rightarrow> s
                  | Some n \<Rightarrow> upd_buf b (\<lambda>x. x\<lparr>hash_next := Some n\<rparr>) (upd_buf n (\<lambda>x. x\<lparr>hash_prev := Some b\<rparr>) s));
             s = upd_buf h (\<lambda>x. x\<lparr>hash_next := Some b\<rparr>) s
         in Some (upd_buf b (\<lambda>x. x\<lparr>hash_prev := Some h\<rparr>) s) }"

text \<open>In the last branch both neighbours are dereferenced without a test.\<close>

definition free_active_hash :: "nat \<Rightarrow> bcache \<Rightarrow> bcache option" where
  "free_active_hash b s = do {
     let s = (case hash_next (bufs s b) of None \<Rightarrow> s
              | Some n \<Rightarrow> upd_buf n (\<lambda>x. x\<lparr>hash_prev := hash_prev (bufs s b)\<rparr>) s);
     let s = (case hash_prev (bufs s b) of None \<Rightarrow> s
              | Some p \<Rightarrow> upd_buf p (\<lambda>x. x\<lparr>hash_next := hash_next (bufs s b)\<rparr>) s);
     let i = b_block (bufs s b) mod BUFFER_HASH_NO;
     if active_hash_table s i = Some b
     then Some (s\<lparr>active_hash_table := (active_hash_table s)(i := hash_next (bufs s b))\<rparr>)
     else do {
       s \<leftarrow> upd_buf_at (hash_next (bufs s b)) (\<lambda>x. x\<lparr>hash_prev := hash_prev (bufs s b)\<rparr>) s;
       upd_buf_at (hash_prev (bufs s b)) (\<lambda>x. x\<lparr>hash_next := hash_next (bufs s b)\<rparr>) s } }"

text \<open>The parameter is an \<open>unsigned short\<close>. The result is the buffer, or the null pointer.\<close>

partial_function (option) chain_find :: "nat option \<Rightarrow> nat \<Rightarrow> bcache \<Rightarrow> nat option option" where
  "chain_find temp block s =
     (case temp of
        None \<Rightarrow> Some None
      | Some b \<Rightarrow> if b_block (bufs s b) \<noteq> block then chain_find (hash_next (bufs s b)) block s
                  else Some (Some b))"

definition get_hash_buffer :: "nat \<Rightarrow> bcache \<Rightarrow> (nat option \<times> bcache) option" where
  "get_hash_buffer block s = do {
     let block = block mod 65536;
     r \<leftarrow> chain_find (active_hash_table s (block mod BUFFER_HASH_NO)) block s;
     case r of
       None \<Rightarrow> Some (None, s)
     | Some b \<Rightarrow> if b_lock (bufs s b) \<noteq> 0 then None
                 else Some (Some b, upd_buf b (\<lambda>h. h\<lparr>b_count := b_count h + 1\<rparr>) s) }"

subsection \<open>Allocating and releasing\<close>

partial_function (option) alloc_buffer :: "nat \<Rightarrow> bcache \<Rightarrow> (nat \<times> bcache) option" where
  "alloc_buffer block s =
     Option.bind (get_hash_buffer block s) (\<lambda>(r, s).
       case r of
         Some b \<Rightarrow> Some (b, s)
       | None \<Rightarrow>
           Option.bind (free_list_table s) (\<lambda>b.
             let s = s\<lparr>free_list_table := free_next (bufs s b)\<rparr> in
             if b_lock (bufs s b) \<noteq> 0 then alloc_buffer block s
             else if b_dirty (bufs s b) then None
             else let s = upd_buf b (\<lambda>h. h\<lparr>b_count := b_count h + 1, b_dirty := False, b_block := block\<rparr>) s
                  in Option.bind
                       (update_active_hash b (s\<lparr>active_buffer_count := active_buffer_count s + 1\<rparr>))
                       (\<lambda>s. Some (b, s))))"

text \<open>A dirty free buffer: \<open>sync_dev\<close> runs, then \<open>mutex_lock_test\<close> is non-zero in every case
  and the caller sleeps; this is the \<open>None\<close> of \<open>alloc_buffer\<close>.\<close>

definition brelse :: "nat \<Rightarrow> bcache \<Rightarrow> bcache option" where
  "brelse b s =
     (if b_lock (bufs s b) \<noteq> 0 then None
      else let s = upd_buf b (\<lambda>h. h\<lparr>b_count := b_count h - 1\<rparr>) s in
        if b_count (bufs s b) \<le> 0
        then let s = (if b_dirty (bufs s b) then sync_buffer b s else s)
             in free_active_hash b (s\<lparr>active_buffer_count := active_buffer_count s - 1\<rparr>)
        else Some s)"

definition bread_block :: "nat \<Rightarrow> bcache \<Rightarrow> (nat \<times> bcache) option" where
  "bread_block block s = do {
     (b, s) \<leftarrow> alloc_buffer (block + NR_FS_START) s;
     Some (b, transfer_block FILE_READ b s) }"

text \<open>Four blocks are read into the page. The result is what the page holds.\<close>

fun bread_all :: "nat list \<Rightarrow> bcache \<Rightarrow> (nat list \<times> bcache) option" where
  "bread_all [] s = Some ([], s)"
| "bread_all (n # ns) s = do {
     (b, s) \<leftarrow> alloc_buffer n s;
     (bs, s) \<leftarrow> bread_all ns (transfer_block FILE_READ b s);
     Some (b # bs, s) }"

fun copy_all :: "nat list \<Rightarrow> bcache \<Rightarrow> (u8 list \<times> bcache) option" where
  "copy_all [] s = Some ([], s)"
| "copy_all (b # bs) s =
     (if b_lock (bufs s b) \<noteq> 0 then None
      else do {
        let d = b_data (bufs s b);
        s \<leftarrow> brelse b s;
        (ds, s) \<leftarrow> copy_all bs s;
        Some (d @ ds, s) })"

definition bread_page :: "nat list \<Rightarrow> bcache \<Rightarrow> (u8 list \<times> bcache) option" where
  "bread_page blocks s = do {
     (bs, s) \<leftarrow> bread_all blocks s;
     copy_all bs s }"

subsection \<open>Setting up\<close>

text \<open>Buffer heads grow upwards from \<open>0x100000\<close>, their data blocks downwards from the end.\<close>

function buffer_loop :: "nat \<Rightarrow> nat \<Rightarrow> bcache \<Rightarrow> nat \<times> bcache" where
  "buffer_loop mem_end b s =
     (if BLOCK_SIZE \<le> mem_end \<and> 0x100000 + (b + 1) * BUFFER_HEAD_SIZE \<le> mem_end - BLOCK_SIZE
      then buffer_loop (mem_end - BLOCK_SIZE) (b + 1)
        (upd_buf b (\<lambda>h. h\<lparr>b_dirty := False, b_count := 0, b_lock := 0, free_next := Some (b + 1),
           free_prev := (if b = 0 then None else Some (b - 1)), b_addr := mem_end - BLOCK_SIZE\<rparr>) s)
      else (b, s))"
  by pat_completeness auto
termination
  by (relation "measure (\<lambda>(e, _, _). e)") auto

declare buffer_loop.simps [simp del]

definition buffer_init :: "nat \<Rightarrow> bcache \<Rightarrow> bcache" where
  "buffer_init buffer_memory_end s =
     (case buffer_loop buffer_memory_end 0 s of (n, s) \<Rightarrow>
        let s = s\<lparr>nr_buffers := n, free_list_table := Some 0, active_buffer_count := 0\<rparr>;
            s = upd_buf 0 (\<lambda>h. h\<lparr>free_prev := Some (n - 1)\<rparr>) s
        in upd_buf (n - 1) (\<lambda>h. h\<lparr>free_next := Some 0\<rparr>) s)"

subsection \<open>The free list as a list of buffers\<close>

abbreviation free_chain :: "bcache \<Rightarrow> nat \<Rightarrow> nat list \<Rightarrow> nat \<Rightarrow> bool" where
  "free_chain s \<equiv> chain (\<lambda>b. free_next (bufs s b)) (\<lambda>b. free_prev (bufs s b))"

definition fresh_buf :: "buffer_head \<Rightarrow> bool" where
  "fresh_buf h \<longleftrightarrow> b_count h = 0 \<and> b_lock h = 0 \<and> \<not> b_dirty h \<and> hash_next h = None \<and> hash_prev h = None"

definition cache_ok :: "bcache \<Rightarrow> nat list \<Rightarrow> bool" where
  "cache_ok s fl \<longleftrightarrow> fl \<noteq> [] \<and> free_list_table s = Some (hd fl) \<and> free_chain s (hd fl) (tl fl) (hd fl)
     \<and> distinct fl \<and> (\<forall>b \<in> set fl. fresh_buf (bufs s b))"

lemma get_hash_empty:
  assumes "active_hash_table s (n mod BUFFER_HASH_NO) = None" and "n < 65536"
  shows "get_hash_buffer n s = Some (None, s)"
  using assms by (simp add: get_hash_buffer_def Let_def chain_find.simps)

lemma upd_buf_simps [simp]:
  "bufs (upd_buf b f s) = (bufs s)(b := f (bufs s b))" "disk (upd_buf b f s) = disk s"
  "active_hash_table (upd_buf b f s) = active_hash_table s" "free_list_table (upd_buf b f s) = free_list_table s"
  by (simp_all add: upd_buf_def)

lemma update_active_hash_empty:
  assumes "free_prev (bufs s b) = Some l" and "free_next (bufs s b) = Some x" and "b \<noteq> l" and "b \<noteq> x"
    and "active_hash_table s (b_block (bufs s b) mod BUFFER_HASH_NO) = None" and "free_list_table s \<noteq> Some b"
    and "m = (bufs s)(l := (bufs s l)\<lparr>free_next := Some x\<rparr>)"
  shows "update_active_hash b s = Some (s\<lparr>bufs := m(x := (m x)\<lparr>free_prev := Some l\<rparr>),
    active_hash_table := (active_hash_table s)(b_block (bufs s b) mod BUFFER_HASH_NO := Some b)\<rparr>)"
proof -
  have "free_next (m b) = Some x" "free_prev (m b) = Some l" "b_block (m b) = b_block (bufs s b)"
    using assms(1-4,7) by auto
  then show ?thesis
    using assms(1-6) unfolding update_active_hash_def upd_buf_at_def Let_def
    by (simp add: assms(7) [symmetric] upd_buf_def)
qed

text \<open>Taking the first buffer off the free list, for a block in an empty bucket.\<close>

lemma alloc_buffer_fresh:
  assumes "cache_ok s (h # x # fl)" and "active_hash_table s (n mod BUFFER_HASH_NO) = None" and "n < 65536"
  shows "\<exists>t. alloc_buffer n s = Some (h, t) \<and> cache_ok t (x # fl) \<and> disk t = disk s
    \<and> active_hash_table t = (active_hash_table s)(n mod BUFFER_HASH_NO := Some h)
    \<and> b_count (bufs t h) = 1 \<and> b_block (bufs t h) = n \<and> b_lock (bufs t h) = 0 \<and> \<not> b_dirty (bufs t h)
    \<and> hash_next (bufs t h) = None \<and> hash_prev (bufs t h) = None
    \<and> (\<forall>b. b \<notin> set (h # x # fl) \<longrightarrow> bufs t b = bufs s b)"
proof -
  let ?l = "last (x # fl)"
  have ok: "free_list_table s = Some h" "free_chain s h (x # fl) h" "distinct (h # x # fl)" "fresh_buf (bufs s h)"
    "\<And>b. b \<in> set (x # fl) \<Longrightarrow> fresh_buf (bufs s b)"
    using assms(1) by (auto simp: cache_ok_def)
  have lk: "free_next (bufs s h) = Some x" "free_prev (bufs s h) = Some ?l"
    using ok(2) chain_last [OF ok(2)] by auto
  have ne: "?l \<in> set (x # fl)" "h \<noteq> x" "h \<noteq> ?l" using ok(3) last_in_set [of "x # fl"] by auto
  define m1 where "m1 = (bufs s)(h := (bufs s h)\<lparr>b_count := 1, b_dirty := False, b_block := n\<rparr>)"
  define m2 where "m2 = m1(?l := (m1 ?l)\<lparr>free_next := Some x\<rparr>)"
  define m3 where "m3 = m2(x := (m2 x)\<lparr>free_prev := Some ?l\<rparr>)"
  define t where "t = s\<lparr>bufs := m3, free_list_table := Some x, active_buffer_count := active_buffer_count s + 1,
       active_hash_table := (active_hash_table s)(n mod BUFFER_HASH_NO := Some h)\<rparr>"
  have "free_next (m1 h) = Some x" "free_prev (m1 h) = Some ?l" "free_next (m2 h) = Some x"
    "free_prev (m2 h) = Some ?l" "b_block (m3 h) = n" "b_count (bufs s h) = 0" "b_lock (bufs s h) = 0"
    "\<not> b_dirty (bufs s h)"
    using lk ne ok(4) by (auto simp: m1_def m2_def m3_def fresh_buf_def)
  note fr = this
  let ?s1 = "s\<lparr>free_list_table := Some x, bufs := m1, active_buffer_count := active_buffer_count s + 1\<rparr>"
  have up: "update_active_hash h ?s1 = Some t"
    using update_active_hash_empty [of ?s1 h ?l x m2] fr ne assms(2)
    by (simp add: t_def m3_def m2_def)
  have "alloc_buffer n s = Some (h, t)"
    using ok(1) lk(1) fr get_hash_empty [OF assms(2,3)] up
    by (subst alloc_buffer.simps) (simp add: Let_def upd_buf_def m1_def)
  moreover have "free_chain t x fl x"
    by (rule chain_unlink_first [OF ok(2,3)]) (use ne ok(3) in \<open>auto simp: t_def m3_def m2_def m1_def\<close>)
  then have "cache_ok t (x # fl)"
    using ok(3,5) by (auto simp: cache_ok_def t_def m3_def m2_def m1_def fresh_buf_def)
  moreover have "bufs t b = bufs s b" if "b \<notin> set (h # x # fl)" for b
    using that ne by (auto simp: t_def m3_def m2_def m1_def)
  moreover have "bufs t h = m1 h" using ne by (simp add: t_def m3_def m2_def del: last.simps)
  then have "b_count (bufs t h) = 1 \<and> b_block (bufs t h) = n \<and> b_lock (bufs t h) = 0 \<and> \<not> b_dirty (bufs t h)
      \<and> hash_next (bufs t h) = None \<and> hash_prev (bufs t h) = None"
    using ok(4) by (simp add: m1_def fresh_buf_def)
  moreover have "disk t = disk s" "active_hash_table t = (active_hash_table s)(n mod BUFFER_HASH_NO := Some h)"
    by (simp_all add: t_def)
  ultimately show ?thesis by blast
qed

text \<open>Releasing the only buffer of a bucket.\<close>

lemma brelse_single:
  assumes "b_count (bufs s b) = 1" and "b_lock (bufs s b) = 0" and "hash_next (bufs s b) = None"
    and "hash_prev (bufs s b) = None" and "active_hash_table s (b_block (bufs s b) mod BUFFER_HASH_NO) = Some b"
  shows "\<exists>t. brelse b s = Some t
    \<and> disk t = (if b_dirty (bufs s b) then (disk s)(b_block (bufs s b) := b_data (bufs s b)) else disk s)
    \<and> active_hash_table t = (active_hash_table s)(b_block (bufs s b) mod BUFFER_HASH_NO := None)
    \<and> free_list_table t = free_list_table s
    \<and> bufs t = (bufs s)(b := (bufs s b)\<lparr>b_count := 0\<rparr>)"
  using assms
  by (simp add: brelse_def free_active_hash_def sync_buffer_def transfer_block_def Let_def upd_buf_def)

lemma cache_ok_frame:
  assumes "cache_ok s fl" and "free_list_table t = free_list_table s"
    and "\<And>b. b \<in> set fl \<Longrightarrow> bufs t b = bufs s b"
  shows "cache_ok t fl"
proof -
  have "free_chain t (hd fl) (tl fl) (hd fl)"
    by (rule chain_cong [of "\<lambda>b. free_next (bufs s b)" "\<lambda>b. free_prev (bufs s b)"])
      (use assms in \<open>cases fl; auto simp: cache_ok_def\<close>)+
  then show ?thesis using assms by (auto simp: cache_ok_def)
qed

text \<open>A block is read, its buffer perhaps modified, and released again: \<open>upd\<close> is what the
  holder of the buffer does to its data and dirty flag.\<close>

lemma bread_release:
  assumes "cache_ok s (h # x # fl)" and "n + NR_FS_START < 65536"
    and "active_hash_table s ((n + NR_FS_START) mod BUFFER_HASH_NO) = None"
  shows "\<exists>s1. bread_block n s = Some (h, s1) \<and> b_data (bufs s1 h) = disk s (n + NR_FS_START)
    \<and> \<not> b_dirty (bufs s1 h) \<and> disk s1 = disk s
    \<and> (\<forall>d dr. \<exists>s2. brelse h (upd_buf h (\<lambda>b. b\<lparr>b_data := d, b_dirty := dr\<rparr>) s1) = Some s2
         \<and> cache_ok s2 (x # fl) \<and> active_hash_table s2 = active_hash_table s
         \<and> disk s2 = (if dr then (disk s)(n + NR_FS_START := d) else disk s))"
proof -
  let ?n = "n + NR_FS_START"
  from alloc_buffer_fresh [OF assms(1,3,2)] obtain t where t: "alloc_buffer ?n s = Some (h, t)"
    "cache_ok t (x # fl)" "disk t = disk s"
    "active_hash_table t = (active_hash_table s)(?n mod BUFFER_HASH_NO := Some h)"
    "b_count (bufs t h) = 1" "b_block (bufs t h) = ?n" "b_lock (bufs t h) = 0" "\<not> b_dirty (bufs t h)"
    "hash_next (bufs t h) = None" "hash_prev (bufs t h) = None" by blast
  let ?s1 = "upd_buf h (\<lambda>b. b\<lparr>b_data := disk s ?n\<rparr>) t"
  have h: "h \<notin> set (x # fl)" using assms(1) by (simp add: cache_ok_def)
  have rd: "bread_block n s = Some (h, ?s1)"
    using t(1,3,6) by (simp add: bread_block_def transfer_block_def upd_buf_def)
  have "\<exists>s2. brelse h (upd_buf h (\<lambda>b. b\<lparr>b_data := d, b_dirty := dr\<rparr>) ?s1) = Some s2
         \<and> cache_ok s2 (x # fl) \<and> active_hash_table s2 = active_hash_table s
         \<and> disk s2 = (if dr then (disk s)(?n := d) else disk s)" for d dr
  proof -
    let ?u = "upd_buf h (\<lambda>b. b\<lparr>b_data := d, b_dirty := dr\<rparr>) ?s1"
    have u: "b_block (bufs ?u h) = ?n" "b_dirty (bufs ?u h) = dr" "b_data (bufs ?u h) = d" "disk ?u = disk s"
      using t(3,6) by simp_all
    from brelse_single [of ?u h] t(4-10) obtain s2 where s2: "brelse h ?u = Some s2"
      "disk s2 = (if b_dirty (bufs ?u h) then (disk ?u)(b_block (bufs ?u h) := b_data (bufs ?u h)) else disk ?u)"
      "active_hash_table s2 = (active_hash_table ?u)(b_block (bufs ?u h) mod BUFFER_HASH_NO := None)"
      "free_list_table s2 = free_list_table ?u" "bufs s2 = (bufs ?u)(h := (bufs ?u h)\<lparr>b_count := 0\<rparr>)"
      by auto
    have "cache_ok s2 (x # fl)"
      by (rule cache_ok_frame [OF t(2)]) (use s2(4,5) h in auto)
    moreover have "active_hash_table s2 = active_hash_table s"
      using s2(3) t(4,6) assms(3) by (auto simp: fun_upd_idem)
    ultimately show ?thesis using s2(1,2) u by (intro exI [of _ s2]) auto
  qed
  with rd t(3,8) show ?thesis by (intro exI [of _ ?s1]) simp
qed

subsection \<open>Reading a page\<close>

text \<open>More than \<open>k\<close> buffers are free.\<close>

definition spare :: "nat \<Rightarrow> bcache \<Rightarrow> bool" where
  "spare k s \<longleftrightarrow> (\<exists>fl. cache_ok s fl \<and> k < length fl)"

text \<open>Buffer \<open>b\<close> holds block \<open>n\<close> and is the only one of its bucket.\<close>

definition holds_block :: "bcache \<Rightarrow> nat \<Rightarrow> nat \<Rightarrow> bool" where
  "holds_block s b n \<longleftrightarrow> b_count (bufs s b) = 1 \<and> b_block (bufs s b) = n \<and> b_lock (bufs s b) = 0 \<and> \<not> b_dirty (bufs s b)
     \<and> hash_next (bufs s b) = None \<and> hash_prev (bufs s b) = None \<and> b_data (bufs s b) = disk s n
     \<and> active_hash_table s (n mod BUFFER_HASH_NO) = Some b"

lemma bread_all_run:
  assumes "cache_ok s fl" and "length ns < length fl" and "distinct (map (\<lambda>n. n mod BUFFER_HASH_NO) ns)"
    and "\<forall>n \<in> set ns. n < 65536 \<and> active_hash_table s (n mod BUFFER_HASH_NO) = None"
  shows "\<exists>t. bread_all ns s = Some (take (length ns) fl, t) \<and> cache_ok t (drop (length ns) fl) \<and> disk t = disk s
    \<and> list_all2 (holds_block t) (take (length ns) fl) ns \<and> (\<forall>b. b \<notin> set fl \<longrightarrow> bufs t b = bufs s b)
    \<and> (\<forall>j. j \<notin> (\<lambda>n. n mod BUFFER_HASH_NO) ` set ns \<longrightarrow> active_hash_table t j = active_hash_table s j)"
  using assms
proof (induction ns arbitrary: s fl)
  case (Cons n ns)
  then obtain h x fl' where fl: "fl = h # x # fl'" by (cases fl; cases "tl fl") auto
  from alloc_buffer_fresh [OF Cons.prems(1) [unfolded fl], of n] Cons.prems(4) obtain t where
    t: "alloc_buffer n s = Some (h, t)" "cache_ok t (x # fl')" "disk t = disk s"
      "active_hash_table t = (active_hash_table s)(n mod BUFFER_HASH_NO := Some h)"
      "b_count (bufs t h) = 1" "b_block (bufs t h) = n" "b_lock (bufs t h) = 0" "\<not> b_dirty (bufs t h)"
      "hash_next (bufs t h) = None" "hash_prev (bufs t h) = None"
      "\<forall>b. b \<notin> set (h # x # fl') \<longrightarrow> bufs t b = bufs s b" by auto
  have nj: "n mod BUFFER_HASH_NO \<notin> (\<lambda>n. n mod BUFFER_HASH_NO) ` set ns" using Cons.prems(3) by simp
  let ?t = "transfer_block FILE_READ h t"
  have h: "h \<notin> set (x # fl')" using Cons.prems(1) by (simp add: cache_ok_def fl)
  have tb: "?t = upd_buf h (\<lambda>b. b\<lparr>b_data := disk s n\<rparr>) t" using t(3,6) by (simp add: transfer_block_def upd_buf_def)
  have "cache_ok ?t (x # fl')" by (rule cache_ok_frame [OF t(2)]) (use h in \<open>auto simp: tb\<close>)
  moreover have "m mod BUFFER_HASH_NO \<noteq> n mod BUFFER_HASH_NO" if "m \<in> set ns" for m
    using nj imageI [OF that, of "\<lambda>n. n mod BUFFER_HASH_NO"] by metis
  then have "\<forall>m \<in> set ns. m < 65536 \<and> active_hash_table ?t (m mod BUFFER_HASH_NO) = None"
    using Cons.prems(4) by (simp add: tb t(4))
  ultimately obtain u where u: "bread_all ns ?t = Some (take (length ns) (x # fl'), u)"
    "cache_ok u (drop (length ns) (x # fl'))" "disk u = disk ?t"
    "list_all2 (holds_block u) (take (length ns) (x # fl')) ns" "\<forall>b. b \<notin> set (x # fl') \<longrightarrow> bufs u b = bufs ?t b"
    "\<forall>j. j \<notin> (\<lambda>n. n mod BUFFER_HASH_NO) ` set ns \<longrightarrow> active_hash_table u j = active_hash_table ?t j"
    using Cons.IH [of ?t "x # fl'"] Cons.prems(2,3) by (auto simp: fl)
  have "holds_block u h n"
    unfolding holds_block_def using u(3,5,6) h nj t(4-10) by (simp add: tb t(3))
  moreover have "bufs u b = bufs s b" if "b \<notin> set fl" for b
    using that u(5) t(11) by (auto simp: tb fl)
  ultimately show ?case
    using t(1,4) u by (intro exI [of _ u]) (auto simp: fl tb t(3))
qed simp

lemma copy_all_run:
  assumes "list_all2 (holds_block s) bs ns" and "distinct bs" and "distinct (map (\<lambda>n. n mod BUFFER_HASH_NO) ns)"
  shows "\<exists>t. copy_all bs s = Some (concat (map (disk s) ns), t) \<and> disk t = disk s \<and> free_list_table t = free_list_table s
    \<and> (\<forall>b. b \<notin> set bs \<longrightarrow> bufs t b = bufs s b)
    \<and> (\<forall>j. active_hash_table t j = (if j \<in> (\<lambda>n. n mod BUFFER_HASH_NO) ` set ns then None else active_hash_table s j))"
  using assms
proof (induction bs arbitrary: s ns)
  case (Cons b bs)
  then obtain n ns' where ns: "ns = n # ns'" and hb: "holds_block s b n" and hs: "list_all2 (holds_block s) bs ns'"
    by (auto simp: list_all2_Cons1)
  from brelse_single [of s b] hb obtain t where t: "brelse b s = Some t" "disk t = disk s"
    "active_hash_table t = (active_hash_table s)(n mod BUFFER_HASH_NO := None)" "free_list_table t = free_list_table s"
    "bufs t = (bufs s)(b := (bufs s b)\<lparr>b_count := 0\<rparr>)" by (auto simp: holds_block_def)
  have "list_all2 (holds_block t) bs ns'"
  proof (rule list_all2_all_nthI)
    show "length bs = length ns'" using hs by (rule list_all2_lengthD)
    fix i assume i: "i < length bs"
    then have "ns' ! i \<in> set ns'" "bs ! i \<in> set bs" using list_all2_lengthD [OF hs] by simp_all
    then have "holds_block s (bs ! i) (ns' ! i)" "bs ! i \<noteq> b" using i hs Cons.prems(2) by (auto simp: list_all2_conv_all_nth)
    moreover have "n mod BUFFER_HASH_NO \<notin> (\<lambda>n. n mod BUFFER_HASH_NO) ` set ns'" using Cons.prems(3) by (simp add: ns)
    then have "ns' ! i mod BUFFER_HASH_NO \<noteq> n mod BUFFER_HASH_NO"
      using imageI [OF \<open>ns' ! i \<in> set ns'\<close>, of "\<lambda>n. n mod BUFFER_HASH_NO"] by metis
    ultimately show "holds_block t (bs ! i) (ns' ! i)" by (simp add: holds_block_def t(2,3,5))
  qed
  from Cons.IH [OF this] Cons.prems(2,3) obtain u where u: "copy_all bs t = Some (concat (map (disk t) ns'), u)" "disk u = disk t"
    "free_list_table u = free_list_table t" "\<forall>b. b \<notin> set bs \<longrightarrow> bufs u b = bufs t b"
    "\<forall>j. active_hash_table u j = (if j \<in> (\<lambda>n. n mod BUFFER_HASH_NO) ` set ns' then None else active_hash_table t j)"
    by (auto simp: ns)
  show ?case
    using hb t u by (intro exI [of _ u]) (auto simp: ns holds_block_def Let_def)
qed simp

text \<open>Reading blocks of different, empty buckets into a page.\<close>

lemma bread_page_run:
  assumes "spare (length ns + k) s" and "distinct (map (\<lambda>n. n mod BUFFER_HASH_NO) ns)"
    and "\<forall>n \<in> set ns. n < 65536 \<and> active_hash_table s (n mod BUFFER_HASH_NO) = None"
  shows "\<exists>t. bread_page ns s = Some (concat (map (disk s) ns), t) \<and> disk t = disk s \<and> spare k t
    \<and> active_hash_table t = active_hash_table s"
proof -
  from assms(1) obtain fl where fl: "cache_ok s fl" "length ns + k < length fl" by (auto simp: spare_def)
  let ?bs = "take (length ns) fl"
  from bread_all_run [OF fl(1) _ assms(2,3)] fl(2) obtain t where t: "bread_all ns s = Some (?bs, t)"
    "cache_ok t (drop (length ns) fl)" "disk t = disk s" "list_all2 (holds_block t) ?bs ns"
    "\<forall>j. j \<notin> (\<lambda>n. n mod BUFFER_HASH_NO) ` set ns \<longrightarrow> active_hash_table t j = active_hash_table s j" by auto
  have d: "distinct fl" using fl(1) by (simp add: cache_ok_def)
  then have "distinct ?bs" by simp
  from copy_all_run [OF t(4) this assms(2)] obtain u where u: "copy_all ?bs t = Some (concat (map (disk t) ns), u)"
    "disk u = disk t" "free_list_table u = free_list_table t" "\<forall>b. b \<notin> set ?bs \<longrightarrow> bufs u b = bufs t b"
    "\<forall>j. active_hash_table u j = (if j \<in> (\<lambda>n. n mod BUFFER_HASH_NO) ` set ns then None else active_hash_table t j)" by auto
  have "set ?bs \<inter> set (drop (length ns) fl) = {}" using d by (simp add: set_take_disj_set_drop_if_distinct)
  then have "cache_ok u (drop (length ns) fl)" by (intro cache_ok_frame [OF t(2) u(3)]) (use u(4) in auto)
  then have "spare k u" using fl(2) by (auto simp: spare_def intro!: exI [of _ "drop (length ns) fl"])
  moreover have "active_hash_table u = active_hash_table s" using u(5) t(5) assms(3) by (auto simp: fun_eq_iff)
  ultimately show ?thesis using t(1,3) u(1,2) by (simp add: bread_page_def)
qed

subsection \<open>The interface the file system relies on\<close>

text \<open>Reading blocks one after the other and giving each back, and replacing a block.\<close>

fun read_blocks :: "(nat \<Rightarrow> 's \<Rightarrow> ('b \<times> 's) option) \<Rightarrow> ('b \<Rightarrow> 's \<Rightarrow> u8 list) \<Rightarrow> ('b \<Rightarrow> 's \<Rightarrow> 's option) \<Rightarrow>
    nat list \<Rightarrow> 's \<Rightarrow> (u8 list list \<times> 's) option" where
  "read_blocks get contents release [] s = Some ([], s)"
| "read_blocks get contents release (n # ns) s = do {
     (b, s) \<leftarrow> get n s;
     let d = contents b s;
     s \<leftarrow> release b s;
     (ds, s) \<leftarrow> read_blocks get contents release ns s;
     Some (d # ds, s) }"

text \<open>\<open>ready k s\<close>: \<open>k\<close> more blocks can be fetched; \<open>valid n s\<close>: block \<open>n\<close> can be fetched.\<close>

locale block_store =
  fixes get :: "nat \<Rightarrow> 's \<Rightarrow> ('b \<times> 's) option"
    and contents :: "'b \<Rightarrow> 's \<Rightarrow> u8 list"
    and replace :: "'b \<Rightarrow> u8 list \<Rightarrow> 's \<Rightarrow> 's"
    and release :: "'b \<Rightarrow> 's \<Rightarrow> 's option"
    and stored :: "'s \<Rightarrow> nat \<Rightarrow> u8 list"
    and ready :: "nat \<Rightarrow> 's \<Rightarrow> bool"
    and valid :: "nat \<Rightarrow> 's \<Rightarrow> bool"
  assumes get_release: "ready (Suc k) s \<Longrightarrow> valid n s \<Longrightarrow> \<exists>b s1 s2. get n s = Some (b, s1)
        \<and> contents b s1 = stored s n \<and> release b s1 = Some s2
        \<and> ready k s2 \<and> valid m s2 = valid m s \<and> stored s2 = stored s"
    and get_replace_release: "ready (Suc k) s \<Longrightarrow> valid n s \<Longrightarrow> \<exists>b s1 s2. get n s = Some (b, s1)
        \<and> release b (replace b d s1) = Some s2
        \<and> ready k s2 \<and> valid m s2 = valid m s \<and> stored s2 = (stored s)(n := d)"
begin

lemma read_blocks_stored:
  "ready (length ns + k) s \<Longrightarrow> (\<And>n. n \<in> set ns \<Longrightarrow> valid n s) \<Longrightarrow>
     \<exists>t. read_blocks get contents release ns s = Some (map (stored s) ns, t) \<and> ready k t \<and> stored t = stored s"
proof (induction ns arbitrary: s)
  case Nil
  then show ?case by simp
next
  case (Cons n ns)
  have r: "ready (Suc (length ns + k)) s" "valid n s" using Cons.prems by auto
  obtain b s1 s2 where b: "get n s = Some (b, s1)" "contents b s1 = stored s n" "release b s1 = Some s2"
    "ready (length ns + k) s2" "stored s2 = stored s" using get_release [OF r] by blast
  have "valid m s2 = valid m s" for m using get_release [OF r, of m] b by auto
  then have "\<And>m. m \<in> set ns \<Longrightarrow> valid m s2" using Cons.prems(2) by simp
  from Cons.IH [OF b(4) this] b show ?case by auto
qed

lemma replace_then_read:
  assumes "ready (Suc (Suc k)) s" and "valid n s"
  shows "\<exists>b s1 s2 t. get n s = Some (b, s1) \<and> release b (replace b d s1) = Some s2
     \<and> read_blocks get contents release [n] s2 = Some ([d], t) \<and> stored t = (stored s)(n := d) \<and> ready k t"
proof -
  from get_replace_release [OF assms, of d n] obtain b s1 s2 where
    s2: "get n s = Some (b, s1)" "release b (replace b d s1) = Some s2" "ready (Suc k) s2" "valid n s2"
      "stored s2 = (stored s)(n := d)" using assms(2) by auto
  with read_blocks_stored [of "[n]" k s2] show ?thesis by auto
qed

end

definition replace_data :: "nat \<Rightarrow> u8 list \<Rightarrow> bcache \<Rightarrow> bcache" where
  "replace_data b d s = upd_buf b (\<lambda>h. h\<lparr>b_data := d, b_dirty := True\<rparr>) s"

definition fs_block :: "bcache \<Rightarrow> nat \<Rightarrow> u8 list" where
  "fs_block s n = disk s (n + NR_FS_START)"

definition uncached :: "nat \<Rightarrow> bcache \<Rightarrow> bool" where
  "uncached n s \<longleftrightarrow> n + NR_FS_START < 65536 \<and> active_hash_table s ((n + NR_FS_START) mod BUFFER_HASH_NO) = None"

abbreviation buf_data :: "nat \<Rightarrow> bcache \<Rightarrow> u8 list" where
  "buf_data b s \<equiv> b_data (bufs s b)"

lemma spare_Suc:
  assumes "spare (Suc k) s"
  obtains h x fl where "cache_ok s (h # x # fl)" "k \<le> length fl"
proof -
  from assms obtain fl where "cache_ok s fl" "Suc k < length fl" by (auto simp: spare_def)
  moreover then obtain h x fl' where "fl = h # x # fl'" by (cases fl; cases "tl fl") auto
  ultimately show thesis using that by auto
qed

interpretation cache: block_store bread_block buf_data replace_data brelse fs_block spare uncached
proof
  fix k s n m and d :: "u8 list"
  assume "spare (Suc k) s" and u: "uncached n s"
  then obtain h x fl where c: "cache_ok s (h # x # fl)" "k \<le> length fl" by (auto elim: spare_Suc)
  from u have u': "n + NR_FS_START < 65536" "active_hash_table s ((n + NR_FS_START) mod BUFFER_HASH_NO) = None"
    by (simp_all add: uncached_def)
  from bread_release [OF c(1) u'] obtain s1 where s1: "bread_block n s = Some (h, s1)"
    "b_data (bufs s1 h) = disk s (n + NR_FS_START)" "\<not> b_dirty (bufs s1 h)"
    "\<forall>d dr. \<exists>s2. brelse h (upd_buf h (\<lambda>b. b\<lparr>b_data := d, b_dirty := dr\<rparr>) s1) = Some s2
         \<and> cache_ok s2 (x # fl) \<and> active_hash_table s2 = active_hash_table s
         \<and> disk s2 = (if dr then (disk s)(n + NR_FS_START := d) else disk s)"
    by (elim exE conjE) (rule that)
  have same: "upd_buf h (\<lambda>b. b\<lparr>b_data := b_data (bufs s1 h), b_dirty := False\<rparr>) s1 = s1"
    using s1(3) by (simp add: upd_buf_def fun_upd_idem)
  have sp: "spare k s2" if "cache_ok s2 (x # fl)" for s2 using that c(2) by (auto simp: spare_def)
  have un: "uncached m s2 = uncached m s" if "active_hash_table s2 = active_hash_table s" for m s2
    using that by (simp add: uncached_def)
  obtain s2 where s2: "brelse h s1 = Some s2" "cache_ok s2 (x # fl)" "active_hash_table s2 = active_hash_table s"
    "disk s2 = disk s"
    using s1(4) [THEN spec [of _ "b_data (bufs s1 h)"], THEN spec [of _ False]] unfolding same by auto
  have "fs_block s2 = fs_block s" using s2(4) by (simp add: fs_block_def fun_eq_iff)
  then show "\<exists>b s1 s2. bread_block n s = Some (b, s1) \<and> buf_data b s1 = fs_block s n \<and> brelse b s1 = Some s2
        \<and> spare k s2 \<and> uncached m s2 = uncached m s \<and> fs_block s2 = fs_block s"
    using s1(1,2) s2(1) sp [OF s2(2)] un [OF s2(3)]
    by (intro exI [of _ h] exI [of _ s1] exI [of _ s2]) (simp add: fs_block_def)
  obtain s3 where s3: "brelse h (replace_data h d s1) = Some s3" "cache_ok s3 (x # fl)"
    "active_hash_table s3 = active_hash_table s" "disk s3 = (disk s)(n + NR_FS_START := d)"
    using s1(4) [THEN spec [of _ d], THEN spec [of _ True]] unfolding replace_data_def by auto
  have "fs_block s3 = (fs_block s)(n := d)" using s3(4) by (simp add: fs_block_def fun_eq_iff)
  then show "\<exists>b s1 s2. bread_block n s = Some (b, s1) \<and> brelse b (replace_data b d s1) = Some s2
        \<and> spare k s2 \<and> uncached m s2 = uncached m s \<and> fs_block s2 = (fs_block s)(n := d)"
    using s1(1) s3(1) sp [OF s3(2)] un [OF s3(3)]
    by (intro exI [of _ h] exI [of _ s1] exI [of _ s3]) simp
qed

subsection \<open>Properties\<close>

text \<open>
  C10. A block that is read, changed, marked dirty and released is on the disk: reading it
  again gives the new contents, the other blocks keep theirs. Each of the two accesses uses
  up one buffer of the free list.
\<close>
theorem buffer_write_read:
  assumes "spare (Suc (Suc k)) s" and "uncached n s"
  shows "\<exists>b s1 s2 t. bread_block n s = Some (b, s1) \<and> brelse b (replace_data b d s1) = Some s2
     \<and> read_blocks bread_block buf_data brelse [n] s2 = Some ([d], t)
     \<and> fs_block t = (fs_block s)(n := d) \<and> spare k t"
  using assms by (rule cache.replace_then_read)

text \<open>
  A released buffer does not return to the free list: after a block has been read and
  given back, the free list is the old one without the buffer that was used.
\<close>
theorem brelse_loses_buffer:
  assumes "cache_ok s (h # x # fl)" and "uncached n s"
  shows "\<exists>s1 s2. bread_block n s = Some (h, s1) \<and> brelse h s1 = Some s2 \<and> cache_ok s2 (x # fl)"
proof -
  from assms(2) have u: "n + NR_FS_START < 65536" "active_hash_table s ((n + NR_FS_START) mod BUFFER_HASH_NO) = None"
    by (simp_all add: uncached_def)
  from bread_release [OF assms(1) u] obtain s1 where s1: "bread_block n s = Some (h, s1)"
    "\<not> b_dirty (bufs s1 h)"
    "\<forall>d dr. \<exists>s2. brelse h (upd_buf h (\<lambda>b. b\<lparr>b_data := d, b_dirty := dr\<rparr>) s1) = Some s2
         \<and> cache_ok s2 (x # fl) \<and> active_hash_table s2 = active_hash_table s
         \<and> disk s2 = (if dr then (disk s)(n + NR_FS_START := d) else disk s)"
    by (elim exE conjE) (rule that)
  have "upd_buf h (\<lambda>b. b\<lparr>b_data := b_data (bufs s1 h), b_dirty := False\<rparr>) s1 = s1"
    using s1(2) by (simp add: upd_buf_def fun_upd_idem)
  with s1(1) s1(3) [THEN spec [of _ "b_data (bufs s1 h)"], THEN spec [of _ False]] show ?thesis by auto
qed

text \<open>
  Releasing the last buffer of a hash chain that has several follows a null pointer: the
  successor is dereferenced without a test.
\<close>
theorem free_active_hash_tail_faults:
  assumes "hash_next (bufs s b) = None" and "hash_prev (bufs s b) = Some p" and "p \<noteq> b"
    and "active_hash_table s (b_block (bufs s b) mod BUFFER_HASH_NO) \<noteq> Some b"
  shows "free_active_hash b s = None"
  using assms by (simp add: free_active_hash_def upd_buf_at_def Let_def)

lemma buffer_loop_result:
  "buffer_loop e b s = (n, t) \<Longrightarrow> b \<le> n \<and> 1024 * (n - b) \<le> e
     \<and> (b < n \<longrightarrow> 0x100000 + n * BUFFER_HEAD_SIZE + 1024 * (n - b) \<le> e)
     \<and> (\<forall>i. bufs t i = (if b \<le> i \<and> i < n
           then (bufs s i)\<lparr>b_dirty := False, b_count := 0, b_lock := 0, free_next := Some (i + 1),
             free_prev := (if i = 0 then None else Some (i - 1)), b_addr := e - 1024 * (i - b + 1)\<rparr>
           else bufs s i))"
proof (induction e b s arbitrary: n t rule: buffer_loop.induct)
  case (1 e b s)
  let ?c = "BLOCK_SIZE \<le> e \<and> 0x100000 + (b + 1) * BUFFER_HEAD_SIZE \<le> e - BLOCK_SIZE"
  show ?case
  proof (cases ?c)
    case False
    then have "buffer_loop e b s = (b, s)" by (subst buffer_loop.simps) (rule if_not_P)
    then have "n = b" "t = s" using "1.prems" by simp_all
    then show ?thesis by auto
  next
    case True
    let ?s = "upd_buf b (\<lambda>h. h\<lparr>b_dirty := False, b_count := 0, b_lock := 0, free_next := Some (b + 1),
           free_prev := (if b = 0 then None else Some (b - 1)), b_addr := e - BLOCK_SIZE\<rparr>) s"
    have "buffer_loop (e - BLOCK_SIZE) (b + 1) ?s = (n, t)"
      using "1.prems" True by (subst (asm) buffer_loop.simps) simp
    from "1.IH" [OF True this] have ih: "b + 1 \<le> n" "1024 * (n - (b + 1)) \<le> e - 1024"
      "b + 1 < n \<Longrightarrow> 0x100000 + n * BUFFER_HEAD_SIZE + 1024 * (n - (b + 1)) \<le> e - 1024"
      "\<And>i. bufs t i = (if b + 1 \<le> i \<and> i < n
           then (bufs ?s i)\<lparr>b_dirty := False, b_count := 0, b_lock := 0, free_next := Some (i + 1),
             free_prev := (if i = 0 then None else Some (i - 1)), b_addr := e - 1024 - 1024 * (i - (b + 1) + 1)\<rparr>
           else bufs ?s i)" by auto
    have n: "n - b = Suc (n - (b + 1))" using ih(1) by simp
    have "0x100000 + n * BUFFER_HEAD_SIZE + 1024 * (n - b) \<le> e"
      using ih(1,3) True n by (cases "b + 1 < n") auto
    moreover have "bufs t i = (if b \<le> i \<and> i < n
           then (bufs s i)\<lparr>b_dirty := False, b_count := 0, b_lock := 0, free_next := Some (i + 1),
             free_prev := (if i = 0 then None else Some (i - 1)), b_addr := e - 1024 * (i - b + 1)\<rparr>
           else bufs s i)" for i
    proof -
      consider "i = b" | "b < i" | "i < b" by linarith
      then show ?thesis
      proof cases
        case 2
        then have "e - 1024 - 1024 * (i - (b + 1) + 1) = e - 1024 * (i - b + 1)"
          by (simp add: Suc_diff_Suc)
        with 2 ih(4) [of i] show ?thesis by auto
      qed (use ih(1) ih(4) [of i] in auto)
    qed
    ultimately show ?thesis using ih(1,2) n True by (auto simp del: One_nat_def)
  qed
qed

lemma chain_upt:
  "a < n \<Longrightarrow> (\<And>i. a \<le> i \<Longrightarrow> i + 1 < n \<Longrightarrow> nx i = Some (i + 1) \<and> pv (i + 1) = Some i) \<Longrightarrow>
     nx (n - 1) = Some b \<Longrightarrow> pv b = Some (n - 1) \<Longrightarrow> chain nx pv a [a + 1..<n] b"
proof (induction "n - a" arbitrary: a)
  case (Suc d)
  show ?case
  proof (cases "a + 1 < n")
    case True
    have "chain nx pv (a + 1) [a + 1 + 1..<n] b" by (rule Suc.hyps(1)) (use Suc True in auto)
    moreover have "[a + 1..<n] = (a + 1) # [a + 1 + 1..<n]" using True by (simp add: upt_conv_Cons)
    moreover have "nx a = Some (a + 1)" "pv (a + 1) = Some a" using Suc.prems(2) [of a] True by auto
    ultimately show ?thesis by simp
  next
    case False
    then have "n = a + 1" using Suc.prems(1) by simp
    then show ?thesis using Suc.prems(3,4) by simp
  qed
qed simp

text \<open>
  \<open>buffer_init\<close> builds the buffer cache: all buffers are on the free list, in the order of
  the array and unused; the array of buffer heads and the data blocks, one of 1024 bytes
  for each buffer, do not overlap.
\<close>
theorem buffer_init_free_list:
  assumes "0x100000 + BUFFER_HEAD_SIZE + 1024 \<le> e"
    and "\<And>i. hash_next (bufs s i) = None" and "\<And>i. hash_prev (bufs s i) = None"
  shows "\<exists>n. 0 < n \<and> nr_buffers (buffer_init e s) = n \<and> cache_ok (buffer_init e s) [0..<n]
     \<and> (\<forall>i < n. 0x100000 + n * BUFFER_HEAD_SIZE \<le> b_addr (bufs (buffer_init e s) i)
               \<and> b_addr (bufs (buffer_init e s) i) + 1024 * (i + 1) = e)"
proof -
  obtain n t where nt: "buffer_loop e 0 s = (n, t)" by (cases "buffer_loop e 0 s")
  note r = buffer_loop_result [OF nt]
  have n: "0 < n"
  proof -
    have "\<exists>s0. buffer_loop e 0 s = buffer_loop (e - 1024) (0 + 1) s0"
      using assms(1) by (subst buffer_loop.simps) auto
    then obtain s0 where "buffer_loop (e - 1024) (0 + 1) s0 = (n, t)" using nt by auto
    from buffer_loop_result [OF this] show ?thesis by simp
  qed
  let ?u = "buffer_init e s"
  have u: "nr_buffers ?u = n" "free_list_table ?u = Some 0"
    "bufs ?u = (let m = (bufs t)(0 := (bufs t 0)\<lparr>free_prev := Some (n - 1)\<rparr>)
                in m(n - 1 := (m (n - 1))\<lparr>free_next := Some 0\<rparr>))"
    using nt by (simp_all add: buffer_init_def Let_def upd_buf_def)
  have b: "bufs t i = (bufs s i)\<lparr>b_dirty := False, b_count := 0, b_lock := 0, free_next := Some (i + 1),
             free_prev := (if i = 0 then None else Some (i - 1)), b_addr := e - 1024 * (i + 1)\<rparr>" if "i < n" for i
    using r that by simp
  have "free_chain ?u 0 [0 + 1..<n] 0"
    by (rule chain_upt) (use n b u(3) in \<open>auto simp: Let_def\<close>)
  moreover have "[0..<n] = 0 # [0 + 1..<n]" using n by (simp add: upt_conv_Cons)
  moreover have "fresh_buf (bufs ?u i)" if "i < n" for i
  proof -
    have "fresh_buf (bufs ?u i) = fresh_buf (bufs t i)" using u(3) by (simp add: fresh_buf_def Let_def)
    then show ?thesis using b [OF that] assms(2,3) by (simp add: fresh_buf_def)
  qed
  ultimately have "cache_ok ?u [0..<n]" using u(2) n by (auto simp: cache_ok_def)
  moreover have "0x100000 + n * BUFFER_HEAD_SIZE \<le> b_addr (bufs ?u i) \<and> b_addr (bufs ?u i) + 1024 * (i + 1) = e"
    if "i < n" for i
  proof -
    have "b_addr (bufs ?u i) = b_addr (bufs t i)" using u(3) by (simp add: Let_def)
    then have "b_addr (bufs ?u i) = e - 1024 * (i + 1)" using b [OF that] by simp
    moreover have "0x100000 + n * BUFFER_HEAD_SIZE + 1024 * n \<le> e" using r n by simp
    moreover have "1024 * (i + 1) \<le> 1024 * n" using that by simp
    ultimately show ?thesis by linarith
  qed
  ultimately show ?thesis using u(1) n by blast
qed

subsection \<open>Witnesses\<close>

definition blank_buf :: buffer_head where
  "blank_buf = \<lparr>b_addr = 0, b_data = [], b_dirty = False, b_count = 0, b_lock = 0, b_block = 0,
     free_next = None, free_prev = None, hash_next = None, hash_prev = None\<rparr>"

definition blank_cache :: bcache where
  "blank_cache = \<lparr>bufs = (\<lambda>_. blank_buf), active_hash_table = (\<lambda>_. None), free_list_table = None,
     nr_buffers = 0, active_buffer_count = 0, disk = (\<lambda>_. replicate 1024 0)\<rparr>"

text \<open>Three buffers on the free list.\<close>

definition small_cache :: bcache where
  "small_cache = blank_cache\<lparr>free_list_table := Some 0,
     bufs := (\<lambda>b. blank_buf\<lparr>free_next := Some (if b = 0 then 1 else if b = 1 then 2 else 0),
                            free_prev := Some (if b = 0 then 2 else if b = 1 then 0 else 1)\<rparr>)\<rparr>"

lemma small_cache_ok: "cache_ok small_cache [0, 1, 2]"
  by (simp add: cache_ok_def small_cache_def blank_cache_def blank_buf_def fresh_buf_def)

lemma small_cache_uncached: "n < 1000 \<Longrightarrow> uncached n small_cache"
  by (simp add: uncached_def small_cache_def blank_cache_def)

theorem buffer_write_read_witness:
  "\<exists>b s1 s2 t. bread_block 5 small_cache = Some (b, s1) \<and> brelse b (replace_data b [1, 2] s1) = Some s2
     \<and> read_blocks bread_block buf_data brelse [5] s2 = Some ([[1, 2]], t)
     \<and> fs_block t = (fs_block small_cache)(5 := [1, 2]) \<and> spare 0 t"
proof (rule buffer_write_read)
  show "spare (Suc (Suc 0)) small_cache" using small_cache_ok unfolding spare_def by (intro exI [of _ "[0, 1, 2]"]) simp
qed (simp add: small_cache_uncached)

theorem brelse_loses_buffer_witness:
  "\<exists>s1 s2. bread_block 5 small_cache = Some (0, s1) \<and> brelse 0 s1 = Some s2 \<and> cache_ok s2 [1, 2]"
  by (rule brelse_loses_buffer [OF small_cache_ok small_cache_uncached]) simp

theorem free_active_hash_tail_faults_witness:
  "free_active_hash 1 (upd_buf 1 (\<lambda>b. b\<lparr>hash_prev := Some 0\<rparr>)
     (small_cache\<lparr>active_hash_table := (\<lambda>_. Some 0)\<rparr>)) = None"
  by (rule free_active_hash_tail_faults [where p = 0]) (simp_all add: small_cache_def blank_cache_def blank_buf_def)

theorem buffer_init_free_list_witness:
  "\<exists>n. 0 < n \<and> nr_buffers (buffer_init 0x7fffff blank_cache) = n \<and> cache_ok (buffer_init 0x7fffff blank_cache) [0..<n]
     \<and> (\<forall>i < n. 0x100000 + n * BUFFER_HEAD_SIZE \<le> b_addr (bufs (buffer_init 0x7fffff blank_cache) i)
               \<and> b_addr (bufs (buffer_init 0x7fffff blank_cache) i) + 1024 * (i + 1) = 0x7fffff)"
  by (rule buffer_init_free_list) (simp_all add: blank_cache_def blank_buf_def)

end
