(* ===== verification/Fs_State.thy ===== *)
theory Fs_State
  imports Buffer_Cache
begin

unbundle bit_operations_syntax

section \<open>The state of the file system and its bitmaps\<close>

text \<open>
  Models the data of include/fs/fs.h and fs/bitmap.c. The state \<open>fs\<close> holds the buffer cache
  with the disk, the super block, the inodes in memory (objects are numbers, the null
  pointer is \<open>None\<close>) and what the file system uses of the current task. Objects for inodes come
  from the one slab of their cache (a cache never gets a second one, theory Slab) with its free
  number, its count and its array as the slab allocator keeps them; the number of an object is
  its place in the slab. Theory Vm\_Area proves that the slab allocator does the same.

  A bitmap block is a buffer of 1024 bytes; bit \<open>n\<close> is bit \<open>n mod 8\<close> of byte \<open>n div 8\<close>.
\<close>

subsection \<open>Data\<close>

abbreviation ROOT_INO :: nat where "ROOT_INO \<equiv> 1"
abbreviation INODE_BLOCK_AREA_LEN :: nat where "INODE_BLOCK_AREA_LEN \<equiv> 9"
abbreviation MAX_NAME_LEN :: nat where "MAX_NAME_LEN \<equiv> 14"

text \<open>The copy of an inode on the disk, and the inode in memory.\<close>

record s_inode =
  i_mode :: u16
  i_uid :: u16
  i_size :: u32
  i_time :: u32
  i_gid :: u8
  i_nlinks :: u8
  block_area :: "u16 list"

record m_inode = s_inode +
  i_inode :: u16
  i_dirty :: bool
  i_count :: u16
  i_next :: "nat option"
  i_prev :: "nat option"
  i_sem :: int
  i_sem_head :: "nat option"

record m_super_block =
  inode_nos :: u16
  block_nos :: u16
  imap_blocks :: u16
  zmap_blocks :: u16
  first_data_block :: u16
  log_zone_size :: u16
  max_size :: u32
  magic :: u16
  inode_map :: "nat option list"
  zblock_map :: "nat option list"
  s_root :: "nat option"

text \<open>The free objects of a slab.\<close>

record obj_pool =
  pool_free :: u16
  pool_num :: u16
  pool_ctl :: "u16 list"

record fs_state =
  cache_of :: bcache
  super_block :: m_super_block
  inodes :: "nat \<Rightarrow> m_inode"
  head_cachep :: "nat option"
  inode_pool :: obj_pool
  cur_euid :: u16
  cur_egid :: u16
  cur_umask :: u16
  cur_root :: "nat option"
  cur_pwd :: "nat option"

definition upd_inode :: "nat \<Rightarrow> (m_inode \<Rightarrow> m_inode) \<Rightarrow> fs_state \<Rightarrow> fs_state" where
  "upd_inode p f s = s\<lparr>inodes := (inodes s)(p := f (inodes s p))\<rparr>"

text \<open>An operation of the buffer cache, run on the cache of the file system.\<close>

definition on_cache :: "(bcache \<Rightarrow> ('a \<times> bcache) option) \<Rightarrow> fs_state \<Rightarrow> ('a \<times> fs_state) option" where
  "on_cache f s = do { (x, c) \<leftarrow> f (cache_of s); Some (x, s\<lparr>cache_of := c\<rparr>) }"

definition fs_bread :: "nat \<Rightarrow> fs_state \<Rightarrow> (nat \<times> fs_state) option" where
  "fs_bread n s = on_cache (bread_block n) s"

definition fs_alloc_buffer :: "nat \<Rightarrow> fs_state \<Rightarrow> (nat \<times> fs_state) option" where
  "fs_alloc_buffer n s = on_cache (alloc_buffer n) s"

definition fs_brelse :: "nat \<Rightarrow> fs_state \<Rightarrow> fs_state option" where
  "fs_brelse b s = map_option (\<lambda>c. s\<lparr>cache_of := c\<rparr>) (brelse b (cache_of s))"

definition fs_buf :: "nat \<Rightarrow> fs_state \<Rightarrow> buffer_head" where
  "fs_buf b s = bufs (cache_of s) b"

text \<open>The holder of a buffer stores into it: new contents, and the dirty flag set.\<close>

definition fs_store :: "nat \<Rightarrow> u8 list \<Rightarrow> fs_state \<Rightarrow> fs_state" where
  "fs_store b d s = s\<lparr>cache_of := replace_data b d (cache_of s)\<rparr>"

subsection \<open>Bits of a block\<close>

definition get_bit :: "u8 list \<Rightarrow> nat \<Rightarrow> bool" where
  "get_bit d n = bit (d ! (n div 8)) (n mod 8)"

definition set_bit :: "nat \<Rightarrow> u8 list \<Rightarrow> bool \<times> u8 list" where
  "set_bit n d = (get_bit d n, d[n div 8 := Bit_Operations.set_bit (n mod 8) (d ! (n div 8))])"

definition clear_bit :: "nat \<Rightarrow> u8 list \<Rightarrow> bool \<times> u8 list" where
  "clear_bit n d = (\<not> get_bit d n, d[n div 8 := unset_bit (n mod 8) (d ! (n div 8))])"

text \<open>\<open>lodsl\<close> loads four bytes, the first one lowest; \<open>bsfl\<close> finds the lowest set bit.\<close>

definition dword :: "u8 list \<Rightarrow> nat \<Rightarrow> u32" where
  "dword d k = ucast (d ! (4 * k)) OR push_bit 8 (ucast (d ! (4 * k + 1)))
     OR push_bit 16 (ucast (d ! (4 * k + 2))) OR push_bit 24 (ucast (d ! (4 * k + 3)))"

definition bsf :: "u32 \<Rightarrow> nat option" where
  "bsf w = find_from (\<lambda>i. bit w i) [0..<32] 0"

text \<open>The loop over the double words; the counter runs up to 8192.\<close>

function find_zero_loop :: "nat \<Rightarrow> u8 list \<Rightarrow> nat" where
  "find_zero_loop cx d =
     (case bsf (NOT (dword d (cx div 32))) of
        Some i \<Rightarrow> cx + i
      | None \<Rightarrow> if cx + 32 < 8192 then find_zero_loop (cx + 32) d else cx + 32)"
  by pat_completeness auto
termination
  by (relation "measure (\<lambda>(cx, _). 8192 - cx)") auto

declare find_zero_loop.simps [simp del]

definition find_first_zero :: "u8 list \<Rightarrow> nat" where
  "find_first_zero d = find_zero_loop 0 d"

subsection \<open>Blocks and inodes\<close>

definition free_block :: "nat \<Rightarrow> fs_state \<Rightarrow> fs_state option" where
  "free_block block s = do {
     (bh, s) \<leftarrow> fs_alloc_buffer block s;
     mp \<leftarrow> cell (zblock_map (super_block s)) (block div BLOCK_SIZE);
     mp \<leftarrow> mp;
     let s = fs_store mp (snd (clear_bit (block mod BLOCK_SIZE) (b_data (fs_buf mp s)))) s;
     s \<leftarrow> fs_brelse mp s;
     let s = fs_store bh (b_data (fs_buf bh s)) s;
     fs_brelse bh s }"

text \<open>The search of both \<open>new_block\<close> and \<open>new_inode\<close>: the map blocks are tried in turn until one
  has a zero bit other than bit 0. The result is the loop counter, the last buffer and the
  last index.\<close>

fun map_search :: "nat \<Rightarrow> nat \<Rightarrow> nat option list \<Rightarrow> (nat option \<times> int) \<Rightarrow> fs_state \<Rightarrow> (nat \<times> nat option \<times> int) option" where
  "map_search 0 i m (bh, idx) s = Some (i, bh, idx)"
| "map_search (Suc n) i m (bh, idx) s = do {
     p \<leftarrow> cell m i;
     b \<leftarrow> p;
     let idx = int (find_first_zero (b_data (fs_buf b s)));
     if idx > 0 then Some (i, Some b, idx)
     else map_search n (i + 1) m (Some b, idx) s }"

definition new_block :: "fs_state \<Rightarrow> (int \<times> fs_state) option" where
  "new_block s = do {
     (i, bh, idx) \<leftarrow> map_search (unat (zmap_blocks (super_block s))) 0 (zblock_map (super_block s)) (None, -1) s;
     case bh of
       None \<Rightarrow> Some (-1, s)
     | Some b \<Rightarrow>
         if i > 8 \<or> idx \<ge> 8192 then Some (-1, s)
         else do {
           let s = fs_store b (snd (set_bit (nat idx) (b_data (fs_buf b s)))) s;
           let block = (i * BLOCK_SIZE + nat idx) mod 65536;
           s \<leftarrow> fs_brelse b s;
           (b, s) \<leftarrow> fs_alloc_buffer block s;
           let s = fs_store b (replicate 1024 0) s;
           s \<leftarrow> fs_brelse b s;
           Some (int block, s) } }"

text \<open>\<open>kmem_object_alloc\<close> and \<open>kmem_object_free\<close> on a slab. The first gives the null pointer when no
  object is left; the second stores the freed number at the free number, which is outside the
  array when no object is free.\<close>

definition obj_alloc :: "obj_pool \<Rightarrow> (nat option \<times> obj_pool) option" where
  "obj_alloc s =
     (if pool_num s \<noteq> 0
      then do {
        nxt \<leftarrow> cell (pool_ctl s) (unat (pool_free s));
        Some (Some (unat (pool_free s)), s\<lparr>pool_num := pool_num s - 1, pool_free := nxt\<rparr>) }
      else Some (None, s))"

definition obj_free :: "nat \<Rightarrow> obj_pool \<Rightarrow> obj_pool option" where
  "obj_free n s = do {
     ctl \<leftarrow> put_cell (unat (pool_free s)) (of_nat n) (pool_ctl s);
     Some (s\<lparr>pool_ctl := ctl, pool_free := of_nat n, pool_num := pool_num s + 1\<rparr>) }"

text \<open>The object that has been freed last is the next one.\<close>

lemma obj_free_alloc:
  assumes "unat (pool_free s) < length (pool_ctl s)" and "n < length (pool_ctl s)" and "length (pool_ctl s) < 2 ^ 16"
    and "unat (pool_num s) < length (pool_ctl s)"
  obtains t u where "obj_free n s = Some t" and "obj_alloc t = Some (Some n, u)"
proof -
  have n: "unat (of_nat n :: u16) = n" using assms(2,3) by (simp add: unat_of_nat take_bit_nat_eq_self)
  have "pool_num s + 1 \<noteq> 0" using assms(3,4) unat_word_ariths(1) [of "pool_num s" 1] by auto
  then show thesis using that assms n by (simp add: obj_free_def obj_alloc_def)
qed

text \<open>A new object for an inode, linked in at the tail of the inode list.\<close>

definition get_minode_cachep :: "fs_state \<Rightarrow> (nat \<times> fs_state) option" where
  "get_minode_cachep s = do {
     (q, pool) \<leftarrow> obj_alloc (inode_pool s);
     p \<leftarrow> q;
     let s = upd_inode p (\<lambda>x. x\<lparr>i_count := i_count x + 1\<rparr>) (s\<lparr>inode_pool := pool\<rparr>);
     case head_cachep s of
       None \<Rightarrow> Some (p, upd_inode p (\<lambda>x. x\<lparr>i_next := Some p, i_prev := Some p\<rparr>) (s\<lparr>head_cachep := Some p\<rparr>))
     | Some h \<Rightarrow> do {
         l \<leftarrow> i_prev (inodes s h);
         let s = upd_inode l (\<lambda>x. x\<lparr>i_next := Some p\<rparr>) s;
         let s = upd_inode p (\<lambda>x. x\<lparr>i_prev := i_prev (inodes s h)\<rparr>) s;
         let s = upd_inode h (\<lambda>x. x\<lparr>i_prev := Some p\<rparr>) s;
         Some (p, upd_inode p (\<lambda>x. x\<lparr>i_next := Some h\<rparr>) s) } }"

definition new_inode :: "fs_state \<Rightarrow> (nat option \<times> fs_state) option" where
  "new_inode s = do {
     (p, s) \<leftarrow> get_minode_cachep s;
     (i, bh, idx) \<leftarrow> map_search (unat (imap_blocks (super_block s))) 0 (inode_map (super_block s)) (None, -1) s;
     case bh of
       None \<Rightarrow> Some (None, s)
     | Some b \<Rightarrow>
         if i > 8 \<or> idx \<ge> 8192 then Some (None, s)
         else do {
           let s = fs_store b (snd (set_bit (nat idx) (b_data (fs_buf b s)))) s;
           let s = upd_inode p (\<lambda>x. x\<lparr>i_inode := of_nat (i * BLOCK_SIZE + nat idx), i_dirty := True,
                     i_count := 1, i_uid := cur_euid s, i_gid := ucast (cur_egid s),
                     block_area := replicate INODE_BLOCK_AREA_LEN 0\<rparr>) s;
           s \<leftarrow> fs_brelse b s;
           Some (Some p, s) } }"

definition zero_inode :: m_inode where
  "zero_inode = \<lparr>i_mode = 0, i_uid = 0, i_size = 0, i_time = 0, i_gid = 0, i_nlinks = 0,
     block_area = replicate INODE_BLOCK_AREA_LEN 0, i_inode = 0, i_dirty = False, i_count = 0,
     i_next = None, i_prev = None, i_sem = 0, i_sem_head = None\<rparr>"

definition free_inode :: "nat \<Rightarrow> fs_state \<Rightarrow> fs_state option" where
  "free_inode p s = do {
     let n = unat (i_inode (inodes s p));
     bh \<leftarrow> cell (inode_map (super_block s)) (n div BLOCK_SIZE);
     b \<leftarrow> bh;
     let s = fs_store b (snd (clear_bit (n mod BLOCK_SIZE) (b_data (fs_buf b s)))) s;
     fs_brelse b (upd_inode p (\<lambda>_. zero_inode) s) }"

subsection \<open>Searching a bitmap\<close>

lemma bit_dword:
  assumes "i < 32"
  shows "bit (dword d k) i = get_bit d (32 * k + i)"
proof -
  have "32 * k + i = 8 * (4 * k) + i" by simp
  then have "(32 * k + i) div 8 = 4 * k + i div 8" "(32 * k + i) mod 8 = i mod 8"
    by (simp_all only: div_mult_self4 mod_mult_self4)
  moreover have "bit (b :: u8) n = False" if "8 \<le> n" for b n
    using that bit_imp_le_length [of b n] by auto
  moreover consider "i < 8" | "8 \<le> i" "i < 16" | "16 \<le> i" "i < 24" | "24 \<le> i" "i < 32" using assms by linarith
  then have "bit (dword d k) i = bit (d ! (4 * k + i div 8)) (i mod 8)"
  proof cases
    case 1
    then show ?thesis using calculation(3) by (auto simp: dword_def bit_simps)
  next
    case 2
    then have q: "i div 8 = 1" by (intro div_nat_eqI) auto
    then have "i mod 8 = i - 8" using minus_mult_div_eq_mod [of i 8] by simp
    with 2 q show ?thesis using calculation(3) by (auto simp: dword_def bit_simps)
  next
    case 3
    then have q: "i div 8 = 2" by (intro div_nat_eqI) auto
    then have "i mod 8 = i - 16" using minus_mult_div_eq_mod [of i 8] by simp
    with 3 q show ?thesis using calculation(3) by (auto simp: dword_def bit_simps)
  next
    case 4
    then have q: "i div 8 = 3" by (intro div_nat_eqI) auto
    then have "i mod 8 = i - 24" using minus_mult_div_eq_mod [of i 8] by simp
    with 4 q show ?thesis using calculation(3) by (auto simp: dword_def bit_simps)
  qed
  ultimately show ?thesis by (simp add: get_bit_def)
qed

lemma bsf_not:
  "case bsf (NOT w) of
     Some i \<Rightarrow> i < 32 \<and> \<not> bit w i \<and> (\<forall>j < i. bit w j)
   | None \<Rightarrow> (\<forall>j < 32. bit w j)"
proof (cases "bsf (NOT w)")
  case None
  then have "\<forall>x \<in> set [0..<32]. \<not> bit (NOT w) x" by (simp only: bsf_def find_from_None)
  then show ?thesis using None by (auto simp: bit_simps)
next
  case (Some i)
  from find_from_SomeD [OF this [unfolded bsf_def]] have "i < 32" "bit (NOT w) i" "\<forall>j < i. \<not> bit (NOT w) j"
    by auto
  then show ?thesis using Some by (auto simp: bit_simps)
qed

lemma find_zero_loop_least:
  "32 * k = cx \<Longrightarrow> cx < 8192 \<Longrightarrow> \<forall>j < cx. get_bit d j \<Longrightarrow> n = find_zero_loop cx d \<Longrightarrow>
     n \<le> 8192 \<and> (n < 8192 \<longrightarrow> \<not> get_bit d n) \<and> (\<forall>j < n. get_bit d j)"
proof (induction cx d arbitrary: k n rule: find_zero_loop.induct)
  case (1 cx d)
  have div: "cx div 32 = k" using "1.prems"(1) by auto
  have word: "bit (dword d k) i = get_bit d (cx + i)" if "i < 32" for i
    using bit_dword [OF that] "1.prems"(1) by simp
  have below: "get_bit d j" if "\<forall>i < m. get_bit d (cx + i)" "j < cx + m" for j m
  proof (cases "j < cx")
    case False
    then obtain i where "j = cx + i" using le_Suc_ex not_less by blast
    then show ?thesis using that by simp
  qed (use "1.prems"(3) in simp)
  show ?case
  proof (cases "bsf (NOT (dword d k))")
    case (Some i)
    then have i: "i < 32" "\<not> get_bit d (cx + i)" "\<forall>j < i. get_bit d (cx + j)"
      using bsf_not [of "dword d k"] word by (auto intro: less_trans)
    have "n = cx + i" using "1.prems"(4) Some div by (simp add: find_zero_loop.simps)
    moreover have "get_bit d j" if "j < cx + i" for j
      using that i(3) "1.prems"(3) below by simp
    moreover have "cx + i < 8192" using i(1) "1.prems"(1,2) by presburger
    ultimately show ?thesis using i by simp
  next
    case None
    then have "\<forall>i < 32. get_bit d (cx + i)" using bsf_not [of "dword d k"] word by auto
    then have full: "\<forall>j < cx + 32. get_bit d j"
      using "1.prems"(3) below by simp
    show ?thesis
    proof (cases "cx + 32 < 8192")
      case True
      then have "n = find_zero_loop (cx + 32) d"
        using "1.prems"(4) None div by (subst (asm) find_zero_loop.simps) simp
      with "1.IH" [of "k + 1" n] None div True full "1.prems"(1) show ?thesis by simp
    next
      case False
      then have "n = cx + 32" "cx + 32 = 8192"
      proof -
        have "\<not> k < 255" using False "1.prems"(1) by linarith
        moreover have "k < 256" using "1.prems"(1,2) by linarith
        ultimately have "k = 255" by simp
        then show "cx + 32 = 8192" using "1.prems"(1) by simp
        show "n = cx + 32" using "1.prems"(4) None div False by (simp add: find_zero_loop.simps)
      qed
      then show ?thesis using full by simp
    qed
  qed
qed

text \<open>
  C36. \<open>find_first_zero\<close> returns the number of the first zero bit of a bitmap block, and 8192
  when all its bits are set.
\<close>
theorem find_first_zero_least:
  "find_first_zero d \<le> 8192
     \<and> (find_first_zero d < 8192 \<longrightarrow> \<not> get_bit d (find_first_zero d))
     \<and> (\<forall>j < find_first_zero d. get_bit d j)"
  using find_zero_loop_least [of 0 0 d "find_first_zero d"] by (simp add: find_first_zero_def)

lemma get_bit_set:
  assumes "n div 8 < length d"
  shows "get_bit (snd (set_bit n d)) m = (m = n \<or> get_bit d m)"
    and "get_bit (snd (clear_bit n d)) m = (m \<noteq> n \<and> get_bit d m)"
proof -
  have bits: "bit (Bit_Operations.set_bit (n mod 8) (b :: u8)) (m mod 8) = (m mod 8 = n mod 8 \<or> bit b (m mod 8))"
      "bit (unset_bit (n mod 8) (b :: u8)) (m mod 8) = (m mod 8 \<noteq> n mod 8 \<and> bit b (m mod 8))" for b
    by (simp_all add: bit_set_bit_iff bit_unset_bit_iff) (use mod_less_divisor [of 8 m] in linarith)+
  have eq: "m = n \<longleftrightarrow> m div 8 = n div 8 \<and> m mod 8 = n mod 8" by (metis div_mult_mod_eq)
  show "get_bit (snd (set_bit n d)) m = (m = n \<or> get_bit d m)"
    by (cases "m div 8 = n div 8"; simp only: eq; simp add: get_bit_def set_bit_def nth_update_if bits assms)
  show "get_bit (snd (clear_bit n d)) m = (m \<noteq> n \<and> get_bit d m)"
    by (cases "m div 8 = n div 8"; simp only: eq; simp add: get_bit_def clear_bit_def nth_update_if bits assms)
qed

subsection \<open>Accesses through the cache of the file system\<close>

text \<open>A block can be read and its buffer given back, changed or not; the rest of the state of
  the file system is not touched.\<close>

lemma fs_access:
  assumes "spare (Suc k) (cache_of s)" and "uncached n (cache_of s)"
  obtains b c where "fs_bread n s = Some (b, s\<lparr>cache_of := c\<rparr>)" and "b_data (bufs c b) = fs_block (cache_of s) n"
    and "\<exists>c2. brelse b c = Some c2 \<and> spare k c2 \<and> (\<forall>m. uncached m c2 = uncached m (cache_of s))
           \<and> fs_block c2 = fs_block (cache_of s)"
    and "\<And>d. \<exists>c2. brelse b (replace_data b d c) = Some c2 \<and> spare k c2
           \<and> (\<forall>m. uncached m c2 = uncached m (cache_of s)) \<and> fs_block c2 = (fs_block (cache_of s))(n := d)"
proof -
  from cache.get_release [OF assms, of n] obtain b c c2 where b: "bread_block n (cache_of s) = Some (b, c)"
    "b_data (bufs c b) = fs_block (cache_of s) n" "brelse b c = Some c2" "spare k c2"
    "fs_block c2 = fs_block (cache_of s)" by auto
  moreover have "uncached m c2 = uncached m (cache_of s)" for m
    using cache.get_release [OF assms, of m] b by auto
  moreover have "\<exists>c2. brelse b (replace_data b d c) = Some c2 \<and> spare k c2
           \<and> (\<forall>m. uncached m c2 = uncached m (cache_of s)) \<and> fs_block c2 = (fs_block (cache_of s))(n := d)" for d
  proof -
    from cache.get_replace_release [OF assms, of d n] b(1) obtain c3 where
      c3: "brelse b (replace_data b d c) = Some c3" "spare k c3" "fs_block c3 = (fs_block (cache_of s))(n := d)" by auto
    moreover have "uncached m c3 = uncached m (cache_of s)" for m
      using cache.get_replace_release [OF assms, of d m] b(1) c3(1) by auto
    ultimately show ?thesis by blast
  qed
  moreover have "fs_bread n s = Some (b, s\<lparr>cache_of := c\<rparr>)" using b by (simp add: fs_bread_def on_cache_def)
  ultimately show thesis using that by blast
qed

text \<open>Buffer \<open>b\<close> has been read for disk block \<open>n\<close> and not been given back; it is alone in its
  bucket and not on the free list.\<close>

definition held :: "nat \<Rightarrow> nat \<Rightarrow> bcache \<Rightarrow> bool" where
  "held b n c \<longleftrightarrow> b_count (bufs c b) = 1 \<and> b_lock (bufs c b) = 0 \<and> b_block (bufs c b) = n
     \<and> hash_next (bufs c b) = None \<and> hash_prev (bufs c b) = None
     \<and> active_hash_table c (n mod BUFFER_HASH_NO) = Some b"

lemma brelse_held:
  assumes "held b n c"
  shows "\<exists>t. brelse b (replace_data b d c) = Some t \<and> disk t = (disk c)(n := d)
    \<and> active_hash_table t = (active_hash_table c)(n mod BUFFER_HASH_NO := None)
    \<and> free_list_table t = free_list_table c
    \<and> bufs t = (bufs c)(b := (bufs c b)\<lparr>b_data := d, b_dirty := True, b_count := 0\<rparr>)"
  using brelse_single [of "replace_data b d c" b] assms by (simp add: held_def replace_data_def)

text \<open>A buffer that has been given back is given back once more: its bucket does not hold it
  any longer, and its successor is the null pointer.\<close>

lemma brelse_again_faults:
  assumes "b_count (bufs c b) \<le> 0" and "b_lock (bufs c b) = 0" and "hash_next (bufs c b) = None"
    and "hash_prev (bufs c b) = None" and "active_hash_table c (b_block (bufs c b) mod BUFFER_HASH_NO) \<noteq> Some b"
  shows "brelse b (replace_data b d c) = None"
  using assms
  by (simp add: brelse_def replace_data_def free_active_hash_def sync_buffer_def transfer_block_def Let_def
    upd_buf_def upd_buf_at_def)

lemma map_search_first:
  assumes "n = Suc m" and "cell mp 0 = Some (Some b)" and "find_first_zero (b_data (fs_buf b s)) > 0"
  shows "map_search n 0 mp x s = Some (0, Some b, int (find_first_zero (b_data (fs_buf b s))))"
  using assms by (cases x) simp

subsection \<open>Properties of the bitmaps\<close>

text \<open>What both theorems on \<open>new_block\<close> rest on: the bitmap buffer after the call.\<close>

lemma new_block_run:
  assumes "zmap_blocks (super_block s) \<noteq> 0" and "cell (zblock_map (super_block s)) 0 = Some (Some b)"
    and "held b n (cache_of s)" and "cache_ok (cache_of s) (h # x # fl)" and "b \<notin> set (h # x # fl)"
    and "z = find_first_zero (b_data (fs_buf b s))" and "0 < z" and "z < 8192"
    and "active_hash_table (cache_of s) (z mod BUFFER_HASH_NO) = None"
    and "d = snd (set_bit z (b_data (fs_buf b s)))"
  obtains t where "new_block s = Some (int z, s\<lparr>cache_of := t\<rparr>)"
    and "disk t = (disk (cache_of s))(n := d, z := replicate 1024 0)" and "cache_ok t (x # fl)"
    and "bufs t b = (bufs (cache_of s) b)\<lparr>b_data := d, b_dirty := True, b_count := 0\<rparr>"
    and "active_hash_table t = (active_hash_table (cache_of s))(n mod BUFFER_HASH_NO := None)"
proof -
  let ?c = "cache_of s" and ?z = "replicate 1024 (0 :: u8)"
  from assms(1) obtain m where m: "unat (zmap_blocks (super_block s)) = Suc m"
    by (metis not0_implies_Suc unat_eq_zero)
  from brelse_held [OF assms(3), of d] obtain t1 where t1: "brelse b (replace_data b d ?c) = Some t1"
    "disk t1 = (disk ?c)(n := d)" "active_hash_table t1 = (active_hash_table ?c)(n mod BUFFER_HASH_NO := None)"
    "free_list_table t1 = free_list_table ?c"
    "bufs t1 = (bufs ?c)(b := (bufs ?c b)\<lparr>b_data := d, b_dirty := True, b_count := 0\<rparr>)" by blast
  have "cache_ok t1 (h # x # fl)"
    by (rule cache_ok_frame [OF assms(4) t1(4)]) (use assms(5) t1(5) in auto)
  moreover have zn: "z mod BUFFER_HASH_NO \<noteq> n mod BUFFER_HASH_NO" using assms(3,9) by (auto simp: held_def)
  ultimately obtain t2 where t2: "alloc_buffer z t1 = Some (h, t2)" "cache_ok t2 (x # fl)" "disk t2 = disk t1"
    "active_hash_table t2 = (active_hash_table t1)(z mod BUFFER_HASH_NO := Some h)" "held h z t2"
    "bufs t2 b = bufs t1 b"
    using alloc_buffer_fresh [of t1 h x fl z] assms(5,8,9) t1(3) by (auto simp: held_def)
  from brelse_held [OF t2(5), of ?z] obtain t where t: "brelse h (replace_data h ?z t2) = Some t"
    "disk t = (disk t2)(z := ?z)" "active_hash_table t = (active_hash_table t2)(z mod BUFFER_HASH_NO := None)"
    "free_list_table t = free_list_table t2"
    "bufs t = (bufs t2)(h := (bufs t2 h)\<lparr>b_data := ?z, b_dirty := True, b_count := 0\<rparr>)" by blast
  have h: "h \<notin> set (x # fl)" using assms(4) by (simp add: cache_ok_def)
  have "cache_ok t (x # fl)" by (rule cache_ok_frame [OF t2(2) t(4)]) (use h t(5) in auto)
  moreover have "new_block s = Some (int z, s\<lparr>cache_of := t\<rparr>)"
    using map_search_first [OF m assms(2) assms(7) [unfolded assms(6)]] assms(6,8,10) t1(1) t2(1) t(1)
    by (simp add: new_block_def Let_def fs_store_def fs_brelse_def fs_alloc_buffer_def on_cache_def fs_buf_def)
  moreover have "active_hash_table t = (active_hash_table ?c)(n mod BUFFER_HASH_NO := None)"
    using assms(9) zn by (auto simp: t(3) t2(4) t1(3) fun_eq_iff)
  moreover have "bufs t b = bufs t1 b" using assms(5) t(5) t2(6) by auto
  ultimately show thesis using that t(2) t2(3) t1(2,5) by simp
qed
text \<open>
  \<open>new_block\<close> takes the first free block of the map: its number is the first zero bit,
  the bit is set in the map block on the disk, and a block of zeros is written. That block
  is number \<open>z\<close> of the disk and not block \<open>z\<close> of the file system, which starts at
  \<open>NR_FS_START\<close>.
\<close>
theorem new_block_claims:
  assumes "zmap_blocks (super_block s) \<noteq> 0" and "cell (zblock_map (super_block s)) 0 = Some (Some b)"
    and "held b n (cache_of s)" and "cache_ok (cache_of s) (h # x # fl)" and "b \<notin> set (h # x # fl)"
    and "z = find_first_zero (b_data (fs_buf b s))" and "0 < z" and "z < 8192"
    and "active_hash_table (cache_of s) (z mod BUFFER_HASH_NO) = None"
  shows "\<exists>t. new_block s = Some (int z, t)
    \<and> disk (cache_of t) = (disk (cache_of s))(n := snd (set_bit z (b_data (fs_buf b s))), z := replicate 1024 0)"
  by (rule new_block_run [OF assms refl]) auto

text \<open>
  The second allocation follows a null pointer: \<open>new_block\<close> gives the buffer of the map
  back although the super block keeps using it, and it cannot be given back twice.
\<close>
theorem new_block_second_faults:
  assumes "zmap_blocks (super_block s) \<noteq> 0" and "cell (zblock_map (super_block s)) 0 = Some (Some b)"
    and "held b n (cache_of s)" and "cache_ok (cache_of s) (h # x # fl)" and "b \<notin> set (h # x # fl)"
    and "z = find_first_zero (b_data (fs_buf b s))" and "0 < z" and "z < 8192"
    and "active_hash_table (cache_of s) (z mod BUFFER_HASH_NO) = None" and "length (b_data (fs_buf b s)) = 1024"
    and "find_first_zero (snd (set_bit z (b_data (fs_buf b s)))) < 8192"
  shows "\<exists>t. new_block s = Some (int z, t) \<and> new_block t = None"
proof -
  obtain c where c: "new_block s = Some (int z, s\<lparr>cache_of := c\<rparr>)"
    "bufs c b = (bufs (cache_of s) b)\<lparr>b_data := snd (set_bit z (b_data (fs_buf b s))), b_dirty := True, b_count := 0\<rparr>"
    "active_hash_table c = (active_hash_table (cache_of s))(n mod BUFFER_HASH_NO := None)"
    by (rule new_block_run [OF assms(1-9) refl])
  let ?d = "snd (set_bit z (b_data (fs_buf b s)))" and ?t = "s\<lparr>cache_of := c\<rparr>"
  have d: "b_data (fs_buf b ?t) = ?d" using c(2) by (simp add: fs_buf_def)
  have "get_bit ?d 0"
    using get_bit_set(1) [of z "b_data (fs_buf b s)" 0] find_first_zero_least [of "b_data (fs_buf b s)"] assms(6-8,10)
    by simp
  then have pos: "find_first_zero (b_data (fs_buf b ?t)) > 0"
    using find_first_zero_least [of ?d] d by (metis gr_zeroI zero_less_numeral)
  from assms(1) obtain m where m: "unat (zmap_blocks (super_block ?t)) = Suc m"
    by (metis fs_state.select_convs(2) fs_state.surjective fs_state.update_convs(1) not0_implies_Suc unat_eq_zero)
  have "brelse b (replace_data b e c) = None" for e
    by (rule brelse_again_faults) (use c(2,3) assms(3) in \<open>simp_all add: held_def\<close>)
  then have "new_block ?t = None"
    using map_search_first [OF m _ pos, of "zblock_map (super_block s)"] assms(2,11) pos d
    by (simp add: new_block_def Let_def fs_store_def fs_brelse_def)
  with c(1) show ?thesis by blast
qed

text \<open>
  When the first map block is full, \<open>new_block\<close> reports that there is no free block,
  whatever the other map blocks hold: the search stops at the result 8192.
\<close>
theorem new_block_full_map:
  assumes "zmap_blocks (super_block s) \<noteq> 0" and "cell (zblock_map (super_block s)) 0 = Some (Some b)"
    and "\<forall>n < 8192. get_bit (b_data (fs_buf b s)) n"
  shows "new_block s = Some (-1, s)"
proof -
  have z: "find_first_zero (b_data (fs_buf b s)) = 8192"
    using find_first_zero_least [of "b_data (fs_buf b s)"] assms(3) by (meson le_neq_implies_less)
  from assms(1) obtain m where "unat (zmap_blocks (super_block s)) = Suc m"
    by (metis not0_implies_Suc unat_eq_zero)
  from map_search_first [OF this assms(2)] z show ?thesis by (simp add: new_block_def)
qed

text \<open>
  \<open>new_block\<close> hands out up to 8191 blocks of the first map block, but \<open>free_block\<close> looks
  for block 1024 and above in the next ones: with a single map block it follows a null
  pointer.
\<close>
theorem free_block_high_faults:
  assumes "1024 \<le> block" and "\<forall>i < 8. 0 < i \<longrightarrow> zblock_map (super_block s) ! i = None"
    and "length (zblock_map (super_block s)) = 8"
  shows "free_block block s = None"
proof -
  have "super_block t = super_block s" if "fs_alloc_buffer block s = Some (b, t)" for b t
    using that by (auto simp: fs_alloc_buffer_def on_cache_def dest!: bind_SomeD)
  moreover have "0 < block div BLOCK_SIZE" using assms(1) by (simp add: div_greater_zero_iff)
  ultimately show ?thesis
    using assms(2,3) by (cases "fs_alloc_buffer block s") (auto simp: free_block_def cell_def)
qed

subsection \<open>Witnesses\<close>

text \<open>A file system with one map block, in buffer 3, whose first ten bits are set.\<close>

definition sample_map :: "u8 list" where
  "sample_map = 0xff # 0x03 # replicate 1022 0"

definition small_super :: m_super_block where
  "small_super = \<lparr>inode_nos = 100, block_nos = 1000, imap_blocks = 1, zmap_blocks = 1, first_data_block = 10,
     log_zone_size = 0, max_size = 0, magic = 0, inode_map = replicate 8 None,
     zblock_map = Some 3 # replicate 7 None, s_root = None\<rparr>"

definition small_fs :: "u8 list \<Rightarrow> fs_state" where
  "small_fs d = \<lparr>cache_of = upd_buf 3 (\<lambda>b. b\<lparr>b_count := 1, b_block := 131, b_data := d\<rparr>)
       (small_cache\<lparr>active_hash_table := (\<lambda>_. None)(131 := Some 3)\<rparr>),
     super_block = small_super, inodes = (\<lambda>_. zero_inode), head_cachep = None, inode_pool = \<lparr>pool_free = 8, pool_num = 2, pool_ctl = [1, 2, 3, 4, 5, 6, 7, 8, 9, 0xffff]\<rparr>,
     cur_euid = 0, cur_egid = 0, cur_umask = 0, cur_root = None, cur_pwd = None\<rparr>"

lemma small_fs_held: "held 3 131 (cache_of (small_fs d))"
  by (simp add: held_def small_fs_def small_cache_def blank_cache_def blank_buf_def)

lemma small_fs_ok: "cache_ok (cache_of (small_fs d)) [0, 1, 2]"
  by (rule cache_ok_frame [OF small_cache_ok]) (auto simp: small_fs_def)

lemma small_fs_data: "b_data (fs_buf 3 (small_fs d)) = d"
  by (simp add: fs_buf_def small_fs_def)

lemma small_fs_super:
  "zmap_blocks (super_block (small_fs d)) \<noteq> 0" "cell (zblock_map (super_block (small_fs d))) 0 = Some (Some 3)"
  by (simp_all add: small_fs_def small_super_def)

lemma sample_map_zero: "find_first_zero sample_map = 10"
  unfolding find_first_zero_def by (subst find_zero_loop.simps) (simp add: sample_map_def dword_def, code_simp)

lemma sample_map_next: "find_first_zero (snd (set_bit 10 sample_map)) = 11"
  unfolding find_first_zero_def
  by (subst find_zero_loop.simps) (simp add: sample_map_def dword_def set_bit_def, code_simp)

theorem find_first_zero_least_witness: "\<not> get_bit sample_map 10 \<and> get_bit sample_map 9"
  using find_first_zero_least [of sample_map] by (simp add: sample_map_zero)

theorem new_block_claims_witness:
  "\<exists>t. new_block (small_fs sample_map) = Some (10, t)
    \<and> disk (cache_of t) = (disk (cache_of (small_fs sample_map)))(131 := snd (set_bit 10 sample_map), 10 := replicate 1024 0)"
  using new_block_claims [OF small_fs_super [of sample_map] small_fs_held small_fs_ok, where z = 10] sample_map_zero
  by (simp add: small_fs_data) (simp add: small_fs_def)

theorem new_block_second_faults_witness:
  "\<exists>t. new_block (small_fs sample_map) = Some (10, t) \<and> new_block t = None"
  using new_block_second_faults [OF small_fs_super [of sample_map] small_fs_held small_fs_ok, where z = 10] sample_map_zero
    sample_map_next
  by (simp add: small_fs_data) (simp add: small_fs_def sample_map_def)

theorem new_block_full_map_witness:
  "new_block (small_fs (replicate 1024 0xff)) = Some (-1, small_fs (replicate 1024 0xff))"
proof (rule new_block_full_map [OF small_fs_super])
  have "\<forall>i < 8. bit (0xff :: u8) i" by code_simp
  then show "\<forall>n < 8192. get_bit (b_data (fs_buf 3 (small_fs (replicate 1024 0xff)))) n"
    by (simp add: small_fs_data get_bit_def less_mult_imp_div_less)
qed

theorem free_block_high_faults_witness: "free_block 1500 (small_fs sample_map) = None"
  by (rule free_block_high_faults) (auto simp: small_fs_def small_super_def nth_Cons' nth_replicate)

end
