(* ===== verification/Fs_Inode.thy ===== *)
theory Fs_Inode
  imports Fs_State Bytes
begin

unbundle bit_operations_syntax

section \<open>Inodes and the super block\<close>

text \<open>
  Models fs/inode.c and fs/super.c. An inode on the disk is 32 bytes of a block, words with
  the low byte first; 32 inodes fill a block. The inodes in memory form a circular list that
  starts at \<open>head_cachep\<close>. Objects are taken from, and given back to, the slab
  of the inodes; the contents of an object that is given back stay as they are.

  A task that would wait for the semaphore of an inode gives \<open>None\<close>. The list of waiting
  tasks of a semaphore is empty; its address is \<open>i_sem_head\<close>, which no code sets.
\<close>

subsection \<open>Structures in a block\<close>

text \<open>Element \<open>k\<close> of an array of structures of \<open>n\<close> bytes.\<close>

definition slot :: "nat \<Rightarrow> nat \<Rightarrow> u8 list \<Rightarrow> u8 list" where
  "slot n k d = take n (drop (n * k) d)"

definition put_slot :: "nat \<Rightarrow> nat \<Rightarrow> u8 list \<Rightarrow> u8 list \<Rightarrow> u8 list" where
  "put_slot n k x d = take (n * k) d @ x @ drop (n * k + n) d"

text \<open>An array of 512 words.\<close>

definition get_word :: "u8 list \<Rightarrow> nat \<Rightarrow> u16 option" where
  "get_word d k = (if k < 512 then Some (word16 (slot 2 k d) 0) else None)"

definition put_word :: "nat \<Rightarrow> u16 \<Rightarrow> u8 list \<Rightarrow> u8 list" where
  "put_word k w d = put_slot 2 k (bytes16 w) d"

definition enc_inode :: "m_inode \<Rightarrow> u8 list" where
  "enc_inode x = bytes16 (i_mode x) @ bytes16 (i_uid x) @ bytes32 (i_size x) @ bytes32 (i_time x)
     @ [i_gid x, i_nlinks x] @ concat (map bytes16 (block_area x))"

definition dec_inode :: "u8 list \<Rightarrow> m_inode \<Rightarrow> m_inode" where
  "dec_inode d x = x\<lparr>i_mode := word16 d 0, i_uid := word16 d 2, i_size := word32 d 4, i_time := word32 d 8,
     i_gid := d ! 12, i_nlinks := d ! 13, block_area := map (\<lambda>i. word16 d (14 + 2 * i)) [0..<INODE_BLOCK_AREA_LEN]\<rparr>"

abbreviation INODES_PER_BLOCK :: nat where "INODES_PER_BLOCK \<equiv> 32"

subsection \<open>The list of inodes\<close>

definition test_and_wait_inode :: "nat \<Rightarrow> fs_state \<Rightarrow> fs_state option" where
  "test_and_wait_inode p s = (if i_sem (inodes s p) < 0 then None else Some s)"

definition unlock_inode :: "nat \<Rightarrow> fs_state \<Rightarrow> fs_state option" where
  "unlock_inode p s = do {
     let s = upd_inode p (\<lambda>x. x\<lparr>i_sem := i_sem x + 1\<rparr>) s;
     _ \<leftarrow> i_sem_head (inodes s p);
     Some s }"

definition upd_inode_at :: "nat option \<Rightarrow> (m_inode \<Rightarrow> m_inode) \<Rightarrow> fs_state \<Rightarrow> fs_state option" where
  "upd_inode_at q f s = map_option (\<lambda>p. upd_inode p f s) q"

definition remove_list :: "nat \<Rightarrow> fs_state \<Rightarrow> fs_state option" where
  "remove_list p s = do {
     h \<leftarrow> head_cachep s;
     if i_prev (inodes s h) = Some p
     then do {
       let s = upd_inode h (\<lambda>x. x\<lparr>i_prev := i_prev (inodes s p)\<rparr>) s;
       upd_inode_at (i_prev (inodes s p)) (\<lambda>x. x\<lparr>i_next := Some h\<rparr>) s }
     else do {
       s \<leftarrow> upd_inode_at (i_prev (inodes s p)) (\<lambda>x. x\<lparr>i_next := i_next (inodes s p)\<rparr>) s;
       upd_inode_at (i_next (inodes s p)) (\<lambda>x. x\<lparr>i_prev := i_prev (inodes s p)\<rparr>) s } }"

subsection \<open>Giving back the blocks of an inode\<close>

text \<open>The dirty flag of a buffer is set.\<close>

definition fs_dirty :: "nat \<Rightarrow> fs_state \<Rightarrow> fs_state" where
  "fs_dirty b s = fs_store b (b_data (fs_buf b s)) s"

fun free_blocks :: "u16 list \<Rightarrow> fs_state \<Rightarrow> fs_state option" where
  "free_blocks [] s = Some s"
| "free_blocks (n # ns) s = do {
     s \<leftarrow> (if n \<noteq> 0 then free_block (unat n) s else Some s);
     free_blocks ns s }"

text \<open>The 512 numbers of the indirect block in buffer \<open>bh\<close>, from number \<open>i\<close> on.\<close>

fun free_words :: "nat \<Rightarrow> nat \<Rightarrow> nat \<Rightarrow> fs_state \<Rightarrow> fs_state option" where
  "free_words 0 i bh s = Some s"
| "free_words (Suc n) i bh s = do {
     w \<leftarrow> get_word (b_data (fs_buf bh s)) i;
     s \<leftarrow> (if w \<noteq> 0 then map_option (fs_dirty bh) (free_block (unat w) s) else Some s);
     free_words n (i + 1) bh s }"

text \<open>The numbers of a double indirect block: each is an indirect block.\<close>

fun free_twice :: "nat \<Rightarrow> nat \<Rightarrow> nat \<Rightarrow> fs_state \<Rightarrow> fs_state option" where
  "free_twice 0 i bh s = Some s"
| "free_twice (Suc n) i bh s = do {
     w \<leftarrow> get_word (b_data (fs_buf bh s)) i;
     s \<leftarrow> (if w \<noteq> 0
           then do {
             (tb, s) \<leftarrow> fs_bread (unat w) s;
             s \<leftarrow> free_words 512 0 tb s;
             s \<leftarrow> fs_brelse tb s;
             w \<leftarrow> get_word (b_data (fs_buf bh s)) i;
             map_option (fs_dirty bh) (free_block (unat w) s) }
           else Some s);
     free_twice n (i + 1) bh s }"

definition free_inode_block :: "nat \<Rightarrow> fs_state \<Rightarrow> fs_state option" where
  "free_inode_block p s = do {
     s \<leftarrow> free_blocks (take (INODE_BLOCK_AREA_LEN - 2) (block_area (inodes s p))) s;
     n7 \<leftarrow> cell (block_area (inodes s p)) 7;
     s \<leftarrow> (if n7 \<noteq> 0
           then do {
             (bh, s) \<leftarrow> fs_bread (unat n7) s;
             s \<leftarrow> free_words 512 0 bh s;
             s \<leftarrow> free_block (unat n7) s;
             fs_brelse bh s }
           else Some s);
     n8 \<leftarrow> cell (block_area (inodes s p)) 8;
     s \<leftarrow> (if n8 \<noteq> 0
           then do {
             (bh, s) \<leftarrow> fs_bread (unat n8) s;
             s \<leftarrow> free_twice 512 0 bh s;
             s \<leftarrow> free_block (unat n8) s;
             fs_brelse bh s }
           else Some s);
     Some (upd_inode p (\<lambda>x. x\<lparr>i_dirty := True\<rparr>) s) }"

subsection \<open>Reading and writing inodes\<close>

definition inode_block :: "u16 \<Rightarrow> fs_state \<Rightarrow> nat" where
  "inode_block n s =
     unat (of_nat (unat (imap_blocks (super_block s)) + unat (zmap_blocks (super_block s)) + ROOT_INO
             + (unat n + INODES_PER_BLOCK - 1) div INODES_PER_BLOCK) :: u16)"

definition inode_buffer_i :: "u16 \<Rightarrow> nat" where
  "inode_buffer_i n = unat ((ucast n - 1 :: u32) mod 32)"

definition write_inode :: "nat \<Rightarrow> fs_state \<Rightarrow> fs_state option" where
  "write_inode p s =
     (if \<not> i_dirty (inodes s p) then unlock_inode p s
      else do {
        let n = i_inode (inodes s p);
        (bh, s) \<leftarrow> fs_bread (inode_block n s) s;
        let s = fs_store bh (put_slot 32 (inode_buffer_i n) (enc_inode (inodes s p)) (b_data (fs_buf bh s))) s;
        let s = upd_inode p (\<lambda>x. x\<lparr>i_dirty := False\<rparr>) s;
        fs_brelse bh s })"

definition read_inode :: "nat \<Rightarrow> fs_state \<Rightarrow> fs_state option" where
  "read_inode p s = do {
     let n = i_inode (inodes s p);
     (bh, s) \<leftarrow> fs_bread (inode_block n s) s;
     let s = upd_inode p (dec_inode (slot 32 (inode_buffer_i n) (b_data (fs_buf bh s)))) s;
     fs_brelse bh s }"

text \<open>The search of \<open>iget\<close> along the list.\<close>

partial_function (option) iget_find :: "nat option \<Rightarrow> nat \<Rightarrow> fs_state \<Rightarrow> nat option option" where
  "iget_find tmp n s =
     (case tmp of
        None \<Rightarrow> Some None
      | Some p \<Rightarrow>
          if unat (i_inode (inodes s p)) = n
          then (if test_and_wait_inode p s = None then None else Some (Some p))
          else if i_next (inodes s p) = head_cachep s then Some None
          else iget_find (i_next (inodes s p)) n s)"

definition iget :: "nat \<Rightarrow> fs_state \<Rightarrow> (nat \<times> fs_state) option" where
  "iget n s = do {
     r \<leftarrow> iget_find (head_cachep s) n s;
     case r of
       Some p \<Rightarrow> Some (p, upd_inode p (\<lambda>x. x\<lparr>i_count := i_count x + 1\<rparr>) s)
     | None \<Rightarrow> do {
         (p, s) \<leftarrow> get_minode_cachep s;
         let s = upd_inode p (\<lambda>x. x\<lparr>i_inode := of_nat n\<rparr>) s;
         s \<leftarrow> read_inode p s;
         Some (p, s) } }"

definition iput :: "nat option \<Rightarrow> fs_state \<Rightarrow> fs_state option" where
  "iput q s =
     (case q of
        None \<Rightarrow> Some s
      | Some p \<Rightarrow> do {
          s \<leftarrow> test_and_wait_inode p s;
          if i_count (inodes s p) = 1
          then do {
            pool \<leftarrow> obj_free p (inode_pool s);
            s \<leftarrow> remove_list p (s\<lparr>inode_pool := pool\<rparr>);
            let s = upd_inode p (\<lambda>x. x\<lparr>i_count := 0\<rparr>) s;
            if i_dirty (inodes s p) then write_inode p s else Some s }
          else Some (upd_inode p (\<lambda>x. x\<lparr>i_count := i_count x - 1\<rparr>) s) })"

partial_function (option) sync_loop :: "nat \<Rightarrow> fs_state \<Rightarrow> fs_state option" where
  "sync_loop p s =
     Option.bind (write_inode p s) (\<lambda>s.
       if i_next (inodes s p) = head_cachep s then Some s
       else case i_next (inodes s p) of None \<Rightarrow> Some s | Some q \<Rightarrow> sync_loop q s)"

definition sync_inodes :: "fs_state \<Rightarrow> fs_state option" where
  "sync_inodes s = (case head_cachep s of None \<Rightarrow> Some s | Some p \<Rightarrow> sync_loop p s)"

subsection \<open>The blocks of an inode\<close>

text \<open>Slot \<open>k\<close> of the block numbers of an inode gets a new block.\<close>

definition set_area :: "nat \<Rightarrow> nat \<Rightarrow> fs_state \<Rightarrow> fs_state option" where
  "set_area p k s = do {
     (n, s) \<leftarrow> new_block s;
     Some (upd_inode p (\<lambda>x. x\<lparr>block_area := (block_area x)[k := of_int n], i_dirty := True\<rparr>) s) }"

text \<open>Number \<open>k\<close> of the indirect block in buffer \<open>bh\<close>, which is released; a number that is
  missing is filled in.\<close>

definition indirect :: "nat \<Rightarrow> nat \<Rightarrow> bool \<Rightarrow> fs_state \<Rightarrow> (u16 \<times> fs_state) option" where
  "indirect bh k create s = do {
     w \<leftarrow> get_word (b_data (fs_buf bh s)) k;
     (w, s) \<leftarrow> (if create \<and> w = 0
                then do {
                  (n, s) \<leftarrow> new_block s;
                  let w = of_int n;
                  Some (w, if w \<noteq> 0 then fs_store bh (put_word k w (b_data (fs_buf bh s))) s else s) }
                else Some (w, s));
     s \<leftarrow> fs_brelse bh s;
     Some (w, s) }"

definition bmap_block :: "nat \<Rightarrow> int \<Rightarrow> bool \<Rightarrow> fs_state \<Rightarrow> (u16 \<times> fs_state) option" where
  "bmap_block p block_index create s =
     (if block_index < 0 then None
      else if block_index < 7
      then do {
        let k = nat block_index;
        n \<leftarrow> cell (block_area (inodes s p)) k;
        s \<leftarrow> (if create \<and> n = 0 then set_area p k s else Some s);
        n \<leftarrow> cell (block_area (inodes s p)) k;
        Some (n, s) }
      else let block_index = nat block_index - 7 in
      if block_index < 512
      then do {
        n \<leftarrow> cell (block_area (inodes s p)) 7;
        s \<leftarrow> (if create \<and> n = 0 then set_area p 7 s else Some s);
        n \<leftarrow> cell (block_area (inodes s p)) 7;
        (bh, s) \<leftarrow> fs_bread (unat n) s;
        indirect bh block_index create s }
      else do {
        n \<leftarrow> cell (block_area (inodes s p)) 8;
        s \<leftarrow> (if create \<and> n \<noteq> 0 then set_area p 8 s else Some s);
        n \<leftarrow> cell (block_area (inodes s p)) 8;
        (bh, s) \<leftarrow> fs_bread (unat n) s;
        (i, s) \<leftarrow> indirect bh (block_index div 512) create s;
        (bh, s) \<leftarrow> fs_bread (unat i) s;
        indirect bh (block_index mod 512) create s })"

definition create_block :: "nat \<Rightarrow> int \<Rightarrow> fs_state \<Rightarrow> (u16 \<times> fs_state) option" where
  "create_block p block_index s = bmap_block p block_index True s"

definition bmap :: "nat \<Rightarrow> int \<Rightarrow> fs_state \<Rightarrow> (u16 \<times> fs_state) option" where
  "bmap p block_index s = bmap_block p block_index False s"

subsection \<open>The super block\<close>

definition dec_super :: "u8 list \<Rightarrow> m_super_block \<Rightarrow> m_super_block" where
  "dec_super d x = x\<lparr>inode_nos := word16 d 0, block_nos := word16 d 2, imap_blocks := word16 d 4,
     zmap_blocks := word16 d 6, first_data_block := word16 d 8, log_zone_size := word16 d 10,
     max_size := word32 d 12, magic := word16 d 16\<rparr>"

text \<open>Reads \<open>n\<close> blocks from \<open>block\<close> on into the slots from \<open>i\<close> on of a table of buffers.\<close>

fun read_maps :: "nat \<Rightarrow> nat \<Rightarrow> nat \<Rightarrow> nat option list \<Rightarrow> fs_state \<Rightarrow> (nat option list \<times> fs_state) option" where
  "read_maps 0 i block m s = Some (m, s)"
| "read_maps (Suc n) i block m s = do {
     (b, s) \<leftarrow> fs_bread block s;
     m \<leftarrow> put_cell i (Some b) m;
     read_maps n (i + 1) (block + 1) m s }"

definition read_super :: "fs_state \<Rightarrow> fs_state option" where
  "read_super s = do {
     (bh, s) \<leftarrow> fs_bread ROOT_INO s;
     let s = s\<lparr>super_block := dec_super (b_data (fs_buf bh s)) (super_block s)\<rparr>;
     s \<leftarrow> fs_brelse bh s;
     let im = unat (imap_blocks (super_block s));
     (m, s) \<leftarrow> read_maps im 0 (ROOT_INO + 1) (inode_map (super_block s)) s;
     let s = s\<lparr>super_block := (super_block s)\<lparr>inode_map := m\<rparr>\<rparr>;
     (m, s) \<leftarrow> read_maps (unat (zmap_blocks (super_block s))) 0 (ROOT_INO + im + 1) (zblock_map (super_block s)) s;
     Some (s\<lparr>super_block := (super_block s)\<lparr>zblock_map := m\<rparr>\<rparr>) }"

text \<open>Counts the zero bits below \<open>i\<close> of the bitmap in the buffers \<open>m\<close>.\<close>

fun count_free :: "nat \<Rightarrow> nat option list \<Rightarrow> fs_state \<Rightarrow> nat option" where
  "count_free 0 m s = Some 0"
| "count_free (Suc i) m s = do {
     p \<leftarrow> cell m (i div 8192);
     b \<leftarrow> p;
     n \<leftarrow> count_free i m s;
     Some (if get_bit (b_data (fs_buf b s)) (i mod 8192) then n else n + 1) }"

definition show_free_block :: "fs_state \<Rightarrow> nat option" where
  "show_free_block s = count_free (unat (block_nos (super_block s))) (zblock_map (super_block s)) s"

definition show_free_inode :: "fs_state \<Rightarrow> nat option" where
  "show_free_inode s = count_free (unat (inode_nos (super_block s)) + 1) (inode_map (super_block s)) s"

definition do_mount_root :: "fs_state \<Rightarrow> fs_state option" where
  "do_mount_root s = do {
     s \<leftarrow> read_super s;
     (root, s) \<leftarrow> iget ROOT_INO s;
     Some (s\<lparr>super_block := (super_block s)\<lparr>s_root := Some root\<rparr>, cur_root := Some root, cur_pwd := Some root\<rparr>) }"

subsection \<open>Encoding and decoding\<close>

lemma word16_concat: "i < length ws \<Longrightarrow> word16 (concat (map bytes16 ws)) (2 * i) = ws ! i"
proof (induction ws arbitrary: i)
  case (Cons w ws)
  show ?case
  proof (cases i)
    case (Suc j)
    then show ?thesis using Cons word16_skip [of 2 "bytes16 w" "concat (map bytes16 ws)" "2 * j"] by simp
  qed simp
qed simp

text \<open>The 32 bytes of an inode hold its mode, owner, size, time, link count and block numbers.\<close>

lemma dec_enc_inode:
  assumes "length (block_area x) = INODE_BLOCK_AREA_LEN"
  shows "length (enc_inode x) = 32"
    and "dec_inode (enc_inode x) y = y\<lparr>i_mode := i_mode x, i_uid := i_uid x, i_size := i_size x, i_time := i_time x,
        i_gid := i_gid x, i_nlinks := i_nlinks x, block_area := block_area x\<rparr>"
proof -
  let ?c = "concat (map bytes16 (block_area x))"
  have len: "length (enc_inode x) = 32"
    using assms by (simp add: enc_inode_def length_concat comp_def sum_list_triv)
  have "word16 (enc_inode x) (0 + 0) = i_mode x" by (simp add: enc_inode_def)
  moreover have "word16 (enc_inode x) (2 + 0) = i_uid x"
    unfolding enc_inode_def by (subst word16_skip) simp_all
  moreover have "word32 (enc_inode x) (4 + 0) = i_size x"
    unfolding enc_inode_def by (subst append_assoc [symmetric], subst word32_skip) simp_all
  moreover have "word32 (enc_inode x) (8 + 0) = i_time x"
    unfolding enc_inode_def by (subst append_assoc [symmetric], subst append_assoc [symmetric], subst word32_skip) simp_all
  moreover have pre: "enc_inode x = (bytes16 (i_mode x) @ bytes16 (i_uid x) @ bytes32 (i_size x) @ bytes32 (i_time x)
     @ [i_gid x, i_nlinks x]) @ ?c" by (simp add: enc_inode_def)
  moreover have "word16 (enc_inode x) (14 + 2 * i) = block_area x ! i" if "i < 9" for i
    unfolding pre by (subst word16_skip) (use word16_concat [of i "block_area x"] that assms in simp_all)
  then have "map (\<lambda>i. word16 (enc_inode x) (14 + 2 * i)) [0..<9] = block_area x"
    using assms by (intro nth_equalityI) simp_all
  moreover have "enc_inode x ! 12 = i_gid x" "enc_inode x ! 13 = i_nlinks x"
    by (simp_all add: enc_inode_def nth_append)
  ultimately show "dec_inode (enc_inode x) y = y\<lparr>i_mode := i_mode x, i_uid := i_uid x, i_size := i_size x,
      i_time := i_time x, i_gid := i_gid x, i_nlinks := i_nlinks x, block_area := block_area x\<rparr>"
    by (simp add: dec_inode_def)
  show "length (enc_inode x) = 32" by (rule len)
qed

lemma slot_put_slot:
  assumes "n * k + n \<le> length d" and "length x = n"
  shows "slot n k (put_slot n k x d) = x"
    and "j \<noteq> k \<Longrightarrow> slot n j (put_slot n k x d) = slot n j d"
    and "length (put_slot n k x d) = length d"
proof -
  have l: "length (take (n * k) d) = n * k" using assms by simp
  then show "slot n k (put_slot n k x d) = x" using assms(2) by (simp add: slot_def put_slot_def)
  show "length (put_slot n k x d) = length d" using assms by (simp add: put_slot_def)
  show "slot n j (put_slot n k x d) = slot n j d" if "j \<noteq> k"
  proof (cases "j < k")
    case True
    then have "n * Suc j \<le> n * k" by (meson Suc_leI mult_le_mono2)
    then have "n * j + n \<le> n * k" by simp
    then obtain r where "n * k = n * j + n + r" by (metis le_Suc_ex)
    then have "take n (drop (n * j) (take (n * k) d @ y)) = take n (drop (n * j) d)" for y
      using l by (simp add: drop_take take_append)
    then show ?thesis by (simp only: slot_def put_slot_def)
  next
    case False
    then have "Suc k \<le> j" using that by simp
    then have "n * Suc k \<le> n * j" by (rule mult_le_mono2)
    then obtain m where "n * j = n * Suc k + m" by (metis le_Suc_ex)
    then have m: "n * j = n * k + n + m" by simp
    have "drop (n * k + n + m) (take (n * k) d @ x @ drop (n * k + n) d) = drop m (drop (n * k + n) d)"
      using l assms(2) by (simp add: drop_append)
    then have "drop (n * j) (put_slot n k x d) = drop (n * j) d"
      by (simp only: put_slot_def m drop_drop add.commute)
    then show ?thesis by (simp add: slot_def)
  qed
qed

lemma inode_buffer_i_less: "inode_buffer_i n < 32"
  by (simp add: inode_buffer_i_def unat_mod)

subsection \<open>Running the operations\<close>

lemma upd_inode_simps [simp]:
  "cache_of (upd_inode p f s) = cache_of s" "super_block (upd_inode p f s) = super_block s"
  "inodes (upd_inode p f s) = (inodes s)(p := f (inodes s p))" "head_cachep (upd_inode p f s) = head_cachep s"
  "inode_pool (upd_inode p f s) = inode_pool s"
  "upd_inode p f s\<lparr>cache_of := c\<rparr> = (upd_inode p f (s\<lparr>cache_of := c\<rparr>))"
  by (simp_all add: upd_inode_def)

lemma inode_block_frame [simp]:
  "inode_block n (upd_inode p f s) = inode_block n s" "inode_block n (s\<lparr>cache_of := c\<rparr>) = inode_block n s"
  by (simp_all add: inode_block_def)

lemma write_inode_run:
  assumes "i_dirty (inodes s p)" and "spare (Suc k) (cache_of s)"
    and "n = inode_block (i_inode (inodes s p)) s" and "uncached n (cache_of s)"
  obtains c where "write_inode p s = Some (upd_inode p (\<lambda>x. x\<lparr>i_dirty := False\<rparr>) (s\<lparr>cache_of := c\<rparr>))"
    and "spare k c" and "\<forall>m. uncached m c = uncached m (cache_of s)"
    and "fs_block c = (fs_block (cache_of s))(n := put_slot 32 (inode_buffer_i (i_inode (inodes s p)))
           (enc_inode (inodes s p)) (fs_block (cache_of s) n))"
proof -
  let ?d = "put_slot 32 (inode_buffer_i (i_inode (inodes s p))) (enc_inode (inodes s p)) (fs_block (cache_of s) n)"
  obtain b c where b: "fs_bread n s = Some (b, s\<lparr>cache_of := c\<rparr>)" "b_data (bufs c b) = fs_block (cache_of s) n"
    "\<And>d. \<exists>c2. brelse b (replace_data b d c) = Some c2 \<and> spare k c2
       \<and> (\<forall>m. uncached m c2 = uncached m (cache_of s)) \<and> fs_block c2 = (fs_block (cache_of s))(n := d)"
    by (rule fs_access [OF assms(2,4)]) (rule that)
  from b(3) [of ?d] obtain c2 where c2: "brelse b (replace_data b ?d c) = Some c2" "spare k c2"
    "\<forall>m. uncached m c2 = uncached m (cache_of s)" "fs_block c2 = (fs_block (cache_of s))(n := ?d)" by auto
  have "write_inode p s = Some (upd_inode p (\<lambda>x. x\<lparr>i_dirty := False\<rparr>) (s\<lparr>cache_of := c2\<rparr>))"
    using assms(1,3) b(1,2) c2(1) by (simp add: write_inode_def Let_def fs_store_def fs_brelse_def fs_buf_def upd_inode_def)
  from that [OF this c2(2-4)] show thesis .
qed

lemma read_inode_run:
  assumes "spare (Suc k) (cache_of s)" and "n = inode_block (i_inode (inodes s p)) s" and "uncached n (cache_of s)"
  obtains c where "read_inode p s = Some (upd_inode p
      (dec_inode (slot 32 (inode_buffer_i (i_inode (inodes s p))) (fs_block (cache_of s) n))) (s\<lparr>cache_of := c\<rparr>))"
    and "spare k c" and "\<forall>m. uncached m c = uncached m (cache_of s)" and "fs_block c = fs_block (cache_of s)"
proof -
  obtain b c where b: "fs_bread n s = Some (b, s\<lparr>cache_of := c\<rparr>)" "b_data (bufs c b) = fs_block (cache_of s) n"
    "\<exists>c2. brelse b c = Some c2 \<and> spare k c2 \<and> (\<forall>m. uncached m c2 = uncached m (cache_of s))
       \<and> fs_block c2 = fs_block (cache_of s)"
    by (rule fs_access [OF assms(1,3)]) (rule that)
  from b(3) obtain c2 where c2: "brelse b c = Some c2" "spare k c2"
    "\<forall>m. uncached m c2 = uncached m (cache_of s)" "fs_block c2 = fs_block (cache_of s)" by auto
  have "read_inode p s = Some (upd_inode p
      (dec_inode (slot 32 (inode_buffer_i (i_inode (inodes s p))) (fs_block (cache_of s) n))) (s\<lparr>cache_of := c2\<rparr>))"
    using assms(2) b(1,2) c2(1) by (simp add: read_inode_def Let_def fs_brelse_def fs_buf_def upd_inode_def)
  from that [OF this c2(2-4)] show thesis .
qed

subsection \<open>Properties of the inodes\<close>

text \<open>
  An inode that is written and read again has the same mode, owner, size, time, link
  count and block numbers; it is clean after the write, and the other inodes of its block
  on the disk are not touched.
\<close>
theorem write_read_inode:
  assumes "i_dirty (inodes s p)" and "spare (Suc (Suc k)) (cache_of s)" and "length (block_area (inodes s p)) = 9"
    and "n = inode_block (i_inode (inodes s p)) s" and "uncached n (cache_of s)"
    and "length (fs_block (cache_of s) n) = 1024" and "i_inode (inodes s q) = i_inode (inodes s p)" and "q \<noteq> p"
  shows "\<exists>t u. write_inode p s = Some t \<and> \<not> i_dirty (inodes t p) \<and> read_inode q t = Some u
    \<and> inodes u q = (inodes s q)\<lparr>i_mode := i_mode (inodes s p), i_uid := i_uid (inodes s p),
        i_size := i_size (inodes s p), i_time := i_time (inodes s p), i_gid := i_gid (inodes s p),
        i_nlinks := i_nlinks (inodes s p), block_area := block_area (inodes s p)\<rparr>
    \<and> (\<forall>j < 32. j \<noteq> inode_buffer_i (i_inode (inodes s p)) \<longrightarrow>
         slot 32 j (fs_block (cache_of t) n) = slot 32 j (fs_block (cache_of s) n))"
proof -
  let ?i = "inode_buffer_i (i_inode (inodes s p))" and ?e = "enc_inode (inodes s p)" and ?d = "fs_block (cache_of s) n"
  obtain c where c: "write_inode p s = Some (upd_inode p (\<lambda>x. x\<lparr>i_dirty := False\<rparr>) (s\<lparr>cache_of := c\<rparr>))"
    "spare (Suc k) c" "\<forall>m. uncached m c = uncached m (cache_of s)"
    "fs_block c = (fs_block (cache_of s))(n := put_slot 32 ?i ?e ?d)"
    by (rule write_inode_run [OF assms(1,2,4,5)])
  let ?t = "upd_inode p (\<lambda>x. x\<lparr>i_dirty := False\<rparr>) (s\<lparr>cache_of := c\<rparr>)"
  have t: "spare (Suc k) (cache_of ?t)" "n = inode_block (i_inode (inodes ?t q)) ?t" "uncached n (cache_of ?t)"
    "inodes ?t q = inodes s q"
    using c(2,3) assms(4,5,7,8) by simp_all
  obtain e where e: "read_inode q ?t = Some (upd_inode q
      (dec_inode (slot 32 (inode_buffer_i (i_inode (inodes ?t q))) (fs_block (cache_of ?t) n))) (?t\<lparr>cache_of := e\<rparr>))"
    by (rule read_inode_run [OF t(1-3)])
  have "32 * ?i + 32 \<le> length ?d" using inode_buffer_i_less [of "i_inode (inodes s p)"] assms(6) by simp
  note sl = slot_put_slot [OF this, of ?e] dec_enc_inode [OF assms(3)]
  have "slot 32 (inode_buffer_i (i_inode (inodes ?t q))) (fs_block (cache_of ?t) n) = ?e"
    using sl(1,4) c(4) t(4) assms(7) by simp
  with e have "read_inode q ?t = Some (upd_inode q (dec_inode ?e) (?t\<lparr>cache_of := e\<rparr>))" by simp
  moreover have "inodes (upd_inode q (dec_inode ?e) (?t\<lparr>cache_of := e\<rparr>)) q = dec_inode ?e (inodes s q)"
    using assms(8) by simp
  moreover have "slot 32 j (fs_block (cache_of ?t) n) = slot 32 j ?d" if "j \<noteq> ?i" for j
    using sl(2,4) that c(4) by simp
  moreover have "\<not> i_dirty (inodes ?t p)" by simp
  ultimately show ?thesis using c(1) unfolding sl(5) by blast
qed
subsection \<open>The list of inodes as a ring\<close>

abbreviation inode_chain :: "fs_state \<Rightarrow> nat \<Rightarrow> nat list \<Rightarrow> nat \<Rightarrow> bool" where
  "inode_chain s \<equiv> chain (\<lambda>p. i_next (inodes s p)) (\<lambda>p. i_prev (inodes s p))"

definition unlinked :: "m_inode \<Rightarrow> m_inode" where
  "unlinked x = x\<lparr>i_next := None, i_prev := None\<rparr>"

lemma iget_find_miss:
  assumes "inode_chain s a xs h" and "head_cachep s = Some h" and "h \<notin> set xs"
    and "\<And>p. p \<in> set (a # xs) \<Longrightarrow> unat (i_inode (inodes s p)) \<noteq> n"
  shows "iget_find (Some a) n s = Some None"
  using assms
proof (induction xs arbitrary: a)
  case Nil
  then show ?case by (subst iget_find.simps) simp
next
  case (Cons x xs)
  then have "iget_find (Some x) n s = Some None" by auto
  then show ?case using Cons.prems by (subst iget_find.simps) auto
qed

lemma iget_find_hit:
  assumes "inode_chain s a xs h" and "head_cachep s = Some h" and "h \<notin> set xs" and "p \<in> set (a # xs)"
    and "\<And>q. q \<in> set (a # xs) \<Longrightarrow> unat (i_inode (inodes s q)) = n \<longleftrightarrow> q = p" and "i_sem (inodes s p) \<ge> 0"
  shows "iget_find (Some a) n s = Some (Some p)"
  using assms
proof (induction xs arbitrary: a)
  case Nil
  then show ?case by (subst iget_find.simps) (simp add: test_and_wait_inode_def)
next
  case (Cons x xs)
  show ?case
  proof (cases "a = p")
    case True
    then show ?thesis using Cons.prems by (subst iget_find.simps) (simp add: test_and_wait_inode_def)
  next
    case False
    then have "iget_find (Some x) n s = Some (Some p)" using Cons by auto
    then show ?thesis using Cons.prems False by (subst iget_find.simps) auto
  qed
qed

lemma links_commute: "(x :: m_inode)\<lparr>i_prev := a, i_next := b\<rparr> = x\<lparr>i_next := b, i_prev := a\<rparr>"
  by (rule m_inode.equality) simp_all

text \<open>Taking an inode other than the head off the list.\<close>

lemma remove_list_ring:
  assumes "head_cachep s = Some h" and "inode_chain s h (xs @ p # ys) h" and "distinct (h # xs @ p # ys)"
  obtains t where "remove_list p s = Some t" and "inode_chain t h (xs @ ys) h" and "cache_of t = cache_of s"
    and "super_block t = super_block s" and "head_cachep t = Some h" and "inode_pool t = inode_pool s"
    and "\<And>i. unlinked (inodes t i) = unlinked (inodes s i)"
proof -
  let ?l = "last (h # xs)" and ?r = "hd (ys @ [h])"
  have c: "inode_chain s h xs p" "inode_chain s p ys h" using assms(2) by (simp_all add: chain_append)
  have pl: "i_prev (inodes s p) = Some ?l" "i_next (inodes s p) = Some ?r"
    using chain_last [OF c(1)] chain_first [OF c(2)] by simp_all
  have ne: "?l \<noteq> p" "?r \<noteq> p" "h \<noteq> p" using assms(3) by (auto split: if_splits) (cases ys; auto)
  have tail: "i_prev (inodes s h) = Some p \<longleftrightarrow> ys = []"
    using chain_last [OF c(2)] assms(3) by (cases ys rule: rev_cases) auto
  define t where "t = upd_inode ?r (\<lambda>x. x\<lparr>i_prev := Some ?l\<rparr>) (upd_inode ?l (\<lambda>x. x\<lparr>i_next := Some ?r\<rparr>) s)"
  have "remove_list p s = Some t"
  proof (cases "ys = []")
    case True
    have "upd_inode ?l (\<lambda>x. x\<lparr>i_next := Some h\<rparr>) (upd_inode h (\<lambda>x. x\<lparr>i_prev := Some ?l\<rparr>) s)
        = upd_inode h (\<lambda>x. x\<lparr>i_prev := Some ?l\<rparr>) (upd_inode ?l (\<lambda>x. x\<lparr>i_next := Some h\<rparr>) s)"
      by (cases "?l = h") (simp_all add: upd_inode_def fun_upd_twist links_commute del: last.simps)
    then show ?thesis
      using True assms(1) pl ne tail by (simp add: remove_list_def upd_inode_at_def t_def Let_def del: last.simps)
  next
    case False
    then show ?thesis
      using assms(1) pl ne tail by (simp add: remove_list_def upd_inode_at_def t_def Let_def del: last.simps)
  qed
  moreover have "inode_chain t h (xs @ ys) h"
    by (rule chain_unlink [OF assms(2)]) (use assms(3) in \<open>auto simp: t_def simp del: last.simps\<close>)
  moreover have "cache_of t = cache_of s" "super_block t = super_block s" "head_cachep t = Some h"
    "inode_pool t = inode_pool s" using assms(1) by (simp_all add: t_def)
  moreover have "unlinked (inodes t i) = unlinked (inodes s i)" for i
    by (simp add: t_def unlinked_def)
  ultimately show thesis by (rule that)
qed

lemma unlinkedD:
  assumes "unlinked x = unlinked y"
  shows "i_mode x = i_mode y" "i_uid x = i_uid y" "i_size x = i_size y" "i_time x = i_time y" "i_gid x = i_gid y"
    "i_nlinks x = i_nlinks y" "block_area x = block_area y" "i_inode x = i_inode y" "i_dirty x = i_dirty y"
    "i_count x = i_count y" "i_sem x = i_sem y" "enc_inode x = enc_inode y"
proof -
  have eq: "i_mode x = i_mode y \<and> i_uid x = i_uid y \<and> i_size x = i_size y \<and> i_time x = i_time y \<and> i_gid x = i_gid y
      \<and> i_nlinks x = i_nlinks y \<and> block_area x = block_area y \<and> i_inode x = i_inode y \<and> i_dirty x = i_dirty y
      \<and> i_count x = i_count y \<and> i_sem x = i_sem y"
    using arg_cong [OF assms, of i_mode] arg_cong [OF assms, of i_uid] arg_cong [OF assms, of i_size] arg_cong [OF assms, of i_time] arg_cong [OF assms, of i_gid] arg_cong [OF assms, of i_nlinks] arg_cong [OF assms, of block_area] arg_cong [OF assms, of i_inode] arg_cong [OF assms, of i_dirty] arg_cong [OF assms, of i_count] arg_cong [OF assms, of i_sem]
    by (simp add: unlinked_def)
  then show "i_mode x = i_mode y" "i_uid x = i_uid y" "i_size x = i_size y" "i_time x = i_time y" "i_gid x = i_gid y"
    "i_nlinks x = i_nlinks y" "block_area x = block_area y" "i_inode x = i_inode y" "i_dirty x = i_dirty y"
    "i_count x = i_count y" "i_sem x = i_sem y" by simp_all
  then show "enc_inode x = enc_inode y" by (simp add: enc_inode_def)
qed

text \<open>The last reference to a dirty inode is given up: it leaves the list and is written.\<close>

lemma iput_last_run:
  assumes "head_cachep s = Some h" and "inode_chain s h (xs @ p # ys) h" and "distinct (h # xs @ p # ys)"
    and "i_sem (inodes s p) \<ge> 0" and "i_count (inodes s p) = 1" and "i_dirty (inodes s p)"
    and "spare (Suc k) (cache_of s)" and "n = inode_block (i_inode (inodes s p)) s" and "uncached n (cache_of s)"
    and "obj_free p (inode_pool s) = Some pool"
  obtains t where "iput (Some p) s = Some t" and "inode_chain t h (xs @ ys) h" and "head_cachep t = Some h"
    and "super_block t = super_block s" and "inode_pool t = pool" and "spare k (cache_of t)"
    and "\<forall>m. uncached m (cache_of t) = uncached m (cache_of s)"
    and "fs_block (cache_of t) = (fs_block (cache_of s))(n := put_slot 32 (inode_buffer_i (i_inode (inodes s p)))
           (enc_inode (inodes s p)) (fs_block (cache_of s) n))"
    and "\<And>i. i_inode (inodes t i) = i_inode (inodes s i)"
proof -
  let ?s = "s\<lparr>inode_pool := pool\<rparr>"
  have "inode_chain ?s h (xs @ p # ys) h" by (rule chain_cong [OF assms(2)]) simp_all
  then obtain r where r: "remove_list p ?s = Some r" "inode_chain r h (xs @ ys) h" "cache_of r = cache_of s"
    "super_block r = super_block s" "head_cachep r = Some h" "inode_pool r = pool"
    "\<And>i. unlinked (inodes r i) = unlinked (inodes s i)"
    using remove_list_ring [of ?s h xs p ys] assms(1,3) by auto
  note same = unlinkedD [OF r(7) [of p]]
  let ?r = "upd_inode p (\<lambda>x. x\<lparr>i_count := 0\<rparr>) r"
  have enc: "enc_inode (x\<lparr>i_count := 0\<rparr>) = enc_inode x" for x by (simp add: enc_inode_def)
  have w: "i_dirty (inodes ?r p)" "spare (Suc k) (cache_of ?r)" "n = inode_block (i_inode (inodes ?r p)) ?r"
    "uncached n (cache_of ?r)"
    using assms(6-9) r(3,4) same(8,9) by (simp_all add: inode_block_def)
  obtain c where c: "write_inode p ?r = Some (upd_inode p (\<lambda>x. x\<lparr>i_dirty := False\<rparr>) (?r\<lparr>cache_of := c\<rparr>))"
    "spare k c" "\<forall>m. uncached m c = uncached m (cache_of ?r)"
    "fs_block c = (fs_block (cache_of ?r))(n := put_slot 32 (inode_buffer_i (i_inode (inodes ?r p)))
           (enc_inode (inodes ?r p)) (fs_block (cache_of ?r) n))"
    by (rule write_inode_run [OF w])
  define t where "t = upd_inode p (\<lambda>x. x\<lparr>i_dirty := False\<rparr>) (?r\<lparr>cache_of := c\<rparr>)"
  have "iput (Some p) s = Some t"
    using assms(4-6) r(1) c(1) same(9) assms(10) by (simp add: iput_def test_and_wait_inode_def t_def)
  moreover have "inode_chain t h (xs @ ys) h"
    by (rule chain_cong [OF r(2)]) (simp_all add: t_def)
  moreover have "head_cachep t = Some h" "super_block t = super_block s" "inode_pool t = pool"
    "spare k (cache_of t)" "\<forall>m. uncached m (cache_of t) = uncached m (cache_of s)"
    using r(3-6) c(2,3) by (simp_all add: t_def)
  moreover have "fs_block (cache_of t) = (fs_block (cache_of s))(n := put_slot 32 (inode_buffer_i (i_inode (inodes s p)))
           (enc_inode (inodes s p)) (fs_block (cache_of s) n))"
    using c(4) same(8,12) r(3) by (simp add: t_def enc)
  moreover have "i_inode (inodes t i) = i_inode (inodes s i)" for i
    using unlinkedD(8) [OF r(7)] by (simp add: t_def)
  ultimately show thesis by (rule that)
qed

subsection \<open>Getting and putting inodes\<close>

lemma get_minode_ring:
  assumes "head_cachep s = Some h" and "inode_chain s h xs h" and "obj_alloc (inode_pool s) = Some (Some p, pool)"
  shows "\<exists>t. get_minode_cachep s = Some (p, t) \<and> cache_of t = cache_of s \<and> super_block t = super_block s"
proof -
  have "i_prev (inodes s h) = Some (last (h # xs))" by (rule chain_last [OF assms(2)])
  then show ?thesis using assms(1,3)
    by (cases "h = p") (auto simp: get_minode_cachep_def Let_def upd_inode_def simp del: last.simps)
qed

text \<open>
  C9. When the last reference to a changed inode that is not the head of the list of inodes is
  given up with \<open>iput\<close> and the inode is looked up again with \<open>iget\<close>, it comes back from the disk, in
  the object that was freed, with the same mode, owner, size, time, link count and block numbers.
  (No other inode of the list has its number, its block is not in the cache, two buffers are
  left, and the slab of the inodes has a free object, since freeing an object of a slab
  without one stores outside the slab's array.)
\<close>
theorem iput_iget_roundtrip:
  assumes "head_cachep s = Some h" and "inode_chain s h (xs @ p # ys) h" and "distinct (h # xs @ p # ys)"
    and "i_sem (inodes s p) \<ge> 0" and "i_count (inodes s p) = 1" and "i_dirty (inodes s p)"
    and "spare (Suc (Suc k)) (cache_of s)" and "n = inode_block (i_inode (inodes s p)) s" and "uncached n (cache_of s)"
    and "length (block_area (inodes s p)) = 9" and "length (fs_block (cache_of s) n) = 1024"
    and "\<forall>q \<in> set (h # xs @ ys). i_inode (inodes s q) \<noteq> i_inode (inodes s p)"
    and "unat (pool_free (inode_pool s)) < length (pool_ctl (inode_pool s))" and "p < length (pool_ctl (inode_pool s))"
    and "length (pool_ctl (inode_pool s)) < 2 ^ 16" and "unat (pool_num (inode_pool s)) < length (pool_ctl (inode_pool s))"
  shows "\<exists>t u. iput (Some p) s = Some t \<and> iget (unat (i_inode (inodes s p))) t = Some (p, u)
    \<and> i_mode (inodes u p) = i_mode (inodes s p) \<and> i_uid (inodes u p) = i_uid (inodes s p)
    \<and> i_size (inodes u p) = i_size (inodes s p) \<and> i_time (inodes u p) = i_time (inodes s p)
    \<and> i_gid (inodes u p) = i_gid (inodes s p) \<and> i_nlinks (inodes u p) = i_nlinks (inodes s p)
    \<and> block_area (inodes u p) = block_area (inodes s p)"
proof -
  let ?i = "i_inode (inodes s p)" and ?e = "enc_inode (inodes s p)" and ?d = "fs_block (cache_of s) n"
  obtain pool pool' where pool: "obj_free p (inode_pool s) = Some pool" "obj_alloc pool = Some (Some p, pool')"
    by (rule obj_free_alloc [OF assms(13-16)])
  obtain t where t: "iput (Some p) s = Some t" "inode_chain t h (xs @ ys) h" "head_cachep t = Some h"
    "super_block t = super_block s" "spare (Suc k) (cache_of t)"
    "\<forall>m. uncached m (cache_of t) = uncached m (cache_of s)"
    "fs_block (cache_of t) = (fs_block (cache_of s))(n := put_slot 32 (inode_buffer_i ?i) ?e ?d)"
    "\<And>i. i_inode (inodes t i) = i_inode (inodes s i)" "inode_pool t = pool"
    by (rule iput_last_run [OF assms(1-9) pool(1)]) (rule that)
  have "iget_find (Some h) (unat ?i) t = Some None"
    by (rule iget_find_miss [OF t(2,3)]) (use assms(3,12) t(8) in \<open>auto simp: word_unat_eq_iff\<close>)
  moreover from get_minode_ring [OF t(3,2)] obtain g where
    g: "get_minode_cachep t = Some (p, g)" "cache_of g = cache_of t" "super_block g = super_block t" using t(9) pool(2) by auto
  define g' where "g' = upd_inode p (\<lambda>x. x\<lparr>i_inode := ?i\<rparr>) g"
  have g': "spare (Suc k) (cache_of g')" "n = inode_block (i_inode (inodes g' p)) g'" "uncached n (cache_of g')"
    using t(4-6) g(2,3) assms(8,9) by (simp_all add: g'_def inode_block_def)
  obtain c where "read_inode p g' = Some (upd_inode p
      (dec_inode (slot 32 (inode_buffer_i (i_inode (inodes g' p))) (fs_block (cache_of g') n))) (g'\<lparr>cache_of := c\<rparr>))"
    by (rule read_inode_run [OF g'])
  moreover have "32 * inode_buffer_i ?i + 32 \<le> length ?d" using inode_buffer_i_less [of ?i] assms(11) by simp
  then have "slot 32 (inode_buffer_i (i_inode (inodes g' p))) (fs_block (cache_of g') n) = ?e"
    using slot_put_slot(1) [of 32 "inode_buffer_i ?i" ?d ?e] dec_enc_inode(1) [OF assms(10)] t(7) g(2)
    by (simp add: g'_def)
  ultimately have "iget (unat ?i) t = Some (p, upd_inode p (dec_inode ?e) (g'\<lparr>cache_of := c\<rparr>))"
    using t(3) g(1) by (simp add: iget_def g'_def)
  moreover have "inodes (upd_inode p (dec_inode ?e) (g'\<lparr>cache_of := c\<rparr>)) p = dec_inode ?e (inodes g' p)" by simp
  ultimately show ?thesis using t(1) dec_enc_inode(2) [OF assms(10)]
    by (intro exI [of _ t] exI [of _ "upd_inode p (dec_inode ?e) (g'\<lparr>cache_of := c\<rparr>)"] conjI) simp_all
qed

text \<open>
  The head of the list is not taken off it: after the last reference to it is given up, \<open>iget\<close>
  finds the freed object and returns it without reading the disk.
\<close>
theorem iput_head_iget_freed:
  assumes "head_cachep s = Some h" and "inode_chain s h (x # xs) h" and "distinct (h # x # xs)"
    and "i_sem (inodes s h) \<ge> 0" and "i_count (inodes s h) = 1" and "\<not> i_dirty (inodes s h)"
    and "obj_free h (inode_pool s) = Some pool"
  shows "\<exists>t. iput (Some h) s = Some t \<and> i_count (inodes t h) = 0
    \<and> iget (unat (i_inode (inodes s h))) t = Some (h, upd_inode h (\<lambda>x. x\<lparr>i_count := i_count x + 1\<rparr>) t)"
proof -
  let ?l = "last (x # xs)"
  define t where "t = upd_inode h (\<lambda>x. x\<lparr>i_count := 0\<rparr>)
     (upd_inode x (\<lambda>y. y\<lparr>i_prev := Some ?l\<rparr>) (upd_inode ?l (\<lambda>y. y\<lparr>i_next := Some x\<rparr>) (s\<lparr>inode_pool := pool\<rparr>)))"
  have pl: "i_next (inodes s h) = Some x" "i_prev (inodes s h) = Some ?l"
    using assms(2) chain_last [OF assms(2)] by simp_all
  have ne: "?l \<noteq> h" "h \<noteq> x" using assms(3) last_in_set [of "x # xs"] by (auto simp del: last.simps)
  have "iput (Some h) s = Some t"
    using assms(1,4-7) pl ne
    by (simp add: iput_def test_and_wait_inode_def remove_list_def upd_inode_at_def t_def Let_def del: last.simps)
  moreover have "iget_find (Some h) (unat (i_inode (inodes s h))) t = Some (Some h)"
    using ne assms(4) by (subst iget_find.simps) (simp add: t_def test_and_wait_inode_def del: last.simps)
  moreover have "head_cachep t = Some h" "i_count (inodes t h) = 0" using assms(1) by (simp_all add: t_def)
  ultimately show ?thesis by (auto simp: iget_def)
qed

text \<open>
  An inode in the list is found there: \<open>iget\<close> gives the same object again, with one more
  reference, and does not read the disk.
\<close>
theorem iget_cached:
  assumes "head_cachep s = Some h" and "inode_chain s h xs h" and "distinct (h # xs)" and "p \<in> set (h # xs)"
    and "\<forall>q \<in> set (h # xs). i_inode (inodes s q) = i_inode (inodes s p) \<longrightarrow> q = p" and "i_sem (inodes s p) \<ge> 0"
  shows "iget (unat (i_inode (inodes s p))) s = Some (p, upd_inode p (\<lambda>x. x\<lparr>i_count := i_count x + 1\<rparr>) s)"
proof -
  have "iget_find (Some h) (unat (i_inode (inodes s p))) s = Some (Some p)"
    by (rule iget_find_hit [OF assms(2,1)]) (use assms(3-6) in \<open>auto simp: word_unat_eq_iff\<close>)
  then show ?thesis by (simp add: iget_def assms(1))
qed

text \<open>The search of \<open>iget\<close> does not end on inodes whose successors stay among them and are not the
  head of the list.\<close>

lemma iget_find_endless:
  assumes "\<And>y. y \<in> S \<Longrightarrow> unat (i_inode (inodes s y)) \<noteq> n \<and> i_next (inodes s y) \<noteq> head_cachep s
    \<and> (\<exists>z \<in> S. i_next (inodes s y) = Some z)" and "y \<in> S"
  shows "iget_find (Some y) n s = None"
proof (rule ccontr)
  assume "iget_find (Some y) n s \<noteq> None"
  then obtain r where r: "iget_find (Some y) n s = Some r" by auto
  define P where "P = (\<lambda>a m (s' :: fs_state) (r :: nat option). \<forall>y. a = Some y \<longrightarrow> s' = s \<longrightarrow> m = n \<longrightarrow> y \<notin> S)"
  from r have "P (Some y) n s r"
  proof (rule iget_find.raw_induct [rotated])
    fix f a m s' r
    assume ih: "\<And>a m s' r. f a m s' = Some r \<Longrightarrow> P a m s' r"
      and run: "(case a of None \<Rightarrow> Some None
         | Some p \<Rightarrow> if unat (i_inode (inodes s' p)) = m then (if test_and_wait_inode p s' = None then None else Some (Some p))
            else if i_next (inodes s' p) = head_cachep s' then Some None else f (i_next (inodes s' p)) m s') = Some r"
    have False if y: "y \<in> S" and eq: "a = Some y" "s' = s" "m = n" for y
    proof -
      obtain z where z: "z \<in> S" "i_next (inodes s y) = Some z" using assms(1) [OF y] by auto
      with assms(1) [OF y] run eq have "f (Some z) n s = Some r" by (auto split: if_splits)
      from ih [OF this] z(1) show False by (simp add: P_def)
    qed
    then show "P a m s' r" by (auto simp: P_def)
  qed
  with assms(2) show False by (simp add: P_def)
qed

lemma chain_next_in:
  "chain nx pv a xs b \<Longrightarrow> y \<in> set (a # xs) \<Longrightarrow> y \<noteq> last (a # xs) \<Longrightarrow> \<exists>z \<in> set xs. nx y = Some z"
  by (induction xs arbitrary: a) (auto split: if_splits)

text \<open>
  Giving up the last reference to the first inode of the list leaves \<open>head_cachep\<close> on it;
  \<open>iget\<close> of an inode that is not in memory then follows the rest of the ring for ever, since
  the ring does not lead back to the head.
\<close>
theorem iput_head_iget_hangs:
  assumes "head_cachep s = Some h" and "inode_chain s h (x # xs) h" and "distinct (h # x # xs)"
    and "i_sem (inodes s h) \<ge> 0" and "i_count (inodes s h) = 1" and "\<not> i_dirty (inodes s h)"
    and "\<forall>q \<in> set (h # x # xs). unat (i_inode (inodes s q)) \<noteq> n" and "obj_free h (inode_pool s) = Some pool"
  shows "\<exists>t. iput (Some h) s = Some t \<and> head_cachep t = Some h \<and> iget n t = None"
proof -
  let ?l = "last (x # xs)" and ?S = "set (x # xs)"
  define t where "t = upd_inode h (\<lambda>x. x\<lparr>i_count := 0\<rparr>)
     (upd_inode x (\<lambda>y. y\<lparr>i_prev := Some ?l\<rparr>) (upd_inode ?l (\<lambda>y. y\<lparr>i_next := Some x\<rparr>) (s\<lparr>inode_pool := pool\<rparr>)))"
  have pl: "i_next (inodes s h) = Some x" "i_prev (inodes s h) = Some ?l"
    using assms(2) chain_last [OF assms(2)] by simp_all
  have l: "?l \<in> ?S" by (rule last_in_set) simp
  then have ne: "?l \<noteq> h" "h \<noteq> x" using assms(3) by (auto simp del: last.simps)
  have "iput (Some h) s = Some t"
    using assms(1,4-6,8) pl ne
    by (simp add: iput_def test_and_wait_inode_def remove_list_def upd_inode_at_def t_def Let_def del: last.simps)
  moreover have nums: "unat (i_inode (inodes t q)) \<noteq> n" if "q \<in> insert h ?S" for q
    using assms(7) that by (simp add: t_def del: last.simps) auto
  moreover have "i_next (inodes t y) \<noteq> head_cachep t \<and> (\<exists>z \<in> ?S. i_next (inodes t y) = Some z)" if "y \<in> ?S" for y
  proof (cases "y = ?l")
    case True
    then show ?thesis using ne assms(1) by (simp add: t_def del: last.simps)
  next
    case False
    have "inode_chain s x xs h" using assms(2) by simp
    from chain_next_in [OF this that False] obtain z where "z \<in> set xs" "i_next (inodes s y) = Some z" by auto
    moreover have "y \<noteq> h" using that assms(3) by auto
    ultimately show ?thesis using False assms(1,3) by (auto simp: t_def simp del: last.simps)
  qed
  ultimately have "iget_find (Some x) n t = None" by (intro iget_find_endless [of ?S]) auto
  moreover have "i_next (inodes t h) = Some x" "head_cachep t = Some h" "unat (i_inode (inodes t h)) \<noteq> n"
    using pl ne assms(1) nums [of h] by (simp_all add: t_def del: last.simps)
  ultimately have "iget n t = None" using ne by (simp add: iget_def iget_find.simps [of "Some h"])
  then show ?thesis using \<open>iput (Some h) s = Some t\<close> \<open>head_cachep t = Some h\<close> by blast
qed

subsection \<open>The block map of a file\<close>

text \<open>The layout of a file on the disk: the first seven numbers are in the inode, 512 more in the
  indirect block, and \<open>512 * 512\<close> more below the double indirect block. It is the layout by which the
  blocks of a file are released.\<close>

definition disk_word :: "bcache \<Rightarrow> u16 \<Rightarrow> nat \<Rightarrow> u16" where
  "disk_word c n k = word16 (slot 2 k (fs_block c (unat n))) 0"

definition minix_block :: "bcache \<Rightarrow> m_inode \<Rightarrow> nat \<Rightarrow> u16" where
  "minix_block c x i =
     (if i < 7 then block_area x ! i
      else if i < 519 then disk_word c (block_area x ! 7) (i - 7)
      else disk_word c (disk_word c (block_area x ! 8) ((i - 519) div 512)) ((i - 519) mod 512))"

text \<open>The code does not subtract the 512 numbers of the indirect block before it looks below the
  double indirect block: from block 519 on it uses the number that is 512 further on in the layout.\<close>

definition file_block :: "bcache \<Rightarrow> m_inode \<Rightarrow> nat \<Rightarrow> u16" where
  "file_block c x i = minix_block c x (if i < 519 then i else i + 512)"

lemma file_block_eq:
  "file_block c x i =
     (if i < 7 then block_area x ! i
      else if i < 519 then disk_word c (block_area x ! 7) (i - 7)
      else disk_word c (disk_word c (block_area x ! 8) ((i - 7) div 512)) ((i - 7) mod 512))"
proof -
  have "i + 512 - 519 = i - 7" if "519 \<le> i" using that by simp
  then show ?thesis by (auto simp: file_block_def minix_block_def)
qed

text \<open>The blocks that are read to find block \<open>i\<close>.\<close>

definition map_path :: "bcache \<Rightarrow> m_inode \<Rightarrow> nat \<Rightarrow> nat list" where
  "map_path c x i =
     (if i < 7 then [] else if i < 519 then [unat (block_area x ! 7)]
      else [unat (block_area x ! 8), unat (disk_word c (block_area x ! 8) ((i - 7) div 512))])"

lemma spare_mono: "spare m c \<Longrightarrow> k \<le> m \<Longrightarrow> spare k c"
  by (auto simp: spare_def intro: le_less_trans)

lemma indirect_run:
  assumes "spare (Suc k) (cache_of s)" and "uncached (unat n) (cache_of s)" and "i < 512"
    and "create \<Longrightarrow> disk_word (cache_of s) n i \<noteq> 0"
  obtains c where "Option.bind (fs_bread (unat n) s) (\<lambda>(bh, s). indirect bh i create s)
      = Some (disk_word (cache_of s) n i, s\<lparr>cache_of := c\<rparr>)"
    and "spare k c" and "\<forall>m. uncached m c = uncached m (cache_of s)" and "fs_block c = fs_block (cache_of s)"
proof -
  obtain b c where b: "fs_bread (unat n) s = Some (b, s\<lparr>cache_of := c\<rparr>)"
    "b_data (bufs c b) = fs_block (cache_of s) (unat n)"
    "\<exists>c2. brelse b c = Some c2 \<and> spare k c2 \<and> (\<forall>m. uncached m c2 = uncached m (cache_of s))
       \<and> fs_block c2 = fs_block (cache_of s)"
    by (rule fs_access [OF assms(1,2)]) (rule that)
  from b(3) obtain c2 where c2: "brelse b c = Some c2" "spare k c2"
    "\<forall>m. uncached m c2 = uncached m (cache_of s)" "fs_block c2 = fs_block (cache_of s)" by auto
  have "Option.bind (fs_bread (unat n) s) (\<lambda>(bh, s). indirect bh i create s)
      = Some (disk_word (cache_of s) n i, s\<lparr>cache_of := c2\<rparr>)"
    using b(1,2) c2(1) assms(3,4) by (auto simp: indirect_def get_word_def fs_brelse_def fs_buf_def disk_word_def)
  from that [OF this c2(2-4)] show thesis .
qed

lemma bmap_run:
  assumes "length (block_area (inodes s p)) = 9" and "i < 7 + 512 * 512" and "spare (Suc (Suc k)) (cache_of s)"
    and "\<forall>n \<in> set (map_path (cache_of s) (inodes s p) i). uncached n (cache_of s)"
  obtains c where "bmap p (int i) s = Some (file_block (cache_of s) (inodes s p) i, s\<lparr>cache_of := c\<rparr>)"
    and "spare k c" and "\<forall>m. uncached m c = uncached m (cache_of s)" and "fs_block c = fs_block (cache_of s)"
proof -
  let ?x = "inodes s p" and ?c = "cache_of s"
  consider "i < 7" | "7 \<le> i" "i < 519" | "519 \<le> i" by linarith
  then show thesis
  proof cases
    case 1
    then have "bmap p (int i) s = Some (file_block ?c ?x i, s\<lparr>cache_of := ?c\<rparr>)"
      using assms(1) by (simp add: bmap_def bmap_block_def file_block_eq Let_def)
    moreover have "spare k ?c" using assms(3) by (rule spare_mono) simp
    ultimately show thesis by (rule that) simp_all
  next
    case 2
    then have u: "uncached (unat (block_area ?x ! 7)) ?c" "i - 7 < 512" using assms(4) by (auto simp: map_path_def)
    obtain c where c: "Option.bind (fs_bread (unat (block_area ?x ! 7)) s) (\<lambda>(bh, s). indirect bh (i - 7) False s)
      = Some (disk_word ?c (block_area ?x ! 7) (i - 7), s\<lparr>cache_of := c\<rparr>)"
      "spare (Suc k) c" "\<forall>m. uncached m c = uncached m ?c" "fs_block c = fs_block ?c"
      by (rule indirect_run [OF assms(3) u, of False]) (simp, rule that)
    have "bmap p (int i) s = Some (file_block ?c ?x i, s\<lparr>cache_of := c\<rparr>)"
      using 2 u(2) assms(1) c(1) by (simp add: bmap_def bmap_block_def file_block_eq Let_def)
    from that [OF this spare_mono [OF c(2)] c(3,4)] show thesis by simp
  next
    case 3
    let ?w = "disk_word ?c (block_area ?x ! 8) ((i - 7) div 512)"
    have u: "uncached (unat (block_area ?x ! 8)) ?c" "uncached (unat ?w) ?c" using assms(4) 3 by (auto simp: map_path_def)
    have ge: "\<not> i - 7 < 512" using 3 by simp
    have lt: "(i - 7) div 512 < 512" "(i - 7) mod 512 < 512" using assms(2) by (simp_all add: less_mult_imp_div_less)
    obtain c where c: "Option.bind (fs_bread (unat (block_area ?x ! 8)) s) (\<lambda>(bh, s). indirect bh ((i - 7) div 512) False s)
      = Some (?w, s\<lparr>cache_of := c\<rparr>)" "spare (Suc k) c" "\<forall>m. uncached m c = uncached m ?c" "fs_block c = fs_block ?c"
      by (rule indirect_run [OF assms(3) u(1) lt(1), of False]) (simp, rule that)
    let ?s = "s\<lparr>cache_of := c\<rparr>"
    have "spare (Suc k) (cache_of ?s)" "uncached (unat ?w) (cache_of ?s)" using c(2,3) u(2) by simp_all
    then obtain d where d: "Option.bind (fs_bread (unat ?w) ?s) (\<lambda>(bh, s). indirect bh ((i - 7) mod 512) False s)
      = Some (disk_word (cache_of ?s) ?w ((i - 7) mod 512), ?s\<lparr>cache_of := d\<rparr>)" "spare k d"
      "\<forall>m. uncached m d = uncached m (cache_of ?s)" "fs_block d = fs_block (cache_of ?s)"
      by (rule indirect_run [OF _ _ lt(2), where create = False]) (simp, rule that)
    have "disk_word c ?w ((i - 7) mod 512) = disk_word ?c ?w ((i - 7) mod 512)"
      using c(4) by (simp only: disk_word_def)
    moreover obtain bh s1 where "fs_bread (unat (block_area ?x ! 8)) s = Some (bh, s1)"
      "indirect bh ((i - 7) div 512) False s1 = Some (?w, ?s)" using c(1) by (auto dest!: bind_SomeD)
    moreover obtain bh' s2 where "fs_bread (unat ?w) ?s = Some (bh', s2)"
      "indirect bh' ((i - 7) mod 512) False s2 = Some (disk_word c ?w ((i - 7) mod 512), s\<lparr>cache_of := d\<rparr>)"
      using d(1) by (auto dest!: bind_SomeD)
    ultimately have "bmap p (int i) s = Some (file_block ?c ?x i, s\<lparr>cache_of := d\<rparr>)"
      using 3 ge assms(1) by (simp add: bmap_def bmap_block_def file_block_eq Let_def)
    from that [OF this d(2)] c(3,4) d(3,4) show thesis by simp
  qed
qed

text \<open>
  C7. \<open>bmap\<close> of a block below 519 returns the number that the layout of the file has for it, in the
  inode or in the indirect block. From block 519 on it returns the number that the layout has
  for the block 512 further on, up to the end of the double indirect block: the first 512 numbers
  below that block are never used. It changes neither an inode nor a block of the disk, and uses up
  at most two buffers. The blocks on the way must not be in the cache and buffers have to be left.
\<close>
theorem bmap_refines:
  assumes "length (block_area (inodes s p)) = 9" and "i < 7 + 512 * 512" and "spare (Suc (Suc k)) (cache_of s)"
    and "\<forall>n \<in> set (map_path (cache_of s) (inodes s p) i). uncached n (cache_of s)"
  shows "\<exists>t. bmap p (int i) s = Some (minix_block (cache_of s) (inodes s p) (if i < 519 then i else i + 512), t)
    \<and> inodes t = inodes s \<and> fs_block (cache_of t) = fs_block (cache_of s) \<and> spare k (cache_of t)"
  by (rule bmap_run [OF assms, unfolded file_block_def]) auto

text \<open>Only \<open>set_area\<close> changes the inode.\<close>

lemma fs_bread_inodes: "fs_bread n s = Some (b, t) \<Longrightarrow> inodes t = inodes s"
  by (auto simp: fs_bread_def on_cache_def dest!: bind_SomeD)

lemma fs_brelse_inodes: "fs_brelse b s = Some t \<Longrightarrow> inodes t = inodes s"
  by (auto simp: fs_brelse_def)

lemma new_block_inodes: "new_block s = Some (n, t) \<Longrightarrow> inodes t = inodes s"
  by (auto simp: new_block_def Let_def fs_store_def fs_alloc_buffer_def on_cache_def fs_brelse_def
    dest!: bind_SomeD split: option.splits if_splits)

lemma indirect_inodes: "indirect b k create s = Some (w, t) \<Longrightarrow> inodes t = inodes s"
  by (auto simp: indirect_def Let_def fs_store_def dest!: bind_SomeD fs_brelse_inodes new_block_inodes split: if_splits)

text \<open>
  The test for a missing double indirect block is inverted: an inode without one never
  gets one from \<open>create_block\<close>, and an inode that has one gets a new, empty one in its
  place with every block that is added behind it.
\<close>
theorem create_double_indirect:
  assumes "length (block_area (inodes s p)) = 9" and "519 \<le> i" and "create_block p i s = Some (w, t)"
  shows "(block_area (inodes s p) ! 8 = 0 \<longrightarrow> block_area (inodes t p) ! 8 = 0)
    \<and> (block_area (inodes s p) ! 8 \<noteq> 0 \<longrightarrow>
         (\<exists>n u. new_block s = Some (n, u) \<and> block_area (inodes t p) ! 8 = of_int n))"
proof -
  have i: "\<not> i < 0" "\<not> i < 7" "\<not> nat i - 7 < 512" using assms(2) by auto
  let ?n = "block_area (inodes s p) ! 8"
  from assms(3) i assms(1) obtain s1 b s2 w1 s3 b' s4 where
    s1: "(if ?n \<noteq> 0 then set_area p 8 s else Some s) = Some s1"
    and "fs_bread (unat (block_area (inodes s1 p) ! 8)) s1 = Some (b, s2)"
      "indirect b ((nat i - 7) div 512) True s2 = Some (w1, s3)" "fs_bread (unat w1) s3 = Some (b', s4)"
      "indirect b' ((nat i - 7) mod 512) True s4 = Some (w, t)"
    by (auto simp: create_block_def bmap_block_def Let_def cell_def dest!: bind_SomeD split: if_splits)
  then have "inodes t = inodes s1" by (metis fs_bread_inodes indirect_inodes)
  moreover have "\<exists>n u. new_block s = Some (n, u) \<and> block_area (inodes s1 p) ! 8 = of_int n" if ne: "?n \<noteq> 0"
  proof -
    obtain n u where u: "new_block s = Some (n, u)"
      "s1 = upd_inode p (\<lambda>x. x\<lparr>block_area := (block_area x)[8 := of_int n], i_dirty := True\<rparr>) u"
      using s1 ne by (auto simp: set_area_def dest!: bind_SomeD)
    with new_block_inodes [OF u(1)] assms(1) show ?thesis by simp
  qed
  ultimately show ?thesis using s1 by auto
qed

text \<open>
  The count of free blocks that the kernel prints is the number of zero bits of the
  block bitmap.
\<close>
theorem show_free_block_counts:
  assumes "block_nos (super_block s) \<le> 8192" and "cell (zblock_map (super_block s)) 0 = Some (Some b)"
  shows "show_free_block s
    = Some (card {i. i < unat (block_nos (super_block s)) \<and> \<not> get_bit (b_data (fs_buf b s)) i})"
proof -
  have "count_free m (zblock_map (super_block s)) s = Some (card {i. i < m \<and> \<not> get_bit (b_data (fs_buf b s)) i})"
    if "m \<le> 8192" for m
    using that
  proof (induction m)
    case (Suc m)
    have "{i. i < Suc m \<and> \<not> get_bit d i}
      = (if get_bit d m then {i. i < m \<and> \<not> get_bit d i} else insert m {i. i < m \<and> \<not> get_bit d i})" for d
      by (auto simp: less_Suc_eq)
    then show ?case using Suc assms(2) by simp
  qed simp
  moreover have "unat (block_nos (super_block s)) \<le> 8192" using assms(1) by (simp add: word_le_nat_alt)
  ultimately show ?thesis by (simp add: show_free_block_def)
qed

subsection \<open>Witnesses\<close>

text \<open>Two inodes in memory; inode 2 has been changed.\<close>

definition two_inodes :: fs_state where
  "two_inodes = (small_fs sample_map)\<lparr>inodes := (\<lambda>p. zero_inode)
      (7 := zero_inode\<lparr>i_inode := 1, i_count := 1, i_next := Some 2, i_prev := Some 2\<rparr>,
       2 := zero_inode\<lparr>i_mode := 0x81ff, i_size := 100, block_area := [10, 11, 0, 0, 0, 0, 0, 12, 0],
              i_inode := 2, i_dirty := True, i_count := 1, i_next := Some 7, i_prev := Some 7\<rparr>,
       5 := zero_inode\<lparr>i_inode := 2\<rparr>),
     head_cachep := Some 7\<rparr>"

lemma small_fs_spare: "spare 2 (cache_of (small_fs d))"
  unfolding spare_def using small_fs_ok [of d] by (intro exI [of _ "[0, 1, 2]"]) simp

lemma small_fs_uncached: "n < 200 \<Longrightarrow> n \<noteq> 3 \<Longrightarrow> uncached n (cache_of (small_fs d))"
  by (simp add: uncached_def small_fs_def)

lemma small_fs_block: "fs_block (cache_of (small_fs d)) n = replicate 1024 0"
  by (simp add: fs_block_def small_fs_def small_cache_def blank_cache_def)

lemma two_inodes_block: "inode_block 2 two_inodes = 4"
  by (simp add: inode_block_def two_inodes_def small_fs_def small_super_def)

lemma two_inodes_sel:
  "cache_of two_inodes = cache_of (small_fs sample_map)" "head_cachep two_inodes = Some 7"
  "inode_pool two_inodes = \<lparr>pool_free = 8, pool_num = 2, pool_ctl = [1, 2, 3, 4, 5, 6, 7, 8, 9, 0xffff]\<rparr>"
  by (simp_all add: two_inodes_def small_fs_def)

lemma two_inodes_at:
  "inodes two_inodes 7 = zero_inode\<lparr>i_inode := 1, i_count := 1, i_next := Some 2, i_prev := Some 2\<rparr>"
  "inodes two_inodes 2 = zero_inode\<lparr>i_mode := 0x81ff, i_size := 100, block_area := [10, 11, 0, 0, 0, 0, 0, 12, 0],
              i_inode := 2, i_dirty := True, i_count := 1, i_next := Some 7, i_prev := Some 7\<rparr>"
  "inodes two_inodes 5 = zero_inode\<lparr>i_inode := 2\<rparr>"
  by (simp_all add: two_inodes_def)

lemmas two_inodes_simps = two_inodes_block two_inodes_sel two_inodes_at small_fs_spare small_fs_uncached
  small_fs_block zero_inode_def

theorem write_read_inode_witness:
  "\<exists>t u. write_inode 2 two_inodes = Some t \<and> read_inode 5 t = Some u \<and> i_size (inodes u 5) = 100"
proof -
  have "\<exists>t u. write_inode 2 two_inodes = Some t \<and> \<not> i_dirty (inodes t 2) \<and> read_inode 5 t = Some u
    \<and> inodes u 5 = (inodes two_inodes 5)\<lparr>i_mode := i_mode (inodes two_inodes 2), i_uid := i_uid (inodes two_inodes 2),
        i_size := i_size (inodes two_inodes 2), i_time := i_time (inodes two_inodes 2), i_gid := i_gid (inodes two_inodes 2),
        i_nlinks := i_nlinks (inodes two_inodes 2), block_area := block_area (inodes two_inodes 2)\<rparr>
    \<and> (\<forall>j < 32. j \<noteq> inode_buffer_i (i_inode (inodes two_inodes 2)) \<longrightarrow>
         slot 32 j (fs_block (cache_of t) 4) = slot 32 j (fs_block (cache_of two_inodes) 4))"
    by (rule write_read_inode [of _ _ 0]) (simp_all add: two_inodes_simps numeral_2_eq_2 [symmetric])
  then show ?thesis by (auto simp: two_inodes_simps)
qed

theorem iput_iget_roundtrip_witness:
  "\<exists>t u. iput (Some 2) two_inodes = Some t \<and> iget 2 t = Some (2, u) \<and> i_size (inodes u 2) = 100"
  using iput_iget_roundtrip [of two_inodes 7 "[]" 2 "[]" 0 4]
  by (simp add: two_inodes_simps numeral_2_eq_2 [symmetric]) auto

theorem iget_cached_witness:
  "iget 2 two_inodes = Some (2, upd_inode 2 (\<lambda>x. x\<lparr>i_count := i_count x + 1\<rparr>) two_inodes)"
  using iget_cached [of two_inodes 7 "[2]" 2] by (simp add: two_inodes_simps)

theorem iput_head_iget_hangs_witness:
  "\<exists>t. iput (Some 7) two_inodes = Some t \<and> head_cachep t = Some 7 \<and> iget 3 t = None"
  by (rule iput_head_iget_hangs [of _ _ 2 "[]" _ "\<lparr>pool_free = 7, pool_num = 3, pool_ctl = [1, 2, 3, 4, 5, 6, 7, 8, 7, 0xffff]\<rparr>"])
    (simp_all add: two_inodes_simps obj_free_def)

theorem bmap_refines_witness:
  "\<exists>t. bmap 2 (int 9) two_inodes = Some (minix_block (cache_of two_inodes) (inodes two_inodes 2) (if (9::nat) < 519 then 9 else 9 + 512), t)
    \<and> inodes t = inodes two_inodes \<and> fs_block (cache_of t) = fs_block (cache_of two_inodes) \<and> spare 0 (cache_of t)"
  by (rule bmap_refines) (simp_all add: two_inodes_simps map_path_def numeral_2_eq_2 [symmetric])

theorem show_free_block_counts_witness:
  "show_free_block (small_fs sample_map) = Some (card {i. i < 1000 \<and> \<not> get_bit sample_map i})"
  using show_free_block_counts [OF _ small_fs_super(2), of sample_map]
  by (simp add: small_fs_def small_super_def fs_buf_def)

text \<open>A disk whose bytes are all 1.\<close>

definition ones_fs :: fs_state where
  "ones_fs = two_inodes\<lparr>cache_of := (cache_of two_inodes)\<lparr>disk := (\<lambda>_. replicate 1024 1)\<rparr>\<rparr>"

lemma ones_create: "\<exists>w t. create_block 2 519 ones_fs = Some (w, t)"
proof -
  let ?c = "cache_of ones_fs"
  have w: "disk_word ?c n k = 0x0101" if "k < 512" for n k
  proof -
    have "slot 2 k (replicate 1024 (1 :: u8)) = [1, 1]"
      using that by (simp add: slot_def numeral_2_eq_2 min_def)
    then show ?thesis by (simp add: disk_word_def fs_block_def ones_fs_def word16_def)
  qed
  have sp: "spare k (c0\<lparr>disk := dd\<rparr>) = spare k c0" "uncached n (c0\<lparr>disk := dd\<rparr>) = uncached n c0" for k n c0 dd
    by (simp_all add: spare_def uncached_def cache_ok_def)
  have c0: "?c = (cache_of (small_fs sample_map))\<lparr>disk := (\<lambda>_. replicate 1024 1)\<rparr>"
    by (simp add: ones_fs_def two_inodes_sel)
  have ok: "spare (Suc (Suc 0)) ?c" "uncached (unat (0 :: u16)) ?c" "uncached (unat (0x0101 :: u16)) ?c"
    using small_fs_spare [of sample_map] unfolding c0 sp by (simp_all add: numeral_2_eq_2 [symmetric] uncached_def small_fs_def)
  obtain c where c: "Option.bind (fs_bread (unat (0 :: u16)) ones_fs) (\<lambda>(bh, s). indirect bh 1 True s)
      = Some (disk_word ?c 0 1, ones_fs\<lparr>cache_of := c\<rparr>)" "spare (Suc 0) c" "\<forall>m. uncached m c = uncached m ?c"
      "fs_block c = fs_block ?c"
    by (rule indirect_run [OF ok(1,2), of 1 True]) (simp_all add: w)
  let ?s = "ones_fs\<lparr>cache_of := c\<rparr>"
  have s: "spare (Suc 0) (cache_of ?s)" "uncached (unat (0x0101 :: u16)) (cache_of ?s)" using c(2,3) ok(3) by simp_all
  have w2: "disk_word (cache_of ?s) 0x0101 0 = 0x0101" using w [of 0 "0x0101"] c(4) by (simp add: disk_word_def)
  obtain d where d: "Option.bind (fs_bread (unat (0x0101 :: u16)) ?s) (\<lambda>(bh, s). indirect bh 0 True s)
      = Some (disk_word (cache_of ?s) 0x0101 0, ?s\<lparr>cache_of := d\<rparr>)"
    by (rule indirect_run [OF s, of 0 True]) (use w2 in simp_all)
  have "block_area (inodes ones_fs 2) = [10, 11, 0, 0, 0, 0, 0, 12, 0]" by (simp add: ones_fs_def two_inodes_at)
  moreover obtain b s1 where "fs_bread (unat (0 :: u16)) ones_fs = Some (b, s1)" "indirect b 1 True s1 = Some (0x0101, ?s)"
    using c(1) w [of 1 0] by (auto dest!: bind_SomeD)
  moreover obtain b' s2 where "fs_bread (unat (0x0101 :: u16)) ?s = Some (b', s2)"
    "indirect b' 0 True s2 = Some (disk_word (cache_of ?s) 0x0101 0, ?s\<lparr>cache_of := d\<rparr>)"
    using d by (auto dest!: bind_SomeD)
  ultimately show ?thesis by (simp add: create_block_def bmap_block_def Let_def)
qed

theorem create_double_indirect_witness:
  "\<exists>w t. create_block 2 519 ones_fs = Some (w, t) \<and> block_area (inodes t 2) ! 8 = 0"
proof -
  from ones_create obtain w t where t: "create_block 2 519 ones_fs = Some (w, t)" by blast
  have "inodes ones_fs 2 = inodes two_inodes 2" by (simp add: ones_fs_def)
  with create_double_indirect [OF _ _ t] t show ?thesis by (simp add: two_inodes_simps)
qed

end
