(* ===== verification/Fs_Name.thy ===== *)
theory Fs_Name
  imports Fs_Inode
begin

unbundle bit_operations_syntax

section \<open>Directories and path names\<close>

text \<open>
  Models fs/name_inode.c. A directory is a file of entries of 16 bytes: the number of an inode
  and a name of up to 14 bytes. Path names are in the memory of the calling process, which
  \<open>um\<close> gives (\<open>get_fs_byte\<close> and the \<open>fs\<close> prefix of \<open>cmpsb\<close> read it). A pointer into a buffer is
  the buffer and the offset. The messages the functions print are left out.
\<close>

type_synonym umem = "nat \<Rightarrow> u8"

abbreviation DIR_NO_PRE_BLOCK :: nat where "DIR_NO_PRE_BLOCK \<equiv> 64"
abbreviation FILE_DIR :: u16 where "FILE_DIR \<equiv> 0x4000"
abbreviation SET_ISVTX :: u16 where "SET_ISVTX \<equiv> 0x800"
abbreviation FILE_CREATE :: u32 where "FILE_CREATE \<equiv> 4"

text \<open>What a function returns for a pointer to an inode: one caller gets the number -1.\<close>

datatype iptr = INull | IPtr nat | IMinusOne

subsection \<open>Entries\<close>

text \<open>\<open>repe cmpsb\<close>: \<open>n\<close> bytes from user address \<open>a\<close> and from offset \<open>i\<close> of the block, up to the first
  difference.\<close>

fun cmpsb :: "nat \<Rightarrow> umem \<Rightarrow> nat \<Rightarrow> u8 list \<Rightarrow> nat \<Rightarrow> bool option" where
  "cmpsb 0 um a d i = Some True"
| "cmpsb (Suc n) um a d i = do {
     x \<leftarrow> cell d i;
     if um a = x then cmpsb n um (a + 1) d (i + 1) else Some False }"

text \<open>With a length of 0 no byte is compared, and the result is taken from a flag that nothing has
  set.\<close>

definition match_entry :: "umem \<Rightarrow> nat \<Rightarrow> nat \<Rightarrow> u8 list \<Rightarrow> nat \<Rightarrow> bool option" where
  "match_entry um len name d off = do {
     c0 \<leftarrow> cell d (off + 2);
     c1 \<leftarrow> cell d (off + 3);
     if len = 0 \<and> c0 = 0x2e \<and> c1 = 0 then Some True
     else do {
       stop \<leftarrow> (if len < MAX_NAME_LEN then map_option (\<lambda>c. c \<noteq> 0) (cell d (off + 2 + len)) else Some False);
       if stop then Some False
       else if len = 0 then None
       else cmpsb len um name d (off + 2) } }"

text \<open>The loop of \<open>find_entry\<close>, with \<open>n\<close> entries to go from entry \<open>i\<close> on.\<close>

fun find_entry_loop :: "nat \<Rightarrow> nat \<Rightarrow> nat \<Rightarrow> nat \<Rightarrow> nat \<Rightarrow> umem \<Rightarrow> nat \<Rightarrow> nat \<Rightarrow> fs_state
    \<Rightarrow> ((nat \<times> nat) option \<times> fs_state) option" where
  "find_entry_loop 0 i bh off dir um name len s = do { s \<leftarrow> fs_brelse bh s; Some (None, s) }"
| "find_entry_loop (Suc n) i bh off dir um name len s = do {
     (bh, off, s) \<leftarrow> (if off \<ge> BLOCK_SIZE
                      then do {
                        s \<leftarrow> fs_brelse bh s;
                        (block, s) \<leftarrow> bmap dir (int (i div DIR_NO_PRE_BLOCK)) s;
                        (bh, s) \<leftarrow> fs_bread (unat block) s;
                        Some (bh, 0, s) }
                      else Some (bh, off, s));
     m \<leftarrow> match_entry um len name (b_data (fs_buf bh s)) off;
     if m then Some (Some (bh, off), s)
     else find_entry_loop n (i + 1) bh (off + 16) dir um name len s }"

definition find_entry :: "nat \<Rightarrow> umem \<Rightarrow> nat \<Rightarrow> nat \<Rightarrow> fs_state \<Rightarrow> ((nat \<times> nat) option \<times> fs_state) option" where
  "find_entry dir um name len s = do {
     n0 \<leftarrow> cell (block_area (inodes s dir)) 0;
     if n0 = 0 then Some (None, s)
     else do {
       (bh, s) \<leftarrow> fs_bread (unat n0) s;
       let entries = unat (i_size (inodes s dir)) div 16;
       find_entry_loop (entries + 1) 0 bh 0 dir um name len s } }"

definition put_bytes :: "nat \<Rightarrow> u8 list \<Rightarrow> u8 list \<Rightarrow> u8 list option" where
  "put_bytes off bs d = (if off + length bs \<le> length d then Some (take off d @ bs @ drop (off + length bs) d) else None)"

definition user_bytes :: "umem \<Rightarrow> nat \<Rightarrow> nat \<Rightarrow> u8 list" where
  "user_bytes um a n = map (\<lambda>i. um (a + i)) [0..<n]"

text \<open>The loop of \<open>add_entry\<close>: it ends at the first free entry, at the latest behind the last one.\<close>

partial_function (option) add_entry_loop :: "nat \<Rightarrow> nat \<Rightarrow> nat \<Rightarrow> nat \<Rightarrow> umem \<Rightarrow> nat \<Rightarrow> nat \<Rightarrow> u16 \<Rightarrow> fs_state
    \<Rightarrow> ((nat \<times> nat) \<times> fs_state) option" where
  "add_entry_loop i bh off dir um name len ino s =
     Option.bind
       (if off \<ge> BLOCK_SIZE
        then do {
          s \<leftarrow> fs_brelse bh s;
          (block, s) \<leftarrow> create_block dir (int (i div DIR_NO_PRE_BLOCK)) s;
          (bh, s) \<leftarrow> fs_bread (unat block) s;
          Some (bh, 0, s) }
        else Some (bh, off, s))
     (\<lambda>(bh, off, s).
     Option.bind
       (if of_nat (i * 16) \<ge> i_size (inodes s dir)
        then do {
          d \<leftarrow> put_bytes off (bytes16 0) (b_data (fs_buf bh s));
          let s = s\<lparr>cache_of := upd_buf bh (\<lambda>h. h\<lparr>b_data := d\<rparr>) (cache_of s)\<rparr>;
          Some (upd_inode dir (\<lambda>x. x\<lparr>i_size := i_size x + 16, i_dirty := True\<rparr>) s) }
        else Some s)
     (\<lambda>s.
     if word16 (b_data (fs_buf bh s)) off = 0
     then do {
       d \<leftarrow> put_bytes off (bytes16 ino) (b_data (fs_buf bh s));
       d \<leftarrow> put_bytes (off + 2) (user_bytes um name len) d;
       Some ((bh, off), fs_store bh d s) }
     else add_entry_loop (i + 1) bh (off + 16) dir um name len ino s))"

definition add_entry :: "nat \<Rightarrow> umem \<Rightarrow> nat \<Rightarrow> nat \<Rightarrow> u16 \<Rightarrow> fs_state \<Rightarrow> ((nat \<times> nat) option \<times> fs_state) option" where
  "add_entry dir um name len ino s = do {
     n0 \<leftarrow> cell (block_area (inodes s dir)) 0;
     if n0 = 0 then Some (None, s)
     else do {
       (bh, s) \<leftarrow> fs_bread (unat n0) s;
       (r, s) \<leftarrow> add_entry_loop 0 bh 0 dir um name len ino s;
       Some (Some r, s) } }"

text \<open>\<open>remove_entry\<close> returns the buffer it ends with.\<close>

partial_function (option) remove_entry_loop :: "nat \<Rightarrow> nat \<Rightarrow> nat \<Rightarrow> nat \<Rightarrow> umem \<Rightarrow> nat \<Rightarrow> nat \<Rightarrow> fs_state
    \<Rightarrow> (nat \<times> fs_state) option" where
  "remove_entry_loop i bh off dir um name len s =
     Option.bind
       (if off \<ge> BLOCK_SIZE
        then do {
          s \<leftarrow> fs_brelse bh s;
          (block, s) \<leftarrow> bmap dir (int (i div DIR_NO_PRE_BLOCK)) s;
          (bh, s) \<leftarrow> fs_bread (unat block) s;
          Some (bh, 0, s) }
        else Some (bh, off, s))
     (\<lambda>(bh, off, s).
     if of_nat (i * 16) \<ge> i_size (inodes s dir) then Some (bh, s)
     else Option.bind (match_entry um len name (b_data (fs_buf bh s)) off) (\<lambda>m.
       if m
       then do {
         d \<leftarrow> put_bytes off (replicate 16 0) (b_data (fs_buf bh s));
         Some (bh, fs_store bh d s) }
       else remove_entry_loop (i + 1) bh (off + 16) dir um name len s))"

definition remove_entry :: "nat \<Rightarrow> nat \<Rightarrow> umem \<Rightarrow> nat \<Rightarrow> nat \<Rightarrow> fs_state \<Rightarrow> (nat \<times> fs_state) option" where
  "remove_entry dir bh um name len s = remove_entry_loop 0 bh 0 dir um name len s"

subsection \<open>Path names\<close>

text \<open>The loop of \<open>get_last_dir\<close>: \<open>this\<close> is the start of the component, \<open>len\<close> its length so far.\<close>

partial_function (option) last_dir_loop :: "umem \<Rightarrow> nat \<Rightarrow> nat \<Rightarrow> nat \<Rightarrow> nat \<Rightarrow> fs_state
    \<Rightarrow> (nat option \<times> fs_state) option" where
  "last_dir_loop um this path len inode s =
     (if um path = 0 then Some (Some inode, s)
      else if um path = 0x2f
      then Option.bind (find_entry inode um this len s) (\<lambda>(r, s).
        case r of
          None \<Rightarrow> Option.bind (iput (Some inode) s) (\<lambda>s. Some (None, s))
        | Some (bh, off) \<Rightarrow>
            let nr = unat (word16 (b_data (fs_buf bh s)) off) in
            Option.bind (fs_brelse bh s) (\<lambda>s.
            Option.bind (iget nr s) (\<lambda>(inode, s).
              last_dir_loop um (path + 1) (path + 1) 0 inode s)))
      else last_dir_loop um this (path + 1) (len + 1) inode s)"

definition get_last_dir :: "umem \<Rightarrow> nat \<Rightarrow> fs_state \<Rightarrow> (nat option \<times> fs_state) option" where
  "get_last_dir um pathname s =
     (if um pathname = 0x2f
      then do { inode \<leftarrow> cur_root s; last_dir_loop um (pathname + 1) (pathname + 1) 0 inode s }
      else do { inode \<leftarrow> cur_pwd s; last_dir_loop um pathname pathname 0 inode s })"

partial_function (option) last_name_loop :: "umem \<Rightarrow> nat \<Rightarrow> nat \<Rightarrow> (nat \<times> nat) option" where
  "last_name_loop um tmp path =
     (if um path = 0 then Some (tmp, path - tmp)
      else if um path = 0x2f then last_name_loop um (path + 1) (path + 2)
      else last_name_loop um tmp (path + 1))"

definition get_last_name :: "umem \<Rightarrow> nat \<Rightarrow> (nat \<times> nat) option" where
  "get_last_name um pathname = last_name_loop um (pathname + 1) (pathname + 1)"

definition dir_namei :: "umem \<Rightarrow> nat \<Rightarrow> fs_state \<Rightarrow> (nat option \<times> nat \<times> nat \<times> fs_state) option" where
  "dir_namei um pathname s = do {
     (dir, s) \<leftarrow> get_last_dir um pathname s;
     (name, len) \<leftarrow> get_last_name um pathname;
     Some (dir, name, len, s) }"

subsection \<open>Creating and removing\<close>

definition open_and_create :: "umem \<Rightarrow> nat \<Rightarrow> u16 \<Rightarrow> u32 \<Rightarrow> fs_state \<Rightarrow> (iptr \<times> fs_state) option" where
  "open_and_create um pathname mode flags s = do {
     (parent, name, len, s) \<leftarrow> dir_namei um pathname s;
     parent \<leftarrow> parent;
     (r, s) \<leftarrow> find_entry parent um name len s;
     case r of
       Some (bh, off) \<Rightarrow> do {
         (p, s) \<leftarrow> iget (unat (word16 (b_data (fs_buf bh s)) off)) s;
         Some (IPtr p, s) }
     | None \<Rightarrow>
         if flags AND FILE_CREATE = 0 then Some (INull, s)
         else do {
           (p, s) \<leftarrow> new_inode s;
           case p of
             None \<Rightarrow> do { s \<leftarrow> iput (Some parent) s; Some (INull, s) }
           | Some p \<Rightarrow> do {
               let s = upd_inode p (\<lambda>x. x\<lparr>i_dirty := True, i_mode := SET_ISVTX OR (mode AND NOT (cur_umask s))\<rparr>) s;
               (r, s) \<leftarrow> add_entry parent um name len (i_inode (inodes s p)) s;
               case r of
                 None \<Rightarrow> do { s \<leftarrow> iput (Some parent) s; s \<leftarrow> iput (Some p) s; Some (IMinusOne, s) }
               | Some (bh, off) \<Rightarrow> do { s \<leftarrow> fs_brelse bh s; s \<leftarrow> iput (Some parent) s; Some (IPtr p, s) } } } }"

text \<open>The two first entries of a new directory.\<close>

definition dot_entries :: "u16 \<Rightarrow> u16 \<Rightarrow> u8 list \<Rightarrow> u8 list option" where
  "dot_entries ino parent d = do {
     d \<leftarrow> put_bytes 2 [0x2e] d;
     d \<leftarrow> put_bytes 0 (bytes16 ino) d;
     d \<leftarrow> put_bytes 18 [0x2e, 0x2e] d;
     put_bytes 16 (bytes16 parent) d }"

definition put_both :: "nat \<Rightarrow> nat \<Rightarrow> fs_state \<Rightarrow> (int \<times> fs_state) option" where
  "put_both a b s = do { s \<leftarrow> iput (Some a) s; s \<leftarrow> iput (Some b) s; Some (-1, s) }"

definition do_mkdir :: "umem \<Rightarrow> nat \<Rightarrow> u16 \<Rightarrow> fs_state \<Rightarrow> (int \<times> fs_state) option" where
  "do_mkdir um pathname mode s = do {
     (parent, name, len, s) \<leftarrow> dir_namei um pathname s;
     case parent of
       None \<Rightarrow> Some (-1, s)
     | Some parent \<Rightarrow>
         if len = 0 then do { s \<leftarrow> iput (Some parent) s; Some (-1, s) }
         else do {
           (r, s) \<leftarrow> find_entry parent um name len s;
           case r of
             Some (bh, off) \<Rightarrow> do { s \<leftarrow> fs_brelse bh s; s \<leftarrow> iput (Some parent) s; Some (0, s) }
           | None \<Rightarrow> do {
               (p, s) \<leftarrow> new_inode s;
               case p of
                 None \<Rightarrow> do { s \<leftarrow> iput (Some parent) s; Some (-1, s) }
               | Some p \<Rightarrow> do {
                   let s = upd_inode p (\<lambda>x. x\<lparr>i_size := 32, i_dirty := True\<rparr>) s;
                   (n, s) \<leftarrow> new_block s;
                   let s = upd_inode p (\<lambda>x. x\<lparr>block_area := (block_area x)[0 := of_int n]\<rparr>) s;
                   n0 \<leftarrow> cell (block_area (inodes s p)) 0;
                   if n0 = 0 then put_both p parent s
                   else do {
                     (bh, s) \<leftarrow> fs_bread (unat n0) s;
                     d \<leftarrow> dot_entries (i_inode (inodes s p)) (i_inode (inodes s parent)) (b_data (fs_buf bh s));
                     let s = fs_store bh d s;
                     let s = upd_inode p (\<lambda>x. x\<lparr>i_nlinks := 2,
                               i_mode := FILE_DIR OR SET_ISVTX OR (mode AND 0x1ff AND NOT (cur_umask s))\<rparr>) s;
                     s \<leftarrow> fs_brelse bh s;
                     (r, s) \<leftarrow> add_entry parent um name len (i_inode (inodes s p)) s;
                     case r of
                       None \<Rightarrow> put_both p parent s
                     | Some (bh, off) \<Rightarrow> do {
                         let s = upd_inode parent (\<lambda>x. x\<lparr>i_nlinks := i_nlinks x + 1\<rparr>) s;
                         s \<leftarrow> fs_brelse bh s;
                         s \<leftarrow> iput (Some parent) s;
                         s \<leftarrow> iput (Some p) s;
                         Some (1, s) } } } } } }"

text \<open>The three early returns after \<open>iget\<close> keep the buffer and both inodes.\<close>

definition do_rmdir :: "umem \<Rightarrow> nat \<Rightarrow> fs_state \<Rightarrow> (int \<times> fs_state) option" where
  "do_rmdir um pathname s = do {
     (parent, name, len, s) \<leftarrow> dir_namei um pathname s;
     case parent of
       None \<Rightarrow> Some (-1, s)
     | Some parent \<Rightarrow>
         if len = 0 then do { s \<leftarrow> iput (Some parent) s; Some (-1, s) }
         else do {
           (r, s) \<leftarrow> find_entry parent um name len s;
           case r of
             None \<Rightarrow> do { s \<leftarrow> iput (Some parent) s; Some (-1, s) }
           | Some (bh, off) \<Rightarrow> do {
               (p, s) \<leftarrow> iget (unat (word16 (b_data (fs_buf bh s)) off)) s;
               if i_count (inodes s p) > 1 then Some (-1, s)
               else if i_mode (inodes s p) AND SET_ISVTX = 0 then Some (-1, s)
               else if cur_euid s \<noteq> i_uid (inodes s p) then Some (-1, s)
               else if i_inode (inodes s p) = i_inode (inodes s parent)
               then do {
                 s \<leftarrow> iput (Some parent) s;
                 s \<leftarrow> iput (Some p) s;
                 s \<leftarrow> fs_brelse bh s;
                 Some (-1, s) }
               else do {
                 s \<leftarrow> free_inode_block p s;
                 s \<leftarrow> free_inode p s;
                 let s = upd_inode parent (\<lambda>x. x\<lparr>i_dirty := True, i_nlinks := i_nlinks x - 1\<rparr>) s;
                 (_, s) \<leftarrow> remove_entry parent bh um name len s;
                 s \<leftarrow> fs_brelse bh s;
                 s \<leftarrow> iput (Some parent) s;
                 s \<leftarrow> iput (Some p) s;
                 Some (1, s) } } } }"

definition do_mount :: int where "do_mount = -1"

definition do_umount :: int where "do_umount = -1"


subsection \<open>Looking up entries\<close>

lemma cmpsb_spec: "i + n \<le> length d \<Longrightarrow> cmpsb n um a d i = Some (\<forall>j < n. um (a + j) = d ! (i + j))"
proof (induction n arbitrary: a i)
  case (Suc n)
  have "(\<forall>j < Suc n. um (a + j) = d ! (i + j)) \<longleftrightarrow> um a = d ! i \<and> (\<forall>j < n. um (a + 1 + j) = d ! (i + 1 + j))"
    by (auto simp: less_Suc_eq_0_disj)
  then show ?case using Suc by simp
qed simp

text \<open>The entry at an offset has the given name.\<close>

definition name_eq :: "umem \<Rightarrow> nat \<Rightarrow> nat \<Rightarrow> u8 list \<Rightarrow> nat \<Rightarrow> bool" where
  "name_eq um len a d off \<longleftrightarrow> (len < MAX_NAME_LEN \<longrightarrow> d ! (off + 2 + len) = 0) \<and> (\<forall>j < len. um (a + j) = d ! (off + 2 + j))"

lemma match_entry_spec:
  assumes "0 < len" and "len \<le> MAX_NAME_LEN" and "off + 16 \<le> length d"
  shows "match_entry um len a d off = Some (name_eq um len a d off)"
  using assms cmpsb_spec [of "off + 2" len d um a]
  by (auto simp: match_entry_def name_eq_def)

lemma find_entry_loop_hit:
  assumes "0 < len" and "len \<le> MAX_NAME_LEN" and "length (b_data (fs_buf bh s)) = BLOCK_SIZE" and "i \<le> j" and "j < i + n" and "j < 64"
    and "name_eq um len a (b_data (fs_buf bh s)) (16 * j)"
    and "\<And>k. i \<le> k \<Longrightarrow> k < j \<Longrightarrow> \<not> name_eq um len a (b_data (fs_buf bh s)) (16 * k)"
  shows "find_entry_loop n i bh (16 * i) dir um a len s = Some (Some (bh, 16 * j), s)"
  using assms
proof (induction n arbitrary: i)
  case (Suc n)
  have m: "match_entry um len a (b_data (fs_buf bh s)) (16 * i) = Some (name_eq um len a (b_data (fs_buf bh s)) (16 * i))"
    by (rule match_entry_spec) (use Suc.prems in auto)
  show ?case
  proof (cases "i = j")
    case True
    then show ?thesis using m Suc.prems(6,7) by simp
  next
    case False
    then have "find_entry_loop n (i + 1) bh (16 * (i + 1)) dir um a len s = Some (Some (bh, 16 * j), s)"
      using Suc.prems by (intro Suc.IH) auto
    moreover have "\<not> name_eq um len a (b_data (fs_buf bh s)) (16 * i)" using Suc.prems(4,8) False by simp
    ultimately show ?thesis using m Suc.prems(4,6) False by (simp add: add.commute)
  qed
qed simp

lemma find_entry_loop_miss:
  assumes "0 < len" and "len \<le> MAX_NAME_LEN" and "length (b_data (fs_buf bh s)) = BLOCK_SIZE" and "i + n \<le> 64"
    and "\<And>k. i \<le> k \<Longrightarrow> k < i + n \<Longrightarrow> \<not> name_eq um len a (b_data (fs_buf bh s)) (16 * k)"
  shows "find_entry_loop n i bh (16 * i) dir um a len s = map_option (\<lambda>t. (None, t)) (fs_brelse bh s)"
  using assms
proof (induction n arbitrary: i)
  case 0
  then show ?case by (cases "fs_brelse bh s") auto
next
  case (Suc n)
  have m: "match_entry um len a (b_data (fs_buf bh s)) (16 * i) = Some (name_eq um len a (b_data (fs_buf bh s)) (16 * i))"
    by (rule match_entry_spec) (use Suc.prems in auto)
  have "find_entry_loop n (i + 1) bh (16 * (i + 1)) dir um a len s = map_option (\<lambda>t. (None, t)) (fs_brelse bh s)"
    using Suc.prems by (intro Suc.IH) auto
  moreover have "\<not> name_eq um len a (b_data (fs_buf bh s)) (16 * i)" using Suc.prems(5) by simp
  ultimately show ?case using m Suc.prems(4) by (simp add: add.commute)
qed

text \<open>A directory whose entries are in its first block.\<close>

definition one_block_dir :: "nat \<Rightarrow> nat \<Rightarrow> fs_state \<Rightarrow> bool" where
  "one_block_dir dir n s \<longleftrightarrow> (\<exists>w. cell (block_area (inodes s dir)) 0 = Some w \<and> w \<noteq> 0 \<and> unat w = n)
     \<and> unat (i_size (inodes s dir)) div 16 < 64 \<and> uncached n (cache_of s) \<and> length (fs_block (cache_of s) n) = BLOCK_SIZE"

lemma find_entry_unfold:
  assumes "one_block_dir dir n s" and "fs_bread n s = Some (b, s1)" and "inodes s1 = inodes s"
  shows "find_entry dir um a len s = find_entry_loop (unat (i_size (inodes s dir)) div 16 + 1) 0 b 0 dir um a len s1"
  using assms by (auto simp: find_entry_def one_block_dir_def Let_def simp del: find_entry_loop.simps)

text \<open>
  \<open>find_entry\<close> finds the first entry with the name, and leaves the buffer with the entry to
  the caller; when no entry has the name it releases the buffer. It looks at one entry more
  than the directory has (\<open>j = size div 16\<close>).
\<close>
theorem find_entry_first:
  assumes "one_block_dir dir n s" and "spare (Suc k) (cache_of s)" and "0 < len" and "len \<le> MAX_NAME_LEN"
    and "d = fs_block (cache_of s) n" and "e = unat (i_size (inodes s dir)) div 16"
  shows "((\<forall>j \<le> e. \<not> name_eq um len a d (16 * j)) \<longrightarrow>
            (\<exists>t. find_entry dir um a len s = Some (None, t) \<and> fs_block (cache_of t) = fs_block (cache_of s)))
    \<and> (\<forall>j \<le> e. name_eq um len a d (16 * j) \<longrightarrow> (\<forall>i < j. \<not> name_eq um len a d (16 * i)) \<longrightarrow>
            (\<exists>b t. find_entry dir um a len s = Some (Some (b, 16 * j), t) \<and> b_data (fs_buf b t) = d))"
proof -
  have u: "uncached n (cache_of s)" "e < 64" "length d = BLOCK_SIZE" using assms(1,5,6) by (auto simp: one_block_dir_def)
  obtain b c where b: "fs_bread n s = Some (b, s\<lparr>cache_of := c\<rparr>)" "b_data (bufs c b) = fs_block (cache_of s) n"
    "\<exists>c2. brelse b c = Some c2 \<and> spare k c2 \<and> (\<forall>m. uncached m c2 = uncached m (cache_of s))
       \<and> fs_block c2 = fs_block (cache_of s)"
    by (rule fs_access [OF assms(2) u(1)]) (rule that)
  let ?s = "s\<lparr>cache_of := c\<rparr>"
  have d: "b_data (fs_buf b ?s) = d" using b(2) assms(5) by (simp add: fs_buf_def)
  have f: "find_entry dir um a len s = find_entry_loop (e + 1) 0 b (16 * 0) dir um a len ?s"
    using find_entry_unfold [OF assms(1) b(1)] assms(6) by simp
  have miss: "\<exists>t. find_entry dir um a len s = Some (None, t) \<and> fs_block (cache_of t) = fs_block (cache_of s)"
    if "\<forall>j \<le> e. \<not> name_eq um len a d (16 * j)"
  proof -
    have "find_entry_loop (e + 1) 0 b (16 * 0) dir um a len ?s = map_option (\<lambda>t. (None, t)) (fs_brelse b ?s)"
      by (rule find_entry_loop_miss) (use assms(3,4) u that in \<open>simp_all add: d\<close>)
    then show ?thesis using f b(3) by (auto simp: fs_brelse_def)
  qed
  have hit: "find_entry dir um a len s = Some (Some (b, 16 * j), ?s)"
    if "j \<le> e" "name_eq um len a d (16 * j)" "\<forall>i < j. \<not> name_eq um len a d (16 * i)" for j
    unfolding f by (rule find_entry_loop_hit) (use assms(3,4) u that in \<open>simp_all add: d\<close>)
  show ?thesis using miss hit d by blast
qed

subsection \<open>Adding entries\<close>

lemma put_bytes_at:
  assumes "off + length bs \<le> length d"
  shows "\<exists>e. put_bytes off bs d = Some e \<and> length e = length d \<and> (\<forall>i < length bs. e ! (off + i) = bs ! i)
    \<and> (\<forall>i. i < off \<or> off + length bs \<le> i \<longrightarrow> e ! i = d ! i)"
proof -
  let ?e = "take off d @ bs @ drop (off + length bs) d"
  have "?e ! (off + i) = bs ! i" if "i < length bs" for i using assms that by (simp add: nth_append)
  moreover have "?e ! i = d ! i" if "i < off \<or> off + length bs \<le> i" for i
    using assms that by (auto simp: nth_append)
  ultimately show ?thesis using assms by (simp add: put_bytes_def)
qed

lemma word16_cong: "d ! i = e ! i \<Longrightarrow> d ! (i + 1) = e ! (i + 1) \<Longrightarrow> word16 d i = word16 e i"
  by (simp add: word16_def)

lemma word16_bytes16_at: "e ! i = bytes16 w ! 0 \<Longrightarrow> e ! (i + 1) = bytes16 w ! 1 \<Longrightarrow> word16 e i = w"
  using word16_bytes16 [of w "[]"] by (simp add: word16_def)

lemma name_eq_cong:
  assumes "len \<le> MAX_NAME_LEN" and "\<And>i. off \<le> i \<Longrightarrow> i < off + 16 \<Longrightarrow> d ! i = e ! i"
  shows "name_eq um len a d off = name_eq um len a e off"
  using assms by (auto simp: name_eq_def)

text \<open>The bytes of entry \<open>e\<close> after a name of \<open>len\<close> bytes has been stored there.\<close>

definition entry_stored :: "u16 \<Rightarrow> umem \<Rightarrow> nat \<Rightarrow> nat \<Rightarrow> nat \<Rightarrow> u8 list \<Rightarrow> u8 list \<Rightarrow> bool" where
  "entry_stored ino um a len off d e \<longleftrightarrow> length e = length d \<and> word16 e off = ino
     \<and> (\<forall>j < len. e ! (off + 2 + j) = um (a + j)) \<and> (\<forall>i. i < off \<or> off + 2 + len \<le> i \<longrightarrow> e ! i = d ! i)"

lemma add_entry_last:
  assumes "i_size (inodes s dir) \<le> of_nat (i * 16)" and "off < BLOCK_SIZE" and "off + 2 + len \<le> length d"
    and "d = b_data (fs_buf bh s)"
  obtains e where "add_entry_loop i bh off dir um a len ino s = Some ((bh, off),
      upd_inode dir (\<lambda>x. x\<lparr>i_size := i_size x + 16, i_dirty := True\<rparr>) (fs_store bh e s))"
    and "entry_stored ino um a len off d e"
proof -
  obtain d0 where d0: "put_bytes off (bytes16 0) d = Some d0" "length d0 = length d"
    "\<And>i. i < 2 \<Longrightarrow> d0 ! (off + i) = bytes16 0 ! i" "\<And>i. i < off \<or> off + 2 \<le> i \<Longrightarrow> d0 ! i = d ! i"
    using put_bytes_at [of off "bytes16 0" d] assms(3) by auto
  obtain d1 where d1: "put_bytes off (bytes16 ino) d0 = Some d1" "length d1 = length d0"
    "\<And>i. i < 2 \<Longrightarrow> d1 ! (off + i) = bytes16 ino ! i" "\<And>i. i < off \<or> off + 2 \<le> i \<Longrightarrow> d1 ! i = d0 ! i"
    using put_bytes_at [of off "bytes16 ino" d0] assms(3) d0(2) by auto
  have len: "length (user_bytes um a len) = len" by (simp add: user_bytes_def)
  obtain e where e: "put_bytes (off + 2) (user_bytes um a len) d1 = Some e" "length e = length d1"
    "\<And>i. i < len \<Longrightarrow> e ! (off + 2 + i) = user_bytes um a len ! i" "\<And>i. i < off + 2 \<or> off + 2 + len \<le> i \<Longrightarrow> e ! i = d1 ! i"
    using put_bytes_at [of "off + 2" "user_bytes um a len" d1] assms(3) d0(2) d1(2) len by auto
  have z: "word16 d0 off = 0" using d0(3) [of 0] d0(3) [of 1] by (intro word16_bytes16_at) simp_all
  have "word16 e off = ino" using d1(3) [of 0] d1(3) [of 1] e(4) [of off] e(4) [of "off + 1"]
    by (intro word16_bytes16_at) simp_all
  then have "entry_stored ino um a len off d e"
    using d0(2,4) d1(2,4) e(2-4) by (auto simp: entry_stored_def user_bytes_def)
  moreover have "upd_buf bh (\<lambda>h. h\<lparr>b_data := x, b_dirty := True\<rparr>) (upd_buf bh (\<lambda>h. h\<lparr>b_data := y\<rparr>) c)
      = upd_buf bh (\<lambda>h. h\<lparr>b_data := x, b_dirty := True\<rparr>) c" for x y c by (simp add: upd_buf_def)
  then have "add_entry_loop i bh off dir um a len ino s = Some ((bh, off),
      upd_inode dir (\<lambda>x. x\<lparr>i_size := i_size x + 16, i_dirty := True\<rparr>) (fs_store bh e s))"
    using assms(1,2,4) d0(1) d1(1) e(1) z
    by (subst add_entry_loop.simps) (simp add: fs_buf_def fs_store_def replace_data_def upd_inode_def Let_def)
  ultimately show thesis using that by blast
qed

lemma add_entry_loop_run:
  assumes "unat (i_size (inodes s dir)) = 16 * e" and "i \<le> e" and "e < 64" and "0 < len" and "len \<le> MAX_NAME_LEN"
    and "d = b_data (fs_buf bh s)" and "length d = BLOCK_SIZE"
    and "\<And>j. i \<le> j \<Longrightarrow> j < e \<Longrightarrow> word16 d (16 * j) \<noteq> 0"
  shows "add_entry_loop i bh (16 * i) dir um a len ino s = add_entry_loop e bh (16 * e) dir um a len ino s"
  using assms(2,8)
proof (induction "e - i" arbitrary: i)
  case (Suc m)
  then have "i < e" by simp
  then have "add_entry_loop (i + 1) bh (16 * (i + 1)) dir um a len ino s = add_entry_loop e bh (16 * e) dir um a len ino s"
    using Suc by (intro Suc.hyps(1)) auto
  moreover have "unat (of_nat (i * 16) :: u32) = i * 16"
    using \<open>i < e\<close> assms(3) by (simp add: unat_of_nat take_bit_nat_eq_self del: of_nat_mult)
  then have "\<not> i_size (inodes s dir) \<le> of_nat (i * 16)" using \<open>i < e\<close> assms(1) by (simp add: word_le_nat_alt)
  ultimately show ?case
    using Suc.prems(2) [of i] \<open>i < e\<close> assms(3,6) by (subst add_entry_loop.simps) (simp add: add.commute)
qed simp

text \<open>A name added behind the last entry is stored in the block on the disk when its buffer is
  released; the directory is 16 bytes longer.\<close>

lemma add_entry_run:
  assumes "one_block_dir dir n s" and "spare (Suc k) (cache_of s)" and "0 < len" and "len \<le> MAX_NAME_LEN"
    and "d = fs_block (cache_of s) n" and "unat (i_size (inodes s dir)) = 16 * e" and "e < 63"
    and "\<And>j. j < e \<Longrightarrow> word16 d (16 * j) \<noteq> 0"
  obtains b t u d' where "add_entry dir um a len ino s = Some (Some (b, 16 * e), t)" and "fs_brelse b t = Some u"
    and "one_block_dir dir n u" and "unat (i_size (inodes u dir)) = 16 * (e + 1)" and "spare k (cache_of u)"
    and "fs_block (cache_of u) = (fs_block (cache_of s))(n := d')" and "entry_stored ino um a len (16 * e) d d'"
proof -
  from assms(1) obtain w where u: "cell (block_area (inodes s dir)) 0 = Some w" "w \<noteq> 0" "unat w = n"
    "uncached n (cache_of s)" "length d = BLOCK_SIZE" using assms(5) by (auto simp: one_block_dir_def)
  obtain b c where b: "fs_bread n s = Some (b, s\<lparr>cache_of := c\<rparr>)" "b_data (bufs c b) = fs_block (cache_of s) n"
    "\<And>d. \<exists>c2. brelse b (replace_data b d c) = Some c2 \<and> spare k c2
       \<and> (\<forall>m. uncached m c2 = uncached m (cache_of s)) \<and> fs_block c2 = (fs_block (cache_of s))(n := d)"
    by (rule fs_access [OF assms(2) u(4)]) (rule that)
  let ?s = "s\<lparr>cache_of := c\<rparr>" and ?f = "\<lambda>x. x\<lparr>i_size := i_size x + 16, i_dirty := True\<rparr>"
  have d: "d = b_data (fs_buf b ?s)" using b(2) assms(5) by (simp add: fs_buf_def)
  have go: "add_entry_loop 0 b (16 * 0) dir um a len ino ?s = add_entry_loop e b (16 * e) dir um a len ino ?s"
    by (rule add_entry_loop_run [OF _ _ _ assms(3,4) d u(5)]) (use assms(6-8) in auto)
  have at_end: "i_size (inodes ?s dir) \<le> of_nat (e * 16)" "16 * e < BLOCK_SIZE" "16 * e + 2 + len \<le> length d"
    using assms(4,6,7) u(5) by (simp_all add: word_le_nat_alt unat_of_nat take_bit_nat_eq_self del: of_nat_mult)
  obtain d' where d': "add_entry_loop e b (16 * e) dir um a len ino ?s
      = Some ((b, 16 * e), upd_inode dir ?f (fs_store b d' ?s))" "entry_stored ino um a len (16 * e) d d'"
    by (rule add_entry_last [OF at_end d])
  define t where "t = upd_inode dir ?f (fs_store b d' ?s)"
  from b(3) [of d'] obtain c2 where c2: "brelse b (replace_data b d' c) = Some c2" "spare k c2"
    "\<forall>m. uncached m c2 = uncached m (cache_of s)" "fs_block c2 = (fs_block (cache_of s))(n := d')" by auto
  define v where "v = upd_inode dir ?f (s\<lparr>cache_of := c2\<rparr>)"
  have sz: "unat (i_size (inodes v dir)) = 16 * (e + 1)"
    using assms(6,7) by (simp add: v_def unat_word_ariths)
  have "add_entry dir um a len ino s = Some (Some (b, 16 * e), t)"
    using u(1-3) b(1) go d'(1) by (simp add: add_entry_def t_def)
  moreover have "fs_brelse b t = Some v"
    using c2(1) by (simp add: fs_brelse_def t_def v_def fs_store_def upd_inode_def)
  moreover have "one_block_dir dir n v"
    using u(1-4) c2(3,4) sz assms(5,7) d'(2) u(5) by (auto simp: one_block_dir_def v_def entry_stored_def)
  moreover note sz
  moreover have "spare k (cache_of v)" "fs_block (cache_of v) = (fs_block (cache_of s))(n := d')"
    using c2(2,4) by (simp_all add: v_def)
  ultimately show thesis using d'(2) by (rule that)
qed

text \<open>
  C8. A name that is added to a directory is found there: after \<open>add_entry\<close> and the release of
  the buffer, \<open>find_entry\<close> gives the entry at the end of the directory, with the number of
  the inode. (The directory has no free entries, less than 63 entries in one block, and none
  with the name; the bytes behind its last entry are 0.)
\<close>
theorem add_find_entry:
  assumes "one_block_dir dir n s" and "spare (Suc (Suc k)) (cache_of s)" and "0 < len" and "len \<le> MAX_NAME_LEN"
    and "d = fs_block (cache_of s) n" and "unat (i_size (inodes s dir)) = 16 * e" and "e < 63"
    and "\<forall>j < e. word16 d (16 * j) \<noteq> 0 \<and> \<not> name_eq um len a d (16 * j)"
    and "\<forall>j < 14. d ! (16 * e + 2 + j) = 0"
  shows "\<exists>b t u c w. add_entry dir um a len ino s = Some (Some (b, 16 * e), t) \<and> fs_brelse b t = Some u
    \<and> find_entry dir um a len u = Some (Some (c, 16 * e), w) \<and> word16 (b_data (fs_buf c w)) (16 * e) = ino"
proof -
  obtain b t u d' where run: "add_entry dir um a len ino s = Some (Some (b, 16 * e), t)" "fs_brelse b t = Some u"
    "one_block_dir dir n u" "unat (i_size (inodes u dir)) = 16 * (e + 1)" "spare (Suc k) (cache_of u)"
    "fs_block (cache_of u) = (fs_block (cache_of s))(n := d')" "entry_stored ino um a len (16 * e) d d'"
    by (rule add_entry_run [OF assms(1-7)]) (use assms(8) that in blast)+
  have un: "uncached n (cache_of u)" "length d' = BLOCK_SIZE" using run(3,6) by (simp_all add: one_block_dir_def)
  obtain c c1 where c: "fs_bread n u = Some (c, u\<lparr>cache_of := c1\<rparr>)" "b_data (bufs c1 c) = fs_block (cache_of u) n"
    by (rule fs_access [OF run(5) un(1)]) (rule that)
  let ?w = "u\<lparr>cache_of := c1\<rparr>"
  have d: "b_data (fs_buf c ?w) = d'" using c(2) run(6) by (simp add: fs_buf_def)
  have new: "name_eq um len a d' (16 * e)"
    using run(7) assms(9) by (auto simp: name_eq_def entry_stored_def)
  have old: "\<not> name_eq um len a d' (16 * j)" if "j < e" for j
  proof -
    have "name_eq um len a d' (16 * j) = name_eq um len a d (16 * j)"
      by (rule name_eq_cong [OF assms(4)]) (use run(7) that in \<open>simp add: entry_stored_def\<close>)
    then show ?thesis using assms(8) that by simp
  qed
  have "find_entry_loop (e + 1 + 1) 0 c (16 * 0) dir um a len ?w = Some (Some (c, 16 * e), ?w)"
    by (rule find_entry_loop_hit) (use assms(3,4,7) un(2) new old in \<open>simp_all add: d\<close>)
  then have "find_entry dir um a len u = Some (Some (c, 16 * e), ?w)"
    using find_entry_unfold [OF run(3) c(1)] run(4) by (simp del: find_entry_loop.simps)
  moreover have "word16 (b_data (fs_buf c ?w)) (16 * e) = ino" using run(7) d by (simp add: entry_stored_def)
  ultimately show ?thesis using run(1,2) by blast
qed

subsection \<open>Path names\<close>

text \<open>User memory holds the bytes \<open>xs\<close> and a terminating 0 at address \<open>a\<close>.\<close>

definition ustr :: "umem \<Rightarrow> nat \<Rightarrow> u8 list \<Rightarrow> bool" where
  "ustr um a xs \<longleftrightarrow> (\<forall>i < length xs. um (a + i) = xs ! i) \<and> um (a + length xs) = 0"

text \<open>A component of a path: not empty, without slash and 0.\<close>

definition component :: "u8 list \<Rightarrow> bool" where
  "component c \<longleftrightarrow> c \<noteq> [] \<and> 0 \<notin> set c \<and> 0x2f \<notin> set c"

definition path_of :: "u8 list list \<Rightarrow> u8 list" where
  "path_of ws = concat (map (\<lambda>c. 0x2f # c) ws)"

lemma ustr_append: "ustr um a (xs @ ys) \<longleftrightarrow> (\<forall>i < length xs. um (a + i) = xs ! i) \<and> ustr um (a + length xs) ys"
proof -
  have "(\<forall>i < length (xs @ ys). um (a + i) = (xs @ ys) ! i)
    \<longleftrightarrow> (\<forall>i < length xs. um (a + i) = xs ! i) \<and> (\<forall>i < length ys. um (a + length xs + i) = ys ! i)"
    (is "?l \<longleftrightarrow> ?r")
  proof
    assume l: ?l
    have "um (a + length xs + i) = ys ! i" if "i < length ys" for i
      using l [rule_format, of "length xs + i"] that by (simp add: add.assoc)
    moreover have "um (a + i) = xs ! i" if "i < length xs" for i
      using l [rule_format, of i] that by (simp add: nth_append)
    ultimately show ?r by blast
  next
    assume r: ?r
    show ?l
    proof (intro allI impI)
      fix i assume "i < length (xs @ ys)"
      then show "um (a + i) = (xs @ ys) ! i"
        using r [THEN conjunct1, rule_format, of i] r [THEN conjunct2, rule_format, of "i - length xs"]
        by (cases "i < length xs") (auto simp: nth_append)
    qed
  qed
  then show ?thesis by (auto simp: ustr_def add.assoc)
qed

lemma ustr_Cons: "ustr um a (x # xs) \<longleftrightarrow> um a = x \<and> ustr um (a + 1) xs"
  using ustr_append [of um a "[x]" xs] by auto

lemma last_name_skip:
  assumes "\<And>i. i < m \<Longrightarrow> um (p + i) \<noteq> 0 \<and> um (p + i) \<noteq> 0x2f"
  shows "last_name_loop um tmp p = last_name_loop um tmp (p + m)"
  using assms
proof (induction m arbitrary: p)
  case (Suc m)
  have "last_name_loop um tmp p = last_name_loop um tmp (p + 1)"
    using Suc.prems [of 0] by (subst last_name_loop.simps) simp
  also have "\<dots> = last_name_loop um tmp (p + 1 + m)"
    by (rule Suc.IH) (use Suc.prems [of "Suc i" for i] in simp)
  finally show ?case by simp
qed simp

lemma nth_not_in: "x \<notin> set c \<Longrightarrow> i < length c \<Longrightarrow> c ! i \<noteq> x"
  by (metis nth_mem)

lemma component_bytes:
  assumes "component c" and "\<forall>i < length c. um (p + i) = c ! i" and "i < length c"
  shows "um (p + i) \<noteq> 0 \<and> um (p + i) \<noteq> 0x2f"
  using assms by (simp add: component_def nth_not_in)

lemma last_name_components:
  assumes "component c" and "list_all component ws" and "ustr um p (c @ path_of ws)"
  shows "last_name_loop um p p = Some (p + length (c @ path_of ws) - length (last (c # ws)), length (last (c # ws)))"
  using assms
proof (induction ws arbitrary: c p)
  case Nil
  then have c: "\<forall>i < length c. um (p + i) = c ! i" "um (p + length c) = 0" by (simp_all add: path_of_def ustr_def)
  have "last_name_loop um p p = last_name_loop um p (p + length c)"
    by (rule last_name_skip) (rule component_bytes [OF Nil.prems(1) c(1)])
  then show ?case using c(2) by (simp add: path_of_def last_name_loop.simps [of _ _ "p + length c"])
next
  case (Cons c' ws)
  let ?q = "p + length c + 1"
  have path: "path_of (c' # ws) = 0x2f # c' @ path_of ws" by (simp add: path_of_def)
  have u: "\<forall>i < length c. um (p + i) = c ! i" "um (p + length c) = 0x2f" "ustr um ?q (c' @ path_of ws)"
    using Cons.prems(3) unfolding path ustr_append [of um p c] ustr_Cons by auto
  have c': "component c'" "list_all component ws" using Cons.prems(2) by simp_all
  have "um (?q + 0) \<noteq> 0 \<and> um (?q + 0) \<noteq> 0x2f"
    by (rule component_bytes [OF c'(1)]) (use u(3) c'(1) in \<open>auto simp: ustr_append component_def\<close>)
  then have "last_name_loop um ?q ?q = last_name_loop um ?q (?q + 1)" by (intro last_name_skip) simp
  moreover have "last_name_loop um p p = last_name_loop um p (p + length c)"
    by (rule last_name_skip) (rule component_bytes [OF Cons.prems(1) u(1)])
  moreover have "last_name_loop um p (p + length c) = last_name_loop um ?q (?q + 1)"
    using u(2) by (subst last_name_loop.simps) simp
  ultimately show ?case using Cons.IH [OF c' u(3)] by (simp add: path add.assoc)
qed

lemma last_dir_skip:
  assumes "\<And>i. i < m \<Longrightarrow> um (p + i) \<noteq> 0 \<and> um (p + i) \<noteq> 0x2f"
  shows "last_dir_loop um this p len inode s = last_dir_loop um this (p + m) (len + m) inode s"
  using assms
proof (induction m arbitrary: p len)
  case (Suc m)
  have "last_dir_loop um this p len inode s = last_dir_loop um this (p + 1) (len + 1) inode s"
    using Suc.prems [of 0] by (subst last_dir_loop.simps) simp
  also have "\<dots> = last_dir_loop um this (p + 1 + m) (len + 1 + m) inode s"
    by (rule Suc.IH) (use Suc.prems [of "Suc i" for i] in simp)
  finally show ?case by simp
qed simp

text \<open>
  The last component of an absolute path is found: for the path \<open>/c1/c2/../cn\<close> of non-empty
  components, \<open>get_last_name\<close> returns the address and the length of the last one.
\<close>
theorem get_last_name_absolute:
  assumes "ws \<noteq> []" and "list_all component ws" and "ustr um a (path_of ws)"
  shows "get_last_name um a = Some (a + length (path_of ws) - length (last ws), length (last ws))"
proof -
  obtain c ws' where ws: "ws = c # ws'" using assms(1) by (cases ws) auto
  then have "ustr um (a + 1) (c @ path_of ws')" using assms(3) by (simp add: path_of_def ustr_Cons)
  from last_name_components [OF _ _ this] assms(2) ws show ?thesis
    by (simp add: get_last_name_def path_of_def)
qed

text \<open>
  A relative path loses its first byte: for a path that is a single component,
  \<open>get_last_name\<close> returns the component without its first byte.
\<close>
theorem get_last_name_relative:
  assumes "component c" and "ustr um a c"
  shows "get_last_name um a = Some (a + 1, length c - 1)"
proof -
  obtain x c' where c: "c = x # c'" using assms(1) by (cases c) (auto simp: component_def)
  have u: "\<forall>i < length c'. um (a + 1 + i) = c' ! i" "um (a + 1 + length c') = 0"
    using assms(2) c by (auto simp: ustr_Cons ustr_def)
  have "last_name_loop um (a + 1) (a + 1) = last_name_loop um (a + 1) (a + 1 + length c')"
  proof (rule last_name_skip)
    fix i assume "i < length c'"
    then show "um (a + 1 + i) \<noteq> 0 \<and> um (a + 1 + i) \<noteq> 0x2f"
      using u(1) assms(1) c by (simp add: component_def nth_not_in)
  qed
  also have "\<dots> = Some (a + 1, length c')" using u(2) by (subst last_name_loop.simps) simp
  finally show ?thesis using c by (simp add: get_last_name_def)
qed

text \<open>
  The path \<open>/c\<close> names entry \<open>c\<close> of the root directory. No reference to the root is taken,
  although the callers give one up with \<open>iput\<close> when they are done.
\<close>
theorem dir_namei_root:
  assumes "cur_root s = Some r" and "component c" and "ustr um a (0x2f # c)"
  shows "dir_namei um a s = Some (Some r, a + 1, length c, s)"
proof -
  have u: "um a = 0x2f" "\<forall>i < length c. um (a + 1 + i) = c ! i" "um (a + 1 + length c) = 0"
    using assms(3) by (auto simp: ustr_Cons ustr_def)
  have "last_dir_loop um (a + 1) (a + 1) 0 r s = last_dir_loop um (a + 1) (a + 1 + length c) (0 + length c) r s"
    by (rule last_dir_skip) (rule component_bytes [OF assms(2) u(2)])
  also have "\<dots> = Some (Some r, s)" using u(3) by (subst last_dir_loop.simps) simp
  finally have "get_last_dir um a s = Some (Some r, s)" using u(1) assms(1) by (simp add: get_last_dir_def)
  moreover have "last_name_loop um (a + 1) (a + 1) = Some (a + 1, length c)"
    using last_name_components [of c "[]" um "a + 1"] assms(2,3) by (simp add: path_of_def ustr_Cons)
  ultimately show ?thesis by (simp add: dir_namei_def get_last_name_def)
qed

subsection \<open>Witnesses\<close>

definition str_mem :: "u8 list \<Rightarrow> umem" where
  "str_mem xs = (\<lambda>i. if i < length xs then xs ! i else 0)"

lemma ustr_str_mem: "ustr (str_mem xs) 0 xs"
  by (simp add: ustr_def str_mem_def)

text \<open>Inode 2 as an empty directory.\<close>

definition dir_fs :: fs_state where
  "dir_fs = upd_inode 2 (\<lambda>x. x\<lparr>i_size := 0\<rparr>) two_inodes"

lemma dir_fs_ok: "one_block_dir 2 10 dir_fs" "spare 2 (cache_of dir_fs)" "fs_block (cache_of dir_fs) 10 = replicate 1024 0"
  "i_size (inodes dir_fs 2) = 0"
  by (simp_all add: one_block_dir_def dir_fs_def two_inodes_simps)

theorem find_entry_first_witness:
  "\<exists>t. find_entry 2 (str_mem [0x61]) 0 1 dir_fs = Some (None, t) \<and> fs_block (cache_of t) = fs_block (cache_of dir_fs)"
proof -
  have s: "spare (Suc 1) (cache_of dir_fs)" using dir_fs_ok(2) by (simp add: numeral_2_eq_2)
  have "\<not> name_eq (str_mem [0x61]) 1 0 (fs_block (cache_of dir_fs) 10) (16 * 0)"
    by (simp add: dir_fs_ok(3) name_eq_def str_mem_def)
  then show ?thesis
    using find_entry_first [OF dir_fs_ok(1) s, of 1 "fs_block (cache_of dir_fs) 10" 0 "str_mem [0x61]" 0] dir_fs_ok(4)
    by simp
qed

theorem add_find_entry_witness:
  "\<exists>b t u c w. add_entry 2 (str_mem [0x61]) 0 1 7 dir_fs = Some (Some (b, 0), t) \<and> fs_brelse b t = Some u
    \<and> find_entry 2 (str_mem [0x61]) 0 1 u = Some (Some (c, 0), w) \<and> word16 (b_data (fs_buf c w)) 0 = 7"
  using add_find_entry [of 2 10 dir_fs 0 1 "replicate 1024 0" 0 "str_mem [0x61]" 0 7] dir_fs_ok
  by (simp add: numeral_2_eq_2)

theorem get_last_name_absolute_witness:
  "get_last_name (str_mem (path_of [[0x75, 0x73], [0x62]])) 0 = Some (4, 1)"
  using get_last_name_absolute [OF _ _ ustr_str_mem, of "[[0x75, 0x73], [0x62]]"]
  by (simp add: component_def) (simp add: path_of_def)

theorem get_last_name_relative_witness: "get_last_name (str_mem [0x62, 0x63]) 0 = Some (1, 1)"
  using get_last_name_relative [OF _ ustr_str_mem, of "[0x62, 0x63]"] by (simp add: component_def)

theorem dir_namei_root_witness:
  "dir_namei (str_mem [0x2f, 0x62]) 0 (dir_fs\<lparr>cur_root := Some 2\<rparr>) = Some (Some 2, 1, 1, dir_fs\<lparr>cur_root := Some 2\<rparr>)"
  using dir_namei_root [OF _ _ ustr_str_mem, of "dir_fs\<lparr>cur_root := Some 2\<rparr>" 2 "[0x62]"] by (simp add: component_def)

end
