(* ===== verification/Fs_File.thy ===== *)
theory Fs_File
  imports Fs_Name
begin

unbundle bit_operations_syntax

section \<open>Files\<close>

text \<open>
  Models fs/file_table.c, fs/file_dev.c, fs/block_dev.c, fs/sys_file.c and \<open>fs_init\<close> of
  fs/super.c. The state adds the open files and the memory of the calling process to the
  state of the file system. The files are objects of a slab, like the inodes;
  \<open>slab_obj_num\<close> is the number of files in one of its slabs.
\<close>

abbreviation NR_FILE :: nat where "NR_FILE \<equiv> 64"
abbreviation FILE_BLK :: u16 where "FILE_BLK \<equiv> 0x6000"
abbreviation FILE_NORMAL :: u16 where "FILE_NORMAL \<equiv> 0x8000"

record open_file =
  f_used :: u16
  f_mode :: u16
  f_inode :: iptr
  f_next :: "nat option"
  f_prev :: "nat option"
  f_pos :: u32

record vfs =
  fs :: fs_state
  user :: umem
  files :: "nat \<Rightarrow> open_file"
  first_file :: "nat option"
  nr_files :: nat
  file_pool :: obj_pool
  slab_obj_num :: nat
  filps :: "nat option list"

definition upd_file :: "nat \<Rightarrow> (open_file \<Rightarrow> open_file) \<Rightarrow> vfs \<Rightarrow> vfs" where
  "upd_file f g v = v\<lparr>files := (files v)(f := g (files v f))\<rparr>"

definition fs_init :: "vfs \<Rightarrow> vfs" where
  "fs_init v = v\<lparr>first_file := None, nr_files := 0, fs := (fs v)\<lparr>head_cachep := None\<rparr>\<rparr>"

subsection \<open>The file table\<close>

definition grow_files :: "vfs \<Rightarrow> vfs option" where
  "grow_files v = do {
     (q, pool) \<leftarrow> obj_alloc (file_pool v);
     f \<leftarrow> q;
     let v = v\<lparr>file_pool := pool\<rparr>;
     v \<leftarrow> (case first_file v of
             None \<Rightarrow> Some (upd_file f (\<lambda>x. x\<lparr>f_next := Some f, f_prev := Some f\<rparr>) (v\<lparr>first_file := Some f\<rparr>))
           | Some h \<Rightarrow> do {
               l \<leftarrow> f_prev (files v h);
               let v = upd_file l (\<lambda>x. x\<lparr>f_next := Some f\<rparr>) v;
               let v = upd_file f (\<lambda>x. x\<lparr>f_prev := f_prev (files v h), f_next := Some h\<rparr>) v;
               Some (upd_file h (\<lambda>x. x\<lparr>f_prev := Some f\<rparr>) v) });
     Some (v\<lparr>nr_files := nr_files v + slab_obj_num v\<rparr>) }"

definition zero_file :: open_file where
  "zero_file = \<lparr>f_used = 0, f_mode = 0, f_inode = INull, f_next = None, f_prev = None, f_pos = 0\<rparr>"

text \<open>The loop over the files does not advance: it looks at the first file only.\<close>

partial_function (option) empty_filp_loop :: "nat \<Rightarrow> vfs \<Rightarrow> (nat option \<times> vfs) option" where
  "empty_filp_loop f v =
     (if 0 < nr_files v \<and> f_used (files v f) = 0
      then do {
        l \<leftarrow> f_prev (files v f);
        let v = upd_file l (\<lambda>x. x\<lparr>f_next := f_next (files v f)\<rparr>) v;
        n \<leftarrow> f_next (files v f);
        let v = upd_file n (\<lambda>x. x\<lparr>f_prev := f_prev (files v f)\<rparr>) v;
        Some (Some f, upd_file f (\<lambda>_. zero_file\<lparr>f_used := 1\<rparr>) v) }
      else if nr_files v < NR_FILE
      then Option.bind (grow_files v) (\<lambda>v. empty_filp_loop f v)
      else Some (None, v))"

definition get_empty_filp :: "vfs \<Rightarrow> (nat option \<times> vfs) option" where
  "get_empty_filp v = do {
     v \<leftarrow> (if first_file v = None then grow_files v else Some v);
     f \<leftarrow> first_file v;
     empty_filp_loop f v }"

subsection \<open>Reading and writing\<close>

text \<open>\<open>put_fs_byte\<close> for a sequence of bytes.\<close>

definition put_user :: "nat \<Rightarrow> u8 list \<Rightarrow> umem \<Rightarrow> umem" where
  "put_user a bs um = (\<lambda>i. if a \<le> i \<and> i < a + length bs then bs ! (i - a) else um i)"

text \<open>A part of a block.\<close>

definition span :: "nat \<Rightarrow> nat \<Rightarrow> u8 list \<Rightarrow> u8 list" where
  "span off n d = take n (drop off d)"

text \<open>When \<open>bmap\<close> finds no block, the buffer of the round before is used, at first the null
  pointer.\<close>

partial_function (option) file_read_loop :: "nat \<Rightarrow> nat \<Rightarrow> nat \<Rightarrow> nat \<Rightarrow> nat option \<Rightarrow> nat \<Rightarrow> umem \<Rightarrow> fs_state
    \<Rightarrow> (umem \<times> fs_state) option" where
  "file_read_loop p block_index offset count bh buf um s =
     (if count = 0 then Some (um, s)
      else let chars = min (BLOCK_SIZE - offset) count in
        Option.bind (bmap p (int block_index) s) (\<lambda>(block, s).
        Option.bind (if block \<noteq> 0 then map_option (\<lambda>(b, s). (Some b, s)) (fs_bread (unat block) s) else Some (bh, s))
          (\<lambda>(bh, s).
        Option.bind bh (\<lambda>b.
          let um = put_user buf (span offset chars (b_data (fs_buf b s))) um in
          Option.bind (fs_brelse b s) (\<lambda>s.
            file_read_loop p (block_index + 1) 0 (count - chars) (Some b) (buf + chars) um s)))))"

definition file_read :: "nat \<Rightarrow> nat \<Rightarrow> nat \<Rightarrow> nat \<Rightarrow> vfs \<Rightarrow> (int \<times> vfs) option" where
  "file_read p f buf count v = do {
     let pos = unat (f_pos (files v f));
     (um, s) \<leftarrow> file_read_loop p (pos div BLOCK_SIZE) (pos mod BLOCK_SIZE) count None buf (user v) (fs v);
     let v = v\<lparr>user := um, fs := s\<rparr>;
     Some (int count, upd_file f (\<lambda>x. x\<lparr>f_pos := f_pos x + of_nat count\<rparr>) v) }"

text \<open>The buffers are not released. The position is a signed number, the comparison with the size
  is unsigned.\<close>

partial_function (option) file_write_loop :: "nat \<Rightarrow> int \<Rightarrow> nat \<Rightarrow> nat \<Rightarrow> nat \<Rightarrow> umem \<Rightarrow> fs_state \<Rightarrow> fs_state option" where
  "file_write_loop p pos offset count buf um s =
     (if count = 0 then Some s
      else let chars = min (BLOCK_SIZE - offset) count;
               block_index = (if pos < 0 then - ((- pos) div 1024) else pos div 1024) in
        Option.bind (bmap p block_index s) (\<lambda>(block, s).
        Option.bind (if block = 0 then create_block p block_index s else Some (block, s)) (\<lambda>(block, s).
        Option.bind (fs_bread (unat block) s) (\<lambda>(b, s).
          let pos = pos + int chars;
              s = (if (of_int pos :: u32) > i_size (inodes s p)
                   then upd_inode p (\<lambda>x. x\<lparr>i_size := of_int pos, i_dirty := True\<rparr>) s else s) in
          Option.bind (put_bytes offset (user_bytes um buf chars) (b_data (fs_buf b s))) (\<lambda>d.
            file_write_loop p pos 0 (count - chars) (buf + chars) um (fs_store b d s))))))"

definition file_write :: "nat \<Rightarrow> nat \<Rightarrow> nat \<Rightarrow> vfs \<Rightarrow> (int \<times> vfs) option" where
  "file_write p buf count v = do {
     let size = i_size (inodes (fs v) p);
     s \<leftarrow> file_write_loop p (sint size) (unat size mod BLOCK_SIZE) count buf (user v) (fs v);
     Some (int count, v\<lparr>fs := s\<rparr>) }"

partial_function (option) block_write_loop :: "nat \<Rightarrow> nat \<Rightarrow> nat \<Rightarrow> nat \<Rightarrow> umem \<Rightarrow> fs_state \<Rightarrow> fs_state option" where
  "block_write_loop block offset count buf um s =
     (if count = 0 then Some s
      else let chars = min (BLOCK_SIZE - offset) count in
        Option.bind (fs_bread block s) (\<lambda>(b, s).
        Option.bind (put_bytes offset (user_bytes um buf chars) (b_data (fs_buf b s))) (\<lambda>d.
          block_write_loop (block + 1) 0 (count - chars) (buf + chars) um (fs_store b d s))))"

definition block_write :: "nat \<Rightarrow> nat \<Rightarrow> nat \<Rightarrow> vfs \<Rightarrow> (int \<times> vfs) option" where
  "block_write f buf count v = do {
     let pos = unat (f_pos (files v f));
     s \<leftarrow> block_write_loop (pos div BLOCK_SIZE) (pos mod BLOCK_SIZE) count buf (user v) (fs v);
     Some (int count, upd_file f (\<lambda>x. x\<lparr>f_pos := f_pos x + of_nat count\<rparr>) (v\<lparr>fs := s\<rparr>)) }"

partial_function (option) block_read_loop :: "nat \<Rightarrow> nat \<Rightarrow> nat \<Rightarrow> nat \<Rightarrow> umem \<Rightarrow> fs_state \<Rightarrow> (umem \<times> fs_state) option" where
  "block_read_loop block offset count buf um s =
     (if count = 0 then Some (um, s)
      else let chars = min (BLOCK_SIZE - offset) count in
        Option.bind (fs_bread block s) (\<lambda>(b, s).
          block_read_loop (block + 1) 0 (count - chars) (buf + chars)
            (put_user buf (span offset chars (b_data (fs_buf b s))) um) s))"

definition block_read :: "nat \<Rightarrow> nat \<Rightarrow> nat \<Rightarrow> vfs \<Rightarrow> (int \<times> vfs) option" where
  "block_read f buf count v = do {
     let pos = unat (f_pos (files v f));
     (um, s) \<leftarrow> block_read_loop (pos div BLOCK_SIZE) (pos mod BLOCK_SIZE) count buf (user v) (fs v);
     let v = v\<lparr>user := um, fs := s\<rparr>;
     Some (int count, upd_file f (\<lambda>x. x\<lparr>f_pos := f_pos x + of_nat count\<rparr>) v) }"

subsection \<open>System calls\<close>

definition inode_at :: "iptr \<Rightarrow> nat option" where
  "inode_at q = (case q of IPtr p \<Rightarrow> Some p | _ \<Rightarrow> None)"

text \<open>\<open>iput\<close> of what a function returned: the number -1 is not a pointer.\<close>

definition iput_ptr :: "iptr \<Rightarrow> fs_state \<Rightarrow> fs_state option" where
  "iput_ptr q s = (case q of INull \<Rightarrow> iput None s | IPtr p \<Rightarrow> iput (Some p) s | IMinusOne \<Rightarrow> None)"

definition do_open :: "nat \<Rightarrow> u16 \<Rightarrow> u32 \<Rightarrow> vfs \<Rightarrow> (int \<times> vfs) option" where
  "do_open filename mode flags v = do {
     let fd = (case find_from (\<lambda>q. q = None) (take NR_FILE (filps v)) 0 of Some i \<Rightarrow> i | None \<Rightarrow> NR_FILE);
     (f, v) \<leftarrow> get_empty_filp v;
     case f of
       None \<Rightarrow> Some (-1, v)
     | Some f \<Rightarrow> do {
         (q, s) \<leftarrow> open_and_create (user v) filename mode flags (fs v);
         fps \<leftarrow> put_cell fd (Some f) (filps v);
         let v = upd_file f (\<lambda>x. x\<lparr>f_inode := q, f_mode := mode, f_pos := 0, f_used := 1\<rparr>) (v\<lparr>fs := s, filps := fps\<rparr>);
         s \<leftarrow> iput_ptr q (fs v);
         Some (int fd, v\<lparr>fs := s\<rparr>) } }"

definition do_create :: "nat \<Rightarrow> u32 \<Rightarrow> vfs \<Rightarrow> (int \<times> vfs) option" where
  "do_create pathname flags v = do_open pathname (FILE_NORMAL OR 0x1ff) flags v"

definition do_close :: "nat \<Rightarrow> vfs \<Rightarrow> (int \<times> vfs) option" where
  "do_close fd v = do {
     q \<leftarrow> cell (filps v) fd;
     case q of
       None \<Rightarrow> Some (-1, v)
     | Some f \<Rightarrow> do {
         let v = upd_file f (\<lambda>x. x\<lparr>f_used := f_used x - 1\<rparr>) (v\<lparr>filps := (filps v)[fd := None]\<rparr>);
         if f_used (files v f) \<noteq> 0 then Some (0, v)
         else do {
           s \<leftarrow> iput_ptr (f_inode (files v f)) (fs v);
           Some (1, v\<lparr>fs := s\<rparr>) } } }"

definition do_lseek :: "nat \<Rightarrow> u32 \<Rightarrow> u32 \<Rightarrow> vfs \<Rightarrow> (int \<times> vfs) option" where
  "do_lseek fd off origin v = do {
     q \<leftarrow> cell (filps v) fd;
     case q of
       None \<Rightarrow> Some (0, v)
     | Some f \<Rightarrow>
         if origin = 2 then let v = upd_file f (\<lambda>x. x\<lparr>f_pos := f_pos x + off\<rparr>) v in Some (sint (f_pos (files v f)), v)
         else if origin = 1 then do {
           p \<leftarrow> inode_at (f_inode (files v f));
           let v = upd_file f (\<lambda>x. x\<lparr>f_pos := i_size (inodes (fs v) p) + off\<rparr>) v;
           Some (sint (f_pos (files v f)), v) }
         else if origin = 0 then let v = upd_file f (\<lambda>x. x\<lparr>f_pos := off\<rparr>) v in Some (sint (f_pos (files v f)), v)
         else Some (-1, v) }"

text \<open>A negative count reads or writes nothing.\<close>

definition do_read :: "nat \<Rightarrow> nat \<Rightarrow> u32 \<Rightarrow> vfs \<Rightarrow> (int \<times> vfs) option" where
  "do_read fd buf count v = do {
     q \<leftarrow> cell (filps v) fd;
     case q of
       None \<Rightarrow> Some (0, v)
     | Some f \<Rightarrow> do {
         p \<leftarrow> inode_at (f_inode (files v f));
         let x = inodes (fs v) p;
         let pos = f_pos (files v f);
         if i_mode x AND FILE_BLK \<noteq> 0 then block_read f buf (nat (sint count)) v
         else if i_mode x AND FILE_DIR \<noteq> 0 \<or> i_mode x AND FILE_NORMAL \<noteq> 0
         then do {
           let count = (if count + pos > i_size x then i_size x - pos else count);
           if sint count \<le> 0 then Some (0, v) else file_read p f buf (nat (sint count)) v }
         else Some (-1, v) } }"

definition do_write :: "nat \<Rightarrow> nat \<Rightarrow> u32 \<Rightarrow> vfs \<Rightarrow> (int \<times> vfs) option" where
  "do_write fd buf count v = do {
     q \<leftarrow> cell (filps v) fd;
     case q of
       None \<Rightarrow> Some (0, v)
     | Some f \<Rightarrow> do {
         p \<leftarrow> inode_at (f_inode (files v f));
         v \<leftarrow> (if i_mode (inodes (fs v) p) AND FILE_BLK \<noteq> 0
               then map_option snd (block_write f buf (nat (sint count)) v) else Some v);
         let x = inodes (fs v) p;
         if i_mode x AND FILE_DIR \<noteq> 0 \<or> i_mode x AND FILE_NORMAL \<noteq> 0
         then file_write p buf (nat (sint count)) v
         else Some (-1, v) } }"


subsection \<open>Reading a file\<close>

text \<open>The specification: byte \<open>i\<close> of a file on the disk.\<close>

definition file_byte :: "bcache \<Rightarrow> m_inode \<Rightarrow> nat \<Rightarrow> u8" where
  "file_byte c x i = fs_block c (unat (file_block c x (i div BLOCK_SIZE))) ! (i mod BLOCK_SIZE)"

text \<open>Block \<open>j\<close> of the file exists, and the blocks to reach it can be fetched.\<close>

definition readable :: "bcache \<Rightarrow> m_inode \<Rightarrow> nat \<Rightarrow> bool" where
  "readable c x j \<longleftrightarrow> j < 7 + 512 * 512 \<and> file_block c x j \<noteq> 0 \<and> uncached (unat (file_block c x j)) c
     \<and> (\<forall>n \<in> set (map_path c x j). uncached n c) \<and> length (fs_block c (unat (file_block c x j))) = BLOCK_SIZE"

lemma file_block_cong:
  assumes "fs_block c = fs_block c'"
  shows "file_block c = file_block c'" "map_path c = map_path c'" "file_byte c = file_byte c'"
proof -
  have w: "disk_word c = disk_word c'" using assms by (simp add: fun_eq_iff disk_word_def)
  then show "file_block c = file_block c'" by (simp add: fun_eq_iff file_block_eq)
  then show "file_byte c = file_byte c'" using assms by (simp add: fun_eq_iff file_byte_def)
  show "map_path c = map_path c'" using w by (simp add: fun_eq_iff map_path_def)
qed

lemma readable_cong:
  assumes "fs_block c = fs_block c'" and "\<forall>m. uncached m c = uncached m c'"
  shows "readable c x j = readable c' x j"
  using assms file_block_cong [OF assms(1)] by (simp add: readable_def)

text \<open>One round of the loop.\<close>

lemma file_read_round:
  assumes "length (block_area (inodes s p)) = 9" and "readable (cache_of s) (inodes s p) j"
    and "spare (Suc (Suc (Suc k))) (cache_of s)" and "count \<noteq> 0" and "chars = min (BLOCK_SIZE - off) count"
  obtains b c where "file_read_loop p j off count bh buf um s = file_read_loop p (j + 1) 0 (count - chars) (Some b) (buf + chars)
       (put_user buf (span off chars (fs_block (cache_of s) (unat (file_block (cache_of s) (inodes s p) j)))) um)
       (s\<lparr>cache_of := c\<rparr>)"
    and "spare k c" and "\<forall>m. uncached m c = uncached m (cache_of s)" and "fs_block c = fs_block (cache_of s)"
proof -
  let ?c = "cache_of s" and ?n = "file_block (cache_of s) (inodes s p) j"
  have r: "j < 7 + 512 * 512" "?n \<noteq> 0" "uncached (unat ?n) ?c" "\<forall>n \<in> set (map_path ?c (inodes s p) j). uncached n ?c"
    using assms(2) by (simp_all add: readable_def)
  obtain c1 where c1: "bmap p (int j) s = Some (?n, s\<lparr>cache_of := c1\<rparr>)" "spare (Suc k) c1"
    "\<forall>m. uncached m c1 = uncached m ?c" "fs_block c1 = fs_block ?c"
    by (rule bmap_run [OF assms(1) r(1) assms(3) r(4)])
  let ?s = "s\<lparr>cache_of := c1\<rparr>"
  have "spare (Suc k) (cache_of ?s)" "uncached (unat ?n) (cache_of ?s)" using c1(2,3) r(3) by simp_all
  then obtain b c2 where b: "fs_bread (unat ?n) ?s = Some (b, ?s\<lparr>cache_of := c2\<rparr>)"
    "b_data (bufs c2 b) = fs_block (cache_of ?s) (unat ?n)"
    "\<exists>c3. brelse b c2 = Some c3 \<and> spare k c3 \<and> (\<forall>m. uncached m c3 = uncached m (cache_of ?s))
       \<and> fs_block c3 = fs_block (cache_of ?s)"
    by (rule fs_access) (rule that)
  from b(3) obtain c3 where c3: "brelse b c2 = Some c3" "spare k c3"
    "\<forall>m. uncached m c3 = uncached m ?c" "fs_block c3 = fs_block ?c" using c1(3,4) by auto
  have "file_read_loop p j off count bh buf um s = file_read_loop p (j + 1) 0 (count - chars) (Some b) (buf + chars)
       (put_user buf (span off chars (fs_block ?c (unat ?n))) um) (s\<lparr>cache_of := c3\<rparr>)"
    using assms(4,5) c1(1,4) r(2) b(1,2) c3(1)
    by (subst file_read_loop.simps) (simp add: Let_def fs_brelse_def fs_buf_def)
  from that [OF this c3(2-4)] show thesis .
qed

lemma put_user_split:
  assumes "off + chars \<le> length d" and "chars \<le> count" and "length d = BLOCK_SIZE"
    and "\<And>i. off \<le> i \<Longrightarrow> i < off + chars \<Longrightarrow> d ! i = g (j * BLOCK_SIZE + i)"
    and "chars < count \<Longrightarrow> off + chars = BLOCK_SIZE"
  shows "(\<lambda>i. if buf + chars \<le> i \<and> i < buf + chars + (count - chars) then g ((j + 1) * BLOCK_SIZE + 0 + (i - (buf + chars)))
            else put_user buf (span off chars d) um i)
     = (\<lambda>i. if buf \<le> i \<and> i < buf + count then g (j * BLOCK_SIZE + off + (i - buf)) else um i)" (is "?l = ?r")
proof
  fix i
  have len: "length (span off chars d) = chars" using assms(1) by (simp add: span_def)
  consider "i < buf \<or> buf + count \<le> i" | "buf \<le> i" "i < buf + chars" | "buf + chars \<le> i" "i < buf + count" by linarith
  then show "?l i = ?r i"
  proof cases
    case 1
    then show ?thesis using assms(2) by (auto simp: put_user_def len)
  next
    case 2
    then have "span off chars d ! (i - buf) = d ! (off + (i - buf))" using assms(1) by (simp add: span_def)
    also have "\<dots> = g (j * BLOCK_SIZE + (off + (i - buf)))" using 2 by (intro assms(4)) auto
    finally show ?thesis using 2 assms(2) by (simp add: put_user_def len add.assoc)
  next
    case 3
    then have "off + chars = BLOCK_SIZE" using assms(5) by linarith
    then have "(j + 1) * BLOCK_SIZE + 0 + (i - (buf + chars)) = j * BLOCK_SIZE + off + (i - buf)" using 3 by (simp add: algebra_simps)
    then show ?thesis using 3 assms(2) by simp
  qed
qed

lemma file_read_loop_run:
  assumes "length (block_area (inodes s p)) = 9" and "\<And>i. i < n \<Longrightarrow> readable (cache_of s) (inodes s p) (j + i)"
    and "spare (3 * n + k) (cache_of s)" and "off + count \<le> n * BLOCK_SIZE" and "off < BLOCK_SIZE"
  shows "\<exists>c. file_read_loop p j off count bh buf um s
      = Some (\<lambda>i. if buf \<le> i \<and> i < buf + count then file_byte (cache_of s) (inodes s p) (j * BLOCK_SIZE + off + (i - buf))
                   else um i, s\<lparr>cache_of := c\<rparr>)
    \<and> fs_block c = fs_block (cache_of s) \<and> spare k c"
  using assms
proof (induction n arbitrary: s j off count bh buf um)
  case 0
  then show ?case by (subst file_read_loop.simps) (auto intro!: exI [of _ "cache_of s"] ext)
next
  case (Suc n)
  let ?c = "cache_of s" and ?x = "inodes s p"
  show ?case
  proof (cases "count = 0")
    case True
    then show ?thesis using Suc.prems(3) spare_mono [of "3 * Suc n + k" ?c k]
      by (subst file_read_loop.simps) (auto intro!: exI [of _ ?c] ext)
  next
    case False
    define chars where "chars = min (BLOCK_SIZE - off) count"
    let ?d = "fs_block ?c (unat (file_block ?c ?x j))"
    have j: "readable ?c ?x j" "spare (Suc (Suc (Suc (3 * n + k)))) ?c"
      using Suc.prems(2) [of 0] Suc.prems(3) by (simp_all add: numeral_3_eq_3)
    obtain b c where c: "file_read_loop p j off count bh buf um s = file_read_loop p (j + 1) 0 (count - chars) (Some b)
       (buf + chars) (put_user buf (span off chars ?d) um) (s\<lparr>cache_of := c\<rparr>)"
      "spare (3 * n + k) c" "\<forall>m. uncached m c = uncached m ?c" "fs_block c = fs_block ?c"
      by (rule file_read_round [OF Suc.prems(1) j False chars_def])
    let ?s = "s\<lparr>cache_of := c\<rparr>"
    have "readable (cache_of ?s) (inodes ?s p) (j + 1 + i)" if "i < n" for i
      using Suc.prems(2) [of "Suc i"] that readable_cong [OF c(4,3)] by simp
    moreover have "length (block_area (inodes ?s p)) = 9" "spare (3 * n + k) (cache_of ?s)"
      "0 + (count - chars) \<le> n * BLOCK_SIZE" "0 < BLOCK_SIZE"
      using Suc.prems(1,4,5) c(2) by (simp_all add: chars_def)
    ultimately obtain e where e: "file_read_loop p (j + 1) 0 (count - chars) (Some b) (buf + chars)
          (put_user buf (span off chars ?d) um) ?s
        = Some (\<lambda>i. if buf + chars \<le> i \<and> i < buf + chars + (count - chars)
            then file_byte (cache_of ?s) (inodes ?s p) ((j + 1) * BLOCK_SIZE + 0 + (i - (buf + chars)))
            else put_user buf (span off chars ?d) um i, ?s\<lparr>cache_of := e\<rparr>)"
      "fs_block e = fs_block (cache_of ?s)" "spare k e"
      using Suc.IH [of ?s "j + 1" 0 "count - chars" "Some b" "buf + chars" "put_user buf (span off chars ?d) um"] by blast
    have fb: "file_byte (cache_of ?s) (inodes ?s p) = file_byte ?c ?x" using file_block_cong(3) [OF c(4)] by simp
    have "length ?d = BLOCK_SIZE" using j(1) by (simp add: readable_def)
    moreover have "?d ! i = file_byte ?c ?x (j * BLOCK_SIZE + i)" if "i < BLOCK_SIZE" for i
      using that by (simp add: file_byte_def)
    ultimately have um: "(\<lambda>i. if buf + chars \<le> i \<and> i < buf + chars + (count - chars)
            then file_byte ?c ?x ((j + 1) * BLOCK_SIZE + 0 + (i - (buf + chars)))
            else put_user buf (span off chars ?d) um i)
        = (\<lambda>i. if buf \<le> i \<and> i < buf + count then file_byte ?c ?x (j * BLOCK_SIZE + off + (i - buf)) else um i)"
      using Suc.prems(5) by (intro put_user_split) (auto simp: chars_def)
    from e(1) have "file_read_loop p j off count bh buf um s = Some (\<lambda>i. if buf \<le> i \<and> i < buf + count
        then file_byte ?c ?x (j * BLOCK_SIZE + off + (i - buf)) else um i, ?s\<lparr>cache_of := e\<rparr>)"
      unfolding fb um c(1) .
    then show ?thesis using c(4) e(2,3) by auto
  qed
qed

lemma file_read_run:
  assumes "length (block_area (inodes (fs v) p)) = 9" and "pos = unat (f_pos (files v f))"
    and "\<forall>i < n. readable (cache_of (fs v)) (inodes (fs v) p) (pos div BLOCK_SIZE + i)"
    and "spare (3 * n) (cache_of (fs v))" and "pos mod BLOCK_SIZE + count \<le> n * BLOCK_SIZE"
  obtains t where "file_read p f buf count v = Some (int count, t)"
    and "user t = (\<lambda>i. if buf \<le> i \<and> i < buf + count then file_byte (cache_of (fs v)) (inodes (fs v) p) (pos + (i - buf))
                       else user v i)"
    and "fs_block (cache_of (fs t)) = fs_block (cache_of (fs v))" and "f_pos (files t f) = f_pos (files v f) + of_nat count"
proof -
  define um where "um = (\<lambda>i. if buf \<le> i \<and> i < buf + count
     then file_byte (cache_of (fs v)) (inodes (fs v) p) (pos + (i - buf)) else user v i)"
  have "pos mod BLOCK_SIZE < BLOCK_SIZE" by simp
  with assms obtain c where "file_read_loop p (pos div BLOCK_SIZE) (pos mod BLOCK_SIZE) count None buf (user v) (fs v)
      = Some (um, (fs v)\<lparr>cache_of := c\<rparr>)" "fs_block c = fs_block (cache_of (fs v))"
    using file_read_loop_run [of "fs v" p n "pos div BLOCK_SIZE" 0 "pos mod BLOCK_SIZE" count None buf "user v"]
    unfolding um_def by (auto simp only: div_mult_mod_eq add_0_right)
  then show thesis
    using assms(2) um_def
    by (intro that [of "upd_file f (\<lambda>x. x\<lparr>f_pos := f_pos x + of_nat count\<rparr>) (v\<lparr>user := um, fs := (fs v)\<lparr>cache_of := c\<rparr>\<rparr>)"])
      (simp_all add: file_read_def Let_def upd_file_def)
qed


subsection \<open>Writing a file\<close>

lemma fs_bread_held:
  assumes "spare (Suc k) (cache_of s)" and "uncached n (cache_of s)"
  obtains b c where "fs_bread n s = Some (b, s\<lparr>cache_of := c\<rparr>)" and "b_data (bufs c b) = fs_block (cache_of s) n"
    and "held b (n + NR_FS_START) c" and "disk c = disk (cache_of s)"
proof -
  let ?c = "cache_of s" and ?n = "n + NR_FS_START"
  obtain h x fl where fl: "cache_ok ?c (h # x # fl)" using assms(1) by (rule spare_Suc)
  from assms(2) have u: "active_hash_table ?c (?n mod BUFFER_HASH_NO) = None" "?n < 65536" by (simp_all add: uncached_def)
  from alloc_buffer_fresh [OF fl u] obtain t where t: "alloc_buffer ?n ?c = Some (h, t)" "disk t = disk ?c" "held h ?n t"
    by (auto simp: held_def)
  let ?t = "upd_buf h (\<lambda>b. b\<lparr>b_data := disk ?c ?n\<rparr>) t"
  have "fs_bread n s = Some (h, s\<lparr>cache_of := ?t\<rparr>)" "held h ?n ?t"
    using t by (simp_all add: fs_bread_def on_cache_def bread_block_def transfer_block_def upd_buf_def held_def)
  then show thesis using t(2) by (intro that [of h ?t]) (simp_all add: fs_block_def)
qed

text \<open>Reading a block that is in the cache reads it from the disk once more.\<close>

lemma bread_again:
  assumes "held b (n + NR_FS_START) c" and "n + NR_FS_START < 65536"
  shows "bread_block n (replace_data b d c) = Some (b, upd_buf b (\<lambda>h. h\<lparr>b_count := 2, b_data := fs_block c n\<rparr>) (replace_data b d c))"
proof -
  let ?c = "replace_data b d c" and ?n = "n + NR_FS_START"
  have h: "active_hash_table ?c (?n mod BUFFER_HASH_NO) = Some b" "b_block (bufs ?c b) = ?n" "b_lock (bufs ?c b) = 0"
    "b_count (bufs ?c b) = 1" "disk ?c = disk c"
    using assms(1) by (simp_all add: held_def replace_data_def)
  then have "get_hash_buffer ?n ?c = Some (Some b, upd_buf b (\<lambda>h. h\<lparr>b_count := 2\<rparr>) ?c)"
    using assms(2) by (simp add: get_hash_buffer_def chain_find.simps Let_def upd_buf_def)
  then have "alloc_buffer ?n ?c = Some (b, upd_buf b (\<lambda>h. h\<lparr>b_count := 2\<rparr>) ?c)"
    by (subst alloc_buffer.simps) simp
  then show ?thesis using h by (simp add: bread_block_def transfer_block_def fs_block_def upd_buf_def)
qed

text \<open>
  C37. Appending to a file does not reach the disk: \<open>file_write\<close> reports that all bytes are
  written and the inode gets the new size, but the buffer is never released, so that no
  block of the disk changes; and the next access to the block reads the old contents from
  the disk over the ones just stored.
\<close>
theorem file_write_lost:
  assumes "x = inodes (fs v) p" and "length (block_area x) = 9" and "sz = unat (i_size x)" and "sz + count < 2 ^ 31"
    and "0 < count" and "sz mod BLOCK_SIZE + count \<le> BLOCK_SIZE" and "spare 3 (cache_of (fs v))"
    and "readable (cache_of (fs v)) x (sz div BLOCK_SIZE)"
    and "n = unat (file_block (cache_of (fs v)) x (sz div BLOCK_SIZE))"
  shows "\<exists>t b u. file_write p buf count v = Some (int count, t)
    \<and> unat (i_size (inodes (fs t) p)) = sz + count \<and> fs_block (cache_of (fs t)) = fs_block (cache_of (fs v))
    \<and> fs_bread n (fs t) = Some (b, u) \<and> b_data (fs_buf b u) = fs_block (cache_of (fs v)) n"
proof -
  let ?s = "fs v" and ?c = "cache_of (fs v)" and ?off = "sz mod BLOCK_SIZE" and ?j = "sz div BLOCK_SIZE"
  have r: "?j < 7 + 512 * 512" "n \<noteq> 0" "uncached n ?c" "\<forall>n \<in> set (map_path ?c (inodes ?s p) ?j). uncached n ?c"
    "length (fs_block ?c n) = BLOCK_SIZE"
    using assms(1,8,9) by (simp_all add: readable_def unat_eq_zero)
  have sp: "spare (Suc (Suc (Suc 0))) ?c" using assms(7) by (simp add: numeral_3_eq_3)
  obtain c1 where c1: "bmap p (int ?j) ?s = Some (file_block ?c (inodes ?s p) ?j, ?s\<lparr>cache_of := c1\<rparr>)" "spare (Suc 0) c1"
    "\<forall>m. uncached m c1 = uncached m ?c" "fs_block c1 = fs_block ?c"
    by (rule bmap_run [OF assms(2) [unfolded assms(1)] r(1) sp r(4)])
  let ?s1 = "?s\<lparr>cache_of := c1\<rparr>"
  have "spare (Suc 0) (cache_of ?s1)" "uncached n (cache_of ?s1)" using c1(2,3) r(3) by simp_all
  then obtain b c2 where c2: "fs_bread n ?s1 = Some (b, ?s1\<lparr>cache_of := c2\<rparr>)"
    "b_data (bufs c2 b) = fs_block (cache_of ?s1) n" "held b (n + NR_FS_START) c2" "disk c2 = disk (cache_of ?s1)"
    by (rule fs_bread_held)
  have fb: "fs_block c2 = fs_block ?c" using c1(4) c2(4) by (simp add: fs_block_def fun_eq_iff)
  define d where "d = take ?off (fs_block ?c n) @ user_bytes (user v) buf count @ drop (?off + count) (fs_block ?c n)"
  define s2 where "s2 = upd_inode p (\<lambda>x. x\<lparr>i_size := of_nat (sz + count), i_dirty := True\<rparr>) (?s\<lparr>cache_of := c2\<rparr>)"
  have "sz < 2 ^ 31" using assms(4) by simp
  then have ssz: "sint (i_size x) = int sz" using assms(3) by (simp add: sint_small)
  have big: "unat (of_nat (sz + count) :: u32) = sz + count" using assms(4) by (simp add: unat_of_nat take_bit_nat_eq_self del: of_nat_add)
  have grow: "(of_int (int sz + int count) :: u32) > i_size x" "(of_int (int sz + int count) :: u32) = of_nat (sz + count)"
    using assms(3,5) big by (simp_all add: word_less_nat_alt)
  have len: "length (user_bytes (user v) buf count) = count" by (simp add: user_bytes_def)
  have "file_write_loop p (int sz) ?off count buf (user v) ?s = Some (fs_store b d s2)"
    using assms(1,5,6,9) c1(1) c2(1,2) r(2,5) len grow
    by (subst file_write_loop.simps)
       (simp add: Let_def file_write_loop.simps [of _ _ _ 0] put_bytes_def fs_buf_def c1(4) d_def s2_def zdiv_int unat_eq_zero)
  then have "file_write p buf count v = Some (int count, v\<lparr>fs := fs_store b d s2\<rparr>)"
    using assms(1,3) ssz by (simp add: file_write_def Let_def)
  moreover have "fs_block (replace_data b d c2) = fs_block ?c"
    using fb by (simp add: fs_block_def fun_eq_iff replace_data_def)
  moreover have "fs_bread n (fs_store b d s2) = Some (b, s2\<lparr>cache_of :=
       upd_buf b (\<lambda>h. h\<lparr>b_count := 2, b_data := fs_block c2 n\<rparr>) (replace_data b d c2)\<rparr>)"
    using bread_again [OF c2(3)] r(3) by (simp add: fs_bread_def on_cache_def fs_store_def s2_def uncached_def)
  moreover have "unat (i_size (inodes (fs_store b d s2) p)) = sz + count"
    using big by (simp add: fs_store_def s2_def)
  ultimately show ?thesis using fb
    by (intro exI conjI) (assumption | simp add: fs_store_def fs_buf_def s2_def)+
qed

subsection \<open>Opening files and directories\<close>

text \<open>
  Only one file can ever be opened. The first call of \<open>get_empty_filp\<close> clears the links of
  the file it hands out, which stays the first file; the second call wants to insert more
  files before it and follows a null pointer, or reports a full table when one slab has
  64 files.
\<close>
theorem get_empty_filp_once:
  assumes "first_file v = None" and "nr_files v = 0" and "0 < slab_obj_num v" and "f_used (files v f) = 0"
    and "obj_alloc (file_pool v) = Some (Some f, pool)"
  shows "\<exists>t. get_empty_filp v = Some (Some f, t)
    \<and> get_empty_filp t = (if slab_obj_num v < NR_FILE then None else Some (None, t))"
proof -
  define t where "t = v\<lparr>file_pool := pool, first_file := Some f, nr_files := slab_obj_num v,
    files := (files v)(f := zero_file\<lparr>f_used := 1\<rparr>)\<rparr>"
  have "get_empty_filp v = Some (Some f, t)"
    using assms
    by (simp add: get_empty_filp_def grow_files_def Let_def empty_filp_loop.simps upd_file_def t_def)
  moreover have "get_empty_filp t = (if slab_obj_num v < NR_FILE then None else Some (None, t))"
    by (simp add: get_empty_filp_def t_def zero_file_def empty_filp_loop.simps grow_files_def Let_def)
  ultimately show ?thesis by blast
qed

text \<open>
  A directory is read as if it were a block device: the test for a block device is true
  of the type bits of directories too, so that \<open>do_read\<close> takes blocks of the disk at the
  position of the file and never uses the inode.
\<close>
theorem do_read_directory:
  assumes "cell (filps v) fd = Some (Some f)" and "f_inode (files v f) = IPtr p"
    and "i_mode (inodes (fs v) p) AND 0xf000 = FILE_DIR"
  shows "do_read fd buf count v = block_read f buf (nat (sint count)) v"
proof -
  have "i_mode (inodes (fs v) p) AND FILE_BLK = (i_mode (inodes (fs v) p) AND 0xf000) AND FILE_BLK"
    by (simp add: and.assoc)
  also have "\<dots> \<noteq> 0" using assms(3) by simp
  finally show ?thesis using assms(1,2) by (simp add: do_read_def inode_at_def Let_def)
qed

text \<open>
  \<open>do_lseek\<close> sets the position relative to the start, the end or the current position,
  wrapping around at 32 bits, returns it, and refuses other origins without a change.
\<close>
theorem do_lseek_positions:
  assumes "cell (filps v) fd = Some (Some f)" and "f_inode (files v f) = IPtr p"
  shows "\<exists>r t. do_lseek fd off origin v = Some (r, t) \<and> fs t = fs v \<and>
    (let new = (if origin = 0 then off else if origin = 1 then i_size (inodes (fs v) p) + off
                else if origin = 2 then f_pos (files v f) + off else f_pos (files v f))
     in f_pos (files t f) = new \<and> r = (if origin < 3 then sint new else -1))"
proof -
  have "origin < 3 \<longleftrightarrow> origin = 0 \<or> origin = 1 \<or> origin = 2" for origin :: u32
  proof
    assume "origin < 3"
    then have "unat origin < 3" by (simp add: word_less_nat_alt)
    then have "unat origin \<in> {0, 1, 2}" by auto
    then show "origin = 0 \<or> origin = 1 \<or> origin = 2" by (auto simp: word_unat_eq_iff)
  qed auto
  then show ?thesis using assms by (simp add: do_lseek_def inode_at_def upd_file_def Let_def)
qed

subsection \<open>Witnesses\<close>

text \<open>Four free buffers, and a file of 100 bytes in block 10 that is open as file 0.\<close>

definition wide_cache :: bcache where
  "wide_cache = blank_cache\<lparr>free_list_table := Some 0,
     bufs := (\<lambda>b. blank_buf\<lparr>free_next := Some (if b = 0 then 1 else if b = 1 then 2 else if b = 2 then 4 else 0),
                            free_prev := Some (if b = 0 then 4 else if b = 1 then 0 else if b = 2 then 1 else 2)\<rparr>)\<rparr>"

definition sample_vfs :: vfs where
  "sample_vfs = \<lparr>fs = two_inodes\<lparr>cache_of := wide_cache\<rparr>, user = (\<lambda>a. of_nat a),
     files = (\<lambda>_. zero_file\<lparr>f_used := 1, f_inode := IPtr 2, f_pos := 20\<rparr>), first_file = Some 0, nr_files = 1,
     file_pool = \<lparr>pool_free = 1, pool_num = 29, pool_ctl = 1 # 2 # map of_nat [3..<30] @ [0xffff]\<rparr>, slab_obj_num = 30, filps = Some 0 # replicate 63 None\<rparr>"

lemma wide_cache_spare: "spare 3 wide_cache"
proof -
  have "cache_ok wide_cache [0, 1, 2, 4]"
    by (simp add: cache_ok_def wide_cache_def blank_cache_def blank_buf_def fresh_buf_def)
  then show ?thesis unfolding spare_def by (intro exI [of _ "[0, 1, 2, 4]"]) simp
qed

lemma wide_cache_readable: "readable wide_cache (inodes two_inodes 2) 0"
  by (simp add: readable_def two_inodes_at file_block_eq map_path_def uncached_def fs_block_def wide_cache_def
    blank_cache_def)

lemma sample_vfs_sel:
  "inodes (fs sample_vfs) = inodes two_inodes" "cache_of (fs sample_vfs) = wide_cache" "cell (filps sample_vfs) 0 = Some (Some 0)"
  "files sample_vfs 0 = zero_file\<lparr>f_used := 1, f_inode := IPtr 2, f_pos := 20\<rparr>"
  by (simp_all add: sample_vfs_def)


theorem file_write_lost_witness:
  "\<exists>t b u. file_write 2 0 50 sample_vfs = Some (50, t) \<and> unat (i_size (inodes (fs t) 2)) = 150
    \<and> fs_bread 10 (fs t) = Some (b, u) \<and> b_data (fs_buf b u) = fs_block wide_cache 10"
proof -
  have "\<exists>t b u. file_write 2 0 50 sample_vfs = Some (int 50, t)
    \<and> unat (i_size (inodes (fs t) 2)) = 100 + 50 \<and> fs_block (cache_of (fs t)) = fs_block (cache_of (fs sample_vfs))
    \<and> fs_bread 10 (fs t) = Some (b, u) \<and> b_data (fs_buf b u) = fs_block (cache_of (fs sample_vfs)) 10"
    by (rule file_write_lost [where x = "inodes two_inodes 2"])
      (simp_all add: sample_vfs_sel wide_cache_spare wide_cache_readable, simp_all add: two_inodes_simps file_block_eq)
  then show ?thesis by (auto simp: sample_vfs_sel)
qed

theorem get_empty_filp_once_witness:
  "\<exists>t. get_empty_filp (sample_vfs\<lparr>first_file := None, nr_files := 0, files := (\<lambda>_. zero_file)\<rparr>) = Some (Some 1, t)
     \<and> get_empty_filp t = None"
  using get_empty_filp_once [of "sample_vfs\<lparr>first_file := None, nr_files := 0, files := (\<lambda>_. zero_file)\<rparr>" 1
      "(file_pool sample_vfs)\<lparr>pool_num := 28, pool_free := 2\<rparr>"]
  by (simp add: sample_vfs_def zero_file_def obj_alloc_def)

definition dir_vfs :: vfs where
  "dir_vfs = sample_vfs\<lparr>fs := upd_inode 2 (\<lambda>x. x\<lparr>i_mode := 0x41ff\<rparr>) (fs sample_vfs)\<rparr>"

theorem do_read_directory_witness: "do_read 0 1000 16 dir_vfs = block_read 0 1000 16 dir_vfs"
proof -
  have "do_read 0 1000 16 dir_vfs = block_read 0 1000 (nat (sint (16 :: u32))) dir_vfs"
    by (rule do_read_directory [where p = 2]) (simp_all add: dir_vfs_def sample_vfs_sel)
  then show ?thesis by simp
qed

theorem do_lseek_positions_witness: "\<exists>t. do_lseek 0 7 2 sample_vfs = Some (27, t) \<and> f_pos (files t 0) = 27"
  using do_lseek_positions [of sample_vfs 0 0 2 7 2] by (simp add: sample_vfs_sel Let_def) auto

end
