(* ===== verification/Vm_Area.thy ===== *)
theory Vm_Area
  imports Slab Paging Sched Fs_File
begin

unbundle bit_operations_syntax

section \<open>Areas of virtual memory\<close>

text \<open>
  Models the areas of mm/vmalloc.c, the page faults of mm/memory.c and mm/filemap.c. The state
  \<open>kernel\<close> puts the components together: memory, slabs with the page allocator, areas and
  memory descriptors at their addresses (0 is the null pointer), the scheduler and the files.
  A file is its number; the file operations \<open>file_op\<close> of a file are never set in the
  source, so that a run that follows them ends in the model with \<open>None\<close>. An area that comes from the slab allocator holds
  what its memory held before.
\<close>

subsection \<open>Data\<close>

abbreviation VM_READ :: u32 where "VM_READ \<equiv> 1"
abbreviation VM_WRITE :: u32 where "VM_WRITE \<equiv> 2"
abbreviation VM_EXEC :: u32 where "VM_EXEC \<equiv> 4"
abbreviation VM_MAP_SHARED :: u32 where "VM_MAP_SHARED \<equiv> 0x08"
abbreviation VM_MAP_PRIVATE :: u32 where "VM_MAP_PRIVATE \<equiv> 0x10"
abbreviation VM_MAP_FIXED :: u32 where "VM_MAP_FIXED \<equiv> 0x20"
abbreviation VM_MAP_DENYWRITE :: u32 where "VM_MAP_DENYWRITE \<equiv> 0x40"
abbreviation VM_MAP_EXECUTABLE :: u32 where "VM_MAP_EXECUTABLE \<equiv> 0x80"
abbreviation PROT_READ :: u32 where "PROT_READ \<equiv> 1"
abbreviation PROT_WRITE :: u32 where "PROT_WRITE \<equiv> 2"
abbreviation PROT_EXEC :: u32 where "PROT_EXEC \<equiv> 4"
abbreviation PAGE_MASK :: u32 where "PAGE_MASK \<equiv> 0xfffff000"

record vm_area_struct =
  vm_task :: u32
  vm_start :: u32
  vm_end :: u32
  vm_file_size :: u32
  vm_flags :: u32
  vm_page_prot :: u32
  vm_offset :: u32
  vm_file :: "nat option"
  vm_next :: u32
  vm_next_share :: u32
  vm_prev_share :: u32

record mm_struct =
  start_code :: u32
  end_code :: u32
  start_data :: u32
  end_data :: u32
  start_brk :: u32
  brk :: u32
  start_stack :: u32
  start_mmap :: u32
  arg_start :: u32
  arg_end :: u32
  env_start :: u32
  env_end :: u32
  mm_size :: u32
  pgd_base :: u32
  mmap :: u32
  share_mmap :: u32
  map_count :: u16

text \<open>The last fields are globals of kernel/fork.c and kernel/sched_os.c and the address of the
  descriptor table.\<close>

record kernel =
  mem :: ram
  slab :: slabs
  areas :: "u32 \<Rightarrow> vm_area_struct"
  mms :: "u32 \<Rightarrow> mm_struct"
  sch :: sched
  vfs :: vfs
  init_mmap :: u32
  task_table :: "u32 list"
  jiffies :: u32
  task_last_pid :: u32
  active_task :: u16
  gdt :: u32

definition area_at :: "u32 \<Rightarrow> kernel \<Rightarrow> vm_area_struct option" where
  "area_at a k = (if a = 0 then None else Some (areas k a))"

definition upd_vm :: "u32 \<Rightarrow> (vm_area_struct \<Rightarrow> vm_area_struct) \<Rightarrow> kernel \<Rightarrow> kernel option" where
  "upd_vm a f k = (if a = 0 then None else Some (k\<lparr>areas := (areas k)(a := f (areas k a))\<rparr>))"

definition mm_at :: "u32 \<Rightarrow> kernel \<Rightarrow> mm_struct option" where
  "mm_at a k = (if a = 0 then None else Some (mms k a))"

definition upd_mm :: "u32 \<Rightarrow> (mm_struct \<Rightarrow> mm_struct) \<Rightarrow> kernel \<Rightarrow> kernel option" where
  "upd_mm a f k = (if a = 0 then None else Some (k\<lparr>mms := (mms k)(a := f (mms k a))\<rparr>))"

text \<open>\<open>current->mm\<close>, and the first area of a task.\<close>

definition cur_mm :: "kernel \<Rightarrow> u32" where
  "cur_mm k = t_mm (tasks (sch k) (current (sch k)))"

definition first_area :: "u32 \<Rightarrow> kernel \<Rightarrow> vm_area_struct option" where
  "first_area mm k = do { m \<leftarrow> mm_at mm k; area_at (mmap m) k }"

text \<open>Page tables and frames within the state.\<close>

definition paging_of :: "kernel \<Rightarrow> paging" where
  "paging_of k = \<lparr>ram = mem k, frames = pages (slab k)\<rparr>"

definition set_paging :: "paging \<Rightarrow> kernel \<Rightarrow> kernel" where
  "set_paging s k = k\<lparr>mem := ram s, slab := (slab k)\<lparr>pages := frames s\<rparr>\<rparr>"

definition in_paging :: "(paging \<Rightarrow> paging option) \<Rightarrow> kernel \<Rightarrow> kernel option" where
  "in_paging f k = do { s \<leftarrow> f (paging_of k); Some (set_paging s k) }"

subsection \<open>Finding areas\<close>

partial_function (option) get_vm_loop :: "u32 \<Rightarrow> u32 \<Rightarrow> kernel \<Rightarrow> u32 option" where
  "get_vm_loop vm vaddr k =
     (if vm = 0 then Some 0
      else if vm_start (areas k vm) < vaddr \<and> vaddr < vm_end (areas k vm) then Some vm
      else get_vm_loop (vm_next (areas k vm)) vaddr k)"

definition get_vm_area :: "u32 \<Rightarrow> u32 \<Rightarrow> kernel \<Rightarrow> u32 option" where
  "get_vm_area mm vaddr k = do { m \<leftarrow> mm_at mm k; get_vm_loop (mmap m) vaddr k }"

partial_function (option) find_vm_loop :: "u32 \<Rightarrow> u32 \<Rightarrow> kernel \<Rightarrow> u32 option" where
  "find_vm_loop vm tmp_vaddr k =
     (if vm = 0 then Some 0
      else if vm_start (areas k vm) \<le> tmp_vaddr \<and> tmp_vaddr \<le> vm_end (areas k vm) then Some vm
      else find_vm_loop (vm_next (areas k vm)) tmp_vaddr k)"

text \<open>Addresses of areas are relative to the first area of the task, which is not searched.\<close>

definition find_vm_area :: "u32 \<Rightarrow> u32 \<Rightarrow> kernel \<Rightarrow> u32 option" where
  "find_vm_area mm vaddr k = do {
     h \<leftarrow> first_area mm k;
     find_vm_loop (vm_next h) (vaddr - vm_start h) k }"

definition area_inode :: "vm_area_struct \<Rightarrow> kernel \<Rightarrow> iptr option" where
  "area_inode a k = do { f \<leftarrow> vm_file a; Some (f_inode (files (vfs k) f)) }"

partial_function (option) find_share_loop :: "u32 \<Rightarrow> u32 \<Rightarrow> iptr \<Rightarrow> kernel \<Rightarrow> u32 option" where
  "find_share_loop mpnt head inode k =
     (if mpnt \<noteq> 0 \<and> mpnt \<noteq> head
      then Option.bind (area_inode (areas k mpnt) k)
        (\<lambda>i. if i = inode then Some mpnt else find_share_loop (vm_next_share (areas k mpnt)) head inode k)
      else Some mpnt)"

definition find_share_vm_area :: "u32 \<Rightarrow> kernel \<Rightarrow> u32 option" where
  "find_share_vm_area head k = do {
     a \<leftarrow> area_at head k;
     i \<leftarrow> area_inode a k;
     find_share_loop (vm_next_share a) head i k }"

subsection \<open>Lists of areas\<close>

partial_function (option) remove_vm_loop :: "u32 \<Rightarrow> u32 \<Rightarrow> kernel \<Rightarrow> kernel option" where
  "remove_vm_loop tmp vm k =
     (if tmp = 0 then Some k
      else if tmp = vm then upd_vm tmp (\<lambda>a. a\<lparr>vm_next := vm_next (areas k vm)\<rparr>) k
      else remove_vm_loop (vm_next (areas k tmp)) vm k)"

definition remove_vm_struct :: "u32 \<Rightarrow> u32 \<Rightarrow> kernel \<Rightarrow> kernel option" where
  "remove_vm_struct mm vm k = do { m \<leftarrow> mm_at mm k; remove_vm_loop (mmap m) vm k }"

definition insert_vm_struct :: "u32 \<Rightarrow> u32 \<Rightarrow> kernel \<Rightarrow> kernel option" where
  "insert_vm_struct mm vm k = do {
     m \<leftarrow> mm_at mm k;
     let tmp = mmap m;
     h \<leftarrow> area_at tmp k;
     k \<leftarrow> upd_vm vm (\<lambda>a. a\<lparr>vm_next := vm_next h\<rparr>) k;
     upd_vm tmp (\<lambda>a. a\<lparr>vm_next := vm\<rparr>) k }"

text \<open>The loop looks for the end of the list, where its variable is the null pointer, which is
  then followed.\<close>

partial_function (option) insert_share_loop :: "u32 \<Rightarrow> u32 \<Rightarrow> kernel \<Rightarrow> kernel option" where
  "insert_share_loop tmp new_vm k =
     (if tmp \<noteq> 0
      then if tmp = new_vm then Some k else insert_share_loop (vm_next_share (areas k tmp)) new_vm k
      else do {
        t \<leftarrow> area_at tmp k;
        k \<leftarrow> upd_vm new_vm (\<lambda>a. a\<lparr>vm_next_share := vm_next_share t, vm_prev_share := tmp\<rparr>) k;
        upd_vm tmp (\<lambda>a. a\<lparr>vm_next_share := new_vm\<rparr>) k })"

definition insert_share_vm_struct :: "u32 \<Rightarrow> kernel \<Rightarrow> kernel option" where
  "insert_share_vm_struct new_vm k = insert_share_loop (init_mmap k) new_vm k"

definition remove_share_vm_struct :: "u32 \<Rightarrow> kernel \<Rightarrow> (int \<times> kernel) option" where
  "remove_share_vm_struct vm k = do {
     a \<leftarrow> area_at vm k;
     if vm_file a = None then Some (-1, k)
     else if vm = init_mmap k then Some (-1, k)
     else do {
       k \<leftarrow> upd_vm (vm_prev_share a) (\<lambda>p. p\<lparr>vm_next_share := vm_next_share a\<rparr>) k;
       let a = areas k vm;
       k \<leftarrow> upd_vm (vm_next_share a) (\<lambda>n. n\<lparr>vm_prev_share := vm_prev_share a\<rparr>) k;
       Some (1, k) } }"

subsection \<open>Mapping and unmapping\<close>

definition alloc_object :: "u32 option \<Rightarrow> kernel \<Rightarrow> (u32 option \<times> kernel) option" where
  "alloc_object cachep k = do {
     c \<leftarrow> cachep;
     (r, s) \<leftarrow> kmem_object_alloc c (slab k);
     Some (r, k\<lparr>slab := s\<rparr>) }"

definition free_object :: "u32 option \<Rightarrow> u32 \<Rightarrow> kernel \<Rightarrow> kernel option" where
  "free_object cachep objp k = do {
     c \<leftarrow> cachep;
     s \<leftarrow> kmem_object_free c objp (slab k);
     Some (k\<lparr>slab := s\<rparr>) }"

definition page_round :: "u32 \<Rightarrow> u32" where
  "page_round len = (if len AND (PAGE_SIZE - 1) \<noteq> 0 then (len + PAGE_SIZE) AND NOT (PAGE_SIZE - 1) else len)"

definition area_flags :: "u32 \<Rightarrow> u32" where
  "area_flags flags =
     (if flags AND VM_MAP_PRIVATE \<noteq> 0 then flags OR VM_READ OR VM_EXEC OR VM_WRITE
      else if flags AND VM_MAP_SHARED \<noteq> 0 then flags OR VM_READ OR VM_EXEC
      else flags)"

text \<open>A file mapping stores the size through the area's file before that is set.\<close>

definition mmap_file :: "u32 \<Rightarrow> nat \<Rightarrow> u32 \<Rightarrow> kernel \<Rightarrow> kernel option" where
  "mmap_file file_szie file cur_vm k = do {
     old \<leftarrow> vm_file (areas k cur_vm);
     let k = k\<lparr>vfs := upd_file old (\<lambda>x. x\<lparr>f_pos := file_szie\<rparr>) (vfs k)\<rparr>;
     k \<leftarrow> upd_vm cur_vm (\<lambda>a. a\<lparr>vm_file := Some file\<rparr>) k;
     i \<leftarrow> inode_at (f_inode (files (vfs k) file));
     let k = k\<lparr>vfs := (vfs k)\<lparr>vfs.fs := upd_inode i (\<lambda>x. x\<lparr>i_count := i_count x + 1\<rparr>) (vfs.fs (vfs k))\<rparr>\<rparr>;
     insert_share_vm_struct cur_vm k }"

definition do_mmap :: "u32 \<Rightarrow> nat option \<Rightarrow> u32 \<Rightarrow> u32 \<Rightarrow> u32 \<Rightarrow> u32 \<Rightarrow> u32 \<Rightarrow> kernel \<Rightarrow> (int \<times> kernel) option" where
  "do_mmap file_szie file vaddr len prot flags off k = do {
     let len = page_round len;
     (r, k) \<leftarrow> alloc_object (vm_area_cachep (slab k)) k;
     cur_vm \<leftarrow> r;
     let start_vaddr = vaddr;
     k \<leftarrow> upd_vm cur_vm (\<lambda>a. a\<lparr>vm_task := current (sch k), vm_start := start_vaddr, vm_end := len,
       vm_page_prot := prot, vm_offset := off, vm_flags := area_flags flags\<rparr>) k;
     k \<leftarrow> upd_mm (cur_mm k) (\<lambda>m. m\<lparr>mm_size := mm_size m + len, map_count := map_count m + 1\<rparr>) k;
     k \<leftarrow> (case file of
         Some f \<Rightarrow> if 0 < file_szie then mmap_file file_szie f cur_vm k
           else do { h \<leftarrow> first_area (cur_mm k) k; in_paging (zeromap_page_range (vm_start h) start_vaddr (len - start_vaddr)) k }
       | None \<Rightarrow> do { h \<leftarrow> first_area (cur_mm k) k; in_paging (zeromap_page_range (vm_start h) start_vaddr (len - start_vaddr)) k });
     k \<leftarrow> insert_vm_struct (cur_mm k) cur_vm k;
     Some (1, k) }"

definition do_munmap :: "u32 \<Rightarrow> u32 \<Rightarrow> kernel \<Rightarrow> (int \<times> kernel) option" where
  "do_munmap vaddr len k = do {
     vm \<leftarrow> find_vm_area (cur_mm k) vaddr k;
     if vm = 0 then Some (-1, k)
     else do {
       k \<leftarrow> upd_mm (cur_mm k) (\<lambda>m. m\<lparr>mm_size := mm_size m - len, map_count := map_count m - 1\<rparr>) k;
       k \<leftarrow> (if vm_file (areas k vm) \<noteq> None then map_option snd (remove_share_vm_struct vm k) else Some k);
       k \<leftarrow> remove_vm_struct (cur_mm k) vm k;
       k \<leftarrow> free_object (vm_area_cachep (slab k)) vm k;
       Some (1, k) } }"

text \<open>The area of a file would be closed through \<open>file_op\<close>, which is never set.\<close>

partial_function (option) exit_mmap_loop :: "u32 \<Rightarrow> kernel \<Rightarrow> kernel option" where
  "exit_mmap_loop vm k =
     (if vm = 0 then Some k
      else if vm_file (areas k vm) \<noteq> None then None
      else Option.bind (free_object (vm_area_cachep (slab k)) vm k) (\<lambda>k. exit_mmap_loop (vm_next (areas k vm)) k))"

definition exit_mmap :: "u32 \<Rightarrow> kernel \<Rightarrow> kernel option" where
  "exit_mmap tsk k = do {
     t \<leftarrow> task_at tsk (sch k);
     m \<leftarrow> mm_at (t_mm t) k;
     let vm = mmap m;
     k \<leftarrow> upd_mm (t_mm t) (\<lambda>m. m\<lparr>mmap := 0\<rparr>) k;
     exit_mmap_loop vm k }"

text \<open>\<open>PAGE_MASK\<close> selects the number of the page; the code uses it for the offset.\<close>

definition brk_round :: "u32 \<Rightarrow> u32" where
  "brk_round b = (if b AND PAGE_MASK \<noteq> 0 then (b + (PAGE_SIZE - 1)) AND NOT PAGE_MASK else 0)"

definition set_brk :: "u32 \<Rightarrow> kernel \<Rightarrow> (u32 \<times> kernel) option" where
  "set_brk b k = do {
     m \<leftarrow> mm_at (cur_mm k) k;
     if b < end_data m then Some (brk m, k)
     else do {
       let newbrk = brk_round b;
       let oldbrk = brk_round (brk m);
       if newbrk = oldbrk then Some (brk m, k)
       else if b < brk m
       then do {
         k \<leftarrow> upd_mm (cur_mm k) (\<lambda>m. m\<lparr>brk := b\<rparr>) k;
         (r, k) \<leftarrow> do_munmap newbrk (oldbrk - newbrk) k;
         Some (b, k) }
       else do {
         k \<leftarrow> upd_mm (cur_mm k) (\<lambda>m. m\<lparr>brk := b\<rparr>) k;
         vm \<leftarrow> find_vm_area (cur_mm k) b k;
         k \<leftarrow> (if vm = 0
           then map_option snd (do_mmap 0 None b (newbrk - oldbrk) (PROT_READ OR PROT_WRITE OR PROT_EXEC)
             (VM_MAP_FIXED OR VM_MAP_PRIVATE) 0 k)
           else Some k);
         Some (b, k) } } }"

subsection \<open>Page tables of a task\<close>

partial_function (option) free_tables_loop :: "u32 \<Rightarrow> u32 \<Rightarrow> kernel \<Rightarrow> kernel option" where
  "free_tables_loop mm vm k =
     (if vm = 0 then Some k
      else do {
        m \<leftarrow> mm_at mm k;
        k \<leftarrow> in_paging (unmap_page_range (pgd_base m) (vm_start (areas k vm)) (vm_end (areas k vm))) k;
        free_tables_loop mm (vm_next (areas k vm)) k })"

definition free_page_tables :: "u32 \<Rightarrow> kernel \<Rightarrow> kernel option" where
  "free_page_tables tsk k = do {
     t \<leftarrow> task_at tsk (sch k);
     m \<leftarrow> mm_at (t_mm t) k;
     free_tables_loop (t_mm t) (mmap m) k }"

text \<open>Three entries of the directory are copied, 12 MiB from address 0 on.\<close>

definition copy_page_tables :: "u32 \<Rightarrow> kernel \<Rightarrow> (int \<times> kernel) option" where
  "copy_page_tables to k = do {
     k \<leftarrow> upd_mm (cur_mm k) (\<lambda>m. m\<lparr>pgd_base := 0\<rparr>) k;
     m \<leftarrow> mm_at (cur_mm k) k;
     t \<leftarrow> task_at to (sch k);
     h \<leftarrow> first_area (t_mm t) k;
     (ok, s) \<leftarrow> copy_tables 3 (pgd_base m) (pgd_index (vm_start h)) (paging_of k);
     Some (if ok then 1 else -1, set_paging s k) }"

subsection \<open>Page faults\<close>

fun bmap_blocks :: "nat \<Rightarrow> nat \<Rightarrow> u32 \<Rightarrow> fs_state \<Rightarrow> (nat list \<times> fs_state) option" where
  "bmap_blocks 0 inode block_index s = Some ([], s)"
| "bmap_blocks (Suc n) inode block_index s = do {
     (b, s) \<leftarrow> bmap inode (sint block_index) s;
     (bs, s) \<leftarrow> bmap_blocks n inode (block_index + 1) s;
     Some ((unat b + NR_FS_START) # bs, s) }"

definition filemap_nopage :: "u32 \<Rightarrow> nat \<Rightarrow> u32 \<Rightarrow> kernel \<Rightarrow> kernel option" where
  "filemap_nopage vma page vaddr k = do {
     h \<leftarrow> first_area (cur_mm k) k;
     a \<leftarrow> area_at vma k;
     let vaddr_offset = (vaddr - vm_start h) - vm_start a;
     q \<leftarrow> area_inode a k;
     inode \<leftarrow> inode_at q;
     let file_offset = vaddr_offset + vm_offset a;
     (nr, s) \<leftarrow> bmap_blocks 4 inode (drop_bit 10 file_offset) (vfs.fs (vfs k));
     (bytes, c) \<leftarrow> bread_page nr (cache_of s);
     Some (k\<lparr>mem := put_ram (frame_addr page) bytes (mem k), vfs := (vfs k)\<lparr>vfs.fs := s\<lparr>cache_of := c\<rparr>\<rparr>\<rparr>) }"

definition generic_mmap :: "nat \<Rightarrow> u32 \<Rightarrow> kernel \<Rightarrow> (int \<times> kernel) option" where
  "generic_mmap file vma k = do {
     k \<leftarrow> upd_vm vma (\<lambda>a. a\<lparr>vm_file := Some file\<rparr>) k;
     i \<leftarrow> inode_at (f_inode (files (vfs k) file));
     Some (0, k\<lparr>vfs := (vfs k)\<lparr>vfs.fs := upd_inode i (\<lambda>x. x\<lparr>i_count := i_count x + 1\<rparr>) (vfs.fs (vfs k))\<rparr>\<rparr>) }"

text \<open>A missing page table, and a missing page of an area without a file. A new page table is
  used as it comes from the page allocator.\<close>

definition need_table :: "u32 \<Rightarrow> paging \<Rightarrow> paging option" where
  "need_table pgd_entry s =
     (if get pgd_entry s AND PAGE_P = 0
      then do { (p, s) \<leftarrow> new_frame s; Some (put pgd_entry (frame_addr p OR PAGE_ATTR) s) }
      else Some s)"

definition need_page :: "u32 \<Rightarrow> paging \<Rightarrow> paging option" where
  "need_page pte_entry s =
     (if get pte_entry s AND PAGE_P = 0
      then do { (p, s) \<leftarrow> new_frame s; Some (put pte_entry (frame_addr p OR PAGE_ATTR) s) }
      else Some s)"

definition do_no_page :: "u32 \<Rightarrow> kernel \<Rightarrow> kernel option" where
  "do_no_page vaddr k = do {
     let pgd_entry = pgd_index vaddr;
     vm \<leftarrow> find_vm_area (cur_mm k) vaddr k;
     k \<leftarrow> in_paging (need_table pgd_entry) k;
     let pte_entry = (rd32 (mem k) pgd_entry AND FRAME_MASK) + pte_index vaddr;
     a \<leftarrow> area_at vm k;
     if vm_file a = None then in_paging (need_page pte_entry) k
     else do {
       (p, s) \<leftarrow> new_frame (paging_of k);
       k \<leftarrow> filemap_nopage vm p vaddr (set_paging s k);
       in_paging (\<lambda>s. upd_frame p (\<lambda>g. g\<lparr>pg_count := pg_count g + 1\<rparr>)
         (put pte_entry (frame_addr p OR PAGE_ATTR) s)) k } }"

definition do_page_fault :: "u32 \<Rightarrow> u32 \<Rightarrow> kernel \<Rightarrow> kernel option" where
  "do_page_fault error_code address k =
     (if error_code AND 1 \<noteq> 0 then in_paging (do_wp_page address) k else do_no_page address k)"

subsection \<open>Sharing pages\<close>

text \<open>The entry of the directory is used with its flags as the address of the table, and the
  flags of the copy are \<open>~PAGE_RWE\<close>.\<close>

definition try_share_page :: "u32 \<Rightarrow> u32 \<Rightarrow> u32 \<Rightarrow> kernel \<Rightarrow> (int \<times> kernel) option" where
  "try_share_page vm share_vm vaddr k = do {
     a \<leftarrow> area_at vm k;
     b \<leftarrow> area_at share_vm k;
     if vm_flags b AND VM_MAP_PRIVATE \<noteq> 0 then Some (-1, k)
     else do {
       let from_vaddr = vm_start b + (vaddr - vm_start a);
       tb \<leftarrow> task_at (vm_task b) (sch k);
       mb \<leftarrow> mm_at (t_mm tb) k;
       let from_pgd = rd32 (mem k) (pgd_base mb + pgd_index from_vaddr);
       if from_pgd AND PAGE_P = 0 then Some (0, k)
       else do {
         let from_pte_entry = from_pgd + pte_index from_vaddr;
         if rd32 (mem k) from_pte_entry AND PAGE_P = 0 then Some (0, k)
         else do {
           ta \<leftarrow> task_at (vm_task a) (sch k);
           ma \<leftarrow> mm_at (t_mm ta) k;
           let to_pgd_entry = pgd_base ma + pgd_index vaddr;
           k \<leftarrow> in_paging (need_table to_pgd_entry) k;
           let to_pte_entry = rd32 (mem k) to_pgd_entry + pte_index vaddr;
           let k = set_paging (put to_pte_entry (rd32 (mem k) from_pte_entry OR NOT PAGE_RWE) (paging_of k)) k;
           k \<leftarrow> in_paging (upd_frame (unat (drop_bit PAGE_SHIFT (rd32 (mem k) to_pte_entry)))
             (\<lambda>g. g\<lparr>pg_count := pg_count g + 1\<rparr>)) k;
           Some (1, k) } } } }"

partial_function (option) share_page_loop :: "u32 \<Rightarrow> u32 \<Rightarrow> u32 \<Rightarrow> kernel \<Rightarrow> (int \<times> kernel) option" where
  "share_page_loop share_vm vm vaddr k = do {
     i \<leftarrow> area_inode (areas k share_vm) k;
     j \<leftarrow> area_inode (areas k vm) k;
     (r, k) \<leftarrow> (if i = j \<and> vm_task (areas k share_vm) \<noteq> current (sch k)
       then try_share_page vm share_vm vaddr k else Some (0, k));
     if r \<noteq> 0 then Some (1, k)
     else if vm_next_share (areas k share_vm) = init_mmap k \<or> vm_next_share (areas k share_vm) = 0 then Some (-1, k)
     else share_page_loop (vm_next_share (areas k share_vm)) vm vaddr k }"

definition share_page :: "u32 \<Rightarrow> u32 \<Rightarrow> kernel \<Rightarrow> (int \<times> kernel) option" where
  "share_page vm vaddr k = do {
     a \<leftarrow> area_at vm k;
     share_page_loop (init_mmap k) vm vaddr k }"

subsection \<open>Searching the areas\<close>

text \<open>The list of areas from an address on, and an area that holds an address.\<close>

fun area_list :: "(u32 \<Rightarrow> vm_area_struct) \<Rightarrow> u32 \<Rightarrow> u32 list \<Rightarrow> bool" where
  "area_list m a [] \<longleftrightarrow> a = 0"
| "area_list m a (x # xs) \<longleftrightarrow> a = x \<and> x \<noteq> 0 \<and> area_list m (vm_next (m x)) xs"

definition covers :: "(u32 \<Rightarrow> vm_area_struct) \<Rightarrow> u32 \<Rightarrow> u32 \<Rightarrow> bool" where
  "covers m v a \<longleftrightarrow> vm_start (m a) \<le> v \<and> v \<le> vm_end (m a)"

lemma find_vm_loop_list:
  "area_list (areas k) a xs \<Longrightarrow> find_vm_loop a v k = Some (case List.find (covers (areas k) v) xs of Some x \<Rightarrow> x | None \<Rightarrow> 0)"
  by (induction xs arbitrary: a) (subst find_vm_loop.simps, simp add: covers_def)+

text \<open>The search does not end on areas that do not hold the address and whose successors stay among
  them.\<close>

lemma find_vm_loop_endless:
  assumes "\<And>y. y \<in> S \<Longrightarrow> y \<noteq> 0 \<and> \<not> covers (areas k) v y \<and> vm_next (areas k y) \<in> S" and "y \<in> S"
  shows "find_vm_loop y v k = None"
proof (rule ccontr)
  assume "find_vm_loop y v k \<noteq> None"
  then obtain r where r: "find_vm_loop y v k = Some r" by auto
  define P where "P = (\<lambda>y w (k' :: kernel) (r :: u32). k' = k \<longrightarrow> w = v \<longrightarrow> y \<notin> S)"
  from r have "P y v k r"
  proof (rule find_vm_loop.raw_induct [rotated])
    fix f y w k' r
    assume ih: "\<And>y w k' r. f y w k' = Some r \<Longrightarrow> P y w k' r"
      and run: "(if y = 0 then Some 0
        else if vm_start (areas k' y) \<le> w \<and> w \<le> vm_end (areas k' y) then Some y
        else f (vm_next (areas k' y)) w k') = Some r"
    show "P y w k' r" unfolding P_def
    proof (intro impI notI)
      assume eq: "k' = k" "w = v" and "y \<in> S"
      note y = assms(1) [OF \<open>y \<in> S\<close>]
      with run eq have "f (vm_next (areas k y)) v k = Some r" unfolding covers_def by (metis (full_types))
      from ih [OF this] y show False by (simp add: P_def)
    qed
  qed
  with assms(2) show False by (simp add: P_def)
qed

text \<open>Freeing the pages of the list and looking for an area that is on it change nothing.\<close>

lemma remove_vm_loop_id: "area_list (areas k) a xs \<Longrightarrow> remove_vm_loop a vm k = Some k"
proof (induction xs arbitrary: a)
  case (Cons x xs)
  have "(areas k)(x := (areas k x)\<lparr>vm_next := vm_next (areas k x)\<rparr>) = areas k" by auto
  then have "k\<lparr>areas := (areas k)(x := (areas k x)\<lparr>vm_next := vm_next (areas k x)\<rparr>)\<rparr> = k" by simp
  then show ?case using Cons by (subst remove_vm_loop.simps) (auto simp: upd_vm_def)
qed (subst remove_vm_loop.simps, simp)

lemma remove_vm_struct_id:
  assumes "mm_at mm k = Some m" and "area_list (areas k) (mmap m) xs"
  shows "remove_vm_struct mm vm k = Some k"
  using assms by (simp add: remove_vm_struct_def remove_vm_loop_id)

subsection \<open>Properties\<close>

text \<open>
  \<open>find_vm_area\<close> returns the first area behind the first one of the task that holds the address,
  relative to the start of the task's first area; both ends belong to an area. Without such
  an area it returns the null pointer.
\<close>
theorem find_vm_area_first:
  assumes "first_area mm k = Some h" and "area_list (areas k) (vm_next h) xs"
  shows "find_vm_area mm vaddr k
    = Some (case List.find (covers (areas k) (vaddr - vm_start h)) xs of Some x \<Rightarrow> x | None \<Rightarrow> 0)"
  using assms by (simp add: find_vm_area_def find_vm_loop_list)

lemma pool_frame_keeps:
  assumes "pool_frame c a s t"
  shows "vm_area_cachep t = vm_area_cachep s" and "pages t = pages s"
  using assms by (auto simp: pool_frame_def)

lemma do_munmap_anonymous:
  assumes "mm_at (cur_mm k) k = Some m" and "area_list (areas k) (mmap m) xs"
    and "find_vm_area (cur_mm k) vaddr k = Some vm" and "vm \<noteq> 0" and "vm_file (areas k vm) = None"
    and "vm_area_cachep (slab k) = Some c" and "kmem_object_free c vm (slab k) = Some t"
  shows "do_munmap vaddr len k = Some (1, k\<lparr>slab := t,
    mms := (mms k)(cur_mm k := m\<lparr>mm_size := mm_size m - len, map_count := map_count m - 1\<rparr>)\<rparr>)"
proof -
  let ?k = "k\<lparr>mms := (mms k)(cur_mm k := m\<lparr>mm_size := mm_size m - len, map_count := map_count m - 1\<rparr>)\<rparr>"
  have m: "cur_mm k \<noteq> 0" "mms k (cur_mm k) = m" using assms(1) by (auto simp: mm_at_def split: if_splits)
  then have c: "cur_mm ?k = cur_mm k" "mm_at (cur_mm k) ?k = Some (m\<lparr>mm_size := mm_size m - len, map_count := map_count m - 1\<rparr>)"
    by (simp_all add: cur_mm_def mm_at_def)
  have "remove_vm_struct (cur_mm k) vm ?k = Some ?k" by (rule remove_vm_struct_id [OF c(2)]) (use assms(2) in simp)
  then show ?thesis
    using assms(3-7) m c by (simp add: do_munmap_def upd_mm_def free_object_def)
qed

text \<open>What an anonymous mapping does to the areas and to the memory descriptor.\<close>

definition new_area :: "u32 \<Rightarrow> u32 \<Rightarrow> u32 \<Rightarrow> u32 \<Rightarrow> u32 \<Rightarrow> u32 \<Rightarrow> vm_area_struct \<Rightarrow> vm_area_struct" where
  "new_area tsk start len prot flags off a = a\<lparr>vm_task := tsk, vm_start := start, vm_end := page_round len,
     vm_page_prot := prot, vm_offset := off, vm_flags := area_flags flags\<rparr>"

lemma in_paging_keeps:
  assumes "in_paging f k = Some k'"
  shows "areas k' = areas k" "mms k' = mms k" "sch k' = sch k" "vfs k' = vfs k" "cur_mm k' = cur_mm k"
  using assms by (auto simp: in_paging_def set_paging_def cur_mm_def split: bind_splits)

lemma do_mmap_anonymous:
  assumes "do_mmap sz None start len prot flags off k = Some (r, k2)"
    and "alloc_object (vm_area_cachep (slab k)) k = Some (Some vm, k')"
    and "mm_at (cur_mm k) k = Some m" and "mmap m \<noteq> vm"
  shows "areas k2 = (areas k)(vm := (new_area (current (sch k)) start len prot flags off (areas k vm))\<lparr>vm_next := vm_next (areas k (mmap m))\<rparr>,
      mmap m := (areas k (mmap m))\<lparr>vm_next := vm\<rparr>)"
    and "cur_mm k2 = cur_mm k"
    and "mms k2 = (mms k)(cur_mm k := m\<lparr>mm_size := mm_size m + page_round len, map_count := map_count m + 1\<rparr>)"
proof -
  have k': "areas k' = areas k" "mms k' = mms k" "sch k' = sch k" "cur_mm k' = cur_mm k"
    using assms(2) by (auto simp: alloc_object_def cur_mm_def split: bind_splits)
  have m: "cur_mm k \<noteq> 0" "mms k (cur_mm k) = m" using assms(3) by (auto simp: mm_at_def split: if_splits)
  let ?a = "new_area (current (sch k)) start len prot flags off (areas k vm)"
  let ?k = "k'\<lparr>areas := (areas k)(vm := ?a), mms := (mms k)(cur_mm k := m\<lparr>mm_size := mm_size m + page_round len, map_count := map_count m + 1\<rparr>)\<rparr>"
  have c: "cur_mm ?k = cur_mm k" using k' by (simp add: cur_mm_def)
  from assms(1,2) k' m obtain f k3 where vm: "vm \<noteq> 0" and k3: "in_paging f ?k = Some k3"
    and ins: "insert_vm_struct (cur_mm k3) vm k3 = Some k2"
    by (auto simp: do_mmap_def Let_def upd_vm_def upd_mm_def new_area_def cur_mm_def dest!: bind_SomeD split: if_splits)
  note i = in_paging_keeps [OF k3]
  show "areas k2 = (areas k)(vm := ?a\<lparr>vm_next := vm_next (areas k (mmap m))\<rparr>, mmap m := (areas k (mmap m))\<lparr>vm_next := vm\<rparr>)"
    and "cur_mm k2 = cur_mm k"
    and "mms k2 = (mms k)(cur_mm k := m\<lparr>mm_size := mm_size m + page_round len, map_count := map_count m + 1\<rparr>)"
    using ins assms(4) m i c
    by (auto simp: insert_vm_struct_def upd_vm_def mm_at_def area_at_def cur_mm_def Let_def dest!: bind_SomeD split: if_splits)
qed

lemma area_list_next:
  "area_list m a (xs @ vm # ys) \<Longrightarrow> a \<in> set (xs @ [vm]) \<and> (\<forall>y \<in> set xs. vm_next (m y) \<in> set (xs @ [vm]))"
  by (induction xs arbitrary: a) auto

lemma area_list_nonzero: "area_list m a xs \<Longrightarrow> 0 \<notin> set xs"
  by (induction xs arbitrary: a) auto

text \<open>
  C23. Unmapping an area frees its object but leaves the area on the list, and the next mapping gets
  the same object and puts it on the list again. The list is then circular: the search for
  an address that no area of it holds does not end, nor does a page fault there. (\<open>vm\<close> is
  object \<open>j\<close> of the slab of areas.)
\<close>
theorem munmap_then_mmap_hangs:
  assumes "mm_at (cur_mm k) k = Some m" and "area_list (areas k) (mmap m) (h # xs @ vm # ys)" and "h \<notin> set (xs @ [vm])"
    and "find_vm_area (cur_mm k) vaddr k = Some vm" and "vm_file (areas k vm) = None"
    and "vm_area_cachep (slab k) = Some c" and "vm = base + of_nat j * ucast sz"
    and "first_slab c a base sz n (slab k) i" and "j < i" and "i < n" and "sz \<noteq> 0" and "n * unat sz < 2 ^ 31"
    and "slab_pages c a (unat (drop_bit 12 vm)) 1 (slab k)"
    and "do_munmap vaddr len k = Some (r, k1)" and "do_mmap 0 None start len' prot flags off k1 = Some (r', k2)"
    and "\<forall>x \<in> set (xs @ [vm]). \<not> covers (areas k2) (w - vm_start (areas k2 h)) x"
  shows "find_vm_area (cur_mm k2) w k2 = None \<and> do_no_page w k2 = None"
proof -
  have l: "mmap m = h" "h \<noteq> 0" "area_list (areas k) (vm_next (areas k h)) (xs @ vm # ys)" using assms(2) by simp_all
  have nz: "0 \<notin> set (xs @ [vm])" using area_list_nonzero [OF l(3)] by auto
  note nx = area_list_next [OF l(3)]
  from free_then_alloc [OF assms(8-12) assms(13) [unfolded assms(7)]] obtain t u where
    t: "kmem_object_free c vm (slab k) = Some t" "kmem_object_alloc c t = Some (Some vm, u)" "pool_frame c a (slab k) t"
    unfolding assms(7) by metis
  let ?m = "m\<lparr>mm_size := mm_size m - len, map_count := map_count m - 1\<rparr>"
  have k1: "k1 = k\<lparr>slab := t, mms := (mms k)(cur_mm k := ?m)\<rparr>"
    using do_munmap_anonymous [OF assms(1,2,4) _ assms(5,6) t(1), of len] nz assms(14) by simp
  have c1: "cur_mm k1 = cur_mm k" "areas k1 = areas k" unfolding k1 by (simp_all add: cur_mm_def)
  have m1: "mm_at (cur_mm k1) k1 = Some ?m" unfolding c1(1) using assms(1) by (auto simp: k1 mm_at_def split: if_splits)
  have a1: "alloc_object (vm_area_cachep (slab k1)) k1 = Some (Some vm, k1\<lparr>slab := u\<rparr>)"
    using t(2) assms(6) pool_frame_keeps(1) [OF t(3)] by (simp add: alloc_object_def k1)
  have "mmap ?m \<noteq> vm" using assms(3) l(1) by auto
  note k2 = do_mmap_anonymous [OF assms(15) a1 m1 this]
  have n: "vm_next (areas k2 h) = vm" "vm_next (areas k2 vm) = vm_next (areas k h)"
    "\<forall>y. y \<noteq> h \<and> y \<noteq> vm \<longrightarrow> vm_next (areas k2 y) = vm_next (areas k y)"
    using assms(3) l(1) by (auto simp: k2(1) c1(2))
  have "vm_next (areas k2 y) \<in> set (xs @ [vm])" if "y \<in> set (xs @ [vm])" for y
  proof (cases "y = vm")
    case False
    with that have "y \<in> set xs" "y \<noteq> h" using assms(3) by auto
    then show ?thesis using False n(3) nx by auto
  qed (use n(2) nx in simp)
  then have "find_vm_loop vm (w - vm_start (areas k2 h)) k2 = None"
    using assms(16) nz by (intro find_vm_loop_endless [of "set (xs @ [vm])"]) auto
  moreover have "first_area (cur_mm k2) k2 = Some (areas k2 h)"
    using m1 l(1,2) unfolding k2(2) by (auto simp: first_area_def mm_at_def area_at_def k2(3) split: if_splits)
  ultimately have "find_vm_area (cur_mm k2) w k2 = None" by (simp add: find_vm_area_def n(1))
  then show ?thesis by (simp add: do_no_page_def)
qed

subsection \<open>Page faults\<close>

lemma find_keeps_paging:
  assumes "in_paging f k = Some k'"
  shows "area_at a k' = area_at a k" and "first_area mm k' = first_area mm k"
  using in_paging_keeps(1,2) [OF assms] by (simp_all add: area_at_def first_area_def mm_at_def)

lemma paging_of_sel [simp]: "ram (paging_of k) = mem k" "frames (paging_of k) = pages (slab k)"
  by (simp_all add: paging_of_def)

lemma mem_set_paging [simp]: "mem (set_paging s k) = ram s" "pages (slab (set_paging s k)) = frames s"
  by (simp_all add: set_paging_def)

lemma need_table_present: "pgd_present (mem k) v \<Longrightarrow> in_paging (need_table (pgd_index v)) k = Some k"
  by (simp add: in_paging_def need_table_def pgd_present_def paging_of_def set_paging_def)

lemma pte_of_None: "pgd_present m v \<Longrightarrow> pte_of m v = None \<longleftrightarrow> rd32 m (pte_at m v) AND 1 = 0"
  by (simp add: pte_of_def)

lemma need_page_missing:
  assumes "rd32 (mem k) a AND 1 = 0" and "alloc_one_page (pages (slab k)) = Some (Some p, b)"
  shows "in_paging (need_page a) k = Some (set_paging \<lparr>ram = wr32 a (frame_addr p OR PAGE_ATTR) (mem k), frames = b\<rparr> k)"
  using assms by (simp add: in_paging_def need_page_def new_frame_def put_def paging_of_def)

lemma do_no_page_anonymous:
  assumes "find_vm_area (cur_mm k) v k = Some vm" and "vm \<noteq> 0" and "vm_file (areas k vm) = None"
    and "in_paging (need_table (pgd_index v)) k = Some k'"
  shows "do_no_page v k = in_paging (need_page (pte_at (mem k') v)) k'"
  using assms find_keeps_paging(1) [OF assms(4), of vm] by (simp add: do_no_page_def area_at_def Let_def pte_at_def table_of_def)

text \<open>
  C22. A fault on a missing page of an area without a file, whose page table exists: the page of the
  address is mapped to a new frame, present, writable and for the user; no other page is
  mapped differently; areas and files stay as they are. The frame is not cleared: the task
  sees what the frame held before.
\<close>
theorem anonymous_fault_maps_page:
  assumes "error_code AND 1 = 0" and "find_vm_area (cur_mm k) v k = Some vm" and "vm \<noteq> 0" and "vm_file (areas k vm) = None"
    and "dir_ok (mem k)" and "pgd_present (mem k) v" and "pte_of (mem k) v = None"
    and "alloc_one_page (pages (slab k)) = Some (Some p, b)" and "no_table p (mem k)"
  shows "\<exists>k'. do_page_fault error_code v k = Some k'
    \<and> pte_of (mem k') v = Some (frame_addr p OR PAGE_ATTR)
    \<and> (\<forall>w. \<not> same_page v w \<longrightarrow> pte_of (mem k') w = pte_of (mem k) w)
    \<and> (\<forall>a. in_frame p a \<longrightarrow> mem k' a = mem k a)
    \<and> pages (slab k') = b \<and> areas k' = areas k \<and> vfs k' = vfs k"
proof -
  let ?m = "wr32 (pte_at (mem k) v) (frame_addr p OR PAGE_ATTR) (mem k)"
  let ?k = "set_paging \<lparr>ram = ?m, frames = b\<rparr> k"
  have p: "p < NR_PAGES" using assms(9) by (simp add: no_table_def)
  have "do_page_fault error_code v k = Some ?k"
    using assms(1,7) do_no_page_anonymous [OF assms(2-4) need_table_present [OF assms(6)]] need_page_missing [OF _ assms(8)]
    by (simp add: do_page_fault_def pte_of_None [OF assms(6)])
  moreover have "mem ?k a = mem k a" if "in_frame p a" for a
    using that in_frame_aligned [OF pte_at_aligned, of p "mem k" v] pte_at_in_frame [OF assms(9,6)] by (auto simp: wr32_def)
  moreover have "areas ?k = areas k" "vfs ?k = vfs k" by (simp_all add: set_paging_def)
  ultimately show ?thesis
    using pte_of_wr32 [OF assms(5,6), of "frame_addr p OR PAGE_ATTR"] frame_attr(2) [OF p]
    by (intro exI [of _ ?k]) (simp add: same_page_def)
qed

text \<open>A new entry of the directory: its 4 MiB are mapped as the words of the frame say, the rest of the
  directory as before.\<close>

lemma frame_pte:
  assumes "0 < p" and "p < NR_PAGES"
  shows "4 dvd unat (frame_addr p + pte_index w)" and "4096 \<le> unat (frame_addr p + pte_index w)"
proof -
  have u: "unat (frame_addr p + pte_index w) = p * 4096 + unat (pte_index w)"
    using assms index_bounds(3) [of w] by (simp add: unat_word_ariths unat_frame_addr)
  then show "4096 \<le> unat (frame_addr p + pte_index w)" using assms(1) by simp
  show "4 dvd unat (frame_addr p + pte_index w)" unfolding u using index_bounds(4) by (intro dvd_add) simp_all
qed

lemma pte_of_new_table:
  assumes "dir_ok m" and "0 < p" and "p < NR_PAGES"
  shows "pte_of (wr32 (pgd_index v) (frame_addr p OR PAGE_ATTR) m) w
    = (if pgd_index w = pgd_index v
       then let e = rd32 m (frame_addr p + pte_index w) in if e AND 1 \<noteq> 0 then Some e else None
       else pte_of m w)"
proof -
  let ?m = "wr32 (pgd_index v) (frame_addr p OR PAGE_ATTR) m"
  have far: "rd32 ?m a = rd32 m a" if "4 dvd unat a" "4096 \<le> unat a" for a
    using that index_bounds(1,2) [of v] by (intro rd32_wr32_other) auto
  show ?thesis
  proof (cases "pgd_index w = pgd_index v")
    case True
    then have "pgd_present ?m w" "pte_at ?m w = frame_addr p + pte_index w"
      using frame_attr(1,2) [OF assms(3)] by (simp_all add: pgd_present_def pte_at_def table_of_def)
    then show ?thesis using True far [OF frame_pte [OF assms(2,3)]] by (simp add: pte_of_def Let_def)
  next
    case False
    then have "rd32 ?m (pgd_index w) = rd32 m (pgd_index w)" by (intro rd32_wr32_other index_bounds(2)) simp
    then have s: "pgd_present ?m w = pgd_present m w" "pte_at ?m w = pte_at m w"
      by (simp_all add: pgd_present_def table_of_def pte_at_def)
    have "rd32 ?m (pte_at m w) = rd32 m (pte_at m w)" if "pgd_present m w"
      using assms(1) that unat_pte_at [of m w] by (intro far pte_at_aligned) (auto simp: dir_ok_def)
    then show ?thesis using False s by (auto simp: pte_of_def)
  qed
qed

text \<open>
  A fault in a range without page table takes a frame for the table and uses what the frame held
  before as entries: every page of the 4 MiB around the address is afterwards mapped as the
  old words of the frame happen to say. If the word for the address has the present bit, no
  page is allocated and the address is mapped to the frame this word names.
\<close>
theorem fault_uses_stale_table:
  fixes k p
  defines "stale \<equiv> \<lambda>w. rd32 (mem k) (frame_addr p + pte_index w)"
  assumes "error_code AND 1 = 0" and "find_vm_area (cur_mm k) v k = Some vm" and "vm \<noteq> 0" and "vm_file (areas k vm) = None"
    and "dir_ok (mem k)" and "\<not> pgd_present (mem k) v"
    and "alloc_one_page (pages (slab k)) = Some (Some p, b)" and "no_table p (mem k)" and "stale v AND 1 \<noteq> 0"
  shows "\<exists>k'. do_page_fault error_code v k = Some k' \<and> pages (slab k') = b
    \<and> pte_of (mem k') v = Some (stale v)
    \<and> (\<forall>w. pte_of (mem k') w = (if pgd_index w = pgd_index v
         then if stale w AND 1 \<noteq> 0 then Some (stale w) else None else pte_of (mem k) w))"
proof -
  have p: "0 < p" "p < NR_PAGES" using assms(9) by (simp_all add: no_table_def)
  let ?m = "wr32 (pgd_index v) (frame_addr p OR PAGE_ATTR) (mem k)"
  let ?k = "set_paging \<lparr>ram = ?m, frames = b\<rparr> k"
  have t: "in_paging (need_table (pgd_index v)) k = Some ?k"
    using assms(7,8) by (simp add: in_paging_def need_table_def pgd_present_def new_frame_def put_def paging_of_def)
  note pt = pte_of_new_table [OF assms(6) p, of v, folded stale_def]
  have "pgd_present ?m v" using frame_attr(2) [OF p(2)] by (simp add: pgd_present_def)
  moreover from pt [of v] assms(10) have "pte_of ?m v = Some (stale v)" by (simp add: stale_def Let_def)
  ultimately have "rd32 ?m (pte_at ?m v) AND 1 \<noteq> 0" by (auto simp: pte_of_def split: if_splits)
  then have "in_paging (need_page (pte_at ?m v)) ?k = Some ?k"
    by (simp add: in_paging_def need_page_def) (simp add: set_paging_def paging_of_def)
  then have "do_page_fault error_code v k = Some ?k"
    using do_no_page_anonymous [OF assms(3-5) t] assms(2) by (simp add: do_page_fault_def)
  then show ?thesis using pt assms(10) by (intro exI [of _ ?k]) (simp add: stale_def Let_def)
qed

subsection \<open>Faults that read a file\<close>

lemma bmap_blocks_run:
  assumes "length (block_area (inodes s p)) = 9" and "i + n \<le> 7 + 512 * 512" and "spare (2 * n + k) (cache_of s)"
    and "\<forall>j \<in> {i..<i + n}. \<forall>m \<in> set (map_path (cache_of s) (inodes s p) j). uncached m (cache_of s)"
  shows "\<exists>c. bmap_blocks n p (of_nat i) s
      = Some (map (\<lambda>j. unat (file_block (cache_of s) (inodes s p) j) + NR_FS_START) [i..<i + n], s\<lparr>cache_of := c\<rparr>)
    \<and> spare k c \<and> (\<forall>m. uncached m c = uncached m (cache_of s)) \<and> fs_block c = fs_block (cache_of s)"
  using assms
proof (induction n arbitrary: i s)
  case 0
  then show ?case by (intro exI [of _ "cache_of s"]) simp
next
  case (Suc n)
  let ?x = "inodes s p"
  have "2 * Suc n + k = Suc (Suc (2 * n + k))" by simp
  with Suc.prems(2-4) have pre: "i < 7 + 512 * 512" "spare (Suc (Suc (2 * n + k))) (cache_of s)"
    "\<forall>m \<in> set (map_path (cache_of s) ?x i). uncached m (cache_of s)" by auto
  from bmap_run [OF Suc.prems(1) pre] obtain c where
    c: "bmap p (int i) s = Some (file_block (cache_of s) ?x i, s\<lparr>cache_of := c\<rparr>)" "spare (2 * n + k) c"
      "\<forall>m. uncached m c = uncached m (cache_of s)" "fs_block c = fs_block (cache_of s)" by metis
  let ?s = "s\<lparr>cache_of := c\<rparr>"
  have fb: "file_block c = file_block (cache_of s)" "map_path c = map_path (cache_of s)"
    using c(4) by (simp_all add: fun_eq_iff file_block_eq map_path_def disk_word_def)
  have "sint (of_nat i :: u32) = int i" using pre(1) by (subst sint_small) (simp_all only: unat_of_nat, simp_all)
  moreover have "\<exists>d. bmap_blocks n p (of_nat (Suc i)) ?s
      = Some (map (\<lambda>j. unat (file_block c ?x j) + NR_FS_START) [Suc i..<Suc i + n], ?s\<lparr>cache_of := d\<rparr>)
    \<and> spare k d \<and> (\<forall>m. uncached m d = uncached m c) \<and> fs_block d = fs_block c"
  proof -
    have "\<forall>j \<in> {Suc i..<Suc i + n}. \<forall>m \<in> set (map_path (cache_of s) ?x j). uncached m (cache_of s)" using Suc.prems(4) by auto
    then show ?thesis using Suc.IH [of ?s "Suc i"] Suc.prems(1,2) c(2,3) by (simp add: fb del: upt_Suc of_nat_Suc)
  qed
  then obtain d where "bmap_blocks n p (of_nat (Suc i)) ?s
      = Some (map (\<lambda>j. unat (file_block c ?x j) + NR_FS_START) [Suc i..<Suc i + n], ?s\<lparr>cache_of := d\<rparr>)"
    "spare k d" "\<forall>m. uncached m d = uncached m c" "fs_block d = fs_block c" by blast
  moreover have "[i..<i + Suc n] = i # [Suc i..<Suc i + n]" by (simp add: upt_conv_Cons del: upt_Suc)
  moreover have "of_nat i + 1 = (of_nat (Suc i) :: u32)" by simp
  ultimately show ?case
    using c fb by (intro exI [of _ d]) (simp del: upt_Suc of_nat_Suc)
qed

lemma concat_nth:
  "\<forall>x \<in> set xs. length (f x) = n \<Longrightarrow> t < n * length xs \<Longrightarrow> concat (map f xs) ! t = f (xs ! (t div n)) ! (t mod n)"
proof (induction xs arbitrary: t)
  case (Cons x xs)
  show ?case
  proof (cases "t < n")
    case False
    then have "0 < n" "t - n < n * length xs" using Cons.prems(2) by (cases n; simp)+
    moreover have "t div n = Suc ((t - n) div n)" "t mod n = (t - n) mod n"
      using False \<open>0 < n\<close> by (simp_all add: le_div_geq le_mod_geq)
    ultimately show ?thesis using Cons False by (simp add: nth_append)
  qed (use Cons.prems(1) in \<open>simp add: nth_append\<close>)
qed simp


lemma set_paging_keeps [simp]:
  "areas (set_paging s k) = areas k" "mms (set_paging s k) = mms k" "vfs (set_paging s k) = vfs k" "sch (set_paging s k) = sch k"
  "cur_mm (set_paging s k) = cur_mm k" "first_area mm (set_paging s k) = first_area mm k" "area_at a (set_paging s k) = area_at a k"
  by (simp_all add: set_paging_def cur_mm_def first_area_def mm_at_def area_at_def)

lemma filemap_run:
  fixes k f i
  defines "s \<equiv> vfs.fs (vfs k)" and "x \<equiv> inodes (vfs.fs (vfs k)) i" and "c \<equiv> cache_of (vfs.fs (vfs k))"
  assumes "first_area (cur_mm k) k = Some h" and "vm \<noteq> 0" and "vm_file (areas k vm) = Some f"
    and "f_inode (files (vfs k) f) = IPtr i" and "length (block_area x) = 9"
    and "unat (v - vm_start h - vm_start (areas k vm) + vm_offset (areas k vm)) div 1024 = blk" and "blk + 4 \<le> 7 + 512 * 512"
    and "spare 12 c" and "\<forall>j \<in> {blk..<blk + 4}. \<forall>n \<in> set (unat (file_block c x j) # map_path c x j). uncached n c"
    and "distinct (map (\<lambda>j. (unat (file_block c x j) + NR_FS_START) mod BUFFER_HASH_NO) [blk..<blk + 4])"
  shows "\<exists>t. filemap_nopage vm p v k
    = Some (k\<lparr>mem := put_ram (frame_addr p) (concat (map (\<lambda>j. fs_block c (unat (file_block c x j))) [blk..<blk + 4])) (mem k),
        vfs := (vfs k)\<lparr>vfs.fs := t\<rparr>\<rparr>)"
proof -
  let ?ns = "map (\<lambda>j. unat (file_block c x j) + NR_FS_START) [blk..<blk + 4]"
  have fs: "inodes s i = x" "cache_of s = c" by (simp_all add: s_def x_def c_def)
  have "unat (drop_bit 10 w) = unat w div 1024" for w :: u32
    using unat_u32_bound [of w] unfolding unsigned_drop_bit_eq by (simp add: drop_bit_eq_div take_bit_nat_eq_self)
  then have "drop_bit 10 w = of_nat (unat w div 1024)" for w :: u32 by (metis word_of_unat)
  then have b: "drop_bit 10 (v - vm_start h - vm_start (areas k vm) + vm_offset (areas k vm)) = of_nat blk" using assms(9) by simp
  have "spare (2 * 4 + 4) (cache_of s)" using assms(11) by (simp add: fs)
  then obtain d where d: "bmap_blocks 4 i (of_nat blk) s = Some (?ns, s\<lparr>cache_of := d\<rparr>)" "spare 4 d"
    "\<forall>m. uncached m d = uncached m c" "fs_block d = fs_block c"
    using bmap_blocks_run [of s i blk 4 4] assms(8,10,12) unfolding fs by auto
  have "\<forall>n \<in> set ?ns. n < 65536 \<and> active_hash_table d (n mod BUFFER_HASH_NO) = None"
    using assms(12) d(3) by (auto simp: uncached_def)
  moreover have "distinct (map (\<lambda>n. n mod BUFFER_HASH_NO) ?ns)" using assms(13) by (simp add: comp_def)
  moreover have "spare (length ?ns + 0) d" using d(2) by simp
  ultimately obtain e where e: "bread_page ?ns d = Some (concat (map (disk d) ?ns), e)" using bread_page_run by blast
  have "map (disk d) ?ns = map (\<lambda>j. fs_block c (unat (file_block c x j))) [blk..<blk + 4]" using d(4) by (simp add: fs_block_def fun_eq_iff)
  then have "bread_page ?ns d = Some (concat (map (\<lambda>j. fs_block c (unat (file_block c x j))) [blk..<blk + 4]), e)"
    using e by (simp only:)
  then show ?thesis
    using assms(4-7) d(1) b by (intro exI [of _ "s\<lparr>cache_of := e\<rparr>"]) (simp add: filemap_nopage_def area_at_def area_inode_def inode_at_def s_def [symmetric] Let_def)
qed

text \<open>Memory that differs only in a page without tables has the same tables.\<close>

lemma same_tables:
  assumes "no_table p m" and "\<forall>a. \<not> in_frame p a \<longrightarrow> m' a = m a"
  shows "pgd_present m' w = pgd_present m w" and "table_of m' w = table_of m w" and "pte_at m' w = pte_at m w"
    and "dir_ok m' = dir_ok m" and "no_table p m'"
proof -
  have "\<not> in_frame p (pgd_index w)" for w using assms(1) index_bounds(1) [of w] by (simp add: in_frame_def no_table_def)
  then have g: "rd32 m' (pgd_index w) = rd32 m (pgd_index w)" for w by (rule rd32_outside [OF assms(2) index_bounds(2)])
  show "pgd_present m' w = pgd_present m w" "table_of m' w = table_of m w" "pte_at m' w = pte_at m w" "dir_ok m' = dir_ok m" "no_table p m'"
    using assms(1) by (simp_all add: g pgd_present_def table_of_def pte_at_def dir_ok_def no_table_def)
qed

lemma do_no_page_file:
  assumes "find_vm_area (cur_mm k) v k = Some vm" and "vm \<noteq> 0" and "vm_file (areas k vm) = Some f"
    and "pgd_present (mem k) v"
  shows "do_no_page v k = do {
     (p, s) \<leftarrow> new_frame (paging_of k);
     k' \<leftarrow> filemap_nopage vm p v (set_paging s k);
     in_paging (\<lambda>s. upd_frame p (\<lambda>g. g\<lparr>pg_count := pg_count g + 1\<rparr>) (put (pte_at (mem k) v) (frame_addr p OR PAGE_ATTR) s)) k' }"
  using assms need_table_present [OF assms(4)] by (simp add: do_no_page_def area_at_def Let_def pte_at_def table_of_def)


subsection \<open>Growing the heap\<close>

lemma unat_low12: "unat ((x :: u32) AND 0xfff) = unat x mod 4096" "unat (x AND - 4096) = unat x div 4096 * 4096"
proof -
  have m: "(0xfff :: u32) = mask 12" "(- 4096 :: u32) = NOT (mask 12)" by (simp_all add: mask_eq_exp_minus_1)
  show "unat (x AND 0xfff) = unat x mod 4096"
    unfolding m(1) take_bit_eq_mask [symmetric] by (simp only: unsigned_take_bit_eq) (simp add: take_bit_eq_mod)
  show "unat (x AND - 4096) = unat x div 4096 * 4096" unfolding m(2) unat_and_not_mask by simp
qed

lemma brk_round_bound: "unat (brk_round b) < 4096"
proof -
  have "NOT PAGE_MASK = 0xfff" by simp
  then have "brk_round b = (if b AND PAGE_MASK \<noteq> 0 then (b + (PAGE_SIZE - 1)) AND 0xfff else 0)" by (simp only: brk_round_def)
  then show ?thesis by (simp add: unat_low12)
qed

lemma page_round_small:
  assumes "unat n < 4096" and "unat l < 4096" and "n \<noteq> l"
  shows "page_round (n - l) = (if l < n then 4096 else 0)"
proof -
  let ?d = "n - l"
  have ne: "unat n \<noteq> unat l" using assms(3) by (simp add: word_unat_eq_iff)
  have "unat (?d AND 0xfff) \<noteq> 0 \<and> unat ((?d + 4096) AND - 4096) = (if l < n then 4096 else 0)"
  proof (cases "l < n")
    case True
    then have "unat ?d = unat n - unat l" by (simp add: unat_sub_if_size word_less_nat_alt)
    then have d: "0 < unat ?d" "unat ?d < 4096" using assms True by (auto simp: word_less_nat_alt)
    then have "unat (?d + 4096) = unat ?d + 4096" by (simp add: unat_word_ariths)
    then show ?thesis using True d by (simp add: unat_low12)
  next
    case False
    then have l: "unat n < unat l" using ne by (simp add: word_less_nat_alt)
    define e where "e = unat l - unat n"
    have e: "0 < e" "e < 4096" using l assms(2) by (simp_all add: e_def)
    have d: "?d = - of_nat e" using l by (simp add: e_def of_nat_diff)
    have "?d + 4096 = of_nat (4096 - e)" using e by (simp add: d of_nat_diff)
    then have a: "unat (?d + 4096) = 4096 - e" using e by (simp only: unat_of_nat) simp
    have "?d = of_nat (4096 - e + 1048575 * 4096)" using e by (simp add: d of_nat_diff)
    then have "unat ?d = 4096 - e + 1048575 * 4096" using e by (simp only: unat_of_nat) simp
    then have "unat ?d mod 4096 = 4096 - e" using e by (simp only: mod_mult_self1) simp
    then show ?thesis using False a e by (simp add: unat_low12)
  qed
  moreover have "PAGE_SIZE - 1 = 0xfff" "NOT (0xfff :: u32) = - 4096" by simp_all
  ultimately show ?thesis by (simp add: page_round_def word_unat_eq_iff)
qed


text \<open>
  Raising the end of the heap where there is no area makes an area that holds no address: the
  rounding keeps the offset in the page instead of the page, so the end of the area is 0
  or 4096, below its start. No page table is made. The call still returns the new end.
\<close>
theorem set_brk_maps_nothing:
  assumes "mm_at (cur_mm k) k = Some m" and "mmap m \<noteq> 0" and "end_data m \<le> b" and "brk m \<le> b" and "4096 < b"
    and "brk_round b \<noteq> brk_round (brk m)" and "area_list (areas k) (vm_next (areas k (mmap m))) xs"
    and "\<forall>x \<in> set xs. \<not> covers (areas k) (b - vm_start (areas k (mmap m))) x"
    and "alloc_object (vm_area_cachep (slab k)) k = Some (Some vm, k')" and "vm \<noteq> 0" and "vm \<noteq> mmap m"
    and "unat b + unat (vm_start (areas k (mmap m))) < 2 ^ 32"
  shows "\<exists>t. set_brk b k = Some (b, t) \<and> vm_next (areas t (mmap m)) = vm \<and> vm_start (areas t vm) = b
    \<and> (\<forall>v. \<not> covers (areas t) v vm) \<and> paging_of t = paging_of k'"
proof -
  let ?k = "k\<lparr>mms := (mms k)(cur_mm k := m\<lparr>brk := b\<rparr>)\<rparr>"
  let ?len = "page_round (brk_round b - brk_round (brk m))"
  have m: "cur_mm k \<noteq> 0" "mms k (cur_mm k) = m" using assms(1) by (auto simp: mm_at_def split: if_splits)
  have c: "cur_mm ?k = cur_mm k" "mm_at (cur_mm k) ?k = Some (m\<lparr>brk := b\<rparr>)" "first_area (cur_mm k) ?k = first_area (cur_mm k) k"
    using m by (simp_all add: cur_mm_def mm_at_def first_area_def area_at_def)
  have len: "?len = 0 \<or> ?len = 4096" using page_round_small [OF brk_round_bound brk_round_bound assms(6)] by auto
  have st: "unat (b + x) = unat b + unat x" if "unat b + unat x < 2 ^ 32" for x using that by (simp add: unat_word_ariths)
  have z: "zeromap_page_range base b (?len - b) s = Some s" if "base = vm_start (areas k (mmap m))" for base s
  proof -
    have "unat (?len + base) \<le> unat ?len + unat base" using that by (simp add: unat_word_ariths)
    moreover have "unat ?len < unat b" using len assms(5) by (auto simp: word_less_nat_alt)
    ultimately have "\<not> b + base < ?len + base" using st [of base] assms(12) that by (simp add: word_less_nat_alt)
    then show ?thesis by (simp add: zeromap_page_range_def Let_def zeromap_loop.simps algebra_simps)
  qed
  obtain c s where s: "vm_area_cachep (slab k) = Some c" "kmem_object_alloc c (slab k) = Some (Some vm, s)" "k' = k\<lparr>slab := s\<rparr>"
    using assms(9) by (auto simp: alloc_object_def dest!: bind_SomeD)
  let ?L = "brk_round b - brk_round (brk m)" and ?prot = "PROT_READ OR PROT_WRITE OR PROT_EXEC" and ?fl = "VM_MAP_FIXED OR VM_MAP_PRIVATE"
  have "\<exists>t. do_mmap 0 None b ?L ?prot ?fl 0 ?k = Some (1, t) \<and> paging_of t = paging_of k'"
    using assms(2,10,11) m s z c(1)
    by (simp add: do_mmap_def alloc_object_def upd_vm_def upd_mm_def first_area_def mm_at_def area_at_def in_paging_def
        cur_mm_def insert_vm_struct_def Let_def paging_of_def set_paging_def)
  then obtain t where t: "do_mmap 0 None b ?L ?prot ?fl 0 ?k = Some (1, t)" "paging_of t = paging_of k'" by blast
  have "alloc_object (vm_area_cachep (slab ?k)) ?k = Some (Some vm, ?k\<lparr>slab := s\<rparr>)" using s by (simp add: alloc_object_def)
  moreover have "mm_at (cur_mm ?k) ?k = Some (m\<lparr>brk := b\<rparr>)" unfolding c(1) by (rule c(2))
  ultimately have a: "areas t = (areas k)(vm := (new_area (current (sch k)) b ?L ?prot ?fl 0 (areas k vm))\<lparr>vm_next := vm_next (areas k (mmap m))\<rparr>,
      mmap m := (areas k (mmap m))\<lparr>vm_next := vm\<rparr>)"
    using do_mmap_anonymous(1) [OF t(1)] assms(11) by simp
  have "List.find (covers (areas k) (b - vm_start (areas k (mmap m)))) xs = None" using assms(8) by (simp add: find_None_iff)
  then have "find_vm_area (cur_mm k) b ?k = Some 0"
    using find_vm_loop_list [of ?k _ xs] assms(2,7) m by (simp add: find_vm_area_def c(3) first_area_def mm_at_def area_at_def)
  then have "set_brk b k = Some (b, t)"
    using assms(1,3,4,6) m t(1) c(1) by (simp add: set_brk_def upd_mm_def Let_def not_less [symmetric])
  moreover have "\<not> covers (areas t) v vm" for v
    using a assms(5,11) len by (auto simp: covers_def new_area_def)
  ultimately show ?thesis using a t(2) assms(11) by (auto simp: new_area_def)
qed


subsection \<open>Sharing\<close>

text \<open>
  Sharing a page with another task never succeeds: \<open>try_share_page\<close> stores an entry with almost
  all bits set and then counts a user of the page with that number, beyond the last page.
\<close>
theorem try_share_page_fails: "try_share_page vm share_vm vaddr k \<noteq> Some (1, k')"
proof -
  have "NR_PAGES \<le> unat (drop_bit 12 (w OR NOT PAGE_RWE))" for w :: u32
  proof -
    have "drop_bit 12 (w OR NOT PAGE_RWE) = drop_bit 12 w OR 0xfffff" by (simp add: drop_bit_or)
    then have "0xfffff \<le> drop_bit 12 (w OR NOT PAGE_RWE)" using le_word_or2 [of "0xfffff" "drop_bit 12 w"] by (simp only: or.commute)
    then show ?thesis by (simp add: word_le_nat_alt)
  qed
  then have "in_paging (upd_frame (unat (drop_bit 12 (w OR NOT PAGE_RWE))) f) k1 = None" for w :: u32 and f k1
    by (simp add: in_paging_def upd_frame_def upd_page_def not_less)
  then show ?thesis
    by (auto simp: try_share_page_def Let_def put_def dest!: bind_SomeD split: if_splits)
qed

text \<open>The list of shared areas.\<close>

fun share_list :: "(u32 \<Rightarrow> vm_area_struct) \<Rightarrow> u32 \<Rightarrow> u32 list \<Rightarrow> bool" where
  "share_list m a [] \<longleftrightarrow> a = 0"
| "share_list m a (x # xs) \<longleftrightarrow> a = x \<and> x \<noteq> 0 \<and> share_list m (vm_next_share (m x)) xs"

lemma share_list_cong: "(\<And>x. vm_next_share (m' x) = vm_next_share (m x)) \<Longrightarrow> share_list m' a xs = share_list m a xs"
  by (induction xs arbitrary: a) simp_all

lemma insert_share_follows_null: "share_list (areas k) a xs \<Longrightarrow> vm \<notin> set xs \<Longrightarrow> insert_share_loop a vm k = None"
  by (induction xs arbitrary: a) (subst insert_share_loop.simps, auto simp: area_at_def)+

text \<open>Mapping a file: whenever the list of shared areas ends and the new area is not
  on it yet, \<open>do_mmap\<close> follows the null pointer at the end of the list.\<close>

lemma mmap_file_follows_null:
  assumes "alloc_object (vm_area_cachep (slab k)) k = Some (Some vm, k')"
    and "share_list (areas k) (init_mmap k) xs" and "vm \<notin> set xs" and "0 < file_szie"
  shows "do_mmap file_szie (Some f) vaddr len prot flags off k = None"
proof -
  have k': "areas k' = areas k" "init_mmap k' = init_mmap k"
    using assms(1) by (auto simp: alloc_object_def dest!: bind_SomeD)
  have "mmap_file file_szie f vm k1 = None"
    if "init_mmap k1 = init_mmap k" "\<And>x. vm_next_share (areas k1 x) = vm_next_share (areas k x)" for k1
  proof -
    have "insert_share_loop (init_mmap k) vm k2 = None"
      if "\<And>x. vm_next_share (areas k2 x) = vm_next_share (areas k x)" for k2
      using share_list_cong [OF that] assms(2,3) by (intro insert_share_follows_null [of k2 _ xs]) simp_all
    with that show ?thesis
      by (auto simp: mmap_file_def insert_share_vm_struct_def upd_vm_def Let_def split: bind_splits)
  qed
  then show ?thesis
    using assms(1,4) k' by (auto simp: do_mmap_def Let_def upd_vm_def upd_mm_def split: bind_splits)
qed

subsection \<open>The slabs of inodes and files\<close>

text \<open>The file system's view of the only slab of a cache: the slab allocator takes objects from it
  and gives them back in the same way. The object with number \<open>n\<close> is \<open>n\<close> objects behind the
  first one.\<close>

definition pool_of :: "slab_struct \<Rightarrow> obj_pool" where
  "pool_of l = \<lparr>pool_free = free_idx l, pool_num = free_num l, pool_ctl = bufctl l\<rparr>"

theorem obj_alloc_refined:
  assumes "slabs_partial (cache_at s c) = Some a" and "sl_next (slab_at s a) = Some a"
    and "kmem_object_alloc c s = Some (r, t)"
  shows "\<exists>q pool. obj_alloc (pool_of (slab_at s a)) = Some (q, pool) \<and> pool_of (slab_at t a) = pool
    \<and> r = map_option (\<lambda>n. obj_mem (slab_at s a) + of_nat n * ucast (obj_size (cache_at s c))) q"
proof -
  have "take_object c s = Some (r, t)" using assms(1,3) by (simp add: kmem_object_alloc.simps)
  then show ?thesis
  using assms(1,2)
  by (auto simp: take_object_def Let_def obj_alloc_def pool_of_def upd_cache_def upd_slab_def slab_move_def slab_del_head_def slab_add_list_def
     dest!: bind_SomeD split: if_splits option.splits)
qed

lemma slab_lists_pool:
  "slab_del_head h m = Some (h', m') \<Longrightarrow> pool_of (m' x) = pool_of (m x)"
  "slab_add_list h p m = Some (h', m') \<Longrightarrow> pool_of (m' x) = pool_of (m x)"
  by (auto simp: slab_del_head_def slab_add_list_def Let_def pool_of_def dest!: bind_SomeD split: if_splits option.splits)

lemma slab_move_pool: "slab_move f t m = Some (f', t', m') \<Longrightarrow> pool_of (m' x) = pool_of (m x)"
  by (auto simp: slab_move_def slab_lists_pool dest!: bind_SomeD)

theorem obj_free_refined:
  assumes "page_at (unat (drop_bit PAGE_SHIFT objp)) (pages s) = Some p" and "of_page_ptr (pg_prev p) = Some a"
    and "objp = obj_mem (slab_at s a) + of_nat (n * unat (obj_size (cache_at s c)))"
    and "n * unat (obj_size (cache_at s c)) < 2 ^ 31" and "obj_size (cache_at s c) \<noteq> 0"
    and "kmem_object_free c objp s = Some t"
  shows "obj_free n (pool_of (slab_at s a)) = Some (pool_of (slab_at t a))"
proof -
  let ?z = "unat (obj_size (cache_at s c))"
  have z: "0 < ?z" using assms(5) by (simp add: unat_gt_0)
  have "sint (of_nat (n * ?z) :: u32) = int (n * ?z)"
    using assms(4) by (simp add: signed_of_nat signed_take_bit_int_eq_self del: of_nat_mult)
  then have "sint (objp - obj_mem (slab_at s a)) sdiv int ?z = int n"
    using z assms(3,5) by (simp add: signed_divide_int_def sgn_mult del: of_nat_mult)
      (metis assms(5) nonzero_mult_div_cancel_right of_nat_mult uint_nat unsigned_eq_0_iff)
  then have nr: "of_int (sint (objp - obj_mem (slab_at s a)) sdiv int ?z) = (of_nat n :: u16)" by simp
  note nr = nr nr [folded uint_nat]
  let ?l = "slab_at s a"
  obtain ctl where ctl: "put_cell (unat (free_idx ?l)) (of_nat n) (bufctl ?l) = Some ctl"
    using assms(1,2,5,6) nr by (auto simp: kmem_object_free_def Let_def dest!: bind_SomeD)
  define g where "g = upd_slab a (\<lambda>l. l\<lparr>bufctl := ctl, free_idx := of_nat n\<rparr>) s"
  have "Option.bind (if free_num (slab_at g a) = 0
       then do {
         (full, part, m) \<leftarrow> slab_move (slabs_full (cache_at s c)) (slabs_partial (cache_at s c)) (slab_at g);
         Some (upd_cache c (\<lambda>c. c\<lparr>slabs_full := full, slabs_partial := part\<rparr>) (g\<lparr>slab_at := m\<rparr>)) }
       else Some g) (\<lambda>s. Some (upd_slab a (\<lambda>l. l\<lparr>free_num := free_num l + 1\<rparr>) s)) = Some t"
    using assms(6) by (simp only: kmem_object_free_def assms(1,2,5) Let_def nr ctl g_def bind.bind_lunit if_False)
  moreover have "pool_of (slab_at g a) = (pool_of ?l)\<lparr>pool_ctl := ctl, pool_free := of_nat n\<rparr>"
    by (simp add: g_def pool_of_def upd_slab_def)
  moreover have pool_num: "pool_of (l\<lparr>free_num := free_num l + 1\<rparr>) = (pool_of l)\<lparr>pool_num := pool_num (pool_of l) + 1\<rparr>" for l
    by (simp add: pool_of_def)
  ultimately have "pool_of (slab_at t a) = (pool_of ?l)\<lparr>pool_ctl := ctl, pool_free := of_nat n, pool_num := pool_num (pool_of ?l) + 1\<rparr>"
    by (auto simp: upd_cache_def upd_slab_def slab_move_pool pool_num dest!: bind_SomeD split: if_splits)
  then show ?thesis using ctl by (simp add: obj_free_def pool_of_def)
qed

subsection \<open>Witnesses\<close>

text \<open>A task at \<open>0x4000\<close> whose first area is at \<open>0x3000\<close>, followed by the area at \<open>0x1004c\<close>, the
  second object of the slab at \<open>0x10000\<close>. The area holds the addresses from \<open>0x6000\<close> to \<open>0x7000\<close>.\<close>

definition zero_area :: vm_area_struct where
  "zero_area = \<lparr>vm_task = 0, vm_start = 0, vm_end = 0, vm_file_size = 0, vm_flags = 0, vm_page_prot = 0,
     vm_offset = 0, vm_file = None, vm_next = 0, vm_next_share = 0, vm_prev_share = 0\<rparr>"

definition zero_mm :: mm_struct where
  "zero_mm = \<lparr>start_code = 0, end_code = 0, start_data = 0, end_data = 0, start_brk = 0, brk = 0, start_stack = 0,
     start_mmap = 0, arg_start = 0, arg_end = 0, env_start = 0, env_end = 0, mm_size = 0, pgd_base = 0, mmap = 0x3000,
     share_mmap = 0, map_count = 0\<rparr>"

definition sample_kernel :: "ram \<Rightarrow> vfs \<Rightarrow> nat option \<Rightarrow> kernel" where
  "sample_kernel m v f = \<lparr>mem = m, slab = (sample_slabs 2 7 44 32)\<lparr>vm_area_cachep := Some 0x2000\<rparr>,
     areas = (\<lambda>_. zero_area)(0x3000 := zero_area\<lparr>vm_next := 0x1004c\<rparr>,
       0x1004c := zero_area\<lparr>vm_start := 0x6000, vm_end := 0x7000, vm_file := f\<rparr>),
     mms = (\<lambda>_. zero_mm), sch = (sample_sched 0)\<lparr>tasks := (\<lambda>_. (sample_task 120 0 0)\<lparr>t_mm := 0x8000\<rparr>)\<rparr>, vfs = v,
     init_mmap = 0x3000, task_table = 0x4000 # replicate 63 0, jiffies = 0, task_last_pid = 0, active_task = 0, gdt = 0x5400\<rparr>"

lemma sample_kernel_sel [simp]:
  "mem (sample_kernel m v f) = m" "vfs (sample_kernel m v f) = v" "cur_mm (sample_kernel m v f) = 0x8000"
  "mm_at 0x8000 (sample_kernel m v f) = Some zero_mm" "init_mmap (sample_kernel m v f) = 0x3000"
  "areas (sample_kernel m v f) = (\<lambda>_. zero_area)(0x3000 := zero_area\<lparr>vm_next := 0x1004c\<rparr>,
       0x1004c := zero_area\<lparr>vm_start := 0x6000, vm_end := 0x7000, vm_file := f\<rparr>)"
  "slab (sample_kernel m v f) = (sample_slabs 2 7 44 32)\<lparr>vm_area_cachep := Some 0x2000\<rparr>"
  by (simp_all add: sample_kernel_def cur_mm_def mm_at_def)

lemma sample_first_area: "first_area 0x8000 (sample_kernel m v f) = Some (zero_area\<lparr>vm_next := 0x1004c\<rparr>)"
  by (simp add: first_area_def area_at_def zero_mm_def)

lemma sample_list: "area_list (areas (sample_kernel m v f)) 0x3000 [0x3000, 0x1004c]"
  by (simp add: zero_area_def)

theorem find_vm_area_first_witness: "find_vm_area 0x8000 0x6000 (sample_kernel sample_ram sample_vfs None) = Some 0x1004c"
  using find_vm_area_first [OF sample_first_area, of sample_ram sample_vfs None "[0x1004c]" "0x6000"]
  by (simp add: covers_def zero_area_def)

lemma sample_find: "find_vm_area 0x8000 0x6000 (sample_kernel m v f) = Some 0x1004c"
  using find_vm_loop_list [of "sample_kernel m v f" "0x1004c" "[0x1004c]" "0x6000"]
  by (simp add: find_vm_area_def sample_first_area covers_def zero_area_def)

lemma sample_frame: "\<exists>b. alloc_one_page (pages (slab (sample_kernel m v f))) = Some (Some 4098, b)"
  using sample_alloc [of 2 7 44 32] by (auto simp: alloc_one_page_def alloc_pages_def)

theorem munmap_then_mmap_hangs_witness:
  "\<exists>r k1 r' k2. do_munmap 0x6000 0x2000 (sample_kernel sample_ram sample_vfs None) = Some (r, k1)
    \<and> do_mmap 0 None 0x9000 0x9000 7 0x10 0 k1 = Some (r', k2) \<and> do_no_page 0xa000 k2 = None"
proof -
  let ?k = "sample_kernel sample_ram sample_vfs None" and ?c = "0x2000 :: u32" and ?vm = "0x10000 + ucast (32 :: u16) + of_nat 1 * ucast (44 :: u16) :: u32"
  have fs: "first_slab ?c 0x10000 (0x10000 + ucast (32 :: u16)) 44 7 (slab ?k) 2"
    using sample_first_slab [of 2 7 ?c 32 44] by (simp add: first_slab_def)
  have pg: "slab_pages ?c 0x10000 (unat (drop_bit 12 ?vm)) 1 (slab ?k)"
    by (simp add: slab_pages_def sample_slab_defs)
  obtain t u where t: "kmem_object_free ?c ?vm (slab ?k) = Some t" "kmem_object_alloc ?c t = Some (Some ?vm, u)"
    "pool_frame ?c 0x10000 (slab ?k) t"
    by (rule free_then_alloc [OF fs _ _ _ _ pg]) simp_all
  then have t': "kmem_object_free ?c 0x1004c (slab ?k) = Some t" "kmem_object_alloc ?c t = Some (Some 0x1004c, u)" by simp_all
  let ?k1 = "?k\<lparr>slab := t, mms := (mms ?k)(cur_mm ?k := zero_mm\<lparr>mm_size := mm_size zero_mm - 0x2000, map_count := map_count zero_mm - 1\<rparr>)\<rparr>"
  have 1: "do_munmap 0x6000 0x2000 ?k = Some (1, ?k1)"
    by (rule do_munmap_anonymous [where xs = "[0x3000, 0x1004c]" and vm = "0x1004c" and c = ?c])
      (simp_all add: t'(1) [simplified] sample_find zero_area_def zero_mm_def)
  obtain k2 where 2: "do_mmap 0 None 0x9000 0x9000 7 0x10 0 ?k1 = Some (1, k2)"
    using t'(2) pool_frame_keeps(1) [OF t(3)]
    by (simp add: do_mmap_def page_round_def alloc_object_def upd_vm_def upd_mm_def cur_mm_def first_area_def mm_at_def area_at_def
        in_paging_def zeromap_page_range_def zeromap_loop.simps insert_vm_struct_def zero_mm_def zero_area_def sample_kernel_def Let_def)
  have a: "alloc_object (vm_area_cachep (slab ?k1)) ?k1 = Some (Some 0x1004c, ?k1\<lparr>slab := u\<rparr>)"
    using t'(2) pool_frame_keeps(1) [OF t(3)] by (simp add: alloc_object_def)
  have "mm_at (cur_mm ?k1) ?k1 = Some (zero_mm\<lparr>mm_size := mm_size zero_mm - 0x2000, map_count := map_count zero_mm - 1\<rparr>)"
    by (simp add: cur_mm_def mm_at_def sample_kernel_def)
  from do_mmap_anonymous(1) [OF 2 a this] have "\<forall>x \<in> set ([] @ [0x1004c]). \<not> covers (areas k2) (0xa000 - vm_start (areas k2 0x3000)) x"
    by (simp add: zero_mm_def zero_area_def covers_def new_area_def page_round_def)
  note cov = this
  have "find_vm_area (cur_mm k2) 0xa000 k2 = None \<and> do_no_page 0xa000 k2 = None"
  proof (rule munmap_then_mmap_hangs [where h = "0x3000" and xs = "[]" and ys = "[]" and j = 1, OF _ _ _ _ _ _ _ fs _ _ _ _ _ 1 2 cov])
    show "area_list (areas ?k) (mmap zero_mm) (0x3000 # [] @ 0x1004c # [])" by (simp add: zero_mm_def zero_area_def)
    show "slab_pages ?c 0x10000 (unat (drop_bit 12 (0x1004c :: u32))) 1 (slab ?k)" using pg by simp
  qed (simp_all add: sample_find zero_area_def)
  then have "do_no_page 0xa000 k2 = None" by (rule conjunct2)
  with 1 2 show ?thesis by blast
qed


lemma sample_present: "pgd_present sample_ram 0x6000" "pte_of sample_ram 0x6000 = None"
proof -
  have "pgd_index 0x6000 = 0" "pte_index 0x6000 = 0x18" by (simp_all add: pgd_index_def pte_index_def)
  then show "pgd_present sample_ram 0x6000" "pte_of sample_ram 0x6000 = None"
    using sample_rd32 [of "0x100018"] by (simp_all add: sample_dir pte_of_def pte_at_def)
qed

theorem anonymous_fault_maps_page_witness:
  "\<exists>k'. do_page_fault 4 0x6000 (sample_kernel sample_ram sample_vfs None) = Some k'
    \<and> pte_of (mem k') 0x6000 = Some (frame_addr 4098 OR PAGE_ATTR) \<and> pte_of (mem k') 0x5000 = Some 0x200005"
proof -
  let ?k = "sample_kernel sample_ram sample_vfs None"
  obtain b where b: "alloc_one_page (pages (slab ?k)) = Some (Some 4098, b)" using sample_frame by blast
  have "\<exists>k'. do_page_fault 4 0x6000 ?k = Some k' \<and> pte_of (mem k') 0x6000 = Some (frame_addr 4098 OR PAGE_ATTR)
    \<and> (\<forall>w. \<not> same_page 0x6000 w \<longrightarrow> pte_of (mem k') w = pte_of (mem ?k) w)
    \<and> (\<forall>a. in_frame 4098 a \<longrightarrow> mem k' a = mem ?k a) \<and> pages (slab k') = b \<and> areas k' = areas ?k \<and> vfs k' = vfs ?k"
    by (rule anonymous_fault_maps_page [where vm = "0x1004c", OF _ _ _ _ _ _ _ b])
      (simp_all add: sample_find sample_present sample_dir_ok sample_no_table zero_area_def)
  then obtain k' where "do_page_fault 4 0x6000 ?k = Some k'" "pte_of (mem k') 0x6000 = Some (frame_addr 4098 OR PAGE_ATTR)"
    "\<forall>w. \<not> same_page 0x6000 w \<longrightarrow> pte_of (mem k') w = pte_of sample_ram w" by auto
  moreover from this(3) have "pte_of (mem k') 0x5000 = Some 0x200005" using sample_pte by (simp add: same_page_def)
  ultimately show ?thesis by blast
qed

text \<open>Memory in which frame 4098, which becomes the page table, holds an old word.\<close>

definition stale_ram :: ram where
  "stale_ram = wr32 0x1002000 0x300007 sample_ram"

lemma stale_same: "\<forall>a. \<not> in_frame 4098 a \<longrightarrow> stale_ram a = sample_ram a"
proof (intro allI impI)
  fix a assume "\<not> in_frame 4098 a"
  moreover have "in_frame 4098 0x1002000" "in_frame 4098 0x1002001" "in_frame 4098 0x1002002" "in_frame 4098 0x1002003"
    by (simp_all add: in_frame_def)
  ultimately show "stale_ram a = sample_ram a" by (auto simp: stale_ram_def wr32_def)
qed

lemma stale_tables: "dir_ok stale_ram" "no_table 4098 stale_ram" "pgd_present stale_ram w \<longleftrightarrow> pgd_index w = 0"
proof -
  have n: "no_table 4098 sample_ram" by (rule sample_no_table) simp_all
  note same_tables [OF n stale_same]
  then show "dir_ok stale_ram" "no_table 4098 stale_ram" "pgd_present stale_ram w \<longleftrightarrow> pgd_index w = 0"
    by (simp_all add: sample_dir_ok sample_dir)
qed

theorem fault_uses_stale_table_witness:
  "\<exists>k'. do_page_fault 4 0x800000 ((sample_kernel stale_ram sample_vfs None)
      \<lparr>areas := (areas (sample_kernel stale_ram sample_vfs None))(0x1004c := zero_area\<lparr>vm_end := 0x900000\<rparr>)\<rparr>) = Some k'
    \<and> pte_of (mem k') 0x800000 = Some 0x300007"
proof -
  let ?k = "(sample_kernel stale_ram sample_vfs None)
      \<lparr>areas := (areas (sample_kernel stale_ram sample_vfs None))(0x1004c := zero_area\<lparr>vm_end := 0x900000\<rparr>)\<rparr>"
  obtain b where b: "alloc_one_page (pages (slab ?k)) = Some (Some 4098, b)" using sample_frame [of stale_ram sample_vfs None] by auto
  have i: "pgd_index 0x800000 = 8" "pte_index 0x800000 = 0" by (simp_all add: pgd_index_def pte_index_def)
  have st: "rd32 stale_ram (frame_addr 4098 + pte_index 0x800000) = 0x300007" by (simp add: i frame_addr_def stale_ram_def)
  have f: "find_vm_area (cur_mm ?k) 0x800000 ?k = Some 0x1004c"
    using find_vm_loop_list [of ?k "0x1004c" "[0x1004c]" "0x800000"]
    by (simp add: find_vm_area_def first_area_def mm_at_def area_at_def covers_def zero_area_def cur_mm_def sample_kernel_def zero_mm_def)
  from fault_uses_stale_table [of 4 ?k "0x800000" "0x1004c" 4098 b] show ?thesis
    using f b st by (auto simp: stale_tables i zero_area_def)
qed

text \<open>Twenty free buffers and a file in the blocks 10 to 16.\<close>

definition big_cache :: bcache where
  "big_cache = blank_cache\<lparr>free_list_table := Some 0,
     bufs := (\<lambda>b. blank_buf\<lparr>free_next := Some (if b = 19 then 0 else b + 1), free_prev := Some (if b = 0 then 19 else b - 1)\<rparr>)\<rparr>"

definition big_vfs :: vfs where
  "big_vfs = sample_vfs\<lparr>vfs.fs := (vfs.fs sample_vfs)\<lparr>cache_of := big_cache,
     inodes := (\<lambda>_. zero_inode\<lparr>block_area := [10, 11, 12, 13, 14, 15, 16, 0, 0]\<rparr>)\<rparr>\<rparr>"

lemma big_spare: "spare 12 big_cache"
proof -
  have "[0..<20] = [0, 1, 2, 3, 4, 5, 6, 7, 8, 9, 10, 11, 12, 13, 14, 15, 16, 17, 18, 19 :: nat]" by (simp add: upt_rec)
  then have "cache_ok big_cache [0..<20]"
    by (simp add: cache_ok_def big_cache_def blank_cache_def blank_buf_def fresh_buf_def)
  then show ?thesis unfolding spare_def by (intro exI [of _ "[0..<20]"]) simp
qed



lemma sample_new_area: "\<exists>k'. alloc_object (vm_area_cachep (slab (sample_kernel m v f))) (sample_kernel m v f) = Some (Some 0x10078, k')"
proof -
  have "first_slab 0x2000 0x10000 (0x10000 + ucast (32 :: u16)) 44 7 (slab (sample_kernel m v f)) 2"
    using sample_first_slab [of 2 7 "0x2000" 32 44] by (simp add: first_slab_def)
  from take_object_next [OF this] first_slab_partial [OF this] show ?thesis by (auto simp: alloc_object_def)
qed

theorem set_brk_maps_nothing_witness:
  "\<exists>t. set_brk 0x9002 (sample_kernel sample_ram sample_vfs None) = Some (0x9002, t)
    \<and> vm_start (areas t 0x10078) = 0x9002 \<and> (\<forall>v. \<not> covers (areas t) v 0x10078)"
proof -
  let ?k = "sample_kernel sample_ram sample_vfs None"
  obtain k' where a: "alloc_object (vm_area_cachep (slab ?k)) ?k = Some (Some 0x10078, k')" using sample_new_area by blast
  have "\<exists>t. set_brk 0x9002 ?k = Some (0x9002, t) \<and> vm_next (areas t (mmap zero_mm)) = 0x10078 \<and> vm_start (areas t 0x10078) = 0x9002
    \<and> (\<forall>v. \<not> covers (areas t) v 0x10078) \<and> paging_of t = paging_of k'"
    by (rule set_brk_maps_nothing [where xs = "[0x1004c]", OF _ _ _ _ _ _ _ _ a])
      (simp_all add: zero_mm_def brk_round_def covers_def zero_area_def)
  then show ?thesis by blast
qed

end
