(* ===== verification/Process.thy ===== *)
theory Process
  imports Vm_Area
begin

unbundle bit_operations_syntax

section \<open>Creating and ending processes\<close>

text \<open>
  Models kernel/fork.c, kernel/process.c and kernel/exit.c on the state of \<open>Vm_Area\<close>. The
  pointers of a task structure to files and inodes are numbers: file or inode \<open>n\<close> is the
  pointer \<open>n + 1\<close>, 0 the null pointer. The file system works on the files, root and
  working directory of the current task; \<open>with_files\<close> hands them to it and takes them back.
  \<open>sw\<close> is the address of the function \<open>exit_switch\<close>; the jump to user mode at its end is
  assembly and left out, as is what is printed.
\<close>

subsection \<open>Data\<close>

abbreviation KERNEL_CS :: u32 where "KERNEL_CS \<equiv> 0x08"
abbreviation KERNEL_DS :: u32 where "KERNEL_DS \<equiv> 0x10"
abbreviation USER_CS :: u32 where "USER_CS \<equiv> 0xf"
abbreviation USER_DS :: u32 where "USER_DS \<equiv> 0x17"
abbreviation FIRST_TSS_ENTRY :: nat where "FIRST_TSS_ENTRY \<equiv> 3"
abbreviation FIRST_LDT_ENTRY :: nat where "FIRST_LDT_ENTRY \<equiv> 4"
abbreviation TASK_SIZE :: u32 where "TASK_SIZE \<equiv> 0x4000000"
abbreviation TASK_LIMIT :: u32 where "TASK_LIMIT \<equiv> 0x4000"

text \<open>Offsets of \<open>tss\<close> and \<open>ldt_table\<close> in a task structure.\<close>

abbreviation TSS_OFFSET :: u32 where "TSS_OFFSET \<equiv> 320"
abbreviation LDT_OFFSET :: u32 where "LDT_OFFSET \<equiv> 440"

definition TSS :: "nat \<Rightarrow> u32" where
  "TSS nr = push_bit 4 (of_nat nr) + of_nat (FIRST_TSS_ENTRY * 8)"

definition LDT :: "nat \<Rightarrow> u32" where
  "LDT nr = push_bit 4 (of_nat nr) + of_nat (FIRST_LDT_ENTRY * 8)"

definition set_tss_ldt_desc :: "u32 \<Rightarrow> u32 \<Rightarrow> u8 \<Rightarrow> ram \<Rightarrow> ram" where
  "set_tss_ldt_desc addr base type m =
     m(addr := 104, addr + 1 := 0, addr + 2 := ucast base, addr + 3 := ucast (drop_bit 8 base),
       addr + 4 := ucast (drop_bit 16 base), addr + 5 := type, addr + 6 := 0, addr + 7 := ucast (drop_bit 24 base))"

definition set_tss_desc :: "u32 \<Rightarrow> u32 \<Rightarrow> ram \<Rightarrow> ram" where
  "set_tss_desc addr base m = set_tss_ldt_desc addr base 0x89 m"

definition set_ldt_desc :: "u32 \<Rightarrow> u32 \<Rightarrow> ram \<Rightarrow> ram" where
  "set_ldt_desc addr base m = set_tss_ldt_desc addr base 0x82 m"

definition in_sched :: "(sched \<Rightarrow> sched option) \<Rightarrow> kernel \<Rightarrow> kernel option" where
  "in_sched f k = do { s \<leftarrow> f (sch k); Some (k\<lparr>sch := s\<rparr>) }"

definition upd_tss :: "u32 \<Rightarrow> (thread_struct \<Rightarrow> thread_struct) \<Rightarrow> kernel \<Rightarrow> kernel option" where
  "upd_tss p f k = in_sched (upd_task p (\<lambda>t. t\<lparr>tss := f (tss t)\<rparr>)) k"

text \<open>Pointers to files and inodes.\<close>

definition obj_of :: "u32 \<Rightarrow> nat option" where
  "obj_of p = (if p = 0 then None else Some (unat p - 1))"

definition ptr_of :: "nat option \<Rightarrow> u32" where
  "ptr_of q = (case q of None \<Rightarrow> 0 | Some n \<Rightarrow> of_nat (n + 1))"

definition cur_task :: "kernel \<Rightarrow> task_struct" where
  "cur_task k = tasks (sch k) (current (sch k))"

definition load_files :: "kernel \<Rightarrow> vfs" where
  "load_files k = (vfs k)\<lparr>vfs.filps := map obj_of (task_struct.filps (cur_task k)),
     vfs.fs := (vfs.fs (vfs k))\<lparr>cur_euid := euid (cur_task k), cur_egid := egid (cur_task k), cur_umask := umask (cur_task k),
       cur_root := obj_of (t_root (cur_task k)), cur_pwd := obj_of (t_pwd (cur_task k))\<rparr>\<rparr>"

definition store_files :: "vfs \<Rightarrow> kernel \<Rightarrow> kernel option" where
  "store_files v k = in_sched (upd_task (current (sch k)) (\<lambda>t. t\<lparr>task_struct.filps := map ptr_of (vfs.filps v),
     t_root := ptr_of (cur_root (vfs.fs v)), t_pwd := ptr_of (cur_pwd (vfs.fs v))\<rparr>)) (k\<lparr>vfs := v\<rparr>)"

definition with_files :: "(vfs \<Rightarrow> ('a \<times> vfs) option) \<Rightarrow> kernel \<Rightarrow> ('a \<times> kernel) option" where
  "with_files f k = do {
     (r, v) \<leftarrow> f (load_files k);
     k \<leftarrow> store_files v k;
     Some (r, k) }"

subsection \<open>Process numbers\<close>

text \<open>The loop tests the entries 1 to 64 of a table with 64 entries. A table without a free slot
  is read behind its end.\<close>

fun empty_slot :: "nat \<Rightarrow> nat \<Rightarrow> u32 list \<Rightarrow> nat option" where
  "empty_slot 0 i t = None"
| "empty_slot (Suc n) i t = do {
     p \<leftarrow> cell t (i + 1);
     if p = 0 then Some (i + 1) else empty_slot n (i + 1) t }"

text \<open>The test is \<open>(++task_last_pid) && 0xffff8000\<close>.\<close>

definition find_empty_process :: "kernel \<Rightarrow> (nat \<times> kernel) option" where
  "find_empty_process k = do {
     let pid = task_last_pid k + 1;
     let pid = (if pid \<noteq> 0 then 1 else pid);
     free_task \<leftarrow> empty_slot NR_TASKS 0 (task_table k);
     Some (free_task, k\<lparr>task_last_pid := pid + 1, active_task := active_task k + 1\<rparr>) }"

subsection \<open>Copying a process\<close>

text \<open>The two words of a segment descriptor of a task.\<close>

definition code_desc :: "u32 \<Rightarrow> u32 \<times> u32" where
  "code_desc base = (TASK_LIMIT + push_bit 16 base,
     0x00c0fa00 + (base AND 0xff000000) + (drop_bit 16 base AND 0x00ff))"

definition data_desc :: "u32 \<Rightarrow> u32 \<times> u32" where
  "data_desc base = (TASK_LIMIT + push_bit 16 base,
     0xc0f200 + (base AND 0xff000000) + (drop_bit 16 base AND 0x00ff))"

definition copy_mm :: "u32 \<Rightarrow> kernel \<Rightarrow> kernel option" where
  "copy_mm p k = do {
     old_mm \<leftarrow> mm_at (cur_mm k) k;
     (r, k) \<leftarrow> alloc_object (mm_cachep (slab k)) k;
     new_mm \<leftarrow> r;
     k \<leftarrow> upd_mm new_mm (\<lambda>_. old_mm) k;
     k \<leftarrow> in_sched (upd_task p (\<lambda>t. t\<lparr>t_mm := new_mm\<rparr>)) k;
     k \<leftarrow> upd_mm new_mm (\<lambda>m. m\<lparr>mmap := 0, share_mmap := 0\<rparr>) k;
     (r, k) \<leftarrow> alloc_object (vm_area_cachep (slab k)) k;
     code_vm \<leftarrow> r;
     k \<leftarrow> upd_mm new_mm (\<lambda>m. m\<lparr>mmap := code_vm\<rparr>) k;
     t \<leftarrow> task_at p (sch k);
     let base = TASK_SIZE * t_pid t;
     k \<leftarrow> upd_vm code_vm (\<lambda>a. a\<lparr>vm_start := base, vm_end := TASK_LIMIT * 4096, vm_task := p, vm_file := None\<rparr>) k;
     l \<leftarrow> put_cell 1 (code_desc base) (ldt_table t);
     l \<leftarrow> put_cell 2 (data_desc base) l;
     k \<leftarrow> in_sched (upd_task p (\<lambda>t. t\<lparr>ldt_table := l\<rparr>)) k;
     map_option snd (copy_page_tables p k) }"

fun share_files :: "nat \<Rightarrow> u32 list \<Rightarrow> vfs \<Rightarrow> vfs option" where
  "share_files 0 fps v = Some v"
| "share_files (Suc n) fps v = do {
     q \<leftarrow> cell fps (NR_FILE - Suc n);
     let v = (case obj_of q of None \<Rightarrow> v | Some f \<Rightarrow> upd_file f (\<lambda>x. x\<lparr>f_used := f_used x + 1\<rparr>) v);
     share_files n fps v }"

definition copy_files :: "u32 \<Rightarrow> kernel \<Rightarrow> kernel option" where
  "copy_files p k = do {
     t \<leftarrow> task_at p (sch k);
     v \<leftarrow> share_files NR_FILE (task_struct.filps t) (vfs k);
     Some (k\<lparr>vfs := v\<rparr>) }"

definition hold_inode :: "u32 \<Rightarrow> kernel \<Rightarrow> kernel" where
  "hold_inode q k = (case obj_of q of None \<Rightarrow> k
     | Some i \<Rightarrow> k\<lparr>vfs := (vfs k)\<lparr>vfs.fs := upd_inode i (\<lambda>x. x\<lparr>i_count := i_count x + 1\<rparr>) (vfs.fs (vfs k))\<rparr>\<rparr>)"

definition copy_fs :: "kernel \<Rightarrow> kernel" where
  "copy_fs k = hold_inode (t_root (cur_task k)) (hold_inode (t_pwd (cur_task k)) k)"

definition thread_regs :: "u32 \<Rightarrow> nat \<Rightarrow> u32 \<Rightarrow> u32 \<Rightarrow> u32 \<Rightarrow> u32 \<Rightarrow> thread_struct \<Rightarrow> thread_struct" where
  "thread_regs sw nr c d ip fl r = r\<lparr>cs := KERNEL_CS, es := KERNEL_DS, ds := KERNEL_DS, ss := KERNEL_DS,
     gs := KERNEL_DS, thread_struct.fs := KERNEL_DS, back_link := 0, trace_bitmap := 0x80000000, eflags := fl, eip := sw,
     esp := kernel_stack_page r + 4096, ecx := c, edx := d, esi := 0, edi := 0, ebp := 0, eax := 0,
     ss0 := KERNEL_DS, esp0 := kernel_stack_page r + 4096, ss1 := 0, esp1 := 0, ss2 := 0, esp2 := 0,
     tr := TSS nr, ldt := LDT nr, cache_eip := ip\<rparr>"

definition copy_thread :: "u32 \<Rightarrow> nat \<Rightarrow> u32 \<Rightarrow> u32 \<Rightarrow> u32 \<Rightarrow> u32 \<Rightarrow> u32 \<Rightarrow> kernel \<Rightarrow> kernel option" where
  "copy_thread sw nr p c d ip fl k = do {
     k \<leftarrow> upd_tss p (thread_regs sw nr c d ip fl) k;
     let m = set_tss_desc (gdt k + 8 * of_nat (nr * 2 + FIRST_TSS_ENTRY)) (p + TSS_OFFSET) (mem k);
     let m = set_ldt_desc (gdt k + 8 * of_nat (nr * 2 + FIRST_LDT_ENTRY)) (p + LDT_OFFSET) m;
     Some (k\<lparr>mem := m\<rparr>) }"

definition in_pages :: "(buddy \<Rightarrow> ('a \<times> buddy) option) \<Rightarrow> kernel \<Rightarrow> ('a \<times> kernel) option" where
  "in_pages f k = do {
     (r, b) \<leftarrow> f (pages (slab k));
     Some (r, k\<lparr>slab := (slab k)\<lparr>pages := b\<rparr>\<rparr>) }"

definition bad_fork_free :: "u32 \<Rightarrow> u32 \<Rightarrow> kernel \<Rightarrow> (u32 \<times> kernel) option" where
  "bad_fork_free new_kernel_stack p k = do {
     (_, k) \<leftarrow> in_pages (\<lambda>b. map_option (\<lambda>b. ((), b)) (free_page new_kernel_stack b)) k;
     (_, k) \<leftarrow> in_pages (\<lambda>b. map_option (\<lambda>b. ((), b)) (free_page p b)) k;
     Some (0, k) }"

text \<open>The task structure of the child before its memory and thread are set up.\<close>

definition child_task :: "nat \<Rightarrow> u32 \<Rightarrow> u32 \<Rightarrow> u32 \<Rightarrow> task_struct \<Rightarrow> task_struct" where
  "child_task nr now kstack ustack t = t\<lparr>t_state := TASK_INTERRUPTIBLE, t_pid := of_nat nr, start_time := now,
     tss := (tss t)\<lparr>kernel_stack_page := kstack, user_stack_page := ustack\<rparr>, t_next := 0, t_prev := 0\<rparr>"

text \<open>The arguments \<open>fs\<close>, \<open>es\<close>, \<open>ds\<close>, \<open>cs\<close>, \<open>esp\<close> and \<open>ss\<close> of the call are not used by the code.\<close>

definition do_fork :: "u32 \<Rightarrow> u32 \<Rightarrow> u32 \<Rightarrow> u32 \<Rightarrow> u32 \<Rightarrow> u32 \<Rightarrow> kernel \<Rightarrow> (u32 \<times> kernel) option" where
  "do_fork sw b c d ip fl k = do {
     (r, k) \<leftarrow> alloc_object (task_struct_cachep (slab k)) k;
     case r of
       None \<Rightarrow> Some (0, k)
     | Some p \<Rightarrow> do {
         (new_kernel_stack, k) \<leftarrow> in_pages get_free_page k;
         (new_user_stack, k) \<leftarrow> in_pages get_free_page k;
         if new_kernel_stack = 0 then bad_fork_free new_kernel_stack p k
         else do {
           (nr, k) \<leftarrow> find_empty_process k;
           if nr = 0 then bad_fork_free new_kernel_stack p k
           else do {
             k \<leftarrow> in_sched (upd_task p (\<lambda>_. child_task nr (jiffies k) new_kernel_stack new_user_stack (cur_task k))) k;
             k \<leftarrow> in_sched (set_nice p (sint b)) k;
             tab \<leftarrow> put_cell nr p (task_table k);
             k \<leftarrow> copy_mm p (k\<lparr>task_table := tab\<rparr>);
             k \<leftarrow> copy_thread sw nr p c d ip fl k;
             let k = copy_fs k;
             k \<leftarrow> copy_files p k;
             k \<leftarrow> in_sched (sched_fork p) k;
             t \<leftarrow> task_at p (sch k);
             Some (t_pid t, k) } } } }"

subsection \<open>Entering user mode\<close>

definition exit_switch :: "u32 \<Rightarrow> kernel \<Rightarrow> kernel option" where
  "exit_switch sw k = do {
     k \<leftarrow> upd_tss (t_prev (cur_task k)) (\<lambda>r. r\<lparr>eip := sw\<rparr>) k;
     upd_tss (current (sch k)) (\<lambda>r. r\<lparr>cs := USER_CS, es := USER_DS, ds := USER_DS, ss := USER_DS, gs := USER_DS,
       thread_struct.fs := USER_DS, esp := user_stack_page r + 4096, eip := sw\<rparr>) k }"

definition start_thread :: "u32 \<Rightarrow> u32 \<Rightarrow> kernel \<Rightarrow> kernel option" where
  "start_thread p ip k = upd_tss p (\<lambda>r. r\<lparr>cs := USER_CS, ds := USER_DS, es := USER_DS, ss := USER_DS,
     thread_struct.fs := USER_DS, gs := USER_DS, eip := ip\<rparr>) k"

subsection \<open>Ending a process\<close>

fun close_files :: "nat \<Rightarrow> kernel \<Rightarrow> kernel option" where
  "close_files 0 k = Some k"
| "close_files (Suc n) k = do {
     let i = NR_FILE - Suc n;
     q \<leftarrow> cell (task_struct.filps (cur_task k)) i;
     k \<leftarrow> (if q \<noteq> 0 then map_option snd (with_files (do_close i) k) else Some k);
     close_files n k }"

definition put_inode :: "u32 \<Rightarrow> kernel \<Rightarrow> kernel option" where
  "put_inode q k = do {
     s \<leftarrow> iput (obj_of q) (vfs.fs (vfs k));
     Some (k\<lparr>vfs := (vfs k)\<lparr>vfs.fs := s\<rparr>\<rparr>) }"

text \<open>\<open>regs\<close> are the registers that the task switch in \<open>schedule\<close> saves. When another task is
  chosen, the call returns only if the task runs again.\<close>

definition do_exit :: "thread_struct \<Rightarrow> kernel \<Rightarrow> (int \<times> kernel) option" where
  "do_exit regs k = do {
     let me = current (sch k);
     k \<leftarrow> free_page_tables me k;
     k \<leftarrow> close_files NR_FILE k;
     k \<leftarrow> put_inode (t_pwd (cur_task k)) k;
     k \<leftarrow> in_sched (upd_task me (\<lambda>t. t\<lparr>t_pwd := 0\<rparr>)) k;
     k \<leftarrow> put_inode (t_root (cur_task k)) k;
     k \<leftarrow> in_sched (upd_task me (\<lambda>t. t\<lparr>t_root := 0, t_state := TASK_STOPPED\<rparr>)) k;
     k \<leftarrow> (if t_prev (cur_task k) \<noteq> 0
       then in_sched (upd_task (t_prev (cur_task k)) (\<lambda>t. t\<lparr>t_next := t_next (cur_task k)\<rparr>)) k else Some k);
     k \<leftarrow> (if t_next (cur_task k) \<noteq> 0
       then in_sched (upd_task (t_next (cur_task k)) (\<lambda>t. t\<lparr>t_prev := t_prev (cur_task k)\<rparr>)) k else Some k);
     k \<leftarrow> in_sched (sched_exit me) k;
     k \<leftarrow> in_sched (schedule regs) k;
     Some (1, k) }"

subsection \<open>Properties\<close>

lemma empty_slot_least:
  assumes "i + 1 \<le> j" and "j < i + 1 + n" and "j < length t" and "t ! j = 0" and "\<forall>l. i < l \<and> l < j \<longrightarrow> t ! l \<noteq> 0"
  shows "empty_slot n i t = Some j"
  using assms
proof (induction n arbitrary: i)
  case (Suc n)
  show ?case
  proof (cases "j = i + 1")
    case False
    then have "t ! (i + 1) \<noteq> 0" using Suc.prems by auto
    moreover have "empty_slot n (i + 1) t = Some j" using False Suc.prems by (intro Suc.IH) auto
    ultimately show ?thesis using False Suc.prems by (simp add: cell_def)
  qed (use Suc.prems in \<open>simp add: cell_def\<close>)
qed simp

lemma empty_slot_full:
  "\<forall>l. i < l \<and> l < length t \<longrightarrow> t ! l \<noteq> 0 \<Longrightarrow> empty_slot n i t = None"
  by (induction n arbitrary: i) (auto simp: cell_def)

text \<open>
  \<open>find_empty_process\<close> returns the first free entry of the task table behind entry 0. The counter
  of process numbers is set back at each call, because the test for its upper bits is a
  logical one: it is 2 afterwards, whatever it was.
\<close>
theorem find_empty_process_least:
  assumes "length (task_table k) = NR_TASKS" and "0 < i" and "i < NR_TASKS" and "task_table k ! i = 0"
    and "\<forall>j. 0 < j \<and> j < i \<longrightarrow> task_table k ! j \<noteq> 0" and "task_last_pid k \<noteq> - 1"
  shows "find_empty_process k = Some (i, k\<lparr>task_last_pid := 2, active_task := active_task k + 1\<rparr>)"
proof -
  have "task_last_pid k + 1 \<noteq> 0" using assms(6) by (metis add_eq_0_iff2)
  then show ?thesis
    using assms empty_slot_least [of 0 i NR_TASKS "task_table k"] by (simp add: find_empty_process_def Let_def)
qed

text \<open>
  With 63 processes the search reads behind the end of the task table, so that creating a
  process does not return an error; what it finds there is not followed.
\<close>
theorem full_table_overruns:
  assumes "length (task_table k) = NR_TASKS" and "\<forall>j. 0 < j \<and> j < NR_TASKS \<longrightarrow> task_table k ! j \<noteq> 0"
  shows "find_empty_process k = None"
  using assms empty_slot_full [of 0 "task_table k" NR_TASKS] by (simp add: find_empty_process_def Let_def)

text \<open>What the processor reads from a system descriptor in the table.\<close>

definition desc_base :: "ram \<Rightarrow> u32 \<Rightarrow> u32" where
  "desc_base m a = word32 [m (a + 2), m (a + 3), m (a + 4), m (a + 7)] 0"

definition desc_limit :: "ram \<Rightarrow> u32 \<Rightarrow> u16" where
  "desc_limit m a = word16 [m a, m (a + 1)] 0"

lemma set_desc_read:
  "desc_base (set_tss_ldt_desc a b ty m) a = b" "desc_limit (set_tss_ldt_desc a b ty m) a = 104"
  "set_tss_ldt_desc a b ty m (a + 5) = ty"
proof -
  have "word32 (bytes32 b @ []) 0 = b" by (rule word32_bytes32)
  then show "desc_base (set_tss_ldt_desc a b ty m) a = b"
    by (simp add: desc_base_def set_tss_ldt_desc_def bytes32_def)
  show "desc_limit (set_tss_ldt_desc a b ty m) a = 104" "set_tss_ldt_desc a b ty m (a + 5) = ty"
    by (simp_all add: desc_limit_def set_tss_ldt_desc_def word16_def)
qed

lemma set_desc_other:
  assumes "\<And>i. i < 8 \<Longrightarrow> x \<noteq> a + of_nat i"
  shows "set_tss_ldt_desc a b ty m x = m x"
  using assms [of 0] assms [of 1] assms [of 2] assms [of 3] assms [of 4] assms [of 5] assms [of 6] assms [of 7]
  by (simp add: set_tss_ldt_desc_def)

lemma set_desc_next:
  assumes "i < 8"
  shows "set_tss_ldt_desc (a + 8) b ty m (a + of_nat i) = m (a + of_nat i)"
proof (rule set_desc_other)
  fix j :: nat
  assume "j < 8"
  have "(of_nat i :: u32) \<noteq> of_nat (8 + j)"
  proof
    assume "(of_nat i :: u32) = of_nat (8 + j)"
    then have "unat (of_nat i :: u32) = unat (of_nat (8 + j) :: u32)" by (simp only:)
    then have "i = 8 + j" using assms \<open>j < 8\<close> by (simp only: unat_of_nat) simp
    then show False using assms by simp
  qed
  then show "a + of_nat i \<noteq> a + 8 + of_nat j" by (simp add: add.assoc)
qed

lemma desc_next:
  "desc_base (set_tss_ldt_desc (a + 8) b ty m) a = desc_base m a"
  "desc_limit (set_tss_ldt_desc (a + 8) b ty m) a = desc_limit m a"
  "set_tss_ldt_desc (a + 8) b ty m (a + 5) = m (a + 5)"
  using set_desc_next [of 0 a b ty m] set_desc_next [of 1 a b ty m] set_desc_next [of 2 a b ty m] set_desc_next [of 3 a b ty m]
    set_desc_next [of 4 a b ty m] set_desc_next [of 5 a b ty m] set_desc_next [of 7 a b ty m]
  by (simp_all add: desc_base_def desc_limit_def)

lemma selector_offset:
  "TSS nr = 8 * of_nat (nr * 2 + FIRST_TSS_ENTRY)" "LDT nr = 8 * of_nat (nr * 2 + FIRST_LDT_ENTRY)" "LDT nr = TSS nr + 8"
  by (simp_all add: TSS_def LDT_def push_bit_eq_mult algebra_simps)

text \<open>
  C27. \<open>copy_thread\<close> makes the child ready to be switched to: the two descriptors that its selectors
  \<open>tr\<close> and \<open>ldt\<close> stand for lead to the task state segment and to the local descriptor table
  in its task structure; the rest of memory is unchanged; it starts in \<open>exit_switch\<close> on its
  own kernel stack with the caller's return address put aside.
\<close>
theorem copy_thread_descriptors:
  assumes "p \<noteq> 0"
  shows "\<exists>k'. copy_thread sw nr p c d ip fl k = Some k'
    \<and> (let g = gdt k + tr (tss (tasks (sch k') p)) in
         desc_base (mem k') g = p + TSS_OFFSET \<and> desc_limit (mem k') g = 104 \<and> mem k' (g + 5) = 0x89)
    \<and> (let g = gdt k + ldt (tss (tasks (sch k') p)) in
         desc_base (mem k') g = p + LDT_OFFSET \<and> desc_limit (mem k') g = 104 \<and> mem k' (g + 5) = 0x82)
    \<and> (\<forall>x. (\<forall>i < 16. x \<noteq> gdt k + TSS nr + of_nat i) \<longrightarrow> mem k' x = mem k x)
    \<and> eip (tss (tasks (sch k') p)) = sw \<and> cache_eip (tss (tasks (sch k') p)) = ip
    \<and> esp (tss (tasks (sch k') p)) = kernel_stack_page (tss (tasks (sch k) p)) + 4096
    \<and> (\<forall>q. q \<noteq> p \<longrightarrow> tasks (sch k') q = tasks (sch k) q)"
proof -
  let ?g = "gdt k + TSS nr"
  let ?m = "set_tss_ldt_desc (?g + 8) (p + LDT_OFFSET) 0x82 (set_tss_ldt_desc ?g (p + TSS_OFFSET) 0x89 (mem k))"
  let ?s = "(sch k)\<lparr>tasks := (tasks (sch k))(p := (tasks (sch k) p)\<lparr>tss := thread_regs sw nr c d ip fl (tss (tasks (sch k) p))\<rparr>)\<rparr>"
  have run: "copy_thread sw nr p c d ip fl k = Some (k\<lparr>sch := ?s, mem := ?m\<rparr>)"
    using assms
    by (simp add: copy_thread_def upd_tss_def in_sched_def upd_task_def set_tss_desc_def set_ldt_desc_def Let_def selector_offset algebra_simps)
  have "?m x = mem k x" if "\<forall>i < 16. x \<noteq> ?g + of_nat i" for x
  proof -
    have "x \<noteq> ?g + 8 + of_nat i" if "i < 8" for i
      using \<open>\<forall>i < 16. x \<noteq> ?g + of_nat i\<close> [rule_format, of "8 + i"] that by (simp add: add.assoc)
    then show ?thesis using that by (simp add: set_desc_other)
  qed
  then show ?thesis
    using run set_desc_read(3) [of "?g + 8" "p + LDT_OFFSET" "0x82" "set_tss_ldt_desc ?g (p + TSS_OFFSET) 0x89 (mem k)"]
    by (simp add: thread_regs_def Let_def selector_offset(3) set_desc_read desc_next add.assoc [symmetric])
qed

text \<open>The processor's view of a code or data segment: base, and the number of its last page.\<close>

definition seg_base :: "u32 \<times> u32 \<Rightarrow> u32" where
  "seg_base e = drop_bit 16 (fst e) OR push_bit 16 (snd e AND 0xff) OR (snd e AND 0xff000000)"

definition seg_last_page :: "u32 \<times> u32 \<Rightarrow> nat" where
  "seg_last_page e = unat ((fst e AND 0xffff) OR (snd e AND 0xf0000))"

lemma task_base:
  fixes pid defines "base \<equiv> TASK_SIZE * of_nat pid"
  shows "base AND 0xff000000 = base" and "m AND mask 26 = m \<Longrightarrow> base AND m = 0" and "push_bit 16 base = 0" and "drop_bit 16 base AND 0xff = 0"
proof -
  have b: "base = push_bit 26 (of_nat pid)" by (simp add: base_def push_bit_eq_mult mult.commute)
  have f: "(0xff000000 :: u32) = NOT (mask 24)" "(0xff :: u32) = mask 8" by (simp_all add: mask_eq_exp_minus_1)
  show "base AND 0xff000000 = base" unfolding b f(1) by (rule bit_word_eqI) (auto simp: bit_simps)
  have m: "base AND mask 26 = 0" unfolding b by (rule bit_word_eqI) (auto simp: bit_simps)
  show "base AND m = 0" if "m AND mask 26 = m"
  proof -
    have "base AND (m AND mask 26) = (base AND mask 26) AND m" by (simp only: ac_simps)
    then show ?thesis unfolding that m by simp
  qed
  show "push_bit 16 base = 0" unfolding b by (rule bit_word_eqI) (simp add: bit_simps)
  show "drop_bit 16 base AND 0xff = 0" unfolding b f(2) by (rule bit_word_eqI) (auto simp: bit_simps)
qed

lemma desc_fields:
  fixes pid defines "base \<equiv> TASK_SIZE * of_nat pid"
  assumes "t = 0xc0fa00 \<or> t = 0xc0f200" and "e = (TASK_LIMIT, t + base)"
  shows "seg_base e = base" and "seg_last_page e = 0x4000"
proof -
  have m: "m AND mask 26 = m \<Longrightarrow> base AND m = 0" for m unfolding base_def by (rule task_base(2))
  have t: "t AND mask 26 = t" using assms(2) by (auto simp: mask_eq_exp_minus_1)
  then have "base AND t = 0" by (rule m)
  then have "t + base = t OR base" by (simp add: disjunctive_add_eq_or and.commute)
  then have "(t + base) AND x = (t AND x) OR (base AND x)" for x by (simp add: bit.conj_disj_distrib2)
  moreover have "base AND 0xff = 0" "base AND 0xf0000 = 0" by (rule m, simp add: mask_eq_exp_minus_1)+
  moreover have "base AND 0xff000000 = base" unfolding base_def by (rule task_base(1))
  ultimately show "seg_base e = base" "seg_last_page e = 0x4000"
    using assms(2,3) by (auto simp: seg_base_def seg_last_page_def)
qed

text \<open>
  The segments of process \<open>pid\<close> start at \<open>pid\<close> times 64 MiB, as they should, but their limit is
  one page too high: the last page of the segments is the first one of the next process.
\<close>
theorem task_segments_overlap:
  assumes "e = code_desc (TASK_SIZE * of_nat pid) \<or> e = data_desc (TASK_SIZE * of_nat pid)"
  shows "seg_base e = TASK_SIZE * of_nat pid \<and> seg_base e + of_nat (seg_last_page e * 4096) = TASK_SIZE * of_nat (pid + 1)"
proof -
  have "e = (TASK_LIMIT, 0xc0fa00 + TASK_SIZE * of_nat pid) \<or> e = (TASK_LIMIT, 0xc0f200 + TASK_SIZE * of_nat pid)"
    using assms task_base [where pid = pid] by (auto simp: code_desc_def data_desc_def)
  then have "seg_base e = TASK_SIZE * of_nat pid" "seg_last_page e = 0x4000" using desc_fields by blast+
  then show ?thesis by (simp add: algebra_simps)
qed

subsection \<open>Page tables at exit\<close>

lemma wr32_rd32: "wr32 a (rd32 m a) m = m"
proof -
  have "(ucast (word32 [b0, b1, b2, b3] 0) :: u8) = b0" "(ucast (drop_bit 8 (word32 [b0, b1, b2, b3] 0)) :: u8) = b1"
    "(ucast (drop_bit 16 (word32 [b0, b1, b2, b3] 0)) :: u8) = b2" "(ucast (drop_bit 24 (word32 [b0, b1, b2, b3] 0)) :: u8) = b3" for b0 b1 b2 b3
    by (rule bit_word_eqI; auto simp: word32_def bit_simps dest: bit_imp_le_length)+
  then show ?thesis by (auto simp: wr32_def rd32_def fun_eq_iff)
qed

lemma ram_zero_entries_cong: "ram s = ram s' \<Longrightarrow> ram (zero_entries n a s) = ram (zero_entries n a s')"
  by (induction n arbitrary: a s s') (simp_all add: put_def)

lemma unmap_entries_ram: "unmap_entries n a s = Some t \<Longrightarrow> ram t = ram (zero_entries n a s)"
proof (induction n arbitrary: a s)
  case (Suc n)
  then obtain s1 where s1: "unmap_entries n (a + 4) s1 = Some t" and r: "ram s1 = ram (put a 0 s)"
    using wr32_rd32 [of a "ram s"] by (auto simp: Let_def put_def dest!: bind_SomeD split: if_splits)
  from Suc.IH [OF s1] show ?case using ram_zero_entries_cong [OF r] by simp
qed simp


text \<open>Page tables lie in the memory of the machine.\<close>

definition tables_in_ram :: "ram \<Rightarrow> bool" where
  "tables_in_ram m \<longleftrightarrow> (\<forall>v. pgd_present m v \<longrightarrow> unat (table_of m v) < NR_PAGES * 4096)"

text \<open>Clearing one table.\<close>

lemma unmap_entries_clears:
  assumes "dir_ok (ram s)" and "tables_in_ram (ram s)" and "pgd_present (ram s) v"
    and "unmap_entries PAGE_ENTRY_NUMBER (table_of (ram s) v) s = Some t"
  shows "rd32 (ram t) (pgd_index w) = rd32 (ram s) (pgd_index w)"
    and "pgd_index w = pgd_index v \<or> pte_of (ram s) w = None \<Longrightarrow> pte_of (ram t) w = None"
proof -
  let ?a = "table_of (ram s) v"
  have a: "unat ?a + 4 * PAGE_ENTRY_NUMBER < 2 ^ 32" "4096 \<le> unat ?a" "4 dvd unat ?a"
    using assms(1-3) unat_table(1) [of "ram s" v] by (auto simp: tables_in_ram_def dir_ok_def intro: dvd_trans [of 4 4096])
  have z: "rd32 (ram t) b = (if unat ?a \<le> unat b \<and> unat b < unat ?a + 4 * PAGE_ENTRY_NUMBER then 0 else rd32 (ram s) b)"
    if "4 dvd unat b" for b
    unfolding unmap_entries_ram [OF assms(4)] by (rule zero_entries_rd32 [OF a(3,1) that])
  show g: "rd32 (ram t) (pgd_index w) = rd32 (ram s) (pgd_index w)" for w
    using z [OF index_bounds(2)] index_bounds(1) [of w] a(2) by auto
  then have p: "pgd_present (ram t) w = pgd_present (ram s) w" "pte_at (ram t) w = pte_at (ram s) w"
    by (simp_all add: pgd_present_def pte_at_def table_of_def)
  assume c: "pgd_index w = pgd_index v \<or> pte_of (ram s) w = None"
  have "rd32 (ram t) (pte_at (ram s) w) AND 1 = 0" if "pgd_present (ram s) w"
  proof (cases "pgd_index w = pgd_index v")
    case True
    then have "table_of (ram s) w = ?a" by (simp add: table_of_def)
    then have "unat (pte_at (ram s) w) = unat ?a + unat (pte_index w)" using unat_pte_at [of "ram s" w] by simp
    then show ?thesis using z [OF pte_at_aligned, of "ram s" w] index_bounds(3) [of w] by simp
  next
    case False
    then show ?thesis using z [OF pte_at_aligned, of "ram s" w] c that by (auto simp: pte_of_def split: if_splits)
  qed
  then show "pte_of (ram t) w = None" using p by (auto simp: pte_of_def)
qed

lemma unmap_tables_clears:
  assumes "unmap_tables n (of_nat (4 * i)) s = Some t" and "i + n \<le> 1024" and "dir_ok (ram s)" and "tables_in_ram (ram s)"
  shows "(i \<le> unat w div 0x400000 \<and> unat w div 0x400000 < i + n) \<or> pte_of (ram s) w = None \<Longrightarrow> pte_of (ram t) w = None"
  using assms
proof (induction n arbitrary: i s w)
  case (Suc n)
  let ?p = "of_nat (4 * i) :: u32"
  have up: "unat ?p = 4 * i" using Suc.prems(3) by (simp only: unat_of_nat) simp
  have idx: "pgd_index w = ?p \<longleftrightarrow> unat w div 0x400000 = i" for w
    using up unat_pgd_index [of w] by (metis mult_left_cancel word_unat_eq_iff zero_neq_numeral)
  obtain v where v: "pgd_index v = ?p"
  proof
    have "unat (of_nat (i * 0x400000) :: u32) = i * 0x400000" using Suc.prems(3) by (simp only: unat_of_nat) simp
    then show "pgd_index (of_nat (i * 0x400000)) = ?p" using idx by simp
  qed
  have st: "?p + 4 = of_nat (4 * Suc i)" by simp
  show ?case
  proof (cases "get ?p s AND 1 = 0")
    case True
    then have "unmap_tables n (?p + 4) s = Some t" using Suc.prems(2) by simp
    then have "unmap_tables n (of_nat (4 * Suc i)) s = Some t" by (simp only: st)
    moreover have "pte_of (ram s) w = None" if "unat w div 0x400000 = i"
      using True that idx [of w] by (simp add: pte_of_def pgd_present_def)
    ultimately show ?thesis using Suc.IH [of "Suc i" w s] Suc.prems by (cases "unat w div 0x400000 = i") auto
  next
    case False
    then have pr: "pgd_present (ram s) v" by (simp add: pgd_present_def v)
    from Suc.prems(2) False obtain s1 where
      s1: "unmap_entries PAGE_ENTRY_NUMBER (table_of (ram s) v) s = Some s1" and "unmap_tables n (?p + 4) s1 = Some t"
      by (auto simp: table_of_def v dest!: bind_SomeD)
    then have s2: "unmap_tables n (of_nat (4 * Suc i)) s1 = Some t" by (simp only: st)
    note c = unmap_entries_clears [OF Suc.prems(4,5) pr s1]
    have same: "pgd_present (ram s1) w = pgd_present (ram s) w" "table_of (ram s1) w = table_of (ram s) w" for w
      by (simp_all add: c(1) pgd_present_def table_of_def)
    have "dir_ok (ram s1)" "tables_in_ram (ram s1)" using Suc.prems(4,5) by (simp_all add: dir_ok_def tables_in_ram_def same)
    moreover have "pte_of (ram s1) w = None" if "unat w div 0x400000 = i \<or> pte_of (ram s) w = None"
      using that idx [of w] v by (intro c(2)) auto
    ultimately show ?thesis using Suc.IH [of "Suc i" w s1] s2 Suc.prems by (cases "unat w div 0x400000 = i") auto
  qed
qed auto

lemma unat_drop22: "unat (drop_bit 22 (w :: u32)) = unat w div 0x400000"
  using unat_u32_bound [of w] unfolding unsigned_drop_bit_eq by (simp add: drop_bit_eq_div take_bit_nat_eq_self)

lemma fork_area_size:
  assumes "0 < pid" and "pid < 64"
  shows "unat (drop_bit 22 (TASK_LIMIT * 4096 - TASK_SIZE * of_nat pid)) = (1024 - 16 * (pid - 1)) mod 1024"
proof -
  let ?n = "1024 - 16 * (pid - 1)"
  obtain q where q: "pid = Suc q" "q < 63" using assms by (cases pid) auto
  have "TASK_LIMIT * 4096 - TASK_SIZE * of_nat pid = of_nat (?n * 0x400000)"
  proof -
    have "(of_nat (2 ^ 32) :: u32) = 0" by (simp only: word_of_nat_eq_0_iff) simp
    moreover have "?n * 0x400000 = 2 ^ 32 - q * 0x4000000" using q by simp
    then have "(of_nat (?n * 0x400000) :: u32) = of_nat (2 ^ 32) - of_nat (q * 0x4000000)"
      using q by (simp only:) (rule of_nat_diff, simp)
    ultimately have "(of_nat (?n * 0x400000) :: u32) = - (of_nat q * TASK_SIZE)" by (simp only:) simp
    then show ?thesis using q(1) by (simp only:) (simp add: algebra_simps)
  qed
  then have "unat (TASK_LIMIT * 4096 - TASK_SIZE * of_nat pid) = ?n * 0x400000 mod 2 ^ 32" by (simp only: unat_of_nat) simp
  also have "\<dots> = (?n mod 1024) * 0x400000" using mult_mod_left [of ?n 1024 "0x400000"] by simp
  finally show ?thesis by (simp add: unat_drop22)
qed

text \<open>A task as \<open>do_fork\<close> leaves it: its only area is the one that \<open>copy_mm\<close> makes.\<close>

definition forked :: "u32 \<Rightarrow> nat \<Rightarrow> kernel \<Rightarrow> bool" where
  "forked tsk pid k \<longleftrightarrow> tsk \<noteq> 0 \<and> 0 < pid \<and> pid < 64 \<and> (let mm = t_mm (tasks (sch k) tsk); vm = mmap (mms k mm) in
     mm \<noteq> 0 \<and> pgd_base (mms k mm) = 0 \<and> vm \<noteq> 0 \<and> vm_next (areas k vm) = 0
     \<and> vm_start (areas k vm) = TASK_SIZE * of_nat pid \<and> vm_end (areas k vm) = TASK_LIMIT * 4096)"

lemma free_page_tables_forked:
  assumes "forked tsk pid k"
  shows "free_page_tables tsk k = in_paging (unmap_tables ((1024 - 16 * (pid - 1)) mod 1024) 0) k"
proof -
  let ?mm = "t_mm (tasks (sch k) tsk)"
  have f: "tsk \<noteq> 0" "0 < pid" "pid < 64" "?mm \<noteq> 0" "pgd_base (mms k ?mm) = 0" "mmap (mms k ?mm) \<noteq> 0"
    "vm_next (areas k (mmap (mms k ?mm))) = 0" "vm_start (areas k (mmap (mms k ?mm))) = TASK_SIZE * of_nat pid"
    "vm_end (areas k (mmap (mms k ?mm))) = TASK_LIMIT * 4096"
    using assms by (simp_all add: forked_def Let_def)
  have u: "unmap_page_range 0 (TASK_SIZE * of_nat pid) (TASK_LIMIT * 4096) = unmap_tables ((1024 - 16 * (pid - 1)) mod 1024) 0"
    unfolding unmap_page_range_def fork_area_size [OF f(2,3)] ..
  have "free_tables_loop ?mm (mmap (mms k ?mm)) k = in_paging (unmap_tables ((1024 - 16 * (pid - 1)) mod 1024) 0) k"
    using f in_paging_keeps(1)
    by (subst free_tables_loop.simps) (auto simp: mm_at_def u [simplified] free_tables_loop.simps [of _ 0] split: bind_splits)
  then show ?thesis using f by (simp add: free_page_tables_def task_at_def mm_at_def)
qed

text \<open>
  C28. Ending a process releases the wrong page tables. The number of directory entries comes from an
  area whose end is not relative to its start, and they are counted from address 0 on. So the
  first process frees nothing, and when the exit of any later one returns, no page below
  4 GiB - 64 MiB * (pid - 1) is mapped any more, which includes the whole kernel.
\<close>
theorem exit_releases_wrong_tables:
  assumes "forked tsk pid k" and "dir_ok (mem k)" and "tables_in_ram (mem k)"
  shows "(pid = 1 \<longrightarrow> free_page_tables tsk k = Some k)
    \<and> (pid \<noteq> 1 \<and> free_page_tables tsk k = Some k' \<longrightarrow>
         (\<forall>v. unat v div 0x400000 < 1024 - 16 * (pid - 1) \<longrightarrow> pte_of (mem k') v = None))"
proof (intro conjI impI allI)
  assume "pid = 1"
  then show "free_page_tables tsk k = Some k"
    using free_page_tables_forked [OF assms(1)] by (simp add: in_paging_def paging_of_def set_paging_def)
next
  fix v :: u32
  assume "pid \<noteq> 1 \<and> free_page_tables tsk k = Some k'" and v: "unat v div 0x400000 < 1024 - 16 * (pid - 1)"
  then have p: "1 < pid" "in_paging (unmap_tables ((1024 - 16 * (pid - 1)) mod 1024) 0) k = Some k'"
    using assms(1) free_page_tables_forked [OF assms(1)] by (auto simp: forked_def)
  then have "(1024 - 16 * (pid - 1)) mod 1024 = 1024 - 16 * (pid - 1)" by simp
  with p(2) obtain s where s: "unmap_tables (1024 - 16 * (pid - 1)) (of_nat (4 * 0)) (paging_of k) = Some s" "mem k' = ram s"
    by (auto simp: in_paging_def dest!: bind_SomeD)
  have "pte_of (ram s) v = None"
    using unmap_tables_clears [OF s(1), of v] v assms(2,3) by simp
  then show "pte_of (mem k') v = None" using s(2) by simp
qed


subsection \<open>What fork makes\<close>

text \<open>A task but for its state and its links.\<close>

definition unlinked_task :: "task_struct \<Rightarrow> task_struct" where
  "unlinked_task t = t\<lparr>t_state := 0, t_next := 0, t_prev := 0\<rparr>"

lemma upd_head_tasks: "upd_head q i f s = Some s' \<Longrightarrow> tasks s' = tasks s"
  by (auto simp: upd_head_def upd_rq_def head_at_def dest!: bind_SomeD)

lemma upd_task_unlinked:
  assumes "upd_task p f s = Some s'" and "\<And>t. unlinked_task (f t) = unlinked_task t"
  shows "unlinked_task (tasks s' x) = unlinked_task (tasks s x)"
  using assms by (auto simp: upd_task_def split: if_splits)

lemma activate_unlinked:
  assumes "activate_task p s = Some s'"
  shows "unlinked_task (tasks s' x) = unlinked_task (tasks s x)"
proof -
  let ?u = "\<lambda>s. unlinked_task (tasks s x)"
  have steps: "upd_task q (\<lambda>t. t\<lparr>t_state := a\<rparr>) s = Some s' \<Longrightarrow> ?u s' = ?u s"
    "upd_task q (\<lambda>t. t\<lparr>t_next := a\<rparr>) s = Some s' \<Longrightarrow> ?u s' = ?u s"
    "upd_task q (\<lambda>t. t\<lparr>t_prev := a\<rparr>) s = Some s' \<Longrightarrow> ?u s' = ?u s"
    "upd_head i j f s = Some s' \<Longrightarrow> ?u s' = ?u s" for q a i j f s s'
    by (rule upd_task_unlinked, assumption, simp add: unlinked_task_def)+ (simp add: upd_head_tasks)
  obtain s1 where s1: "enqueue_task p (active s) s = Some s1" "tasks s' = tasks s1"
    using assms by (auto simp: activate_task_def activate_on_def upd_rq_def set_bitmap_def dest!: bind_SomeD)
  from s1(1) have "?u s1 = ?u s"
    unfolding enqueue_task_def Let_def by (auto dest!: bind_SomeD steps split: if_splits)
  with s1(2) show ?thesis by simp
qed

lemma unlinked_fields:
  assumes "unlinked_task t = unlinked_task u"
  shows "t_pid t = t_pid u" "task_struct.filps t = task_struct.filps u" "t_root t = t_root u" "t_pwd t = t_pwd u" "tss t = tss u"
    "ldt_table t = ldt_table u" "prio t = prio u" "t_mm t = t_mm u"
  using arg_cong [OF assms, of t_pid] arg_cong [OF assms, of task_struct.filps] arg_cong [OF assms, of t_root]
    arg_cong [OF assms, of t_pwd] arg_cong [OF assms, of tss] arg_cong [OF assms, of ldt_table] arg_cong [OF assms, of prio]
    arg_cong [OF assms, of t_mm]
  by (simp_all add: unlinked_task_def)

lemma share_files_counts:
  assumes "length fps = NR_FILE" and "n \<le> NR_FILE"
  shows "\<exists>v'. share_files n fps v = Some v' \<and> vfs.fs v' = vfs.fs v
    \<and> (\<forall>f. files v' f = (files v f)\<lparr>f_used := f_used (files v f) + of_nat (length (filter (\<lambda>q. obj_of q = Some f) (drop (NR_FILE - n) fps)))\<rparr>)"
  using assms(2)
proof (induction n arbitrary: v)
  case 0
  then show ?case using assms(1) by simp
next
  case (Suc n)
  let ?i = "NR_FILE - Suc n"
  let ?v = "case obj_of (fps ! ?i) of None \<Rightarrow> v | Some f \<Rightarrow> upd_file f (\<lambda>x. x\<lparr>f_used := f_used x + 1\<rparr>) v"
  have d: "drop ?i fps = fps ! ?i # drop (NR_FILE - n) fps"
  proof -
    have "?i < length fps" "Suc ?i = NR_FILE - n" using assms(1) Suc.prems by simp_all
    then show ?thesis by (metis Cons_nth_drop_Suc)
  qed
  from Suc.IH [of ?v] Suc.prems obtain v' where v': "share_files n fps ?v = Some v'" "vfs.fs v' = vfs.fs ?v"
    "\<forall>f. files v' f = (files ?v f)\<lparr>f_used := f_used (files ?v f) + of_nat (length (filter (\<lambda>q. obj_of q = Some f) (drop (NR_FILE - n) fps)))\<rparr>"
    by auto
  have "share_files (Suc n) fps v = Some v'" using v'(1) assms(1) by (simp add: cell_def Let_def)
  moreover have "vfs.fs v' = vfs.fs v" using v'(2) by (simp add: upd_file_def split: option.split)
  ultimately show ?case using v'(3) unfolding d by (auto simp: upd_file_def split: option.split)
qed

lemma hold_inode_keeps: "sch (hold_inode q k) = sch k" "files (vfs (hold_inode q k)) = files (vfs k)" "task_table (hold_inode q k) = task_table k"
  by (simp_all add: hold_inode_def split: option.split)

lemma alloc_object_keeps:
  assumes "alloc_object c k = Some (r, k')"
  shows "sch k' = sch k" "vfs k' = vfs k" "task_table k' = task_table k" "jiffies k' = jiffies k" "task_last_pid k' = task_last_pid k"
    "active_task k' = active_task k" "mms k' = mms k" "areas k' = areas k"
  using assms by (auto simp: alloc_object_def dest!: bind_SomeD)

lemma in_pages_keeps:
  assumes "in_pages f k = Some (r, k')"
  shows "sch k' = sch k" "vfs k' = vfs k" "task_table k' = task_table k" "jiffies k' = jiffies k" "task_last_pid k' = task_last_pid k"
    "active_task k' = active_task k"
  using assms by (auto simp: in_pages_def dest!: bind_SomeD)

lemma copy_mm_keeps:
  assumes "copy_mm p k = Some k'"
  shows "\<exists>mm. sch k' = (sch k)\<lparr>tasks := (tasks (sch k))(p := (tasks (sch k) p)\<lparr>t_mm := mm,
      ldt_table := (ldt_table (tasks (sch k) p))[1 := code_desc (TASK_SIZE * t_pid (tasks (sch k) p)), 2 := data_desc (TASK_SIZE * t_pid (tasks (sch k) p))]\<rparr>)\<rparr>"
    and "vfs k' = vfs k" and "task_table k' = task_table k"
proof -
  have pt: "copy_page_tables q a = Some (r, b) \<Longrightarrow> sch b = sch a \<and> vfs b = vfs a \<and> task_table b = task_table a" for q a r b
    by (auto simp: copy_page_tables_def upd_mm_def set_paging_def dest!: bind_SomeD split: if_splits)
  have ao: "alloc_object c a = Some (r, b) \<Longrightarrow> sch b = sch a \<and> vfs b = vfs a \<and> task_table b = task_table a" for c a r b
    using alloc_object_keeps by blast
  have k: "sch k' = sch k5 \<and> vfs k' = vfs k5 \<and> task_table k' = task_table k5" if "map_option snd (copy_page_tables p k5) = Some k'" for k5
    using that pt by auto
  show "\<exists>mm. sch k' = (sch k)\<lparr>tasks := (tasks (sch k))(p := (tasks (sch k) p)\<lparr>t_mm := mm,
      ldt_table := (ldt_table (tasks (sch k) p))[1 := code_desc (TASK_SIZE * t_pid (tasks (sch k) p)), 2 := data_desc (TASK_SIZE * t_pid (tasks (sch k) p))]\<rparr>)\<rparr>"
    and "vfs k' = vfs k" and "task_table k' = task_table k"
    using assms unfolding copy_mm_def Let_def
    by (auto simp: upd_mm_def upd_vm_def in_sched_def upd_task_def task_at_def put_cell_def dest!: bind_SomeD k ao split: if_splits)
      (rule exI, rule refl)
qed


lemma linked_cong: "(\<And>x. x \<in> set ts \<Longrightarrow> m' x = m x) \<Longrightarrow> linked m' ts = linked m ts"
  by (induction m ts rule: linked.induct) simp_all

lemma level_cong:
  assumes "arrays s' = arrays s" and "\<And>x. x \<in> set ts \<Longrightarrow> tasks s' x = tasks s x"
  shows "level s' q i ts = level s q i ts"
  using assms linked_cong [of ts "tasks s'" "tasks s"] by (cases ts) (auto simp: level_def)

lemma level_other:
  assumes "level s q i ts" and "p \<notin> set ts" and "tasks s' = (tasks s)(p := t)" and "arrays s' = arrays s"
  shows "level s' q i ts"
proof -
  have "tasks s' x = tasks s x" if "x \<in> set ts" for x using assms(2,3) that by auto
  from level_cong [OF assms(4) this] assms(1) show ?thesis by simp
qed

lemma sched_fork_appends:
  assumes "rq_shape s (active s)" and "i < MAX_PRIO" and "level s (active s) i ts" and "p \<noteq> 0" and "p \<notin> set ts"
    and "unat (prio (tasks s p)) = i" and "t_next (tasks s p) = 0"
  shows "\<exists>s'. sched_fork p s = Some s' \<and> level s' (active s) i (ts @ [p]) \<and> t_state (tasks s' p) = TASK_RUNNING
    \<and> unlinked_task (tasks s' p) = unlinked_task (tasks s p)"
proof -
  let ?s = "s\<lparr>tasks := (tasks s)(p := (tasks s p)\<lparr>t_state := TASK_RUNNING\<rparr>), need_resched := True\<rparr>"
  have "level ?s (active s) i ts" by (rule level_other [OF assms(3,5)]) simp_all
  moreover have "rq_shape ?s (active s)" using assms(1) by (simp add: rq_shape_def)
  ultimately obtain s' where s': "activate_on (active s) p ?s = Some s'" "level s' (active s) i (ts @ [p])" "t_state (tasks s' p) = TASK_RUNNING"
    using activate_append [of ?s "active s" i ts p] assms(2,4-7) by auto
  then have a: "activate_task p ?s = Some s'" by (simp add: activate_task_def)
  have "unlinked_task (tasks s' p) = unlinked_task (tasks s p)"
    using activate_unlinked [OF a, of p] by (simp add: unlinked_task_def)
  then show ?thesis using a s' assms(4) by (simp add: sched_fork_def upd_task_def)
qed

lemma copy_fs_keeps: "sch (copy_fs k) = sch k" "files (vfs (copy_fs k)) = files (vfs k)" "task_table (copy_fs k) = task_table k"
  by (simp_all add: copy_fs_def hold_inode_keeps)

text \<open>The first part of \<open>do_fork\<close>: structure, stacks and number of the child.\<close>

lemma do_fork_numbered:
  fixes i ks us p k b
  defines "child \<equiv> (child_task i (jiffies k) ks us (cur_task k))\<lparr>prio := word_of_int (sint b),
      policy := (if sint b < 100 then SCHED_RR else SCHED_NORMAL)\<rparr>"
  assumes "alloc_object (task_struct_cachep (slab k)) k = Some (Some p, k1)" and "p \<noteq> 0"
    and "in_pages get_free_page k1 = Some (ks, k2)" and "ks \<noteq> 0" and "in_pages get_free_page k2 = Some (us, k3)"
    and "length (task_table k) = NR_TASKS" and "0 < i" and "i < NR_TASKS" and "task_table k ! i = 0"
    and "\<forall>j. 0 < j \<and> j < i \<longrightarrow> task_table k ! j \<noteq> 0" and "task_last_pid k \<noteq> - 1"
    and "copy_mm p (k3\<lparr>task_last_pid := 2, active_task := active_task k + 1,
      sch := (sch k)\<lparr>tasks := (tasks (sch k))(p := child)\<rparr>, task_table := (task_table k)[i := p]\<rparr>) = Some k4"
  shows "do_fork sw b c d ip fl k = do {
     k \<leftarrow> copy_thread sw i p c d ip fl k4;
     let k = copy_fs k;
     k \<leftarrow> copy_files p k;
     k \<leftarrow> in_sched (sched_fork p) k;
     t \<leftarrow> task_at p (sch k);
     Some (t_pid t, k) }"
    and "sch k3 = sch k" "vfs k3 = vfs k" "task_table k3 = task_table k"
proof -
  note ka = alloc_object_keeps [OF assms(2)] and kb = in_pages_keeps [OF assms(4)] and kc = in_pages_keeps [OF assms(6)]
  have k3: "sch k3 = sch k" "vfs k3 = vfs k" "task_table k3 = task_table k" "jiffies k3 = jiffies k" "task_last_pid k3 = task_last_pid k"
    "active_task k3 = active_task k" using ka kb kc by simp_all
  then show "sch k3 = sch k" "vfs k3 = vfs k" "task_table k3 = task_table k" by blast+
  have "task_last_pid k + 1 \<noteq> 0" using assms(12) by (metis add_eq_0_iff2)
  then have f: "find_empty_process k3 = Some (i, k3\<lparr>task_last_pid := 2, active_task := active_task k + 1\<rparr>)"
    using assms(7-11) k3 empty_slot_least [of 0 i NR_TASKS "task_table k"] by (simp add: find_empty_process_def Let_def)
  have ct: "cur_task (k3\<lparr>task_last_pid := a, active_task := b'\<rparr>) = cur_task k" for a b' using k3(1) by (simp add: cur_task_def)
  show "do_fork sw b c d ip fl k = do {
     k \<leftarrow> copy_thread sw i p c d ip fl k4;
     let k = copy_fs k;
     k \<leftarrow> copy_files p k;
     k \<leftarrow> in_sched (sched_fork p) k;
     t \<leftarrow> task_at p (sch k);
     Some (t_pid t, k) }"
    using assms(2-9,13) f k3
    by (simp add: do_fork_def in_sched_def upd_task_def set_nice_def put_cell_def ct child_def)
qed

text \<open>
  C11. Creating a process, when a task structure and a page for the kernel stack are obtained, entry
  \<open>i\<close> is the first free one of the task table and \<open>copy_mm\<close> succeeds: the call returns \<open>i\<close>; the
  child is in the table and last in the run queue of its priority; it has the files, root and
  working directory of its parent, code and data segments at \<open>i\<close> times 64 MiB, the two pages that
  the allocator returned as kernel and user stack page, and starts in \<open>exit_switch\<close> on the kernel stack
  to return to the parent's return address. The use count of every file grows by the number of the
  parent's descriptors for it.
\<close>
theorem fork_creates_child:
  fixes i ks us p k b
  defines "child \<equiv> (child_task i (jiffies k) ks us (cur_task k))\<lparr>prio := word_of_int (sint b),
      policy := (if sint b < 100 then SCHED_RR else SCHED_NORMAL)\<rparr>"
  assumes "alloc_object (task_struct_cachep (slab k)) k = Some (Some p, k1)" and "p \<noteq> 0"
    and "in_pages get_free_page k1 = Some (ks, k2)" and "ks \<noteq> 0" and "in_pages get_free_page k2 = Some (us, k3)"
    and "length (task_table k) = NR_TASKS" and "0 < i" and "i < NR_TASKS" and "task_table k ! i = 0"
    and "\<forall>j. 0 < j \<and> j < i \<longrightarrow> task_table k ! j \<noteq> 0" and "task_last_pid k \<noteq> - 1"
    and "copy_mm p (k3\<lparr>task_last_pid := 2, active_task := active_task k + 1,
      sch := (sch k)\<lparr>tasks := (tasks (sch k))(p := child)\<rparr>, task_table := (task_table k)[i := p]\<rparr>) = Some k4"
    and "p \<noteq> current (sch k)" and "length (task_struct.filps (cur_task k)) = NR_FILE" and "length (ldt_table (cur_task k)) = 3"
    and "rq_shape (sch k) (active (sch k))" and "unat (prio child) < MAX_PRIO"
    and "level (sch k) (active (sch k)) (unat (prio child)) ts" and "p \<notin> set ts"
  shows "\<exists>k'. do_fork sw b c d ip fl k = Some (of_nat i, k') \<and> task_table k' = (task_table k)[i := p]
    \<and> level (sch k') (active (sch k)) (unat (prio child)) (ts @ [p])
    \<and> (let t = tasks (sch k') p in t_pid t = of_nat i \<and> t_state t = TASK_RUNNING \<and> task_struct.filps t = task_struct.filps (cur_task k)
        \<and> t_root t = t_root (cur_task k) \<and> t_pwd t = t_pwd (cur_task k) \<and> ldt_table t ! 1 = code_desc (TASK_SIZE * of_nat i)
        \<and> ldt_table t ! 2 = data_desc (TASK_SIZE * of_nat i) \<and> eip (tss t) = sw \<and> cache_eip (tss t) = ip
        \<and> esp (tss t) = ks + 4096 \<and> esp0 (tss t) = ks + 4096 \<and> user_stack_page (tss t) = us)
    \<and> (\<forall>f. f_used (files (vfs k') f) = f_used (files (vfs k) f)
          + of_nat (length (filter (\<lambda>q. obj_of q = Some f) (task_struct.filps (cur_task k)))))"
proof -
  note run = do_fork_numbered [OF assms(2-13) [unfolded child_def], folded child_def]
  from copy_mm_keeps [OF assms(13)] obtain mm where
    k4: "sch k4 = (sch k)\<lparr>tasks := (tasks (sch k))(p := child\<lparr>t_mm := mm,
       ldt_table := (ldt_table child)[1 := code_desc (TASK_SIZE * t_pid child), 2 := data_desc (TASK_SIZE * t_pid child)]\<rparr>)\<rparr>"
      "vfs k4 = vfs k" "task_table k4 = (task_table k)[i := p]"
    using run(2-4) by auto
  define t where "t = child\<lparr>t_mm := mm,
       ldt_table := (ldt_table child)[1 := code_desc (TASK_SIZE * t_pid child), 2 := data_desc (TASK_SIZE * t_pid child)],
       tss := thread_regs sw i c d ip fl (tss child)\<rparr>"
  obtain m where "copy_thread sw i p c d ip fl k4 = Some (k4\<lparr>sch := (sch k)\<lparr>tasks := (tasks (sch k))(p := t)\<rparr>, mem := m\<rparr>)"
    using assms(3) by (simp add: copy_thread_def upd_tss_def in_sched_def upd_task_def k4(1) Let_def t_def)
  moreover define k5 where "k5 = k4\<lparr>sch := (sch k)\<lparr>tasks := (tasks (sch k))(p := t)\<rparr>, mem := m\<rparr>"
  ultimately have c: "copy_thread sw i p c d ip fl k4 = Some k5" by simp
  have k5: "sch k5 = (sch k)\<lparr>tasks := (tasks (sch k))(p := t)\<rparr>" "files (vfs k5) = files (vfs k)" "task_table k5 = (task_table k)[i := p]"
    by (simp_all add: k5_def k4(2,3))
  have tf: "task_struct.filps t = task_struct.filps (cur_task k)" by (simp add: t_def child_def child_task_def)
  obtain v where v: "share_files NR_FILE (task_struct.filps t) (vfs (copy_fs k5)) = Some v"
    "\<forall>f. f_used (files v f) = f_used (files (vfs k) f) + of_nat (length (filter (\<lambda>q. obj_of q = Some f) (task_struct.filps t)))"
    using share_files_counts [of "task_struct.filps t" NR_FILE "vfs (copy_fs k5)"] assms(15) tf copy_fs_keeps(2) [of k5] k5(2) by auto
  have cf: "copy_files p (copy_fs k5) = Some ((copy_fs k5)\<lparr>vfs := v\<rparr>)"
    using v(1) assms(3) by (simp add: copy_files_def task_at_def copy_fs_keeps k5(1))
  have "level (sch k5) (active (sch k)) (unat (prio child)) ts" by (rule level_other [OF assms(19,20)]) (simp_all add: k5(1))
  moreover have "rq_shape (sch k5) (active (sch k))" using assms(17) by (simp add: rq_shape_def k5(1))
  ultimately obtain s' where s': "sched_fork p (sch k5) = Some s'" "level s' (active (sch k)) (unat (prio child)) (ts @ [p])"
    "t_state (tasks s' p) = TASK_RUNNING" "unlinked_task (tasks s' p) = unlinked_task t"
    using sched_fork_appends [of "sch k5" "unat (prio child)" ts p] assms(3,18,20)
    by (auto simp: k5(1) t_def child_def child_task_def)
  note u = unlinked_fields [OF s'(4)]
  have "do_fork sw b c d ip fl k = Some (of_nat i, (copy_fs k5)\<lparr>vfs := v, sch := s'\<rparr>)"
    using run(1) c cf s'(1) assms(3) u(1)
    by (simp add: in_sched_def task_at_def copy_fs_keeps) (simp add: t_def child_def child_task_def)
  moreover have "length (ldt_table child) = 3" using assms(16) by (simp add: child_def child_task_def)
  ultimately show ?thesis
    using s' v(2) u tf
    by (intro exI [of _ "(copy_fs k5)\<lparr>vfs := v, sch := s'\<rparr>"])
      (simp add: copy_fs_keeps k5(3) Let_def, simp add: t_def child_def child_task_def thread_regs_def)
qed

subsection \<open>Witnesses\<close>

text \<open>A kernel with empty page tables whose caches are all the one of \<open>sample_slabs\<close>, with objects of
  464 bytes; the current task has file 0 open as descriptor 0.\<close>

definition fork_task :: task_struct where
  "fork_task = (sample_task 120 0 0)\<lparr>t_mm := 0x8000, task_struct.filps := 1 # replicate 63 0, ldt_table := [(0, 0), (0, 0), (0, 0)]\<rparr>"

definition fork_kernel :: kernel where
  "fork_kernel = (sample_kernel (\<lambda>_. 0) sample_vfs None)\<lparr>slab := (sample_slabs 2 7 464 32)
       \<lparr>task_struct_cachep := Some 0x2000, mm_cachep := Some 0x2000, vm_area_cachep := Some 0x2000\<rparr>,
     sch := (sample_sched 0)\<lparr>tasks := (\<lambda>_. fork_task)\<rparr>\<rparr>"

lemma fork_kernel_sel [simp]:
  "sch fork_kernel = (sample_sched 0)\<lparr>tasks := (\<lambda>_. fork_task)\<rparr>" "task_table fork_kernel = 0x4000 # replicate 63 0"
  "jiffies fork_kernel = 0" "task_last_pid fork_kernel = 0" "active_task fork_kernel = 0" "cur_task fork_kernel = fork_task"
  "mem fork_kernel = (\<lambda>_. 0)" "mms fork_kernel = (\<lambda>_. zero_mm)" "vfs fork_kernel = sample_vfs"
  by (simp_all add: fork_kernel_def sample_kernel_def cur_task_def)

theorem find_empty_process_least_witness:
  "find_empty_process fork_kernel = Some (1, fork_kernel\<lparr>task_last_pid := 2, active_task := 1\<rparr>)"
  using find_empty_process_least [of fork_kernel 1] by simp

theorem full_table_overruns_witness: "find_empty_process (fork_kernel\<lparr>task_table := replicate 64 0x4000\<rparr>) = None"
  using full_table_overruns [of "fork_kernel\<lparr>task_table := replicate 64 0x4000\<rparr>"] by simp

theorem copy_thread_descriptors_witness:
  "\<exists>k'. copy_thread 0x7000 1 0x9000 1 2 0x1234 0x202 fork_kernel = Some k' \<and> cache_eip (tss (tasks (sch k') 0x9000)) = 0x1234"
  using copy_thread_descriptors [of "0x9000" "0x7000" 1 1 2 "0x1234" "0x202" fork_kernel] by auto

theorem task_segments_overlap_witness:
  "seg_base (code_desc (TASK_SIZE * of_nat 3)) + of_nat (seg_last_page (code_desc (TASK_SIZE * of_nat 3)) * 4096) = TASK_SIZE * of_nat (3 + 1)"
  using task_segments_overlap [of "code_desc (TASK_SIZE * of_nat 3)" 3] by blast

lemma unmap_entries_zero:
  "(\<And>j. j < n \<Longrightarrow> rd32 (ram s) (a + 4 * of_nat j) = 0) \<Longrightarrow> unmap_entries n a s = Some s"
proof (induction n arbitrary: a)
  case (Suc n)
  have "rd32 (ram s) (a + 4 + 4 * of_nat j) = 0" if "j < n" for j using Suc.prems [of "Suc j"] that by (simp add: algebra_simps)
  then show ?case using Suc.prems [of 0] Suc.IH [of "a + 4"] by simp
qed simp

lemma unmap_entries_add:
  "unmap_entries (m + n) a s = do { t \<leftarrow> unmap_entries m a s; unmap_entries n (a + 4 * of_nat m) t }"
  by (induction m arbitrary: a s) (auto simp: algebra_simps split: Option.bind_split)

lemma unmap_tables_zero:
  "(\<And>j. j < n \<Longrightarrow> rd32 (ram s) (a + 4 * of_nat j) = 0) \<Longrightarrow> unmap_tables n a s = Some s"
proof (induction n arbitrary: a)
  case (Suc n)
  have "rd32 (ram s) (a + 4 + 4 * of_nat j) = 0" if "j < n" for j using Suc.prems [of "Suc j"] that by (simp add: algebra_simps)
  then show ?case using Suc.prems [of 0] Suc.IH [of "a + 4"] by simp
qed simp

definition exit_frames :: buddy where
  "exit_frames = two_blocks\<lparr>mem_map := (mem_map two_blocks)(512 := (mem_map two_blocks 512)\<lparr>pg_order := 0\<rparr>,
     513 := (mem_map two_blocks 513)\<lparr>pg_count := 1\<rparr>)\<rparr>"

lemma exit_frame: "\<exists>n b. do_free_pages 512 0 exit_frames = Some (n, b)" "page_at 512 exit_frames = Some ((mem_map two_blocks 512)\<lparr>pg_order := 0\<rparr>)"
  by (simp_all add: do_free_pages_def free_loop.simps mark_neighbours.simps exit_frames_def two_blocks_def empty_buddy_def page_at_def upd_page_def
      upd_area_def cell_def Let_def add_free_area_def)

lemma exit_unmaps: "\<exists>s. unmap_tables 1008 0 \<lparr>ram = sample_ram, frames = exit_frames\<rparr> = Some s"
proof -
  let ?s = "\<lparr>ram = sample_ram, frames = exit_frames\<rparr>"
  obtain n b where b: "do_free_pages 512 0 exit_frames = Some (n, b)" using exit_frame(1) by blast
  let ?t = "\<lparr>ram = wr32 0x100014 0 sample_ram, frames = b\<rparr>"
  have al: "4 dvd unat ((0x100000 :: u32) + 4 * of_nat j)" "unat ((0x100000 :: u32) + 4 * of_nat j) = 0x100000 + 4 * j" if "j < 1024" for j
    using that by (simp_all add: unat_word_ariths unat_of_nat)
  have z: "rd32 sample_ram (0x100000 + 4 * of_nat j) = 0" if "j < 1024" "j \<noteq> 5" for j
    using sample_rd32 [OF al(1) [OF that(1)]] al(2) [OF that(1)] that(2) by (auto simp: word_unat_eq_iff)
  have z': "rd32 (wr32 0x100014 0 sample_ram) (0x100000 + 4 * of_nat j) = 0" if "j < 1024" for j
    using z [OF that] al [OF that] by (cases "j = 5") (simp_all add: rd32_wr32_other word_unat_eq_iff)
  have "unmap_entries (5 + (1 + 1018)) 0x100000 ?s = Some ?t"
    unfolding unmap_entries_add
  proof -
    have "unmap_entries 5 0x100000 ?s = Some ?s" by (rule unmap_entries_zero) (simp add: z)
    moreover have "unmap_entries 1 (0x100000 + 4 * of_nat 5) ?s = Some ?t"
      using sample_rd32 [of "0x100014"] b exit_frame(2) by (simp add: put_def)
    moreover have "unmap_entries 1018 (0x100000 + 4 * of_nat 5 + 4 * of_nat 1) ?t = Some ?t"
      by (rule unmap_entries_zero) (use z' [of "_ + 6"] in \<open>simp add: algebra_simps\<close>)
    ultimately show "do { t \<leftarrow> unmap_entries 5 0x100000 ?s; do { t \<leftarrow> unmap_entries 1 (0x100000 + 4 * of_nat 5) t;
        unmap_entries 1018 (0x100000 + 4 * of_nat 5 + 4 * of_nat 1) t } } = Some ?t"
      by (simp only: bind.bind_lunit)
  qed
  then have e: "unmap_entries PAGE_ENTRY_NUMBER 0x100000 ?s = Some ?t" by simp
  have "rd32 (wr32 0x100014 0 sample_ram) (4 + 4 * of_nat j) = 0" if "j < 1007" for j
  proof -
    have "4 dvd unat (4 + 4 * of_nat j :: u32)" "unat (4 + 4 * of_nat j :: u32) = 4 + 4 * j"
      using that by (simp_all add: unat_word_ariths unat_of_nat)
    then show ?thesis using that sample_rd32 [of "4 + 4 * of_nat j"] by (simp add: rd32_wr32_other word_unat_eq_iff)
  qed
  then have "unmap_tables 1007 (0 + 4) ?t = Some ?t" by (intro unmap_tables_zero) simp
  moreover have "unmap_tables (Suc n) 0 ?s = do { s \<leftarrow> unmap_entries PAGE_ENTRY_NUMBER 0x100000 ?s; unmap_tables n (0 + 4) s }" for n
    using sample_rd32 [of 0] by simp
  ultimately have "unmap_tables (Suc 1007) 0 ?s = Some ?t" using e by (simp only: bind.bind_lunit)
  moreover have "Suc 1007 = 1008" by simp
  ultimately show ?thesis by metis
qed


text \<open>A process with the number \<open>pid\<close> and the page at 0x5000 mapped.\<close>

definition exit_kernel :: "nat \<Rightarrow> kernel" where
  "exit_kernel pid = (sample_kernel sample_ram sample_vfs None)
     \<lparr>areas := (\<lambda>_. zero_area\<lparr>vm_start := TASK_SIZE * of_nat pid, vm_end := TASK_LIMIT * 4096\<rparr>),
      slab := (sample_slabs 2 7 44 32)\<lparr>pages := exit_frames\<rparr>\<rparr>"

lemma exit_kernel_forked: "0 < pid \<Longrightarrow> pid < 64 \<Longrightarrow> forked 0x4000 pid (exit_kernel pid)"
  by (simp add: forked_def exit_kernel_def sample_kernel_def zero_mm_def zero_area_def)

theorem exit_releases_wrong_tables_witness:
  "free_page_tables 0x4000 (exit_kernel 1) = Some (exit_kernel 1)
    \<and> pte_of (mem (exit_kernel 2)) 0x5000 = Some 0x200005
    \<and> (\<exists>k'. free_page_tables 0x4000 (exit_kernel 2) = Some k' \<and> pte_of (mem k') 0x5000 = None)"
proof -
  have m: "mem (exit_kernel p) = sample_ram" for p by (simp add: exit_kernel_def)
  have "paging_of (exit_kernel 2) = \<lparr>ram = sample_ram, frames = exit_frames\<rparr>" by (simp add: paging_of_def exit_kernel_def)
  with exit_unmaps obtain k' where "free_page_tables 0x4000 (exit_kernel 2) = Some k'"
    using free_page_tables_forked [OF exit_kernel_forked [of 2]] by (auto simp: in_paging_def)
  moreover have "tables_in_ram sample_ram" by (simp add: tables_in_ram_def sample_dir)
  ultimately show ?thesis
    using exit_releases_wrong_tables [OF exit_kernel_forked [of 1]] exit_releases_wrong_tables [OF exit_kernel_forked [of 2], of k']
      sample_dir_ok sample_pte by (auto simp: m)
qed

lemma fork_pages:
  "\<exists>b. get_free_page (pages (slab fork_kernel)) = Some (0x1002000, b) \<and> (\<exists>c. get_free_page b = Some (0x1002000, c))"
  by (simp add: get_free_page_def do_get_free_pages_def do_alloc_pages_def alloc_loop.simps take_block_def fork_kernel_def
    sample_slabs_def two_blocks_def empty_buddy_def page_at_def upd_page_def upd_area_def cell_def Let_def)

lemma first_slab_pages: "first_slab c a m sz n (s\<lparr>pages := b\<rparr>) j = first_slab c a m sz n s j"
  by (simp add: first_slab_def)

lemma alloc_next:
  assumes "first_slab c a base sz n (slab k) j" and "j < n"
  obtains s where "alloc_object (Some c) k = Some (Some (base + of_nat j * ucast sz), k\<lparr>slab := s\<rparr>)"
    and "first_slab c a base sz n s (Suc j)" and "pool_frame c a (slab k) s"
  using take_object_next [OF assms] first_slab_partial [OF assms(1)] that by (auto simp: alloc_object_def)

lemma copy_no_tables: "copy_tables n f t \<lparr>ram = (\<lambda>_. 0), frames = b\<rparr> = Some (True, \<lparr>ram = (\<lambda>_. 0), frames = b\<rparr>)"
  by (induction n arbitrary: f t) (simp_all add: rd32_def word32_def)

lemma fork_copy_mm:
  assumes "first_slab 0x2000 0x10000 (0x10000 + ucast (32 :: u16)) 464 7 (slab k) 3" and "mm_cachep (slab k) = Some 0x2000"
    and "vm_area_cachep (slab k) = Some 0x2000" and "mem k = (\<lambda>_. 0)" and "mms k = (\<lambda>_. zero_mm)" and "cur_mm k = 0x8000"
    and "p \<noteq> 0" and "p \<noteq> current (sch k)" and "length (ldt_table (tasks (sch k) p)) = 3"
  shows "\<exists>k'. copy_mm p k = Some k'"
proof -
  obtain s where s: "kmem_object_alloc 0x2000 (slab k) = Some (Some 0x10590, s)"
    "first_slab 0x2000 0x10000 (0x10000 + ucast (32 :: u16)) 464 7 s 4" "pool_frame 0x2000 0x10000 (slab k) s"
    using take_object_next [OF assms(1)] first_slab_partial [OF assms(1)] by auto
  obtain s' where s': "kmem_object_alloc 0x2000 s = Some (Some 0x10760, s')"
    using take_object_next [OF s(2)] first_slab_partial [OF s(2)] by auto
  have v: "vm_area_cachep s = Some 0x2000" using pool_frame_keeps(1) [OF s(3)] assms(3) by simp
  show ?thesis
    using assms(4-9) s s' v assms(2)
    by (simp add: copy_mm_def alloc_object_def mm_at_def upd_mm_def in_sched_def upd_task_def task_at_def upd_vm_def put_cell_def
        copy_page_tables_def cur_mm_def first_area_def area_at_def paging_of_def zero_mm_def copy_no_tables [simplified] Let_def)
qed

theorem fork_creates_child_witness:
  "\<exists>k'. do_fork 0x7000 120 1 2 0x1234 0x202 fork_kernel = Some (1, k')
    \<and> task_table k' = 0x4000 # 0x103c0 # replicate 62 0 \<and> f_used (files (vfs k') 0) = 2"
proof -
  let ?F = fork_kernel
  have fs: "first_slab 0x2000 0x10000 (0x10000 + ucast (32 :: u16)) 464 7 (slab ?F) 2"
    using sample_first_slab [of 2 7 "0x2000" 32 464] by (simp add: first_slab_def fork_kernel_def)
  obtain s where s: "alloc_object (Some 0x2000) ?F = Some (Some 0x103c0, ?F\<lparr>slab := s\<rparr>)"
    "first_slab 0x2000 0x10000 (0x10000 + ucast (32 :: u16)) 464 7 s 3" "pool_frame 0x2000 0x10000 (slab ?F) s"
    by (rule alloc_next [OF fs]) simp_all
  obtain b c where bc: "get_free_page (pages (slab ?F)) = Some (0x1002000, b)" "get_free_page b = Some (0x1002000, c)" using fork_pages by blast
  let ?k1 = "?F\<lparr>slab := s\<rparr>" and ?k2 = "?F\<lparr>slab := s\<lparr>pages := b\<rparr>\<rparr>" and ?k3 = "?F\<lparr>slab := s\<lparr>pages := c\<rparr>\<rparr>"
  have pg: "in_pages get_free_page ?k1 = Some (0x1002000, ?k2)" "in_pages get_free_page ?k2 = Some (0x1002000, ?k3)"
    using bc pool_frame_keeps(2) [OF s(3)] by (simp_all add: in_pages_def)
  let ?child = "(child_task 1 (jiffies ?F) 0x1002000 0x1002000 (cur_task ?F))\<lparr>prio := word_of_int (sint (120 :: u32)),
      policy := (if sint (120 :: u32) < 100 then SCHED_RR else SCHED_NORMAL)\<rparr>"
  let ?K = "?k3\<lparr>task_last_pid := 2, active_task := active_task ?F + 1, sch := (sch ?F)\<lparr>tasks := (tasks (sch ?F))(0x103c0 := ?child)\<rparr>,
      task_table := (task_table ?F)[1 := 0x103c0]\<rparr>"
  have ch: "mm_cachep s = Some 0x2000" "vm_area_cachep s = Some 0x2000" using s(3) by (auto simp: pool_frame_def fork_kernel_def)
  obtain k4 where k4: "copy_mm 0x103c0 ?K = Some k4"
    using fork_copy_mm [of ?K "0x103c0"] s(2) ch
    by (auto simp: first_slab_pages cur_mm_def child_task_def fork_task_def)
  have "\<exists>k'. do_fork 0x7000 120 1 2 0x1234 0x202 ?F = Some (of_nat 1, k') \<and> task_table k' = (task_table ?F)[1 := 0x103c0]
    \<and> level (sch k') (active (sch ?F)) (unat (prio ?child)) ([] @ [0x103c0])
    \<and> (let t = tasks (sch k') 0x103c0 in t_pid t = of_nat 1 \<and> t_state t = TASK_RUNNING \<and> task_struct.filps t = task_struct.filps (cur_task ?F)
        \<and> t_root t = t_root (cur_task ?F) \<and> t_pwd t = t_pwd (cur_task ?F) \<and> ldt_table t ! 1 = code_desc (TASK_SIZE * of_nat 1)
        \<and> ldt_table t ! 2 = data_desc (TASK_SIZE * of_nat 1) \<and> eip (tss t) = 0x7000 \<and> cache_eip (tss t) = 0x1234
        \<and> esp (tss t) = 0x1002000 + 4096 \<and> esp0 (tss t) = 0x1002000 + 4096 \<and> user_stack_page (tss t) = 0x1002000)
    \<and> (\<forall>f. f_used (files (vfs k') f) = f_used (files (vfs ?F) f)
          + of_nat (length (filter (\<lambda>q. obj_of q = Some f) (task_struct.filps (cur_task ?F)))))"
  proof (rule fork_creates_child [where k = ?F and b = 120 and i = 1 and ts = "[]" and p = "0x103c0", OF _ _ pg(1) _ pg(2)])
    show "alloc_object (task_struct_cachep (slab ?F)) ?F = Some (Some 0x103c0, ?k1)" using s(1) by (simp add: fork_kernel_def)
    show "copy_mm 0x103c0 ?K = Some k4" by (rule k4)
    show "rq_shape (sch ?F) (active (sch ?F))" using sample_rq_shape [of 0] by (simp add: rq_shape_def)
    show "level (sch ?F) (active (sch ?F)) (unat (prio ?child)) []" using sample_levels(2) by (simp add: level_def)
  qed (simp_all, simp_all add: fork_task_def)
  then obtain k' where "do_fork 0x7000 120 1 2 0x1234 0x202 ?F = Some (1, k')" "task_table k' = 0x4000 # 0x103c0 # replicate 62 0"
    "f_used (files (vfs k') 0) = f_used (files sample_vfs 0) + of_nat (length (filter (\<lambda>q. obj_of q = Some 0) (task_struct.filps fork_task)))"
    by (auto simp: numeral_eq_Suc)
  moreover have "filter (\<lambda>q. obj_of q = Some 0) (task_struct.filps fork_task) = [1]" by (simp add: fork_task_def obj_of_def)
  ultimately show ?thesis by (auto simp: sample_vfs_sel)
qed

end
