(* ===== verification/Execve.thy ===== *)
theory Execve
  imports Process
begin

unbundle bit_operations_syntax

section \<open>Loading a program\<close>

text \<open>
  Models fs/execve.c with the headers of include/fs/elf.h. The headers are read from the file
  through the \<open>fs\<close> segment of the task into kernel memory: the tables that fork copies map the
  first 12 MiB of a task to the kernel's own frames, so that both segments reach the same
  bytes at a buffer's address. \<open>with_buffer\<close> lets the file system work on this memory. The
  structures are those of the format: 52 bytes of header, then entries of 32 bytes.
\<close>

subsection \<open>Headers\<close>

abbreviation ELF_32 :: u8 where "ELF_32 \<equiv> 1"
abbreviation ET_EXEC :: u16 where "ET_EXEC \<equiv> 2"
abbreviation EM_386 :: u16 where "EM_386 \<equiv> 3"
abbreviation PT_LOAD :: u32 where "PT_LOAD \<equiv> 1"
abbreviation PF_X :: u32 where "PF_X \<equiv> 1"
abbreviation PF_W :: u32 where "PF_W \<equiv> 2"
abbreviation PF_R :: u32 where "PF_R \<equiv> 4"
abbreviation PF_RE :: u32 where "PF_RE \<equiv> 5"
abbreviation PF_RW :: u32 where "PF_RW \<equiv> 6"
abbreviation SEEK_SET :: u32 where "SEEK_SET \<equiv> 0"

record elf32_header =
  ident :: "u8 list"
  e_type :: u16
  e_machine :: u16
  e_version :: u32
  e_entry :: u32
  e_phoff :: u32
  e_shoff :: u32
  e_flags :: u32
  e_ehsize :: u16
  e_phentsize :: u16
  e_phnum :: u16
  e_shentsize :: u16
  e_shnum :: u16
  e_shstrndx :: u16

record elf32_program_header_table =
  p_type :: u32
  p_offset :: u32
  p_vaddr :: u32
  p_paddr :: u32
  p_filesz :: u32
  p_memsz :: u32
  p_flags :: u32
  p_align :: u32

definition rd16 :: "ram \<Rightarrow> u32 \<Rightarrow> u16" where
  "rd16 m a = word16 [m a, m (a + 1)] 0"

definition elf_header_at :: "ram \<Rightarrow> u32 \<Rightarrow> elf32_header" where
  "elf_header_at m a = \<lparr>ident = map (\<lambda>i. m (a + of_nat i)) [0..<16], e_type = rd16 m (a + 16), e_machine = rd16 m (a + 18),
     e_version = rd32 m (a + 20), e_entry = rd32 m (a + 24), e_phoff = rd32 m (a + 28), e_shoff = rd32 m (a + 32),
     e_flags = rd32 m (a + 36), e_ehsize = rd16 m (a + 40), e_phentsize = rd16 m (a + 42), e_phnum = rd16 m (a + 44),
     e_shentsize = rd16 m (a + 46), e_shnum = rd16 m (a + 48), e_shstrndx = rd16 m (a + 50)\<rparr>"

definition program_header_at :: "ram \<Rightarrow> u32 \<Rightarrow> elf32_program_header_table" where
  "program_header_at m a = \<lparr>p_type = rd32 m a, p_offset = rd32 m (a + 4), p_vaddr = rd32 m (a + 8), p_paddr = rd32 m (a + 12),
     p_filesz = rd32 m (a + 16), p_memsz = rd32 m (a + 20), p_flags = rd32 m (a + 24), p_align = rd32 m (a + 28)\<rparr>"

text \<open>The tests on the header.\<close>

definition elf_accepted :: "elf32_header \<Rightarrow> bool" where
  "elf_accepted h \<longleftrightarrow> ident h ! 0 = 0x7f \<and> ident h ! 1 = 0x45 \<and> ident h ! 2 = 0x4c \<and> ident h ! 3 = 0x46
     \<and> ident h ! 4 = ELF_32 \<and> e_type h = ET_EXEC \<and> e_machine h = EM_386"

subsection \<open>Files and buffers\<close>

definition with_buffer :: "(vfs \<Rightarrow> ('a \<times> vfs) option) \<Rightarrow> kernel \<Rightarrow> ('a \<times> kernel) option" where
  "with_buffer f k = do {
     (r, k) \<leftarrow> with_files (\<lambda>v. f (v\<lparr>user := (\<lambda>a. mem k (of_nat a))\<rparr>)) k;
     Some (r, k\<lparr>mem := (\<lambda>a. user (vfs k) (unat a))\<rparr>) }"

definition read_buffer :: "int \<Rightarrow> u32 \<Rightarrow> u32 \<Rightarrow> kernel \<Rightarrow> (int \<times> kernel) option" where
  "read_buffer fd buf count k = (if fd < 0 then None else with_buffer (do_read (nat fd) (unat buf) count) k)"

definition kmalloc_buffer :: "u32 \<Rightarrow> kernel \<Rightarrow> (u32 option \<times> kernel) option" where
  "kmalloc_buffer sz k = do {
     (r, s) \<leftarrow> kmalloc (ucast sz) (slab k);
     Some (r, k\<lparr>slab := s\<rparr>) }"

definition kfree_buffer :: "u32 \<Rightarrow> kernel \<Rightarrow> kernel option" where
  "kfree_buffer p k = do { s \<leftarrow> kfree p (slab k); Some (k\<lparr>slab := s\<rparr>) }"

subsection \<open>Mapping the segments\<close>

record exec_vars =
  x_start_code :: u32
  x_end_code :: u32
  x_end_data :: u32
  x_start_brk :: u32
  x_brk :: u32

definition segment_prot :: "u32 \<Rightarrow> u32" where
  "segment_prot fl = (if fl AND PF_R \<noteq> 0 then PROT_READ else 0) OR (if fl AND PF_W \<noteq> 0 then PROT_WRITE else 0)
     OR (if fl AND PF_X \<noteq> 0 then PROT_EXEC else 0)"

definition segment_vars :: "elf32_program_header_table \<Rightarrow> exec_vars \<Rightarrow> exec_vars" where
  "segment_vars h x =
     (let x = (if x_start_code x = 0 \<and> p_vaddr h = 0 then x\<lparr>x_start_code := p_vaddr h\<rparr> else x);
          x = (if p_flags h = PF_RE then x\<lparr>x_end_code := p_vaddr h + p_memsz h\<rparr> else x)
      in if p_flags h = PF_RW
         then x\<lparr>x_end_data := p_vaddr h + p_memsz h, x_start_brk := p_vaddr h + p_memsz h, x_brk := p_vaddr h + p_memsz h\<rparr>
         else x)"

fun map_segments :: "nat \<Rightarrow> u32 \<Rightarrow> nat \<Rightarrow> exec_vars \<Rightarrow> kernel \<Rightarrow> (exec_vars \<times> kernel) option" where
  "map_segments 0 elf_ppnt fd x k = Some (x, k)"
| "map_segments (Suc n) elf_ppnt fd x k = do {
     let h = program_header_at (mem k) elf_ppnt;
     (x, k) \<leftarrow> (if p_type h = PT_LOAD
       then do {
         q \<leftarrow> cell (task_struct.filps (cur_task k)) fd;
         (_, k) \<leftarrow> do_mmap (p_filesz h) (obj_of q) (p_vaddr h) (p_memsz h + p_vaddr h) (segment_prot (p_flags h))
           (VM_MAP_FIXED OR VM_MAP_SHARED OR VM_MAP_DENYWRITE OR VM_MAP_EXECUTABLE) (p_offset h) k;
         Some (segment_vars h x, k) }
       else Some (x, k));
     map_segments n (elf_ppnt + 32) fd x k }"

definition do_uselib :: "u32 \<Rightarrow> int" where
  "do_uselib library = 0"

subsection \<open>The system call\<close>

text \<open>After the segments are mapped: the bounds of the process and its stack.\<close>

definition enter_program :: "u32 \<Rightarrow> u32 \<Rightarrow> u32 \<Rightarrow> int \<Rightarrow> exec_vars \<Rightarrow> kernel \<Rightarrow> (int \<times> kernel) option" where
  "enter_program ip elf_entry elf_phdata fd x k = do {
     let me = current (sch k);
     k \<leftarrow> upd_mm (cur_mm k) (\<lambda>m. m\<lparr>start_code := x_start_code x, end_code := x_end_code x, end_data := x_end_data x,
       start_brk := x_start_brk x, brk := x_brk x, start_stack := user_stack_page (tss (cur_task k)) + 4096\<rparr>) k;
     (_, k) \<leftarrow> set_brk (x_brk x) k;
     k \<leftarrow> upd_tss me (\<lambda>r. r\<lparr>eip := rd32 (mem k) ip\<rparr>) k;
     k \<leftarrow> kfree_buffer elf_phdata k;
     (_, k) \<leftarrow> with_files (do_close (nat fd)) k;
     let esp_addr = esp (tss (cur_task k));
     k \<leftarrow> upd_tss me (\<lambda>r. r\<lparr>cache_eip := elf_entry, esp := esp r - 4\<rparr>) k;
     let k = k\<lparr>mem := wr32 esp_addr (eip (tss (cur_task k))) (mem k)\<rparr>;
     Some (1, k\<lparr>mem := wr32 ip elf_entry (mem k)\<rparr>) }"

text \<open>The result of \<open>do_read\<close> only counts when it is 0. Nothing is given back when a test fails.\<close>

definition do_execve :: "u32 \<Rightarrow> u32 \<Rightarrow> kernel \<Rightarrow> (int \<times> kernel) option" where
  "do_execve ip filename k = do {
     (r, k) \<leftarrow> kmalloc_buffer 52 k;
     (fd, k) \<leftarrow> with_buffer (do_open (unat filename) FILE_NORMAL 0) k;
     (n, k) \<leftarrow> read_buffer fd (case r of None \<Rightarrow> 0 | Some a \<Rightarrow> a) 52 k;
     if n = 0 then Some (-1, k)
     else do {
       elf_head \<leftarrow> r;
       let h = elf_header_at (mem k) elf_head;
       if \<not> elf_accepted h then Some (-1, k)
       else do {
         (_, k) \<leftarrow> with_files (do_lseek (nat fd) 52 SEEK_SET) k;
         let size_count = ucast (e_phnum h) * ucast (e_phentsize h);
         k \<leftarrow> kfree_buffer elf_head k;
         (r, k) \<leftarrow> kmalloc_buffer size_count k;
         (n, k) \<leftarrow> read_buffer fd (case r of None \<Rightarrow> 0 | Some a \<Rightarrow> a) size_count k;
         if n = 0 then Some (-1, k)
         else do {
           elf_phdata \<leftarrow> r;
           (x, k) \<leftarrow> map_segments (unat (e_phnum h)) elf_phdata (nat fd)
             \<lparr>x_start_code = 0, x_end_code = 0, x_end_data = 0, x_start_brk = 0, x_brk = 0\<rparr> k;
           enter_program ip (e_entry h) elf_phdata fd x k } } } }"

subsection \<open>Properties\<close>

lemma put_ram_read16:
  assumes "unat a + length bs < 2 ^ 32" and "i + 2 \<le> length bs"
  shows "rd16 (put_ram a bs m) (a + of_nat i) = word16 bs i"
  using put_ram_read [OF assms(1), of i] put_ram_read [OF assms(1), of "i + 1"] assms(2)
  by (simp add: rd16_def word16_def algebra_simps)

lemma put_ram_read32:
  assumes "unat a + length bs < 2 ^ 32" and "i + 4 \<le> length bs"
  shows "rd32 (put_ram a bs m) (a + of_nat i) = word32 bs i"
  using put_ram_read [OF assms(1), of i] put_ram_read [OF assms(1), of "i + 1"] put_ram_read [OF assms(1), of "i + 2"]
    put_ram_read [OF assms(1), of "i + 3"] assms(2)
  by (simp add: rd32_def word32_def algebra_simps)

text \<open>The header as the format lays it out in a file.\<close>

definition header_bytes :: "elf32_header \<Rightarrow> u8 list" where
  "header_bytes h = ident h @ bytes16 (e_type h) @ bytes16 (e_machine h) @ bytes32 (e_version h) @ bytes32 (e_entry h)
     @ bytes32 (e_phoff h) @ bytes32 (e_shoff h) @ bytes32 (e_flags h) @ bytes16 (e_ehsize h) @ bytes16 (e_phentsize h)
     @ bytes16 (e_phnum h) @ bytes16 (e_shentsize h) @ bytes16 (e_shnum h) @ bytes16 (e_shstrndx h)"

lemma length_header_bytes: "length (ident h) = 16 \<Longrightarrow> length (header_bytes h) = 52"
  by (simp add: header_bytes_def)

lemma word_at: "k = length a \<Longrightarrow> word16 (a @ bytes16 v @ d) k = v" "k = length a \<Longrightarrow> word32 (a @ bytes32 w @ d) k = w"
  using word16_skip [of k a "bytes16 v @ d" 0] word32_skip [of k a "bytes32 w @ d" 0] by simp_all

text \<open>
  The fields that the kernel reads from a header in memory are those of the file format: a header
  written byte by byte at any address is read back unchanged.
\<close>
theorem elf_header_roundtrip:
  assumes "length (ident h) = 16" and "unat a + 52 < 2 ^ 32"
  shows "elf_header_at (put_ram a (header_bytes h) m) a = h"
proof -
  let ?b = "header_bytes h" and ?m = "put_ram a (header_bytes h) m"
  have n: "length ?b = 52" using assms(1) by (rule length_header_bytes)
  then have a: "unat a + length ?b < 2 ^ 32" using assms(2) by simp
  have r16: "rd16 ?m (a + of_nat i) = word16 ?b i" if "i + 2 \<le> 52" for i using put_ram_read16 [OF a] that n by simp
  have r32: "rd32 ?m (a + of_nat i) = word32 ?b i" if "i + 4 \<le> 52" for i using put_ram_read32 [OF a] that n by simp
  have "map (\<lambda>i. ?m (a + of_nat i)) [0..<16] = map ((!) ?b) [0..<16]" using put_ram_read [OF a] n by simp
  also have "\<dots> = ident h" using assms(1) by (intro nth_equalityI) (simp_all add: header_bytes_def nth_append)
  finally have "map (\<lambda>i. ?m (a + of_nat i)) [0..<16] = ident h" .
  moreover have "word16 ?b 16 = e_type h" "word16 ?b 18 = e_machine h" "word32 ?b 20 = e_version h" "word32 ?b 24 = e_entry h" "word32 ?b 28 = e_phoff h" "word32 ?b 32 = e_shoff h" "word32 ?b 36 = e_flags h" "word16 ?b 40 = e_ehsize h" "word16 ?b 42 = e_phentsize h" "word16 ?b 44 = e_phnum h" "word16 ?b 46 = e_shentsize h" "word16 ?b 48 = e_shnum h" "word16 ?b 50 = e_shstrndx h"
    using assms(1)
    word_at(1) [of 16 "ident h" "e_type h" "bytes16 (e_machine h) @ bytes32 (e_version h) @ bytes32 (e_entry h) @ bytes32 (e_phoff h) @ bytes32 (e_shoff h) @ bytes32 (e_flags h) @ bytes16 (e_ehsize h) @ bytes16 (e_phentsize h) @ bytes16 (e_phnum h) @ bytes16 (e_shentsize h) @ bytes16 (e_shnum h) @ bytes16 (e_shstrndx h)"]
    word_at(1) [of 18 "ident h @ bytes16 (e_type h)" "e_machine h" "bytes32 (e_version h) @ bytes32 (e_entry h) @ bytes32 (e_phoff h) @ bytes32 (e_shoff h) @ bytes32 (e_flags h) @ bytes16 (e_ehsize h) @ bytes16 (e_phentsize h) @ bytes16 (e_phnum h) @ bytes16 (e_shentsize h) @ bytes16 (e_shnum h) @ bytes16 (e_shstrndx h)"]
    word_at(2) [of 20 "ident h @ bytes16 (e_type h) @ bytes16 (e_machine h)" "e_version h" "bytes32 (e_entry h) @ bytes32 (e_phoff h) @ bytes32 (e_shoff h) @ bytes32 (e_flags h) @ bytes16 (e_ehsize h) @ bytes16 (e_phentsize h) @ bytes16 (e_phnum h) @ bytes16 (e_shentsize h) @ bytes16 (e_shnum h) @ bytes16 (e_shstrndx h)"]
    word_at(2) [of 24 "ident h @ bytes16 (e_type h) @ bytes16 (e_machine h) @ bytes32 (e_version h)" "e_entry h" "bytes32 (e_phoff h) @ bytes32 (e_shoff h) @ bytes32 (e_flags h) @ bytes16 (e_ehsize h) @ bytes16 (e_phentsize h) @ bytes16 (e_phnum h) @ bytes16 (e_shentsize h) @ bytes16 (e_shnum h) @ bytes16 (e_shstrndx h)"]
    word_at(2) [of 28 "ident h @ bytes16 (e_type h) @ bytes16 (e_machine h) @ bytes32 (e_version h) @ bytes32 (e_entry h)" "e_phoff h" "bytes32 (e_shoff h) @ bytes32 (e_flags h) @ bytes16 (e_ehsize h) @ bytes16 (e_phentsize h) @ bytes16 (e_phnum h) @ bytes16 (e_shentsize h) @ bytes16 (e_shnum h) @ bytes16 (e_shstrndx h)"]
    word_at(2) [of 32 "ident h @ bytes16 (e_type h) @ bytes16 (e_machine h) @ bytes32 (e_version h) @ bytes32 (e_entry h) @ bytes32 (e_phoff h)" "e_shoff h" "bytes32 (e_flags h) @ bytes16 (e_ehsize h) @ bytes16 (e_phentsize h) @ bytes16 (e_phnum h) @ bytes16 (e_shentsize h) @ bytes16 (e_shnum h) @ bytes16 (e_shstrndx h)"]
    word_at(2) [of 36 "ident h @ bytes16 (e_type h) @ bytes16 (e_machine h) @ bytes32 (e_version h) @ bytes32 (e_entry h) @ bytes32 (e_phoff h) @ bytes32 (e_shoff h)" "e_flags h" "bytes16 (e_ehsize h) @ bytes16 (e_phentsize h) @ bytes16 (e_phnum h) @ bytes16 (e_shentsize h) @ bytes16 (e_shnum h) @ bytes16 (e_shstrndx h)"]
    word_at(1) [of 40 "ident h @ bytes16 (e_type h) @ bytes16 (e_machine h) @ bytes32 (e_version h) @ bytes32 (e_entry h) @ bytes32 (e_phoff h) @ bytes32 (e_shoff h) @ bytes32 (e_flags h)" "e_ehsize h" "bytes16 (e_phentsize h) @ bytes16 (e_phnum h) @ bytes16 (e_shentsize h) @ bytes16 (e_shnum h) @ bytes16 (e_shstrndx h)"]
    word_at(1) [of 42 "ident h @ bytes16 (e_type h) @ bytes16 (e_machine h) @ bytes32 (e_version h) @ bytes32 (e_entry h) @ bytes32 (e_phoff h) @ bytes32 (e_shoff h) @ bytes32 (e_flags h) @ bytes16 (e_ehsize h)" "e_phentsize h" "bytes16 (e_phnum h) @ bytes16 (e_shentsize h) @ bytes16 (e_shnum h) @ bytes16 (e_shstrndx h)"]
    word_at(1) [of 44 "ident h @ bytes16 (e_type h) @ bytes16 (e_machine h) @ bytes32 (e_version h) @ bytes32 (e_entry h) @ bytes32 (e_phoff h) @ bytes32 (e_shoff h) @ bytes32 (e_flags h) @ bytes16 (e_ehsize h) @ bytes16 (e_phentsize h)" "e_phnum h" "bytes16 (e_shentsize h) @ bytes16 (e_shnum h) @ bytes16 (e_shstrndx h)"]
    word_at(1) [of 46 "ident h @ bytes16 (e_type h) @ bytes16 (e_machine h) @ bytes32 (e_version h) @ bytes32 (e_entry h) @ bytes32 (e_phoff h) @ bytes32 (e_shoff h) @ bytes32 (e_flags h) @ bytes16 (e_ehsize h) @ bytes16 (e_phentsize h) @ bytes16 (e_phnum h)" "e_shentsize h" "bytes16 (e_shnum h) @ bytes16 (e_shstrndx h)"]
    word_at(1) [of 48 "ident h @ bytes16 (e_type h) @ bytes16 (e_machine h) @ bytes32 (e_version h) @ bytes32 (e_entry h) @ bytes32 (e_phoff h) @ bytes32 (e_shoff h) @ bytes32 (e_flags h) @ bytes16 (e_ehsize h) @ bytes16 (e_phentsize h) @ bytes16 (e_phnum h) @ bytes16 (e_shentsize h)" "e_shnum h" "bytes16 (e_shstrndx h)"]
    word_at(1) [of 50 "ident h @ bytes16 (e_type h) @ bytes16 (e_machine h) @ bytes32 (e_version h) @ bytes32 (e_entry h) @ bytes32 (e_phoff h) @ bytes32 (e_shoff h) @ bytes32 (e_flags h) @ bytes16 (e_ehsize h) @ bytes16 (e_phentsize h) @ bytes16 (e_phnum h) @ bytes16 (e_shentsize h) @ bytes16 (e_shnum h)" "e_shstrndx h" "[]"]
    by (simp_all add: header_bytes_def)
  ultimately show ?thesis
    using r16 [of 16] r16 [of 18] r32 [of 20] r32 [of 24] r32 [of 28] r32 [of 32] r32 [of 36] r16 [of 40] r16 [of 42] r16 [of 44] r16 [of 46] r16 [of 48] r16 [of 50] by (simp add: elf_header_at_def)
qed

text \<open>
  Mapping a segment that has bytes in the file follows a null pointer, when the list of shared areas
  ends and the new area is not on it. The page at address 0 is mapped in the kernel, so that the
  processor goes on with what lies there; the model does not follow such a run.
\<close>
theorem map_segments_follows_null:
  assumes "h = program_header_at (mem k) elf_ppnt" and "p_type h = PT_LOAD" and "0 < p_filesz h"
    and "cell (task_struct.filps (cur_task k)) fd = Some q" and "q \<noteq> 0"
    and "alloc_object (vm_area_cachep (slab k)) k = Some (Some vm, k')"
    and "share_list (areas k) (init_mmap k) xs" and "vm \<notin> set xs"
  shows "map_segments (Suc n) elf_ppnt fd x k = None"
proof -
  obtain f where "obj_of q = Some f" using assms(5) by (simp add: obj_of_def)
  then show ?thesis
    using mmap_file_follows_null [OF assms(6-8), of "p_filesz h" f] assms(1-4) by (simp add: Let_def)
qed

subsection \<open>Witnesses\<close>

definition sample_header :: elf32_header where
  "sample_header = \<lparr>ident = [0x7f, 0x45, 0x4c, 0x46, 1, 1, 1, 0, 0, 0, 0, 0, 0, 0, 0, 0], e_type = 2, e_machine = 3, e_version = 1,
     e_entry = 0x1000000, e_phoff = 52, e_shoff = 0, e_flags = 0, e_ehsize = 52, e_phentsize = 32, e_phnum = 1, e_shentsize = 40,
     e_shnum = 0, e_shstrndx = 0\<rparr>"

theorem elf_header_roundtrip_witness:
  "elf_accepted (elf_header_at (put_ram 0x20000 (header_bytes sample_header) (\<lambda>_. 0)) 0x20000)"
proof -
  have "elf_header_at (put_ram 0x20000 (header_bytes sample_header) (\<lambda>_. 0)) 0x20000 = sample_header"
    by (rule elf_header_roundtrip) (simp_all add: sample_header_def)
  then show ?thesis by (simp add: elf_accepted_def sample_header_def)
qed

definition segment_ram :: ram where
  "segment_ram = wr32 0x20000 1 (wr32 0x20010 100 (\<lambda>_. 0))"

theorem map_segments_follows_null_witness:
  "map_segments 1 0x20000 0 \<lparr>x_start_code = 0, x_end_code = 0, x_end_data = 0, x_start_brk = 0, x_brk = 0\<rparr>
     (fork_kernel\<lparr>mem := segment_ram\<rparr>) = None"
proof -
  let ?k = "fork_kernel\<lparr>mem := segment_ram\<rparr>"
  have h: "rd32 segment_ram 0x20000 = 1" "rd32 segment_ram 0x20010 = 100"
    using rd32_wr32_other [of "0x20000" "0x20010" 1 "wr32 0x20010 100 (\<lambda>_. 0)"] by (simp_all add: segment_ram_def)
  have "first_slab 0x2000 0x10000 (0x10000 + ucast (32 :: u16)) 464 7 (slab ?k) 2"
    using sample_first_slab [of 2 7 "0x2000" 32 464] by (simp add: first_slab_def fork_kernel_def)
  then obtain s where s: "alloc_object (Some 0x2000) ?k = Some (Some 0x103c0, ?k\<lparr>slab := s\<rparr>)"
    by (rule alloc_next) simp_all
  have "map_segments (Suc 0) 0x20000 0 \<lparr>x_start_code = 0, x_end_code = 0, x_end_data = 0, x_start_brk = 0, x_brk = 0\<rparr> ?k = None"
  proof (rule map_segments_follows_null [where q = 1 and xs = "[0x3000]", OF refl])
    show "alloc_object (vm_area_cachep (slab ?k)) ?k = Some (Some 0x103c0, ?k\<lparr>slab := s\<rparr>)" using s by (simp add: fork_kernel_def)
    show "cell (task_struct.filps (cur_task ?k)) 0 = Some 1" by (simp add: cur_task_def fork_task_def cell_def)
    show "share_list (areas ?k) (init_mmap ?k) [0x3000]" by (simp add: fork_kernel_def zero_area_def)
  qed (simp_all add: program_header_at_def h)
  then show ?thesis by simp
qed

end
