(* ===== verification/Tty_Queue.thy ===== *)
theory Tty_Queue
  imports Prelude
begin

unbundle bit_operations_syntax

section \<open>The character queue of a terminal\<close>

text \<open>
  Models \<open>struct tty_queue\<close> and \<open>struct tty_struct\<close> (include/tty.h) and the two
  operations on the queue of the foreground terminal, \<open>put_queue\<close> and \<open>read_char\<close>
  (drivers/keyboard.c). The queue is a ring buffer of \<open>TTY_BUF_SIZE\<close> characters with a
  write position \<open>head_ptr\<close> and a read position \<open>tail_ptr\<close>.

  The locale \<open>bounded_fifo\<close> states what a client of a bounded queue relies on; the ring
  buffer is an instance of it, with \<open>ring_list\<close> as the abstraction to a list. The two
  places where the code leaves that contract are stated too: a put into a full queue whose
  read position is 0, and a read from an empty queue.
\<close>

subsection \<open>Data\<close>

abbreviation TTY_BUF_SIZE :: u32 where "TTY_BUF_SIZE \<equiv> 1024"
abbreviation NR_TTY :: nat where "NR_TTY \<equiv> 4"
abbreviation MAX_CONSOLES :: nat where "MAX_CONSOLES \<equiv> 4"

record tty_queue =
  head_ptr :: u32
  tail_ptr :: u32
  buf :: "u8 list"

record tty_struct =
  tty_pid :: u32
  queue :: tty_queue

subsection \<open>Operations\<close>

text \<open>\<open>put_queue\<close> stores the character first and then looks whether the queue was full;
  in that case it steps the write position back.\<close>

definition put_queue :: "u8 \<Rightarrow> tty_queue \<Rightarrow> tty_queue option" where
  "put_queue c r_q = do {
     b \<leftarrow> put_cell (unat (head_ptr r_q)) c (buf r_q);
     let h = (head_ptr r_q + 1) AND (TTY_BUF_SIZE - 1);
     if h = tail_ptr r_q
     then Some (r_q\<lparr>buf := b, head_ptr := h - 1\<rparr>)
     else Some (r_q\<lparr>buf := b, head_ptr := h\<rparr>) }"

text \<open>\<open>read_char\<close> does not look whether the queue is empty.\<close>

definition read_char :: "tty_queue \<Rightarrow> (u8 \<times> tty_queue) option" where
  "read_char q = do {
     c \<leftarrow> cell (buf q) (unat (tail_ptr q));
     Some (c, q\<lparr>tail_ptr := (tail_ptr q + 1) AND (TTY_BUF_SIZE - 1)\<rparr>) }"

subsection \<open>The interface a client relies on\<close>

fun enq_all :: "('a \<Rightarrow> 'q \<Rightarrow> 'q option) \<Rightarrow> 'a list \<Rightarrow> 'q \<Rightarrow> 'q option" where
  "enq_all enq [] q = Some q"
| "enq_all enq (x # xs) q = do { q' \<leftarrow> enq x q; enq_all enq xs q' }"

fun deq_all :: "('q \<Rightarrow> ('a \<times> 'q) option) \<Rightarrow> nat \<Rightarrow> 'q \<Rightarrow> ('a list \<times> 'q) option" where
  "deq_all deq 0 q = Some ([], q)"
| "deq_all deq (Suc n) q = do { (x, q') \<leftarrow> deq q; (xs, q'') \<leftarrow> deq_all deq n q'; Some (x # xs, q'') }"

locale bounded_fifo =
  fixes enq :: "'a \<Rightarrow> 'q \<Rightarrow> 'q option"
    and deq :: "'q \<Rightarrow> ('a \<times> 'q) option"
    and contents :: "'q \<Rightarrow> 'a list"
    and invar :: "'q \<Rightarrow> bool"
    and capacity :: nat
  assumes enq_room: "invar q \<Longrightarrow> length (contents q) < capacity \<Longrightarrow>
      \<exists>q'. enq x q = Some q' \<and> invar q' \<and> contents q' = contents q @ [x]"
    and deq_Cons: "invar q \<Longrightarrow> contents q = x # xs \<Longrightarrow>
      \<exists>q'. deq q = Some (x, q') \<and> invar q' \<and> contents q' = xs"
begin

lemma enq_all_appends:
  "invar q \<Longrightarrow> length (contents q) + length xs \<le> capacity \<Longrightarrow>
     \<exists>q'. enq_all enq xs q = Some q' \<and> invar q' \<and> contents q' = contents q @ xs"
proof (induction xs arbitrary: q)
  case Nil
  then show ?case by simp
next
  case (Cons x xs)
  then obtain q1 where q1: "enq x q = Some q1" "invar q1" "contents q1 = contents q @ [x]"
    using enq_room [of q x] by auto
  with Cons.prems have "length (contents q1) + length xs \<le> capacity" by simp
  from Cons.IH [OF q1(2) this] q1 show ?case by auto
qed

lemma deq_all_removes:
  "invar q \<Longrightarrow> contents q = xs @ ys \<Longrightarrow>
     \<exists>q'. deq_all deq (length xs) q = Some (xs, q') \<and> invar q' \<and> contents q' = ys"
proof (induction xs arbitrary: q)
  case Nil
  then show ?case by simp
next
  case (Cons x xs)
  then obtain q1 where q1: "deq q = Some (x, q1)" "invar q1" "contents q1 = xs @ ys"
    using deq_Cons [of q x "xs @ ys"] by auto
  from Cons.IH [OF q1(2,3)] q1 show ?case by auto
qed

lemma fifo_order:
  assumes "invar q" and "contents q = []" and "length xs \<le> capacity"
  shows "\<exists>q' q''. enq_all enq xs q = Some q' \<and> deq_all deq (length xs) q' = Some (xs, q'')
           \<and> invar q'' \<and> contents q'' = []"
proof -
  from enq_all_appends [OF assms(1), of xs] assms obtain q'
    where "enq_all enq xs q = Some q'" "invar q'" "contents q' = xs @ []" by auto
  with deq_all_removes [of q' xs "[]"] show ?thesis by auto
qed

end

subsection \<open>The ring buffer is a bounded queue\<close>

definition ring_inv :: "tty_queue \<Rightarrow> bool" where
  "ring_inv q \<longleftrightarrow> length (buf q) = 1024 \<and> unat (head_ptr q) < 1024 \<and> unat (tail_ptr q) < 1024"

definition ring_len :: "tty_queue \<Rightarrow> nat" where
  "ring_len q = (unat (head_ptr q) + 1024 - unat (tail_ptr q)) mod 1024"

definition ring_list :: "tty_queue \<Rightarrow> u8 list" where
  "ring_list q = map (\<lambda>i. buf q ! ((unat (tail_ptr q) + i) mod 1024)) [0..<ring_len q]"

lemma length_ring_list [simp]: "length (ring_list q) = ring_len q"
  by (simp add: ring_list_def)

lemma ring_len_less: "ring_len q < 1024"
  by (simp add: ring_len_def)

lemma unat_succ_ptr [word_nat]:
  "unat (p::u32) < 1024 \<Longrightarrow> unat ((p + 1) AND 1023) = (unat p + 1) mod 1024"
  by (simp add: unat_and_mask10 unat_word_ariths)

text \<open>Remainder arithmetic on two positions below 1024, used for both operations.\<close>

lemma ring_step_head:
  assumes "h < 1024" and "t < (1024::nat)" and "(h + 1) mod 1024 \<noteq> t"
  shows "((h + 1) mod 1024 + 1024 - t) mod 1024 = Suc ((h + 1024 - t) mod 1024)"
    and "(t + (h + 1024 - t) mod 1024) mod 1024 = h"
    and "i < (h + 1024 - t) mod 1024 \<Longrightarrow> (t + i) mod 1024 \<noteq> h"
  using assms by (auto simp: mod_wrap split: if_splits)

lemma ring_full_iff:
  assumes "h < 1024" and "t < (1024::nat)"
  shows "(h + 1) mod 1024 = t \<longleftrightarrow> (h + 1024 - t) mod 1024 = 1023"
  using assms by (auto simp: mod_wrap split: if_splits)

lemma put_queue_room:
  assumes "ring_inv q" and "ring_len q < 1023"
  shows "\<exists>q'. put_queue c q = Some q' \<and> ring_inv q' \<and> ring_list q' = ring_list q @ [c]"
proof -
  let ?h = "unat (head_ptr q)" and ?t = "unat (tail_ptr q)"
  let ?h' = "(head_ptr q + 1) AND 1023"
  let ?q' = "q\<lparr>buf := (buf q)[?h := c], head_ptr := ?h'\<rparr>"
  have b: "?h < 1024" "?t < 1024" "length (buf q) = 1024"
    using assms(1) by (auto simp: ring_inv_def)
  have h': "unat ?h' = (?h + 1) mod 1024" using b(1) by (rule unat_succ_ptr)
  have nf: "(?h + 1) mod 1024 \<noteq> ?t"
    using assms(2) ring_full_iff [OF b(1,2)] by (simp add: ring_len_def)
  then have "?h' \<noteq> tail_ptr q" using h' by auto
  then have put: "put_queue c q = Some ?q'"
    using b by (simp add: put_queue_def)
  note st = ring_step_head [OF b(1,2) nf]
  have old: "(buf q)[?h := c] ! ((?t + i) mod 1024) = buf q ! ((?t + i) mod 1024)"
    if "i < ring_len q" for i
    using st(3) [of i] that by (simp add: ring_len_def)
  have len': "ring_len ?q' = Suc (ring_len q)" using st(1) by (simp add: ring_len_def h')
  have "(?t + ring_len q) mod 1024 = ?h" using st(2) by (simp add: ring_len_def)
  then have "ring_list ?q' = ring_list q @ [c]"
    unfolding ring_list_def len' using b old by simp
  moreover have "ring_inv ?q'" using b h' by (simp add: ring_inv_def)
  ultimately show ?thesis using put by blast
qed

lemma read_char_Cons:
  assumes "ring_inv q" and "ring_list q = x # xs"
  shows "\<exists>q'. read_char q = Some (x, q') \<and> ring_inv q' \<and> ring_list q' = xs"
proof -
  let ?h = "unat (head_ptr q)" and ?t = "unat (tail_ptr q)"
  let ?q' = "q\<lparr>tail_ptr := (tail_ptr q + 1) AND 1023\<rparr>"
  have b: "?h < 1024" "?t < 1024" "length (buf q) = 1024"
    using assms(1) by (auto simp: ring_inv_def)
  have t': "unat ((tail_ptr q + 1) AND 1023) = (?t + 1) mod 1024" using b(2) by (rule unat_succ_ptr)
  obtain n where n: "ring_len q = Suc n"
    using assms(2) by (metis length_ring_list length_Cons)
  then have hd: "x = buf q ! ?t" and tl: "xs = map (\<lambda>i. buf q ! ((?t + i) mod 1024)) [1..<Suc n]"
    using assms(2) b by (auto simp: ring_list_def upt_conv_Cons simp del: upt_Suc)
  have len': "ring_len ?q' = n"
    using n b unfolding ring_len_def by (auto simp: t' mod_wrap split: if_splits)
  have "ring_list ?q' = map (\<lambda>i. buf q ! ((?t + 1 + i) mod 1024)) [0..<n]"
    unfolding ring_list_def len' by (simp add: t' mod_simps)
  also have "\<dots> = xs"
    by (simp add: tl map_Suc_upt [symmetric] del: upt_Suc)
  finally have "ring_list ?q' = xs" .
  moreover have "ring_inv ?q'" using b t' by (simp add: ring_inv_def)
  moreover have "read_char q = Some (x, ?q')" using b hd by (simp add: read_char_def)
  ultimately show ?thesis by blast
qed

interpretation tty: bounded_fifo put_queue read_char ring_list ring_inv 1023
  by unfold_locales (use put_queue_room read_char_Cons in auto)

subsection \<open>Properties\<close>

lemma read_char_total: "ring_inv q \<Longrightarrow> read_char q = Some (buf q ! unat (tail_ptr q),
    q\<lparr>tail_ptr := (tail_ptr q + 1) AND 1023\<rparr>)"
  by (simp add: read_char_def ring_inv_def)

text \<open>
  C1. First in, first out: characters put into an empty terminal queue by \<open>put_queue\<close>, at
  most 1023 of them and from any position of the ring, come out of \<open>read_char\<close> in the same
  order, and the queue is empty again.
\<close>
theorem tty_queue_fifo:
  assumes "ring_inv q" and "ring_list q = []" and "length cs \<le> 1023"
  shows "\<exists>q' q''. enq_all put_queue cs q = Some q' \<and> deq_all read_char (length cs) q' = Some (cs, q'')
           \<and> ring_inv q'' \<and> ring_list q'' = []"
  using assms by (rule tty.fifo_order)

definition empty_queue :: "u32 \<Rightarrow> tty_queue" where
  "empty_queue p = \<lparr>head_ptr = p, tail_ptr = p, buf = replicate 1024 0\<rparr>"

lemma empty_queue_ring: "unat p < 1024 \<Longrightarrow> ring_inv (empty_queue p) \<and> ring_list (empty_queue p) = []"
  by (simp add: empty_queue_def ring_inv_def ring_list_def ring_len_def)

theorem tty_queue_fifo_witness:
  "\<exists>q' q''. enq_all put_queue [104, 105] (empty_queue 1023) = Some q'
      \<and> deq_all read_char (length [104, 105::u8]) q' = Some ([104, 105], q'')
      \<and> ring_inv q'' \<and> ring_list q'' = []"
  by (rule tty_queue_fifo) (simp_all add: empty_queue_ring)

text \<open>
  A full queue (1023 characters) whose read position is not 0 drops the character that
  \<open>put_queue\<close> is given: the positions and the queued characters stay as they are.
\<close>
theorem put_queue_full:
  assumes "ring_inv q" and "ring_len q = 1023" and "tail_ptr q \<noteq> 0"
  shows "\<exists>q'. put_queue c q = Some q' \<and> ring_inv q' \<and> ring_list q' = ring_list q
           \<and> head_ptr q' = head_ptr q \<and> tail_ptr q' = tail_ptr q"
proof -
  let ?h = "unat (head_ptr q)" and ?t = "unat (tail_ptr q)"
  let ?q' = "q\<lparr>buf := (buf q)[?h := c]\<rparr>"
  have b: "?h < 1024" "?t < 1024" "length (buf q) = 1024"
    using assms(1) by (auto simp: ring_inv_def)
  have wrap: "(?h + 1) mod 1024 = ?t"
    using assms(2) ring_full_iff [OF b(1,2)] by (simp add: ring_len_def)
  have h': "unat ((head_ptr q + 1) AND 1023) = ?t" using unat_succ_ptr [OF b(1)] wrap by simp
  have "?t \<noteq> 0" using assms(3) by (simp add: unat_eq_0)
  then have "?h + 1 = ?t" using wrap b(1) by (auto simp: mod_wrap split: if_splits)
  then have "head_ptr q + 1 = tail_ptr q"
    using b(1) by (simp add: word_unat_eq_iff unat_add1_u32)
  then have ht: "head_ptr q = tail_ptr q - 1" by (simp add: eq_diff_eq)
  have "put_queue c q = Some ?q'"
    using b h' ht by (auto simp: put_queue_def word_unat_eq_iff [symmetric] Let_def)
  moreover have "buf ?q' ! ((?t + i) mod 1024) = buf q ! ((?t + i) mod 1024)" if "i < 1023" for i
  proof -
    have "(?t + i) mod 1024 \<noteq> ?h" using \<open>?h + 1 = ?t\<close> that b by (auto simp: mod_wrap)
    then show ?thesis by simp
  qed
  then have "ring_list ?q' = ring_list q"
    using assms(2) by (simp add: ring_list_def ring_len_def)
  moreover have "ring_inv ?q'" using assms(1) by (simp add: ring_inv_def)
  ultimately show ?thesis by auto
qed

text \<open>
  A full queue whose read position is 0 is broken by one more \<open>put_queue\<close>: the write
  position steps back from 0 to \<open>0xFFFFFFFF\<close>, and the next character is stored outside
  the buffer.
\<close>
theorem put_queue_full_at_zero:
  assumes "ring_inv q" and "ring_len q = 1023" and "tail_ptr q = 0"
  shows "\<exists>q'. put_queue c q = Some q' \<and> head_ptr q' = 0xFFFFFFFF \<and> put_queue c' q' = None"
proof -
  let ?h = "unat (head_ptr q)"
  have b: "?h < 1024" "length (buf q) = 1024" using assms(1) by (auto simp: ring_inv_def)
  have "(?h + 1) mod 1024 = 0"
    using assms(2,3) ring_full_iff [OF b(1), of 0] by (simp add: ring_len_def)
  then have "(head_ptr q + 1) AND 1023 = 0" using unat_succ_ptr [OF b(1)] by (simp add: unat_eq_0)
  then have "put_queue c q = Some (q\<lparr>buf := (buf q)[?h := c], head_ptr := 0xFFFFFFFF\<rparr>)"
    using b assms(3) by (simp add: put_queue_def)
  then show ?thesis using b by (simp add: put_queue_def)
qed

text \<open>
  Reading an empty queue does not fail: it hands out whatever the ring holds at the read
  position, moves that position past the write position, and thereby turns the 1023 stale
  characters of the ring into queued ones.
\<close>
theorem read_char_empty:
  assumes "ring_inv q" and "ring_list q = []"
  shows "\<exists>q'. read_char q = Some (buf q ! unat (tail_ptr q), q') \<and> ring_inv q' \<and> ring_len q' = 1023"
proof -
  let ?h = "unat (head_ptr q)" and ?t = "unat (tail_ptr q)"
  have b: "?h < 1024" "?t < 1024" using assms(1) by (auto simp: ring_inv_def)
  have "ring_len q = 0" using assms(2) by (metis length_ring_list list.size(3))
  then have "?h = ?t" using b by (auto simp: ring_len_def mod_wrap split: if_splits)
  then show ?thesis
    using b assms(1) unat_succ_ptr [OF b(2)]
    by (auto simp: read_char_total ring_inv_def ring_len_def mod_wrap split: if_splits)
qed

definition full_queue :: "u32 \<Rightarrow> u32 \<Rightarrow> tty_queue" where
  "full_queue h t = \<lparr>head_ptr = h, tail_ptr = t, buf = replicate 1024 65\<rparr>"

lemma full_queue_ring:
  "unat h < 1024 \<Longrightarrow> unat t < 1024 \<Longrightarrow> (unat h + 1) mod 1024 = unat t \<Longrightarrow>
     ring_inv (full_queue h t) \<and> ring_len (full_queue h t) = 1023"
  by (simp add: full_queue_def ring_inv_def ring_len_def ring_full_iff [symmetric])

theorem put_queue_full_witness:
  "\<exists>q'. put_queue 66 (full_queue 6 7) = Some q' \<and> ring_inv q'
      \<and> ring_list q' = ring_list (full_queue 6 7)
      \<and> head_ptr q' = head_ptr (full_queue 6 7) \<and> tail_ptr q' = tail_ptr (full_queue 6 7)"
  by (rule put_queue_full) (simp_all add: full_queue_ring, simp add: full_queue_def)

theorem put_queue_full_at_zero_witness:
  "\<exists>q'. put_queue 66 (full_queue 1023 0) = Some q' \<and> head_ptr q' = 0xFFFFFFFF
      \<and> put_queue 67 q' = None"
  by (rule put_queue_full_at_zero) (simp_all add: full_queue_ring, simp add: full_queue_def)

theorem read_char_empty_witness:
  "\<exists>q'. read_char (empty_queue 5) = Some (buf (empty_queue 5) ! unat (tail_ptr (empty_queue 5)), q')
      \<and> ring_inv q' \<and> ring_len q' = 1023"
  by (rule read_char_empty) (simp_all add: empty_queue_ring)

end
