(* ===== verification/Console.thy ===== *)
theory Console
  imports Tty_Queue
begin

unbundle bit_operations_syntax

section \<open>The text console\<close>

text \<open>
  Models drivers/console.c with the data of include/console.h. A \<open>window\<close> is the
  \<open>struct window\<close> of one virtual console, \<open>console\<close> holds the file's static variables,
  the terminal table, the video memory and the bytes sent to I/O ports.

  Video memory is accessed in 16-bit units only (character in the low byte, attribute in
  the high byte), so \<open>video_ram\<close> maps the address of a unit to its value.

  The lemmas show that the characters without cursor movement of their own (everything but
  escape sequences and tabs) keep the cursor inside its window, keep the three cursor
  fields consistent and change video memory inside the window only; what \<open>insert_char\<close>
  does to a row; what \<open>con_init\<close> sets up; and what reaches the cursor registers.
\<close>

subsection \<open>Data\<close>

abbreviation CURSOR_CURRENT_14 :: u8 where "CURSOR_CURRENT_14 \<equiv> 14"
abbreviation CURSOR_CURRENT_15 :: u8 where "CURSOR_CURRENT_15 \<equiv> 15"
abbreviation VIDEO_MEM_BASE_PORT_12 :: u8 where "VIDEO_MEM_BASE_PORT_12 \<equiv> 12"
abbreviation VIDEO_MEM_BASE_PORT_13 :: u8 where "VIDEO_MEM_BASE_PORT_13 \<equiv> 13"
abbreviation VIDEO_PORT_REG :: u16 where "VIDEO_PORT_REG \<equiv> 0x3d4"
abbreviation VIDEO_PROT_VAL :: u16 where "VIDEO_PROT_VAL \<equiv> 0x3d5"
abbreviation VIDEO_TYPE_EGAC :: u8 where "VIDEO_TYPE_EGAC \<equiv> 0x21"
abbreviation video_space_char :: u16 where "video_space_char \<equiv> 0x0720"

abbreviation Backspace :: u8 where "Backspace \<equiv> 0x08"
abbreviation HT_TAB :: u8 where "HT_TAB \<equiv> 0x09"
abbreviation LF_NL :: u8 where "LF_NL \<equiv> 0x0A"
abbreviation CR :: u8 where "CR \<equiv> 0x0D"
abbreviation ESC :: u8 where "ESC \<equiv> 0x1B"
abbreviation DEL :: u8 where "DEL \<equiv> 0x7F"

record window =
  cursor_x :: u32
  cursor_y :: u32
  cursor_pos :: u32
  video_mem_start :: u32
  video_mem_end :: u32
  origin :: u32
  scr_end :: u32
  win_top :: u32
  win_bottom :: u32
  attr :: u8
  def_attr :: u8
  bold_atrr :: u8

record console =
  fg_console :: nat
  nr_console :: nat
  con_table :: "tty_struct list"
  vc_windows :: "window list"
  video_mem_base :: u32
  video_mem_term :: u32
  video_type :: u8
  video_size_row :: u32
  video_num_columns :: u32
  video_num_lines :: u32
  video_ram :: "u32 \<Rightarrow> u16"
  port_out :: "(u16 \<times> u8) list"

datatype es_state = ESnormal | ESesc

subsection \<open>Accessors\<close>

definition outb :: "u8 \<Rightarrow> u16 \<Rightarrow> console \<Rightarrow> console" where
  "outb v port s = s\<lparr>port_out := port_out s @ [(port, v)]\<rparr>"

definition upd_win :: "nat \<Rightarrow> (window \<Rightarrow> window) \<Rightarrow> console \<Rightarrow> console option" where
  "upd_win currcons f s = do {
     w \<leftarrow> cell (vc_windows s) currcons;
     Some (s\<lparr>vc_windows := (vc_windows s)[currcons := f w]\<rparr>) }"

definition store_word :: "u32 \<Rightarrow> u16 \<Rightarrow> console \<Rightarrow> console" where
  "store_word a v s = s\<lparr>video_ram := (video_ram s)(a := v)\<rparr>"

text \<open>\<open>ax\<close> after \<open>movb attr,%ah\<close>: the character below, the attribute above.\<close>

definition char_cell :: "u8 \<Rightarrow> u8 \<Rightarrow> u16" where
  "char_cell c a = push_bit 8 (ucast a) OR ucast c"

subsection \<open>Cursor and origin registers\<close>

definition con_set_cursor :: "nat \<Rightarrow> console \<Rightarrow> console option" where
  "con_set_cursor currcons s =
     (if currcons \<noteq> fg_console s then Some s
      else do {
        w \<leftarrow> cell (vc_windows s) currcons;
        let pos = cursor_pos w - video_mem_base s;
        let s = outb CURSOR_CURRENT_14 VIDEO_PORT_REG s;
        let s = outb (ucast (0xff AND drop_bit 9 pos)) VIDEO_PROT_VAL s;
        let s = outb CURSOR_CURRENT_15 VIDEO_PORT_REG s;
        Some (outb (ucast (0xff AND drop_bit 1 pos)) VIDEO_PROT_VAL s) })"

definition hide_cursor :: "nat \<Rightarrow> console \<Rightarrow> console" where
  "hide_cursor currcons s =
     (if currcons \<noteq> fg_console s then s
      else outb 0 VIDEO_PROT_VAL (outb CURSOR_CURRENT_15 VIDEO_PORT_REG
             (outb 0 VIDEO_PROT_VAL (outb CURSOR_CURRENT_14 VIDEO_PORT_REG s))))"

definition set_origin :: "nat \<Rightarrow> console \<Rightarrow> console option" where
  "set_origin currcons s =
     (if currcons \<noteq> fg_console s then Some s
      else do {
        w \<leftarrow> cell (vc_windows s) currcons;
        let pos = origin w - video_mem_base s;
        let s = outb VIDEO_MEM_BASE_PORT_12 VIDEO_PORT_REG s;
        let s = outb (ucast (drop_bit 9 pos AND 0xff)) VIDEO_PROT_VAL s;
        let s = outb VIDEO_MEM_BASE_PORT_13 VIDEO_PORT_REG s;
        Some (outb (ucast (drop_bit 1 pos AND 0xff)) VIDEO_PROT_VAL s) })"

subsection \<open>Moving the cursor\<close>

definition update_cursor_xy :: "nat \<Rightarrow> u32 \<Rightarrow> u32 \<Rightarrow> console \<Rightarrow> console option" where
  "update_cursor_xy currcons new_x new_y s =
     (if video_num_columns s < new_x \<or> video_num_lines s \<le> new_y then Some s
      else upd_win currcons (\<lambda>w. w\<lparr>cursor_x := new_x, cursor_y := new_y,
             cursor_pos := video_mem_start w + new_y * video_size_row s + push_bit 1 new_x\<rparr>) s)"

definition down_cursor :: "nat \<Rightarrow> console \<Rightarrow> console option" where
  "down_cursor currcons s =
     upd_win currcons (\<lambda>w. w\<lparr>cursor_y := cursor_y w - 1,
       cursor_pos := cursor_pos w - video_size_row s\<rparr>) s"

definition up_cursor :: "nat \<Rightarrow> console \<Rightarrow> console option" where
  "up_cursor currcons s =
     upd_win currcons (\<lambda>w. if cursor_y w + 1 < video_num_lines s
       then w\<lparr>cursor_y := cursor_y w + 1,
              cursor_pos := cursor_pos w + (video_size_row s - push_bit 1 (cursor_x w))\<rparr>
       else w) s"

text \<open>The columns are unsigned, so \<open>cursor_x - 1 > 0\<close> holds for column 0 and fails for
  column 1.\<close>

definition left_cursor :: "nat \<Rightarrow> console \<Rightarrow> console option" where
  "left_cursor currcons s =
     upd_win currcons (\<lambda>w. if 0 < cursor_x w - 1
       then w\<lparr>cursor_x := cursor_x w - 1, cursor_pos := cursor_pos w - 2\<rparr>
       else w) s"

definition right_cursor :: "nat \<Rightarrow> console \<Rightarrow> console option" where
  "right_cursor currcons s =
     upd_win currcons (\<lambda>w. if cursor_x w + 1 < video_num_columns s
       then w\<lparr>cursor_x := cursor_x w + 1, cursor_pos := cursor_pos w + 2\<rparr>
       else w) s"

definition cr :: "nat \<Rightarrow> console \<Rightarrow> console option" where
  "cr currcons s =
     upd_win currcons (\<lambda>w. w\<lparr>cursor_pos := cursor_pos w - push_bit 1 (cursor_x w),
       cursor_x := 0\<rparr>) s"

subsection \<open>Inserting and deleting characters\<close>

fun insert_shift :: "nat \<Rightarrow> u32 \<Rightarrow> u16 \<Rightarrow> (u32 \<Rightarrow> u16) \<Rightarrow> (u32 \<Rightarrow> u16)" where
  "insert_shift 0 base old m = m"
| "insert_shift (Suc n) base old m = insert_shift n (base + 2) (m base) (m(base := old))"

definition insert_char :: "nat \<Rightarrow> u8 \<Rightarrow> console \<Rightarrow> console option" where
  "insert_char currcons c s = do {
     w \<leftarrow> cell (vc_windows s) currcons;
     Some (s\<lparr>video_ram := insert_shift (unat (video_num_columns s) - unat (cursor_x w))
                            (cursor_pos w) (scast c) (video_ram s)\<rparr>) }"

fun repeat_con :: "nat \<Rightarrow> (console \<Rightarrow> console option) \<Rightarrow> console \<Rightarrow> console option" where
  "repeat_con 0 f s = Some s"
| "repeat_con (Suc n) f s = do { s' \<leftarrow> f s; repeat_con n f s' }"

text \<open>\<open>nr\<close> is an \<open>int\<close>; its comparison with the unsigned column count is unsigned, the one
  with 0 is signed.\<close>

definition clamp_count :: "u32 \<Rightarrow> u32 \<Rightarrow> u32" where
  "clamp_count columns nr =
     (let nr = (if columns < nr then columns else nr) in if sint nr \<le> 0 then 1 else nr)"

definition instert_char_num :: "nat \<Rightarrow> u32 \<Rightarrow> u8 \<Rightarrow> console \<Rightarrow> console option" where
  "instert_char_num currcons nr c s =
     repeat_con (unat (clamp_count (video_num_columns s) nr)) (insert_char currcons c) s"

fun delete_shift :: "nat \<Rightarrow> u32 \<Rightarrow> (u32 \<Rightarrow> u16) \<Rightarrow> u32 \<times> (u32 \<Rightarrow> u16)" where
  "delete_shift 0 base m = (base, m)"
| "delete_shift (Suc n) base m = delete_shift n (base + 2) (m(base := m (base + 2)))"

definition delete_char :: "nat \<Rightarrow> console \<Rightarrow> console option" where
  "delete_char currcons s = do {
     w \<leftarrow> cell (vc_windows s) currcons;
     if video_num_columns s \<le> cursor_x w then Some s
     else (case delete_shift (unat (video_num_columns s) - unat (cursor_x w))
                  (cursor_pos w) (video_ram s) of
             (base, m) \<Rightarrow> Some (s\<lparr>video_ram := m(base := scast (ucast video_space_char :: u8))\<rparr>)) }"

definition delete_char_num :: "nat \<Rightarrow> u32 \<Rightarrow> console \<Rightarrow> console option" where
  "delete_char_num currcons nr s =
     repeat_con (unat (clamp_count (video_num_columns s) nr)) (delete_char currcons) s"

definition del :: "nat \<Rightarrow> console \<Rightarrow> console option" where
  "del currcons s = do {
     w \<leftarrow> cell (vc_windows s) currcons;
     if cursor_x w \<noteq> 0
     then do {
       s' \<leftarrow> upd_win currcons (\<lambda>w. w\<lparr>cursor_x := cursor_x w - 1,
               cursor_pos := cursor_pos w - 2\<rparr>) s;
       Some (store_word (cursor_pos w - 2) video_space_char s') }
     else Some s }"

subsection \<open>Attributes\<close>

definition set_bg_color :: "nat \<Rightarrow> u32 \<Rightarrow> console \<Rightarrow> console option" where
  "set_bg_color currcons color_type s =
     upd_win currcons (\<lambda>w. w\<lparr>attr := attr w AND 0xf0 AND ucast color_type\<rparr>) s"

definition set_char_color :: "nat \<Rightarrow> u32 \<Rightarrow> console \<Rightarrow> console option" where
  "set_char_color currcons color_type s =
     upd_win currcons (\<lambda>w. w\<lparr>attr := attr w AND 0x0f AND ucast color_type\<rparr>) s"

definition set_default_attr :: "nat \<Rightarrow> console \<Rightarrow> console option" where
  "set_default_attr currcons s = upd_win currcons (\<lambda>w. w\<lparr>attr := def_attr w\<rparr>) s"

definition update_screen :: "console \<Rightarrow> console option" where
  "update_screen s = do {
     s1 \<leftarrow> set_origin (fg_console s) s;
     con_set_cursor (fg_console s1) s1 }"

subsection \<open>Writing the queued characters\<close>

text \<open>A character above 31 and below 127: wrap to the next line first when the cursor
  stands behind the last column, then store the character with the attribute.\<close>

definition show_at_cursor :: "nat \<Rightarrow> u8 \<Rightarrow> console \<Rightarrow> console option" where
  "show_at_cursor k c s = do {
     w \<leftarrow> cell (vc_windows s) k;
     upd_win k (\<lambda>w. w\<lparr>cursor_pos := cursor_pos w + 2, cursor_x := cursor_x w + 1\<rparr>)
       (store_word (cursor_pos w) (char_cell c (attr w)) s) }"

definition con_display :: "u8 \<Rightarrow> console \<Rightarrow> console option" where
  "con_display c s = do {
     let k = fg_console s;
     w \<leftarrow> cell (vc_windows s) k;
     s1 \<leftarrow> (if video_num_columns s \<le> cursor_x w
            then do {
              s' \<leftarrow> upd_win k (\<lambda>w. w\<lparr>cursor_x := cursor_x w - video_num_columns s,
                      cursor_pos := cursor_pos w - video_size_row s\<rparr>) s;
              up_cursor k s' }
            else Some s);
     show_at_cursor k c s1 }"

definition con_tab :: "console \<Rightarrow> console option" where
  "con_tab s = do {
     let k = fg_console s;
     s1 \<leftarrow> upd_win k (\<lambda>w. w\<lparr>cursor_x := cursor_x w + 4, cursor_pos := cursor_pos w + 8\<rparr>) s;
     w \<leftarrow> cell (vc_windows s1) k;
     if video_num_columns s < cursor_x w
     then do {
       s2 \<leftarrow> upd_win k (\<lambda>w. w\<lparr>cursor_x := cursor_x w - video_num_columns s,
               cursor_pos := cursor_pos w - video_size_row s\<rparr>) s1;
       up_cursor k s2 }
     else Some s1 }"

definition con_control :: "u8 \<Rightarrow> console \<Rightarrow> console option" where
  "con_control c s =
     (if c = Backspace then del (fg_console s) s
      else if c = HT_TAB then con_tab s
      else if c = LF_NL then do { s1 \<leftarrow> cr (fg_console s) s; up_cursor (fg_console s1) s1 }
      else if c = CR then cr (fg_console s) s
      else if c = DEL then del (fg_console s) s
      else Some s)"

definition con_escape :: "u8 \<Rightarrow> console \<Rightarrow> console option" where
  "con_escape c s =
     (if c = 0x57 then down_cursor (fg_console s) s
      else if c = 0x41 then left_cursor (fg_console s) s
      else if c = 0x44 then right_cursor (fg_console s) s
      else if c = 0x53 then up_cursor (fg_console s) s
      else Some s)"

fun con_step :: "es_state \<Rightarrow> u8 \<Rightarrow> console \<Rightarrow> (es_state \<times> console) option" where
  "con_step ESnormal c s =
     (if c = ESC then Some (ESesc, s)
      else if 31 < sint c \<and> sint c < 127
      then do { s' \<leftarrow> con_display c s; Some (ESnormal, s') }
      else do { s' \<leftarrow> con_control c s; Some (ESnormal, s') })"
| "con_step ESesc c s = do { s' \<leftarrow> con_escape c s; Some (ESnormal, s') }"

definition read_char_fg :: "console \<Rightarrow> (u8 \<times> console) option" where
  "read_char_fg s = do {
     t \<leftarrow> cell (con_table s) (fg_console s);
     (c, q) \<leftarrow> read_char (queue t);
     Some (c, s\<lparr>con_table := (con_table s)[fg_console s := t\<lparr>queue := q\<rparr>]\<rparr>) }"

fun con_loop :: "nat \<Rightarrow> es_state \<Rightarrow> console \<Rightarrow> console option" where
  "con_loop 0 state s = Some s"
| "con_loop (Suc nr) state s = do {
     (c, s1) \<leftarrow> read_char_fg s;
     (state', s2) \<leftarrow> con_step state c s1;
     con_loop nr state' s2 }"

text \<open>The number of queued characters is the difference of the two positions as a signed
  \<open>int\<close>; the loop runs while it is positive.\<close>

definition con_write :: "console \<Rightarrow> console option" where
  "con_write s = do {
     t \<leftarrow> cell (con_table s) (fg_console s);
     let nr = sint (head_ptr (queue t) - tail_ptr (queue t));
     s1 \<leftarrow> con_loop (nat nr) ESnormal s;
     con_set_cursor (fg_console s1) s1 }"

definition change_console :: "int \<Rightarrow> console \<Rightarrow> console option" where
  "change_console new_console s =
     (if int MAX_CONSOLES < new_console \<or> new_console = int (fg_console s) then Some s
      else if new_console < 0 then None
      else update_screen (s\<lparr>fg_console := nat new_console\<rparr>))"

subsection \<open>Kernel messages\<close>

text \<open>\<open>console_print\<close> interprets a backslash and the character after it. At the end of a
  line it calls \<open>down_cursor\<close>, where \<open>con_write\<close> calls \<open>up_cursor\<close>. The text is a C string
  without its terminator; a backslash at its end makes the loop step over the terminator
  and read what follows it in memory.\<close>

definition kernel_display :: "nat \<Rightarrow> u8 \<Rightarrow> console \<Rightarrow> console option" where
  "kernel_display currcons c s = do {
     w \<leftarrow> cell (vc_windows s) currcons;
     s1 \<leftarrow> (if video_num_columns s \<le> cursor_x w
            then do {
              s' \<leftarrow> upd_win currcons (\<lambda>w. w\<lparr>cursor_x := cursor_x w - video_num_columns s,
                      cursor_pos := cursor_pos w - video_size_row s\<rparr>) s;
              down_cursor currcons s' }
            else Some s);
     show_at_cursor currcons c s1 }"

fun print_loop :: "nat \<Rightarrow> u8 list \<Rightarrow> console \<Rightarrow> console option" where
  "print_loop k [] s = Some s"
| "print_loop k [c] s = (if c = 0x5C then None else kernel_display k c s)"
| "print_loop k (c # d # b) s =
     (if c = 0x5C then
        (if d = 0x72 then do { s1 \<leftarrow> cr k s; print_loop k b s1 }
         else if d = 0x6E then do { s1 \<leftarrow> cr k s; s2 \<leftarrow> up_cursor k s1; print_loop k b s2 }
         else if d = 0x62 then do { s1 \<leftarrow> left_cursor k s; print_loop k b s1 }
         else if d = 0x74 then do {
           s1 \<leftarrow> instert_char_num k 4 (ucast video_space_char) s; print_loop k b s1 }
         else do { s1 \<leftarrow> kernel_display k d s; print_loop k b s1 })
      else do { s1 \<leftarrow> kernel_display k c s; print_loop k (d # b) s1 })"

definition console_print :: "u8 list \<Rightarrow> console \<Rightarrow> console option" where
  "console_print b s = do {
     s1 \<leftarrow> print_loop (fg_console s) b s;
     con_set_cursor (fg_console s) s1 }"

subsection \<open>Initialisation\<close>

text \<open>The body of the loop over the consoles, then \<open>con_init\<close> itself. \<open>inb\<close> gives the value
  a port read returns.\<close>

definition init_window :: "u32 \<Rightarrow> nat \<Rightarrow> console \<Rightarrow> console option" where
  "init_window video_memory currcons s = do {
     s1 \<leftarrow> upd_win currcons (\<lambda>w.
       (let start = video_mem_base s + of_nat currcons * video_memory
        in w\<lparr>video_mem_start := start, video_mem_end := start + video_memory,
             attr := 0x07, def_attr := 0x07, origin := start,
             scr_end := start + video_num_lines s * video_size_row s\<rparr>)) s;
     update_cursor_xy currcons 0 0 s1 }"

fun init_windows :: "u32 \<Rightarrow> nat list \<Rightarrow> console \<Rightarrow> console option" where
  "init_windows vm [] s = Some s"
| "init_windows vm (k # ks) s = do { s' \<leftarrow> init_window vm k s; init_windows vm ks s' }"

definition con_init :: "(u16 \<Rightarrow> u8) \<Rightarrow> console \<Rightarrow> console option" where
  "con_init inb s = do {
     let s = s\<lparr>video_mem_base := 0xb8000, video_mem_term := 0xc0000,
               video_type := VIDEO_TYPE_EGAC, video_num_lines := 25,
               video_num_columns := 80, video_size_row := 80 * 2\<rparr>;
     let video_memory = video_mem_term s - video_mem_base s;
     let nr = unat (video_memory div (video_size_row s * video_num_lines s));
     let nr = (if MAX_CONSOLES < nr then MAX_CONSOLES else nr);
     let video_memory = video_memory div of_nat nr;
     s1 \<leftarrow> upd_win 0 (\<lambda>w. w\<lparr>win_top := 0, win_bottom := video_num_lines s\<rparr>)
            (s\<lparr>nr_console := nr\<rparr>);
     s2 \<leftarrow> init_windows video_memory [0..<nr] s1;
     let s3 = outb (inb 0x21 AND 0xfd) 0x21 s2;
     let a = inb 0x61;
     Some (outb a 0x61 (outb (a OR 0x80) 0x61 s3)) }"

subsection \<open>The cursor stays inside its window\<close>

definition geom :: "console \<Rightarrow> bool" where
  "geom s \<longleftrightarrow> video_num_columns s = 80 \<and> video_num_lines s = 25 \<and> video_size_row s = 160"

definition win_ok :: "window \<Rightarrow> bool" where
  "win_ok w \<longleftrightarrow> cursor_x w \<le> 80 \<and> cursor_y w < 25
     \<and> cursor_pos w = video_mem_start w + cursor_y w * 160 + cursor_x w * 2"

definition fg_win :: "console \<Rightarrow> window" where
  "fg_win s = vc_windows s ! fg_console s"

definition con_ok :: "console \<Rightarrow> bool" where
  "con_ok s \<longleftrightarrow> geom s \<and> fg_console s < length (vc_windows s) \<and> win_ok (fg_win s)"

text \<open>The addresses of the 25 lines of 80 cells that the window shows.\<close>

definition in_win :: "window \<Rightarrow> u32 \<Rightarrow> bool" where
  "in_win w a \<longleftrightarrow> unat (a - video_mem_start w) < 4000"

text \<open>What writing a character leaves alone: everything but the foreground window's cursor
  and the cells of that window.\<close>

definition con_frame :: "console \<Rightarrow> console \<Rightarrow> bool" where
  "con_frame s s' \<longleftrightarrow> (\<exists>w m. s' = s\<lparr>vc_windows := (vc_windows s)[fg_console s := w], video_ram := m\<rparr>
       \<and> video_mem_start w = video_mem_start (fg_win s)
       \<and> (\<forall>a. \<not> in_win (fg_win s) a \<longrightarrow> m a = video_ram s a))"

lemmas con_inv_defs = con_ok_def geom_def win_ok_def fg_win_def

lemma con_frame_refl: "con_frame s s"
  unfolding con_frame_def
  by (rule exI [of _ "fg_win s"], rule exI [of _ "video_ram s"]) (simp add: fg_win_def)

lemma con_frame_win:
  "video_mem_start w = video_mem_start (fg_win s) \<Longrightarrow>
     con_frame s (s\<lparr>vc_windows := (vc_windows s)[fg_console s := w]\<rparr>)"
  unfolding con_frame_def by (rule exI [of _ w], rule exI [of _ "video_ram s"]) simp

lemma con_frame_store:
  "video_mem_start w = video_mem_start (fg_win s) \<Longrightarrow> in_win (fg_win s) a \<Longrightarrow>
     con_frame s (s\<lparr>video_ram := (video_ram s)(a := v), vc_windows := (vc_windows s)[fg_console s := w]\<rparr>)"
  unfolding con_frame_def
  by (rule exI [of _ w], rule exI [of _ "(video_ram s)(a := v)"]) auto

lemma con_frame_trans:
  assumes "con_frame s t" and "con_frame t u" and "fg_console s < length (vc_windows s)"
  shows "con_frame s u"
proof -
  from assms(1) obtain w m where t: "t = s\<lparr>vc_windows := (vc_windows s)[fg_console s := w], video_ram := m\<rparr>"
    "video_mem_start w = video_mem_start (fg_win s)" "\<forall>a. \<not> in_win (fg_win s) a \<longrightarrow> m a = video_ram s a"
    by (auto simp: con_frame_def)
  from assms(2) obtain w' m' where u: "u = t\<lparr>vc_windows := (vc_windows t)[fg_console t := w'], video_ram := m'\<rparr>"
    "video_mem_start w' = video_mem_start (fg_win t)" "\<forall>a. \<not> in_win (fg_win t) a \<longrightarrow> m' a = video_ram t a"
    by (auto simp: con_frame_def)
  have "u = s\<lparr>vc_windows := (vc_windows s)[fg_console s := w'], video_ram := m'\<rparr>"
    using t(1) u(1) by simp
  moreover have "fg_win t = w" using t(1) assms(3) by (simp add: fg_win_def)
  ultimately show ?thesis
    using t u unfolding con_frame_def by (intro exI [of _ w'] exI [of _ m']) (simp add: in_win_def)
qed

lemma con_frame_simps:
  assumes "con_frame s t"
  shows "con_table t = con_table s" "fg_console t = fg_console s"
    "length (vc_windows t) = length (vc_windows s)" "port_out t = port_out s"
    "k \<noteq> fg_console s \<Longrightarrow> vc_windows t ! k = vc_windows s ! k"
    "\<not> in_win (fg_win s) a \<Longrightarrow> video_ram t a = video_ram s a"
  using assms by (auto simp: con_frame_def)

lemma unat_cell_offset:
  assumes "(x::u32) \<le> 80" and "(y::u32) < 25"
  shows "unat (y * 160 + x * 2) = unat y * 160 + unat x * 2"
proof -
  have "unat x \<le> 80" "unat y < 25" using assms by (simp_all add: word_le_nat_alt word_less_nat_alt)
  then show ?thesis by (simp add: unat_word_ariths)
qed

lemma in_win_cursor:
  assumes "cursor_x w < 80" and "cursor_y w < 25"
    and "a = video_mem_start w + cursor_y w * 160 + cursor_x w * 2"
  shows "in_win w a"
proof -
  have "a - video_mem_start w = cursor_y w * 160 + cursor_x w * 2" using assms(3) by simp
  moreover have "unat (cursor_x w) < 80" "unat (cursor_y w) < 25"
    using assms by (simp_all add: word_less_nat_alt)
  ultimately show ?thesis
    using unat_cell_offset [of "cursor_x w" "cursor_y w"] assms by (simp add: in_win_def)
qed

lemma upd_win_fg:
  "con_ok s \<Longrightarrow> upd_win (fg_console s) f s
     = Some (s\<lparr>vc_windows := (vc_windows s)[fg_console s := f (fg_win s)]\<rparr>)"
  by (simp add: con_inv_defs upd_win_def)

lemma word_pred_le: "(x::u32) \<noteq> 0 \<Longrightarrow> x \<le> n \<Longrightarrow> x - 1 < n"
  by unat_arith

lemma cr_ok:
  assumes "con_ok s"
  shows "\<exists>s'. cr (fg_console s) s = Some s' \<and> con_ok s' \<and> con_frame s s' \<and> cursor_x (fg_win s') = 0"
  using assms unfolding cr_def upd_win_fg [OF assms]
  by (auto simp: con_inv_defs push_bit_eq_mult intro!: con_frame_win)

lemma up_cursor_ok:
  assumes "con_ok s" and "cursor_x (fg_win s) = 0"
  shows "\<exists>s'. up_cursor (fg_console s) s = Some s' \<and> con_ok s' \<and> con_frame s s'
           \<and> cursor_x (fg_win s') = 0"
proof (cases "cursor_y (fg_win s) + 1 < 25")
  case True
  then show ?thesis
    using assms unfolding up_cursor_def upd_win_fg [OF assms(1)]
    by (auto simp: con_inv_defs algebra_simps intro!: con_frame_win)
next
  case False
  then show ?thesis
    using assms con_frame_refl [of s] unfolding up_cursor_def upd_win_fg [OF assms(1)]
    by (auto simp: con_inv_defs list_update_id)
qed

lemma del_ok:
  assumes "con_ok s"
  shows "\<exists>s'. del (fg_console s) s = Some s' \<and> con_ok s' \<and> con_frame s s'"
proof (cases "cursor_x (fg_win s) = 0")
  case True
  then show ?thesis using assms con_frame_refl [of s] by (auto simp: del_def con_inv_defs)
next
  case False
  let ?w = "fg_win s"
  have x: "cursor_x ?w - 1 < 80" using False assms by (auto simp: con_inv_defs intro: word_pred_le)
  have pos: "cursor_pos ?w - 2 = video_mem_start ?w + cursor_y ?w * 160 + (cursor_x ?w - 1) * 2"
    using assms by (simp add: con_inv_defs algebra_simps)
  have "in_win ?w (cursor_pos ?w - 2)"
    using in_win_cursor [of "?w\<lparr>cursor_x := cursor_x ?w - 1\<rparr>" "cursor_pos ?w - 2"] x pos assms
    by (simp add: in_win_def con_inv_defs)
  then show ?thesis
    using False assms x pos unfolding del_def upd_win_fg [OF assms]
    by (auto simp: con_inv_defs con_frame_def store_word_def intro!: exI dest: less_imp_le)
qed

lemma show_at_cursor_ok:
  assumes "con_ok s" and "cursor_x (fg_win s) < 80"
  shows "\<exists>s'. show_at_cursor (fg_console s) c s = Some s' \<and> con_ok s' \<and> con_frame s s'"
proof -
  let ?w = "fg_win s"
  have x: "cursor_x ?w + 1 \<le> 80" using assms(2) by (simp add: inc_le)
  have "in_win ?w (cursor_pos ?w)"
    using assms by (intro in_win_cursor) (auto simp: con_inv_defs)
  then show ?thesis
    using assms x
    by (auto simp: show_at_cursor_def upd_win_def con_inv_defs store_word_def
        algebra_simps intro!: con_frame_store)
qed

lemma con_display_ok:
  assumes "con_ok s"
  shows "\<exists>s'. con_display c s = Some s' \<and> con_ok s' \<and> con_frame s s'"
proof (cases "cursor_x (fg_win s) < 80")
  case True
  then have "con_display c s = show_at_cursor (fg_console s) c s"
    using assms by (auto simp: con_display_def con_inv_defs Let_def)
  then show ?thesis using show_at_cursor_ok [OF assms True, of c] by simp
next
  case False
  let ?k = "fg_console s"
  let ?t = "s\<lparr>vc_windows := (vc_windows s)[?k := (fg_win s)\<lparr>cursor_x := cursor_x (fg_win s) - 80,
              cursor_pos := cursor_pos (fg_win s) - 160\<rparr>]\<rparr>"
  have x: "cursor_x (fg_win s) = 80" using False assms by (auto simp: con_inv_defs)
  have t: "con_ok ?t" "cursor_x (fg_win ?t) = 0" "con_frame s ?t"
    using assms x by (auto simp: con_inv_defs intro!: con_frame_win)
  from up_cursor_ok [OF t(1,2)] obtain u where u: "up_cursor ?k ?t = Some u"
    "con_ok u" "con_frame ?t u" "cursor_x (fg_win u) = 0" by auto
  from show_at_cursor_ok [OF u(2), of c] u(4) obtain v
    where v: "show_at_cursor (fg_console u) c u = Some v" "con_ok v" "con_frame u v" by auto
  have "fg_console u = ?k" using con_frame_simps(2) [OF u(3)] by simp
  moreover have "con_frame s v"
    using t(3) u(3) v(3) u(2) assms
    by (meson con_frame_trans con_ok_def t(1))
  moreover have "con_display c s = do { s1 \<leftarrow> up_cursor ?k ?t; show_at_cursor ?k c s1 }"
    using x assms upd_win_fg [OF assms] by (simp add: con_display_def con_inv_defs Let_def)
  ultimately show ?thesis using u v by auto
qed

text \<open>Every character but the escape character and the tab.\<close>

definition plain_char :: "u8 \<Rightarrow> bool" where
  "plain_char c \<longleftrightarrow> c \<noteq> ESC \<and> c \<noteq> HT_TAB"

lemma con_control_ok:
  assumes "con_ok s" and "c \<noteq> HT_TAB"
  shows "\<exists>s'. con_control c s = Some s' \<and> con_ok s' \<and> con_frame s s'"
proof -
  from cr_ok [OF assms(1)] obtain t where t: "cr (fg_console s) s = Some t" "con_ok t"
    "con_frame s t" "cursor_x (fg_win t) = 0" by auto
  from up_cursor_ok [OF t(2,4)] obtain u where u: "up_cursor (fg_console t) t = Some u"
    "con_ok u" "con_frame t u" by auto
  have "con_frame s u" using con_frame_trans [OF t(3) u(3)] assms(1) by (simp add: con_ok_def)
  then show ?thesis
    using assms t u del_ok [OF assms(1)] con_frame_refl [of s] by (auto simp: con_control_def)
qed

lemma con_step_plain:
  assumes "con_ok s" and "plain_char c"
  shows "\<exists>s'. con_step ESnormal c s = Some (ESnormal, s') \<and> con_ok s' \<and> con_frame s s'"
  using assms con_display_ok [OF assms(1), of c] con_control_ok [OF assms(1), of c]
  by (auto simp: plain_char_def)

definition fg_queue :: "console \<Rightarrow> tty_queue" where
  "fg_queue s = queue (con_table s ! fg_console s)"

definition con_queue_ok :: "console \<Rightarrow> bool" where
  "con_queue_ok s \<longleftrightarrow> fg_console s < length (con_table s) \<and> ring_inv (fg_queue s)"

text \<open>Reading and showing one character, seen through the abstractions: one element less
  in the queue, the window's invariant kept.\<close>

definition con_effect :: "console \<Rightarrow> console \<Rightarrow> bool" where
  "con_effect s s' \<longleftrightarrow> fg_console s' = fg_console s \<and> length (con_table s') = length (con_table s)
     \<and> length (vc_windows s') = length (vc_windows s)
     \<and> (\<forall>k. k \<noteq> fg_console s \<longrightarrow> vc_windows s' ! k = vc_windows s ! k \<and> con_table s' ! k = con_table s ! k)
     \<and> video_mem_start (fg_win s') = video_mem_start (fg_win s)
     \<and> (\<forall>a. \<not> in_win (fg_win s) a \<longrightarrow> video_ram s' a = video_ram s a)"

lemma con_effect_refl: "con_effect s s"
  by (simp add: con_effect_def)

lemma con_effect_trans: "con_effect s t \<Longrightarrow> con_effect t u \<Longrightarrow> con_effect s u"
  by (simp add: con_effect_def in_win_def)

lemma con_frame_effect: "con_frame s t \<Longrightarrow> fg_console s < length (vc_windows s) \<Longrightarrow> con_effect s t"
  by (auto simp: con_frame_def con_effect_def fg_win_def)

lemma read_char_fg_ok:
  assumes "con_ok s" and "con_queue_ok s" and "ring_list (fg_queue s) = c # cs"
  shows "\<exists>s'. read_char_fg s = Some (c, s') \<and> con_ok s' \<and> con_queue_ok s'
           \<and> ring_list (fg_queue s') = cs \<and> con_effect s s'"
proof -
  from read_char_Cons [OF _ assms(3)] assms(2) obtain q where
    "read_char (fg_queue s) = Some (c, q)" "ring_inv q" "ring_list q = cs"
    by (auto simp: con_queue_ok_def)
  then show ?thesis
    using assms(1,2)
    by (auto simp: read_char_fg_def fg_queue_def con_queue_ok_def con_inv_defs con_effect_def)
qed

lemma con_loop_plain:
  "con_ok s \<Longrightarrow> con_queue_ok s \<Longrightarrow> ring_list (fg_queue s) = cs \<Longrightarrow> list_all plain_char cs \<Longrightarrow>
     \<exists>s'. con_loop (length cs) ESnormal s = Some s' \<and> con_ok s' \<and> con_queue_ok s'
        \<and> ring_list (fg_queue s') = [] \<and> con_effect s s'"
proof (induction cs arbitrary: s)
  case Nil
  then show ?case by (auto intro: con_effect_refl)
next
  case (Cons c cs)
  from read_char_fg_ok [OF Cons.prems(1-3)] obtain t where t: "read_char_fg s = Some (c, t)"
    "con_ok t" "con_queue_ok t" "ring_list (fg_queue t) = cs" "con_effect s t" by auto
  from con_step_plain [OF t(2)] Cons.prems(4) obtain u where
    u: "con_step ESnormal c t = Some (ESnormal, u)" "con_ok u" "con_frame t u" by auto
  have tab: "con_table u = con_table t" "fg_console u = fg_console t"
    using con_frame_simps(1,2) [OF u(3)] by auto
  then have "con_queue_ok u" "ring_list (fg_queue u) = cs"
    using t(3,4) by (simp_all add: con_queue_ok_def fg_queue_def)
  from Cons.IH [OF u(2) this] Cons.prems(4) obtain v where
    v: "con_loop (length cs) ESnormal u = Some v" "con_ok v" "con_queue_ok v"
      "ring_list (fg_queue v) = []" "con_effect u v" by auto
  have "con_effect s v"
    using con_effect_trans [OF t(5) con_effect_trans [OF con_frame_effect [OF u(3)] v(5)]] t(2)
    by (simp add: con_ok_def)
  then show ?case using t u v by auto
qed

lemma con_set_cursor_fg:
  "con_ok s \<Longrightarrow> \<exists>out. con_set_cursor (fg_console s) s = Some (s\<lparr>port_out := out\<rparr>)"
  by (auto simp: con_set_cursor_def con_inv_defs outb_def Let_def)

lemma sint_diff_small:
  assumes "unat (t::u32) < 1024" and "unat (h::u32) < 1024"
  shows "nat (sint (h - t)) = unat h - unat t"
proof -
  have u: "uint h = int (unat h)" "uint t = int (unat t)" by simp_all
  have p: "(2::int) ^ 31 = 2147483648" by simp
  have "h - t = word_of_int (uint h - uint t)" by simp
  then have "sint (h - t) = signed_take_bit 31 (uint h - uint t)"
    by (simp only: signed_of_int) simp
  also have "\<dots> = uint h - uint t"
    using assms u p by (intro signed_take_bit_int_eq_self) linarith+
  finally show ?thesis using u by (metis nat_minus_as_int nat_int)
qed

lemma con_write_plain:
  assumes "con_ok s" and "con_queue_ok s"
    and "tail_ptr (fg_queue s) \<le> head_ptr (fg_queue s)"
    and "list_all plain_char (ring_list (fg_queue s))"
  shows "\<exists>s'. con_write s = Some s' \<and> con_ok s' \<and> con_queue_ok s'
           \<and> ring_list (fg_queue s') = [] \<and> con_effect s s'"
proof -
  let ?q = "fg_queue s"
  have b: "unat (head_ptr ?q) < 1024" "unat (tail_ptr ?q) < 1024" "unat (tail_ptr ?q) \<le> unat (head_ptr ?q)"
    using assms(2,3) by (auto simp: con_queue_ok_def ring_inv_def word_le_nat_alt)
  have n: "nat (sint (head_ptr ?q - tail_ptr ?q)) = length (ring_list ?q)"
    using b by (simp add: sint_diff_small ring_len_def mod_wrap)
  from con_loop_plain [OF assms(1,2) refl assms(4)] obtain t where
    t: "con_loop (length (ring_list ?q)) ESnormal s = Some t" "con_ok t" "con_queue_ok t"
      "ring_list (fg_queue t) = []" "con_effect s t" by auto
  from con_set_cursor_fg [OF t(2)] obtain out where
    o: "con_set_cursor (fg_console t) t = Some (t\<lparr>port_out := out\<rparr>)" by auto
  have "con_write s = Some (t\<lparr>port_out := out\<rparr>)"
    using assms(2) n t(1) o by (simp add: con_write_def con_queue_ok_def fg_queue_def Let_def)
  moreover have "con_ok (t\<lparr>port_out := out\<rparr>)" "con_queue_ok (t\<lparr>port_out := out\<rparr>)"
    "ring_list (fg_queue (t\<lparr>port_out := out\<rparr>)) = []"
    using t by (simp_all add: con_inv_defs con_queue_ok_def fg_queue_def)
  moreover have "con_effect s (t\<lparr>port_out := out\<rparr>)"
    using t(5) by (auto simp: con_effect_def fg_win_def)
  ultimately show ?thesis by blast
qed

text \<open>
  C2. \<open>con_write\<close> on a queue that has not wrapped around and holds no escape character and
  no tab: it reads the whole queue, leaves the cursor of the foreground window consistent with
  its coordinates and inside the window, changes video memory inside that window only and
  leaves the other windows and terminals alone.
\<close>
theorem con_write_safe:
  assumes "con_ok s" and "con_queue_ok s"
    and "tail_ptr (fg_queue s) \<le> head_ptr (fg_queue s)"
    and "list_all plain_char (ring_list (fg_queue s))"
  shows "\<exists>s'. con_write s = Some s' \<and> con_ok s' \<and> con_queue_ok s'
           \<and> ring_list (fg_queue s') = [] \<and> con_effect s s'"
  using assms by (rule con_write_plain)

text \<open>
  When the write position of the queue has wrapped around below the read position,
  \<open>con_write\<close> shows nothing: the number of characters it computes is negative.
\<close>
theorem con_write_wrapped:
  assumes "con_queue_ok s" and "head_ptr (fg_queue s) < tail_ptr (fg_queue s)"
  shows "con_write s = con_set_cursor (fg_console s) s"
proof -
  have "nat (sint (head_ptr (fg_queue s) - tail_ptr (fg_queue s))) = 0"
    using assms by (auto simp: con_queue_ok_def ring_inv_def word_less_nat_alt sint_diff_small)
  then show ?thesis
    using assms(1) by (simp add: con_write_def con_queue_ok_def fg_queue_def Let_def)
qed

lemma insert_shift_frame:
  "(\<And>i. i < n \<Longrightarrow> a \<noteq> base + 2 * of_nat i) \<Longrightarrow> insert_shift n base old m a = m a"
proof (induction n arbitrary: base old m)
  case 0
  then show ?case by simp
next
  case (Suc n)
  have "a \<noteq> base" using Suc.prems [of 0] by simp
  moreover have "a \<noteq> base + 2 + 2 * of_nat i" if "i < n" for i
    using Suc.prems [of "Suc i"] that by (simp add: algebra_simps)
  ultimately show ?case using Suc.IH [of "base + 2"] by simp
qed

lemma double_of_nat_nonzero: "0 < j \<Longrightarrow> j < 1000 \<Longrightarrow> 2 * of_nat j \<noteq> (0::u32)"
proof
  assume j: "0 < j" "j < 1000" and "2 * of_nat j = (0::u32)"
  then have "unat (of_nat (2 * j) :: u32) = 0" by simp
  with j show False by (simp only: unat_of_nat) simp
qed

lemma insert_shift_cell:
  "i < n \<Longrightarrow> n \<le> 1000 \<Longrightarrow> insert_shift n base old m (base + 2 * of_nat i)
     = (if i = 0 then old else m (base + 2 * of_nat (i - 1)))"
proof (induction n arbitrary: base old m i)
  case 0
  then show ?case by simp
next
  case (Suc n)
  show ?case
  proof (cases i)
    case 0
    have "base \<noteq> base + 2 + 2 * of_nat j" if "j < n" for j
      using double_of_nat_nonzero [of "Suc j"] that Suc.prems by (simp add: algebra_simps)
    then have "insert_shift n (base + 2) (m base) (m(base := old)) base = old"
      by (subst insert_shift_frame) auto
    with 0 show ?thesis by simp
  next
    case (Suc j)
    have "insert_shift n (base + 2) (m base) (m(base := old)) (base + 2 + 2 * of_nat j)
       = (if j = 0 then m base else (m(base := old)) (base + 2 + 2 * of_nat (j - 1)))"
      using Suc Suc.prems by (intro Suc.IH) auto
    also have "\<dots> = m (base + 2 * of_nat j)"
    proof (cases j)
      case (Suc l)
      then have "2 * of_nat j \<noteq> (0::u32)" using double_of_nat_nonzero [of j] \<open>i = Suc j\<close> Suc.prems by simp
      then show ?thesis using Suc by (simp add: algebra_simps)
    qed simp
    finally show ?thesis using Suc by (simp add: algebra_simps)
  qed
qed

text \<open>The unit at column \<open>i\<close> of the cursor's row.\<close>

definition row_cell :: "console \<Rightarrow> nat \<Rightarrow> u32 \<Rightarrow> u16" where
  "row_cell s k i = (let w = vc_windows s ! k in
     video_ram s (video_mem_start w + cursor_y w * 160 + i * 2))"

text \<open>
  \<open>insert_char\<close> shifts the rest of the cursor's row one column to the right, the last
  column falling off the screen, and puts the character at the cursor; the cursor stays.
\<close>
theorem insert_char_shifts_row:
  assumes "geom s" and "k < length (vc_windows s)" and "win_ok (vc_windows s ! k)"
  shows "\<exists>s'. insert_char k c s = Some s' \<and> vc_windows s' = vc_windows s
     \<and> (\<forall>i < 80 - unat (cursor_x (vc_windows s ! k)).
          row_cell s' k (cursor_x (vc_windows s ! k) + of_nat i) =
            (if i = 0 then scast c else row_cell s k (cursor_x (vc_windows s ! k) + of_nat (i - 1))))"
proof -
  let ?w = "vc_windows s ! k"
  let ?n = "80 - unat (cursor_x ?w)"
  let ?m = "insert_shift ?n (cursor_pos ?w) (scast c) (video_ram s)"
  have at: "video_mem_start ?w + cursor_y ?w * 160 + (cursor_x ?w + of_nat i) * 2
      = cursor_pos ?w + 2 * of_nat i" for i
    using assms(3) by (simp add: win_ok_def algebra_simps)
  have "insert_char k c s = Some (s\<lparr>video_ram := ?m\<rparr>)"
    using assms by (simp add: insert_char_def geom_def)
  moreover have "row_cell (s\<lparr>video_ram := m\<rparr>) k (cursor_x ?w + of_nat i) = m (cursor_pos ?w + 2 * of_nat i)"
    for m i unfolding row_cell_def Let_def by (simp add: at del: distrib_right_numeral distrib_left_numeral)
  moreover have "row_cell s k (cursor_x ?w + of_nat i) = video_ram s (cursor_pos ?w + 2 * of_nat i)"
    for i unfolding row_cell_def Let_def by (simp only: at)
  moreover note insert_shift_cell [of _ ?n "cursor_pos ?w" "scast c" "video_ram s"]
  ultimately show ?thesis
    by (intro exI [of _ "s\<lparr>video_ram := ?m\<rparr>"]) (auto simp del: of_nat_diff One_nat_def)
qed

text \<open>
  \<open>left_cursor\<close> at the left edge: at column 0 the unsigned column wraps around to
  \<open>0xFFFFFFFF\<close> instead of staying, and from column 1 the cursor cannot reach column 0.
\<close>
theorem left_cursor_edge:
  assumes "k < length (vc_windows s)" and "cursor_x (vc_windows s ! k) = x" and "x \<le> 1"
  shows "\<exists>s'. left_cursor k s = Some s'
     \<and> cursor_x (vc_windows s' ! k) = (if x = 0 then 0xFFFFFFFF else 1)"
proof -
  have "x = 0 \<or> x = 1" using assms(3) by unat_arith
  moreover have "(0::u32) < - 1" by (simp add: word_gt_0)
  ultimately show ?thesis using assms by (auto simp: left_cursor_def upd_win_def)
qed

lemma kernel_wrap_goes_up:
  assumes "geom s" and "k < length (vc_windows s)" and "win_ok (vc_windows s ! k)"
    and "cursor_x (vc_windows s ! k) = 80"
  shows "\<exists>s'. kernel_display k c s = Some s'
     \<and> cursor_y (vc_windows s' ! k) = cursor_y (vc_windows s ! k) - 1
     \<and> cursor_x (vc_windows s' ! k) = 1
     \<and> video_ram s' = (video_ram s)(video_mem_start (vc_windows s ! k)
          + (cursor_y (vc_windows s ! k) - 1) * 160 := char_cell c (attr (vc_windows s ! k)))"
  using assms
  by (auto simp: kernel_display_def show_at_cursor_def upd_win_def down_cursor_def geom_def
      win_ok_def store_word_def algebra_simps)

text \<open>
  A character printed by the kernel at the right end of the top row is written outside the
  window: \<open>kernel_display\<close> wraps to the row above instead of the row below.
\<close>
theorem kernel_wrap_leaves_window:
  assumes "geom s" and "k < length (vc_windows s)" and "win_ok (vc_windows s ! k)"
    and "cursor_x (vc_windows s ! k) = 80" and "cursor_y (vc_windows s ! k) = 0"
  shows "\<exists>s' a. kernel_display k c s = Some s' \<and> \<not> in_win (vc_windows s ! k) a
     \<and> video_ram s' a = char_cell c (attr (vc_windows s ! k))"
  using kernel_wrap_goes_up [OF assms(1-4), of c] assms(5)
  by (auto simp: in_win_def intro!: exI [of _ "video_mem_start (vc_windows s ! k) + (0 - 1) * 160"])

lemma cursor_register_bytes:
  "unat (ucast (0xff AND drop_bit 9 (pos::u32)) :: u8) * 256 + unat (ucast (0xff AND drop_bit 1 pos) :: u8)
     = unat (drop_bit 1 pos) mod 65536"
proof -
  have b: "unat (ucast (0xff AND x) :: u8) = unat (x::u32) mod 256" for x
  proof -
    have "0xff AND x = take_bit 8 x" by (simp add: take_bit_eq_mask mask_eq_exp_minus_1 and.commute)
    then show ?thesis by (simp only: unsigned_ucast_eq unsigned_take_bit_eq) (simp add: take_bit_eq_mod)
  qed
  have "unat (drop_bit 9 pos) = unat (drop_bit 1 pos) div 256"
    by (simp only: unsigned_drop_bit_eq) (simp add: drop_bit_eq_div div_mult2_eq [symmetric])
  then show ?thesis unfolding b by (simp add: mod_mult2_eq [of _ 256 256, simplified])
qed

text \<open>
  \<open>con_init\<close> sets up four windows of 8 KiB each over the video memory, every one with a
  cursor consistent with its coordinates and the default attribute.
\<close>
theorem con_init_windows:
  assumes "length (vc_windows s) = 4"
  shows "\<exists>s'. con_init inb s = Some s' \<and> geom s' \<and> nr_console s' = 4 \<and> length (vc_windows s') = 4
    \<and> (\<forall>k < 4. win_ok (vc_windows s' ! k) \<and> attr (vc_windows s' ! k) = 7
         \<and> video_mem_start (vc_windows s' ! k) = 0xb8000 + of_nat k * 0x2000
         \<and> video_mem_end (vc_windows s' ! k) = video_mem_start (vc_windows s' ! k) + 0x2000)"
proof -
  obtain a b c d where w: "vc_windows s = [a, b, c, d]"
    using assms by (auto simp: length_Suc_conv numeral_eq_Suc)
  have l: "[0..<4] = [0, 1, 2, 3 :: nat]" by (simp add: upt_rec)
  show ?thesis
    by (simp add: con_init_def upd_win_def w l init_window_def update_cursor_xy_def cell_def
       outb_def geom_def Let_def win_ok_def all_less_4)
qed

text \<open>
  \<open>con_set_cursor\<close> programs the cursor registers of the foreground console: the two
  bytes sent to registers 14 and 15 are the high and the low byte of the cursor's character
  position in video memory; for any other console nothing is sent.
\<close>
theorem con_set_cursor_registers:
  assumes "k < length (vc_windows s)"
  shows "if k = fg_console s
     then \<exists>hi lo. con_set_cursor k s = Some (s\<lparr>port_out := port_out s @
            [(VIDEO_PORT_REG, 14), (VIDEO_PROT_VAL, hi), (VIDEO_PORT_REG, 15), (VIDEO_PROT_VAL, lo)]\<rparr>)
          \<and> unat hi * 256 + unat lo
              = (unat (cursor_pos (vc_windows s ! k) - video_mem_base s) div 2) mod 65536
     else con_set_cursor k s = Some s"
proof (cases "k = fg_console s")
  case True
  let ?pos = "cursor_pos (vc_windows s ! k) - video_mem_base s"
  have "unat (drop_bit 1 ?pos) = unat ?pos div 2"
    by (simp only: unsigned_drop_bit_eq)
      (use unat_u32_bound [of ?pos] in \<open>simp add: drop_bit_eq_div take_bit_eq_mod\<close>)
  with cursor_register_bytes [of ?pos]
  have "unat (ucast (0xff AND drop_bit 9 ?pos) :: u8) * 256 + unat (ucast (0xff AND drop_bit 1 ?pos) :: u8)
     = (unat ?pos div 2) mod 65536" by (simp only:)
  moreover have "con_set_cursor k s = Some (s\<lparr>port_out := port_out s @
      [(VIDEO_PORT_REG, 14), (VIDEO_PROT_VAL, ucast (0xff AND drop_bit 9 ?pos)),
       (VIDEO_PORT_REG, 15), (VIDEO_PROT_VAL, ucast (0xff AND drop_bit 1 ?pos))]\<rparr>)"
    using True assms by (simp add: con_set_cursor_def outb_def Let_def)
  ultimately show ?thesis
    using True by (simp only: simp_thms if_True) blast
next
  case False
  then show ?thesis by (simp add: con_set_cursor_def)
qed

subsection \<open>Witnesses\<close>

text \<open>A console as \<open>con_init\<close> leaves it, with characters queued for its terminal.\<close>

definition sample_window :: "u32 \<Rightarrow> window" where
  "sample_window x = \<lparr>cursor_x = x, cursor_y = 0, cursor_pos = 0xb8000 + x * 2,
     video_mem_start = 0xb8000, video_mem_end = 0xba000, origin = 0xb8000, scr_end = 0xb8fa0,
     win_top = 0, win_bottom = 25, attr = 7, def_attr = 7, bold_atrr = 0\<rparr>"

definition sample_console :: "u32 \<Rightarrow> u32 \<Rightarrow> u32 \<Rightarrow> console" where
  "sample_console x h t = \<lparr>fg_console = 0, nr_console = 4,
     con_table = [\<lparr>tty_pid = 0, queue = \<lparr>head_ptr = h, tail_ptr = t, buf = replicate 1024 65\<rparr>\<rparr>],
     vc_windows = [sample_window x], video_mem_base = 0xb8000, video_mem_term = 0xba000,
     video_type = 0x21, video_size_row = 160, video_num_columns = 80, video_num_lines = 25,
     video_ram = (\<lambda>_. 0), port_out = []\<rparr>"

lemmas sample_defs = sample_console_def sample_window_def

lemma sample_console_ok:
  "x \<le> 80 \<Longrightarrow> con_ok (sample_console x h t)"
  by (simp add: con_inv_defs sample_defs)

lemma sample_console_queue:
  "unat h < 1024 \<Longrightarrow> unat t < 1024 \<Longrightarrow> con_queue_ok (sample_console x h t)"
  by (simp add: con_queue_ok_def fg_queue_def ring_inv_def sample_defs)

theorem con_write_safe_witness:
  "\<exists>s'. con_write (sample_console 79 12 10) = Some s' \<and> con_ok s' \<and> con_queue_ok s'
      \<and> ring_list (fg_queue s') = [] \<and> con_effect (sample_console 79 12 10) s'"
  by (rule con_write_safe)
    (simp_all add: sample_console_ok sample_console_queue,
     simp_all add: fg_queue_def sample_defs ring_list_def ring_len_def plain_char_def list_all_iff)

theorem con_write_wrapped_witness:
  "con_write (sample_console 0 2 1020) = con_set_cursor (fg_console (sample_console 0 2 1020)) (sample_console 0 2 1020)"
  by (rule con_write_wrapped) (simp_all add: sample_console_queue, simp add: fg_queue_def sample_defs)

theorem insert_char_shifts_row_witness:
  "\<exists>s'. insert_char 0 65 (sample_console 3 0 0) = Some s' \<and> vc_windows s' = vc_windows (sample_console 3 0 0)
     \<and> (\<forall>i < 80 - unat (cursor_x (vc_windows (sample_console 3 0 0) ! 0)).
          row_cell s' 0 (cursor_x (vc_windows (sample_console 3 0 0) ! 0) + of_nat i) =
            (if i = 0 then scast (65::u8)
             else row_cell (sample_console 3 0 0) 0 (cursor_x (vc_windows (sample_console 3 0 0) ! 0) + of_nat (i - 1))))"
  by (rule insert_char_shifts_row) (simp_all add: geom_def win_ok_def sample_defs)

theorem left_cursor_edge_witness:
  "\<exists>s'. left_cursor 0 (sample_console 0 0 0) = Some s'
     \<and> cursor_x (vc_windows s' ! 0) = (if (0::u32) = 0 then 0xFFFFFFFF else 1)"
  by (rule left_cursor_edge) (simp_all add: sample_defs)

theorem kernel_wrap_leaves_window_witness:
  "\<exists>s' a. kernel_display 0 65 (sample_console 80 0 0) = Some s'
     \<and> \<not> in_win (vc_windows (sample_console 80 0 0) ! 0) a
     \<and> video_ram s' a = char_cell 65 (attr (vc_windows (sample_console 80 0 0) ! 0))"
  by (rule kernel_wrap_leaves_window) (simp_all add: geom_def win_ok_def sample_defs)

theorem con_init_windows_witness:
  "\<exists>s'. con_init (\<lambda>_. 0) (sample_console 0 0 0\<lparr>vc_windows := replicate 4 (sample_window 0)\<rparr>) = Some s'
    \<and> geom s' \<and> nr_console s' = 4 \<and> length (vc_windows s') = 4
    \<and> (\<forall>k < 4. win_ok (vc_windows s' ! k) \<and> attr (vc_windows s' ! k) = 7
         \<and> video_mem_start (vc_windows s' ! k) = 0xb8000 + of_nat k * 0x2000
         \<and> video_mem_end (vc_windows s' ! k) = video_mem_start (vc_windows s' ! k) + 0x2000)"
  by (rule con_init_windows) simp

theorem con_set_cursor_registers_witness:
  "if 0 = fg_console (sample_console 5 0 0)
     then \<exists>hi lo. con_set_cursor 0 (sample_console 5 0 0) = Some ((sample_console 5 0 0)\<lparr>port_out := port_out (sample_console 5 0 0) @
            [(VIDEO_PORT_REG, 14), (VIDEO_PROT_VAL, hi), (VIDEO_PORT_REG, 15), (VIDEO_PROT_VAL, lo)]\<rparr>)
          \<and> unat hi * 256 + unat lo
              = (unat (cursor_pos (vc_windows (sample_console 5 0 0) ! 0) - video_mem_base (sample_console 5 0 0)) div 2) mod 65536
     else con_set_cursor 0 (sample_console 5 0 0) = Some (sample_console 5 0 0)"
  by (rule con_set_cursor_registers) (simp add: sample_defs)

end
