(* ===== verification/Vprintf.thy ===== *)
theory Vprintf
  imports Prelude
begin

unbundle bit_operations_syntax

section \<open>Formatted output\<close>

text \<open>
  Models kernel/vprintf.c up to \<open>vsprintf\<close> (lib/vprintf.c is a second copy of the same text
  for user programs). A C string is the list of its bytes without the terminator; the
  argument list is the list of 32-bit stack slots, and \<open>str_at\<close> gives the string at an
  address for \<open>%s\<close>.

  \<open>char_to_number\<close> never advances its pointer, so on a digit its loop does not end: it is a
  partial function and \<open>None\<close> is "does not return". \<open>number_to_char\<close> is shown to stay
  inside its 16-byte scratch array and to be inverted by reading its digits back.
\<close>

subsection \<open>Numbers\<close>

abbreviation tmp_char_len :: nat where "tmp_char_len \<equiv> 16"

definition is_digit :: "u8 \<Rightarrow> bool" where
  "is_digit c \<longleftrightarrow> 0x30 \<le> c \<and> c \<le> 0x39"

partial_function (option) char_to_number_loop :: "u8 \<Rightarrow> u32 \<Rightarrow> u32 option" where
  "char_to_number_loop c number =
     (if is_digit c then char_to_number_loop c (number * 10 + (ucast c - 0x30)) else Some number)"

text \<open>The variable \<open>number\<close> is not initialised: its first value is an argument.\<close>

definition char_to_number :: "u32 \<Rightarrow> u8 \<Rightarrow> u32 option" where
  "char_to_number uninit c = char_to_number_loop c uninit"

definition digits :: "u8 list" where
  "digits = [0x30, 0x31, 0x32, 0x33, 0x34, 0x35, 0x36, 0x37, 0x38, 0x39,
             0x41, 0x42, 0x43, 0x44, 0x45, 0x46]"

text \<open>The first argument is the room left in \<open>tmp\<close>: the loop breaks when it is used up.\<close>

fun digit_loop :: "nat \<Rightarrow> u32 \<Rightarrow> u32 \<Rightarrow> u8 list \<Rightarrow> u32 \<times> u8 list" where
  "digit_loop 0 num base tmp = (num, tmp)"
| "digit_loop (Suc room) num base tmp =
     (if 0 < num
      then digit_loop room (num div base) base (tmp @ [digits ! unat (num mod base)])
      else (num, tmp))"

definition number_to_char :: "u32 \<Rightarrow> u32 \<Rightarrow> u8 list option" where
  "number_to_char num base =
     (case digit_loop tmp_char_len num base [] of (num, tmp) \<Rightarrow>
        let tmp = (if num = 0 then tmp @ [0x30] else tmp);
            tmp = (if base = 16 then tmp @ [0x78, 0x30] else tmp)
        in if length tmp \<le> tmp_char_len then Some (rev tmp) else None)"

subsection \<open>Format directives\<close>

abbreviation ZERO_PAD :: u8 where "ZERO_PAD \<equiv> 0x01"
abbreviation PLUS :: u8 where "PLUS \<equiv> 0x04"
abbreviation SPACE :: u8 where "SPACE \<equiv> 0x08"
abbreviation LEFT :: u8 where "LEFT \<equiv> 0x10"
abbreviation SPECIAL :: u8 where "SPECIAL \<equiv> 0x20"

fun parse_flags :: "u8 \<Rightarrow> u8 list \<Rightarrow> u8 \<times> u8 list" where
  "parse_flags flags [] = (flags, [])"
| "parse_flags flags (c # fmt) =
     (if c = 0x2D then parse_flags (flags OR LEFT) fmt
      else if c = 0x2B then parse_flags (flags OR PLUS) fmt
      else if c = 0x20 then parse_flags (flags OR SPACE) fmt
      else if c = 0x23 then parse_flags (flags OR SPECIAL) fmt
      else if c = 0x30 then parse_flags (flags OR ZERO_PAD) fmt
      else (flags, c # fmt))"

text \<open>The width: \<open>-1\<close> unless a digit follows, and then \<open>char_to_number\<close> is called. The
  precision is read by the same function and not used. The qualifiers \<open>h\<close>, \<open>l\<close>, \<open>L\<close> are
  skipped.\<close>

definition field_width :: "u32 \<Rightarrow> u8 list \<Rightarrow> int option" where
  "field_width uninit fmt =
     (case fmt of [] \<Rightarrow> Some (-1)
      | c # _ \<Rightarrow> if is_digit c then map_option sint (char_to_number uninit c) else Some (-1))"

definition skip_precision :: "u32 \<Rightarrow> u8 list \<Rightarrow> u8 list option" where
  "skip_precision uninit fmt =
     (case fmt of [] \<Rightarrow> Some []
      | c # rest \<Rightarrow>
          if c = 0x2E
          then map_option (\<lambda>_. rest) (char_to_number uninit (case rest of [] \<Rightarrow> 0 | d # _ \<Rightarrow> d))
          else Some fmt)"

definition skip_qualifier :: "u8 list \<Rightarrow> u8 list" where
  "skip_qualifier fmt =
     (case fmt of [] \<Rightarrow> [] | c # rest \<Rightarrow> if c \<in> {0x68, 0x6C, 0x4C} then rest else fmt)"

text \<open>\<open>while (--field_width > 0) *str++ = ' ';\<close>: the spaces written and the final width.\<close>

definition pad_loop :: "int \<Rightarrow> u8 list \<times> int" where
  "pad_loop w = (replicate (nat (w - 1)) 0x20, if 1 \<le> w then 0 else w - 1)"

definition padded :: "u8 \<Rightarrow> int \<Rightarrow> u8 list \<Rightarrow> u8 list" where
  "padded flags w body =
     (if flags \<noteq> LEFT
      then (case pad_loop w of (before, w') \<Rightarrow> before @ body @ fst (pad_loop w'))
      else body @ fst (pad_loop w))"

definition pop_arg :: "u32 list \<Rightarrow> (u32 \<times> u32 list) option" where
  "pop_arg args = (case args of [] \<Rightarrow> None | a # rest \<Rightarrow> Some (a, rest))"

text \<open>The switch over the conversion character; \<open>%\<close> itself is not a case of it.\<close>

definition convert :: "(u32 \<Rightarrow> u8 list) \<Rightarrow> u8 \<Rightarrow> int \<Rightarrow> u8 \<Rightarrow> u32 list \<Rightarrow> (u8 list \<times> u32 list) option" where
  "convert str_at flags w conv args =
     (if conv = 0x63 then do { (a, args) \<leftarrow> pop_arg args; Some (padded flags w [ucast a], args) }
      else if conv = 0x73 then do { (a, args) \<leftarrow> pop_arg args; Some (padded flags w (str_at a), args) }
      else if conv = 0x6F then do { (a, args) \<leftarrow> pop_arg args; s \<leftarrow> number_to_char a 8; Some (s, args) }
      else if conv = 0x70 then do { (a, args) \<leftarrow> pop_arg args; s \<leftarrow> number_to_char a 16; Some (s, args) }
      else if conv = 0x75 \<or> conv = 0x64
        then do { (a, args) \<leftarrow> pop_arg args; s \<leftarrow> number_to_char a 10; Some (s, args) }
      else if conv = 0x78 \<or> conv = 0x58
        then do { (a, args) \<leftarrow> pop_arg args; s \<leftarrow> number_to_char a 16; Some (s, args) }
      else Some ([], args))"

text \<open>A directive up to its conversion character. A format that ends inside a directive makes
  the loop step over the terminator.\<close>

definition parse_directive :: "u32 \<Rightarrow> u8 list \<Rightarrow> (u8 \<times> int \<times> u8 \<times> u8 list) option" where
  "parse_directive uninit fmt =
     (case parse_flags 0 fmt of (flags, fmt) \<Rightarrow> do {
        w \<leftarrow> field_width uninit fmt;
        fmt \<leftarrow> skip_precision uninit fmt;
        (case skip_qualifier fmt of [] \<Rightarrow> None | conv # rest \<Rightarrow> Some (flags, w, conv, rest)) })"

lemma parse_flags_length: "length (snd (parse_flags f fmt)) \<le> length fmt"
  by (induction f fmt rule: parse_flags.induct) auto

lemma parse_directive_shorter:
  assumes "parse_directive u fmt = Some (flags, w, conv, rest)"
  shows "length rest < length fmt"
proof -
  obtain fl f1 where f1: "parse_flags 0 fmt = (fl, f1)" by (cases "parse_flags 0 fmt")
  with parse_flags_length [of 0 fmt] have "length f1 \<le> length fmt" by simp
  moreover from assms f1 obtain f2 where f2: "skip_precision u f1 = Some f2"
    and q: "skip_qualifier f2 = conv # rest"
    by (auto simp: parse_directive_def split: list.splits dest!: bind_SomeD)
  from f2 have "length f2 \<le> length f1"
    by (auto simp: skip_precision_def split: list.splits if_splits)
  moreover from q have "length rest < length f2"
    by (auto simp: skip_qualifier_def split: list.splits if_splits)
  ultimately show ?thesis by simp
qed

function vsprintf_loop :: "(u32 \<Rightarrow> u8 list) \<Rightarrow> u32 \<Rightarrow> u8 list \<Rightarrow> u32 list \<Rightarrow> u8 list option" where
  "vsprintf_loop str_at uninit [] args = Some []"
| "vsprintf_loop str_at uninit (c # fmt) args =
     (if c \<noteq> 0x25 then map_option ((#) c) (vsprintf_loop str_at uninit fmt args)
      else (case parse_directive uninit fmt of
              None \<Rightarrow> None
            | Some (flags, w, conv, rest) \<Rightarrow>
                (case convert str_at flags w conv args of
                   None \<Rightarrow> None
                 | Some (out, args') \<Rightarrow>
                     map_option ((@) out) (vsprintf_loop str_at uninit rest args'))))"
  by pat_completeness auto
termination
  by (relation "measure (\<lambda>(_, _, fmt, _). length fmt)") (auto dest: parse_directive_shorter)

definition vsprintf :: "(u32 \<Rightarrow> u8 list) \<Rightarrow> u32 \<Rightarrow> u8 list \<Rightarrow> u32 list \<Rightarrow> u8 list option" where
  "vsprintf str_at uninit fmt args = vsprintf_loop str_at uninit fmt args"

subsection \<open>Reading a number back\<close>

definition digit_value :: "u8 \<Rightarrow> nat" where
  "digit_value c = (if c \<le> 0x39 then unat c - 0x30 else unat c - 0x41 + 10)"

definition read_number :: "nat \<Rightarrow> u8 list \<Rightarrow> nat" where
  "read_number base ds = foldl (\<lambda>a d. a * base + digit_value d) 0 ds"

lemma digit_value_digits: "d < 16 \<Longrightarrow> digit_value (digits ! d) = d"
proof -
  have "list_all (\<lambda>d. digit_value (digits ! d) = d) [0..<16]" by code_simp
  then show "d < 16 \<Longrightarrow> ?thesis" by (simp add: list_all_iff)
qed

lemma digit_loop_value:
  assumes "2 \<le> base" and "base \<le> 16" and "unat num < unat base ^ n" and "n \<le> room"
  shows "\<exists>ds. digit_loop room num base tmp = (0, tmp @ ds) \<and> length ds \<le> n
           \<and> read_number (unat base) (rev ds) = unat num"
  using assms(3,4)
proof (induction room arbitrary: num tmp n)
  case 0
  then have "num = 0" by (simp add: unat_eq_0)
  then show ?case by (simp add: read_number_def)
next
  case (Suc room)
  have b: "2 \<le> unat base" "unat base \<le> 16" using assms by (simp_all add: word_le_nat_alt)
  show ?case
  proof (cases "num = 0")
    case True
    then show ?thesis by (auto simp: read_number_def)
  next
    case False
    then obtain n' where n': "n = Suc n'" using Suc.prems(1) by (cases n) (auto simp: unat_eq_0)
    let ?d = "digits ! unat (num mod base)"
    have q: "unat (num div base) = unat num div unat base"
      and r: "unat (num mod base) = unat num mod unat base"
      by (simp_all add: unat_div unat_mod)
    have "unat (num div base) < unat base ^ n'"
      using Suc.prems(1) b by (simp add: n' q less_mult_imp_div_less mult.commute)
    from Suc.IH [OF this, of "tmp @ [?d]"] Suc.prems(2) obtain ds where
      ds: "digit_loop room (num div base) base (tmp @ [?d]) = (0, tmp @ ?d # ds)" "length ds \<le> n'"
        "read_number (unat base) (rev ds) = unat num div unat base" by (auto simp: q n')
    have "unat num mod unat base < unat base" using b by simp
    then have "unat num mod unat base < 16" using b by linarith
    then have "digit_value ?d = unat num mod unat base" by (simp add: r digit_value_digits)
    then have "read_number (unat base) (rev (?d # ds)) = unat num"
      using ds(3) by (simp add: read_number_def)
    moreover have "digit_loop (Suc room) num base tmp = (0, tmp @ ?d # ds)"
      using ds(1) False by (simp add: word_gt_0)
    ultimately show ?thesis using ds(2) n' by (intro exI [of _ "?d # ds"]) simp
  qed
qed

lemma read_number_zero_digit: "read_number b (0x30 # ds) = read_number b ds"
  by (simp add: read_number_def digit_value_def)

lemma number_to_char_reads_back:
  assumes "base \<in> {8, 10, 16}"
  shows "\<exists>out. number_to_char num base = Some out
    \<and> read_number (unat base) (if base = 16 then drop 2 out else out) = unat num
    \<and> (base = 16 \<longrightarrow> take 2 out = [0x30, 0x78])"
proof -
  define n where "n = (if base = 16 then 8 else 11 :: nat)"
  have "unat num < unat base ^ n"
    using assms unat_u32_bound [of num] unfolding n_def by auto
  moreover have "2 \<le> base" "base \<le> 16" "n \<le> 16" using assms by (auto simp: n_def)
  ultimately obtain ds where ds: "digit_loop 16 num base [] = (0, ds)" "length ds \<le> n"
    "read_number (unat base) (rev ds) = unat num"
    using digit_loop_value [of base num n 16 "[]"] by auto
  then show ?thesis
    by (cases "base = 16") (auto simp: number_to_char_def n_def read_number_zero_digit)
qed

lemma char_to_number_hangs: "is_digit c \<Longrightarrow> char_to_number uninit c = None"
proof -
  assume d: "is_digit c"
  have "\<not> is_digit c" if "char_to_number_loop c n = Some r" for n r
    using that
  proof (rule char_to_number_loop.raw_induct [where P = "\<lambda>c n r. \<not> is_digit c", rotated])
    fix f :: "u8 \<Rightarrow> u32 \<Rightarrow> u32 option" and c number r
    assume "\<And>c number r. f c number = Some r \<Longrightarrow> \<not> is_digit c"
      and "(if is_digit c then f c (number * 10 + (ucast c - 0x30)) else Some number) = Some r"
    then show "\<not> is_digit c" by (auto split: if_splits)
  qed
  with d show ?thesis unfolding char_to_number_def by (cases "char_to_number_loop c uninit") auto
qed


lemma vsprintf_loop_literal:
  "0x25 \<notin> set lit \<Longrightarrow>
     vsprintf_loop str_at u (lit @ fmt) args = map_option ((@) lit) (vsprintf_loop str_at u fmt args)"
  by (induction lit; cases "vsprintf_loop str_at u fmt args") auto

lemma parse_directive_plain:
  "conv \<in> {0x63, 0x73, 0x6F, 0x70, 0x75, 0x64, 0x78, 0x58, 0x25} \<Longrightarrow>
     parse_directive u (conv # rest) = Some (0, -1, conv, rest)"
  by (auto simp: parse_directive_def field_width_def skip_precision_def skip_qualifier_def is_digit_def)

text \<open>
  C3. For the three bases the formatter uses, \<open>number_to_char\<close> stays inside its 16-byte
  array, and reading the digits it writes (after the \<open>0x\<close> of base 16) gives the number back.
\<close>
theorem number_to_char_roundtrip:
  assumes "base \<in> {8, 10, 16}"
  shows "\<exists>out. number_to_char num base = Some out
    \<and> read_number (unat base) (if base = 16 then drop 2 out else out) = unat num
    \<and> (base = 16 \<longrightarrow> take 2 out = [0x30, 0x78])"
  using assms by (rule number_to_char_reads_back)

theorem number_to_char_roundtrip_witness:
  "\<exists>out. number_to_char 48879 16 = Some out
    \<and> read_number (unat (16::u32)) (if (16::u32) = 16 then drop 2 out else out) = unat (48879::u32)
    \<and> ((16::u32) = 16 \<longrightarrow> take 2 out = [0x30, 0x78])"
  by (rule number_to_char_roundtrip) simp

text \<open>C4. A literal without \<open>%\<close> is copied, and a \<open>%d\<close> behind it is replaced by digits that
  read back as the next argument taken as an unsigned number (\<open>%d\<close> is treated as \<open>%u\<close>, although
  the comment of the source calls it signed); formatting goes on with the rest of the format and of
  the arguments.\<close>

theorem vsprintf_decimal:
  assumes "0x25 \<notin> set lit"
  shows "\<exists>ds. read_number 10 ds = unat a \<and>
    vsprintf str_at u (lit @ 0x25 # 0x64 # rest) (a # args)
      = map_option (\<lambda>r. lit @ ds @ r) (vsprintf str_at u rest args)"
proof -
  from number_to_char_reads_back [of 10 a] obtain ds
    where "number_to_char a 10 = Some ds" "read_number 10 ds = unat a" by auto
  then show ?thesis
    using assms vsprintf_loop_literal [of lit str_at u "0x25 # 0x64 # rest" "a # args"]
    by (cases "vsprintf_loop str_at u rest args")
      (auto simp: vsprintf_def parse_directive_plain convert_def pop_arg_def)
qed

text \<open>A field width never returns: a directive whose width starts with a digit other than
  the zero-pad flag makes \<open>vsprintf\<close> loop for ever.\<close>

theorem vsprintf_width_hangs:
  assumes "0x25 \<notin> set lit" and "is_digit d" and "d \<noteq> 0x30"
  shows "vsprintf str_at u (lit @ 0x25 # d # rest) args = None"
proof -
  have "parse_flags 0 (d # rest) = (0, d # rest)"
    using assms(2,3) by (auto simp: is_digit_def)
  then have "parse_directive u (d # rest) = None"
    using char_to_number_hangs [OF assms(2)] assms(2) by (simp add: parse_directive_def field_width_def)
  then show ?thesis
    using vsprintf_loop_literal [OF assms(1), of str_at u "0x25 # d # rest" args]
    by (simp add: vsprintf_def)
qed

text \<open>\<open>%%\<close> writes nothing: the percent sign cannot be printed.\<close>

theorem vsprintf_percent_dropped:
  assumes "0x25 \<notin> set lit"
  shows "vsprintf str_at u (lit @ 0x25 # 0x25 # rest) args
           = map_option ((@) lit) (vsprintf str_at u rest args)"
  using assms vsprintf_loop_literal [of lit str_at u "0x25 # 0x25 # rest" args]
  by (cases "vsprintf_loop str_at u rest args")
    (auto simp: vsprintf_def parse_directive_plain convert_def)

theorem vsprintf_decimal_witness:
  "\<exists>ds. read_number 10 ds = unat (42::u32) \<and>
    vsprintf (\<lambda>_. []) 0 ([0x61] @ 0x25 # 0x64 # [0x62]) [42]
      = map_option (\<lambda>r. [0x61] @ ds @ r) (vsprintf (\<lambda>_. []) 0 [0x62] [])"
  by (rule vsprintf_decimal) simp

theorem vsprintf_width_hangs_witness:
  "vsprintf (\<lambda>_. []) 0 ([0x61] @ 0x25 # 0x38 # [0x64]) [42] = None"
  by (rule vsprintf_width_hangs) (simp_all add: is_digit_def)

theorem vsprintf_percent_dropped_witness:
  "vsprintf (\<lambda>_. []) 0 ([0x61] @ 0x25 # 0x25 # [0x62]) []
     = map_option ((@) [0x61]) (vsprintf (\<lambda>_. []) 0 [0x62] [])"
  by (rule vsprintf_percent_dropped) simp

end
