(* ===== verification/Keyboard.thy ===== *)
theory Keyboard
  imports Console Vprintf
begin

unbundle bit_operations_syntax

section \<open>The keyboard\<close>

text \<open>
  Models drivers/keyboard.c with the codes of include/keyboard.h, and \<open>printk\<close> of
  kernel/vprintf.c. The handler of a key puts characters into the queue of the terminal in
  the foreground, and \<open>con_write\<close> shows them: the state is the keyboard's \<open>mode\<close> and the
  console. The handlers that only print a message call \<open>printk\<close>.

  Shown: which character a key gives; that no mode bit is ever cleared; and that releasing a
  key runs the handler of another key, or leaves the table.
\<close>

subsection \<open>Kernel messages\<close>

definition bytes_of :: "string \<Rightarrow> u8 list" where
  "bytes_of cs = map of_char cs"

text \<open>The text with its terminator goes into a buffer of 1024 characters.\<close>

definition printk :: "(u32 \<Rightarrow> u8 list) \<Rightarrow> u32 \<Rightarrow> u8 list \<Rightarrow> u32 list \<Rightarrow> console \<Rightarrow> console option" where
  "printk str_at uninit fmt args s = do {
     out \<leftarrow> vsprintf str_at uninit fmt args;
     if length out < 1024 then console_print out s else None }"

text \<open>A message without arguments. In the source its last two characters are a backslash and an n.\<close>

definition message :: "string \<Rightarrow> console \<Rightarrow> console option" where
  "message m s = printk (\<lambda>_. []) 0 (bytes_of m @ [0x5C, 0x6E]) [] s"

subsection \<open>Tables\<close>

abbreviation MODE_LEFT_SHIFT :: u8 where "MODE_LEFT_SHIFT \<equiv> 0x01"
abbreviation MODE_RIGHT_SHIFT :: u8 where "MODE_RIGHT_SHIFT \<equiv> 0x02"
abbreviation MODE_LEFT_CTRL :: u8 where "MODE_LEFT_CTRL \<equiv> 0x04"
abbreviation MODE_LEFT_ALT :: u8 where "MODE_LEFT_ALT \<equiv> 0x10"
abbreviation MODE_UP_CAPS :: u8 where "MODE_UP_CAPS \<equiv> 0x40"
abbreviation MODE_DOWN_CAPS :: u8 where "MODE_DOWN_CAPS \<equiv> 0x80"

abbreviation LEFT_SHIFT :: u8 where "LEFT_SHIFT \<equiv> 0x2A"
abbreviation RIGHT_SHIFT :: u8 where "RIGHT_SHIFT \<equiv> 0x36"
abbreviation ALT :: u8 where "ALT \<equiv> 0x38"
abbreviation CTRL :: u8 where "CTRL \<equiv> 0x1D"
abbreviation CAPS :: u8 where "CAPS \<equiv> 0x3A"

definition ascii_map :: "u8 list" where
  "ascii_map = [0, ESC] @ bytes_of ''1234567890-='' @ [Backspace, HT_TAB] @ bytes_of ''qwertyuiop[]'' @ [CR, 0]
     @ bytes_of ''asdfghjkl;'' @ [0x27, 0x60, 0, 0x5C] @ bytes_of ''zxcvbnm,./''"

definition ascii_shift_map :: "u8 list" where
  "ascii_shift_map = [0, ESC] @ bytes_of ''!@#$%^&*()-+'' @ [Backspace, HT_TAB] @ bytes_of ''QWERTYUIOP{}'' @ [CR, 0]
     @ bytes_of ''ASDFGHJKL:'' @ [0x22, 0x7E, 0, 0x2F] @ bytes_of ''ZXCVBNM<>?''"

datatype key_hand = Do_ignore | Do_esc | Do_self | Do_back_space | Do_tab | Do_enter | Do_ctrl | Do_shift | Do_alt
  | Do_space | Do_caps | Do_func | Do_home | Do_up_arrow | Do_page_up | Do_left_arrow | Do_right_arrow | Do_end
  | Do_down_arrow | Do_page_down | Do_del

definition key_table_func :: "key_hand list" where
  "key_table_func = [Do_ignore, Do_esc] @ replicate 12 Do_self @ [Do_back_space, Do_tab] @ replicate 12 Do_self
     @ [Do_enter, Do_ctrl] @ replicate 12 Do_self @ [Do_shift] @ replicate 11 Do_self
     @ [Do_shift, Do_ignore, Do_alt, Do_space, Do_caps] @ replicate 10 Do_func @ [Do_ignore, Do_ignore]
     @ [Do_home, Do_up_arrow, Do_page_up, Do_ignore, Do_left_arrow, Do_self, Do_right_arrow, Do_ignore, Do_end,
        Do_down_arrow, Do_page_down, Do_self, Do_del]"

subsection \<open>Handlers\<close>

record keyboard =
  mode :: u8
  con :: console

text \<open>\<open>put_queue\<close> works on the queue of the terminal in the foreground.\<close>

definition put_queue_fg :: "u8 \<Rightarrow> console \<Rightarrow> console option" where
  "put_queue_fg c s = do {
     t \<leftarrow> cell (con_table s) (fg_console s);
     q \<leftarrow> put_queue c (queue t);
     Some (s\<lparr>con_table := (con_table s)[fg_console s := t\<lparr>queue := q\<rparr>]\<rparr>) }"

definition put :: "u8 list \<Rightarrow> keyboard \<Rightarrow> keyboard option" where
  "put cs k = do { s \<leftarrow> fold (\<lambda>c s. Option.bind s (put_queue_fg c)) cs (Some (con k)); Some (k\<lparr>con := s\<rparr>) }"

definition do_shift :: "u8 \<Rightarrow> keyboard \<Rightarrow> keyboard" where
  "do_shift scan_code k =
     (if scan_code = LEFT_SHIFT then k\<lparr>mode := mode k OR MODE_LEFT_SHIFT\<rparr>
      else if scan_code = RIGHT_SHIFT then k\<lparr>mode := mode k OR MODE_RIGHT_SHIFT\<rparr>
      else if scan_code = LEFT_SHIFT + 0x53 then k\<lparr>mode := mode k OR NOT MODE_LEFT_SHIFT\<rparr>
      else if scan_code = RIGHT_SHIFT + 0x53 then k\<lparr>mode := mode k OR NOT MODE_RIGHT_SHIFT\<rparr>
      else k)"

definition do_ctrl :: "u8 \<Rightarrow> keyboard \<Rightarrow> keyboard" where
  "do_ctrl scan_code k =
     (if scan_code = CTRL then k\<lparr>mode := mode k OR MODE_LEFT_CTRL\<rparr>
      else if scan_code = CTRL + 0x53 then k\<lparr>mode := mode k OR NOT MODE_LEFT_CTRL\<rparr>
      else k)"

definition do_alt :: "u8 \<Rightarrow> keyboard \<Rightarrow> keyboard" where
  "do_alt scan_code k =
     (if scan_code = ALT then k\<lparr>mode := mode k OR MODE_LEFT_ALT\<rparr>
      else if scan_code = CTRL + 0x53 then k\<lparr>mode := mode k OR NOT MODE_LEFT_ALT\<rparr>
      else k)"

text \<open>\<open>do_caps\<close> compares the mode, not the scan code.\<close>

definition do_caps :: "u8 \<Rightarrow> keyboard \<Rightarrow> keyboard" where
  "do_caps scan_code k =
     (if mode k = CAPS then k\<lparr>mode := mode k OR MODE_DOWN_CAPS\<rparr>
      else if mode k = CAPS + 0x53 then k\<lparr>mode := mode k OR NOT MODE_UP_CAPS\<rparr>
      else k)"

text \<open>The character of a key: the tables have 54 entries. Characters are signed.\<close>

definition self_char :: "u8 \<Rightarrow> u8 \<Rightarrow> u8 option" where
  "self_char m scan_code = do {
     c \<leftarrow> cell ascii_map (unat scan_code);
     if (m = MODE_LEFT_SHIFT \<or> m = MODE_RIGHT_SHIFT \<or> m = MODE_DOWN_CAPS) \<and> 0x61 \<le> sint c \<and> sint c \<le> 0x7D
     then cell ascii_shift_map (unat scan_code) else Some c }"

definition do_self :: "u8 \<Rightarrow> keyboard \<Rightarrow> keyboard option" where
  "do_self scan_code k = do { c \<leftarrow> self_char (mode k) scan_code; put [c] k }"

definition say :: "string \<Rightarrow> keyboard \<Rightarrow> keyboard option" where
  "say m k = do { s \<leftarrow> message m (con k); Some (k\<lparr>con := s\<rparr>) }"

named_theorems hand_defs \<open>the handlers that put characters or print\<close>

definition do_ignore :: "u8 \<Rightarrow> keyboard \<Rightarrow> keyboard option" where [hand_defs]:
  "do_ignore scan_code k = say ''do_ignore TODO '' k"

definition do_page_up :: "u8 \<Rightarrow> keyboard \<Rightarrow> keyboard option" where [hand_defs]:
  "do_page_up scan_code k = say ''do_page_up TODO '' k"

definition do_page_down :: "u8 \<Rightarrow> keyboard \<Rightarrow> keyboard option" where [hand_defs]:
  "do_page_down scan_code k = say ''do_page_down  TODO '' k"

definition do_home :: "u8 \<Rightarrow> keyboard \<Rightarrow> keyboard option" where [hand_defs]:
  "do_home scan_code k = put [CR] k"

definition do_end :: "u8 \<Rightarrow> keyboard \<Rightarrow> keyboard option" where [hand_defs]:
  "do_end scan_code k = put [0x04] k"

definition do_up_arrow :: "u8 \<Rightarrow> keyboard \<Rightarrow> keyboard option" where [hand_defs]:
  "do_up_arrow scan_code k = put [ESC, 0x57] k"

definition do_left_arrow :: "u8 \<Rightarrow> keyboard \<Rightarrow> keyboard option" where [hand_defs]:
  "do_left_arrow scan_code k = put [ESC, 0x41] k"

definition do_right_arrow :: "u8 \<Rightarrow> keyboard \<Rightarrow> keyboard option" where [hand_defs]:
  "do_right_arrow scan_code k = put [ESC, 0x44] k"

definition do_down_arrow :: "u8 \<Rightarrow> keyboard \<Rightarrow> keyboard option" where [hand_defs]:
  "do_down_arrow scan_code k = put [ESC, 0x53] k"

definition do_del :: "u8 \<Rightarrow> keyboard \<Rightarrow> keyboard option" where [hand_defs]:
  "do_del scan_code k = put [DEL] k"

definition do_enter :: "u8 \<Rightarrow> keyboard \<Rightarrow> keyboard option" where [hand_defs]:
  "do_enter scan_code k = put [LF_NL] k"

definition do_space :: "u8 \<Rightarrow> keyboard \<Rightarrow> keyboard option" where [hand_defs]:
  "do_space scan_code k = put [0x20] k"

definition do_back_space :: "u8 \<Rightarrow> keyboard \<Rightarrow> keyboard option" where [hand_defs]:
  "do_back_space scan_code k = put [Backspace] k"

definition do_tab :: "u8 \<Rightarrow> keyboard \<Rightarrow> keyboard option" where [hand_defs]:
  "do_tab scan_code k = put [HT_TAB] k"

definition do_func :: "u8 \<Rightarrow> keyboard \<Rightarrow> keyboard option" where [hand_defs]:
  "do_func scan_code k = say ''F1-F10 TODO '' k"

definition do_esc :: "u8 \<Rightarrow> keyboard \<Rightarrow> keyboard option" where [hand_defs]:
  "do_esc scan_code k = say ''esc TODO '' k"

fun run_hand :: "key_hand \<Rightarrow> u8 \<Rightarrow> keyboard \<Rightarrow> keyboard option" where
  "run_hand Do_ignore c k = do_ignore c k"
| "run_hand Do_esc c k = do_esc c k"
| "run_hand Do_self c k = do_self c k"
| "run_hand Do_back_space c k = do_back_space c k"
| "run_hand Do_tab c k = do_tab c k"
| "run_hand Do_enter c k = do_enter c k"
| "run_hand Do_ctrl c k = Some (do_ctrl c k)"
| "run_hand Do_shift c k = Some (do_shift c k)"
| "run_hand Do_alt c k = Some (do_alt c k)"
| "run_hand Do_space c k = do_space c k"
| "run_hand Do_caps c k = Some (do_caps c k)"
| "run_hand Do_func c k = do_func c k"
| "run_hand Do_home c k = do_home c k"
| "run_hand Do_up_arrow c k = do_up_arrow c k"
| "run_hand Do_page_up c k = do_page_up c k"
| "run_hand Do_left_arrow c k = do_left_arrow c k"
| "run_hand Do_right_arrow c k = do_right_arrow c k"
| "run_hand Do_end c k = do_end c k"
| "run_hand Do_down_arrow c k = do_down_arrow c k"
| "run_hand Do_page_down c k = do_page_down c k"
| "run_hand Do_del c k = do_del c k"

definition do_keyboard_fun :: "u8 \<Rightarrow> keyboard \<Rightarrow> keyboard option" where
  "do_keyboard_fun scan_code k = do {
     let scan_code = (if scan_code > 0x53 then scan_code - 0x53 else scan_code);
     hand \<leftarrow> cell key_table_func (unat scan_code);
     k \<leftarrow> run_hand hand scan_code k;
     s \<leftarrow> con_write (con k);
     Some (k\<lparr>con := s\<rparr>) }"


subsection \<open>Properties\<close>

lemma length_tables: "length key_table_func = 84" "length ascii_map = 54" "length ascii_shift_map = 54"
  by (simp_all add: key_table_func_def ascii_map_def ascii_shift_map_def bytes_of_def)

text \<open>
  Releasing a key does not act as a release: the release code of key \<open>c\<close>, which is
  \<open>c + 0x80\<close>, does what pressing key \<open>c + 0x2d\<close> does, for example the left arrow when A is
  released; and for the keys from 0x27 on the table of handlers is left.
\<close>
theorem key_release_acts_as_press:
  assumes "0 < c" and "c \<le> 0x53"
  shows "do_keyboard_fun (c + 0x80) k = (if c \<le> 0x26 then do_keyboard_fun (c + 0x2d) k else None)"
proof -
  have c: "unat (c + 0x80) = unat c + 0x80" "unat (c + 0x2d) = unat c + 0x2d" "unat c \<le> 0x53"
    using assms by (simp_all add: unat_word_ariths word_le_nat_alt)
  have "c + 0x80 - 0x53 = c + 0x2d" by (simp add: add.commute)
  moreover have "c + 0x80 > 0x53" using c by (simp add: word_less_nat_alt)
  moreover have "c + 0x2d > 0x53 \<longleftrightarrow> \<not> c \<le> 0x26" using c by (simp add: word_less_nat_alt word_le_nat_alt) linarith
  ultimately show ?thesis
    using c by (auto simp: do_keyboard_fun_def Let_def cell_def length_tables word_le_nat_alt add.commute [of 45 c])
qed

lemma run_hand_mode:
  assumes "run_hand h c k = Some k'"
  shows "mode k' AND mode k = mode k"
proof -
  have or: "(m OR x) AND m = m" for m x :: u8 by (rule bit_eqI) (auto simp: bit_simps)
  show ?thesis
    using assms
    by (cases h) (auto simp: hand_defs say_def put_def do_self_def do_ctrl_def do_shift_def do_alt_def do_caps_def or dest!: bind_SomeD)
qed

fun type_keys :: "u8 list \<Rightarrow> keyboard \<Rightarrow> keyboard option" where
  "type_keys [] k = Some k"
| "type_keys (c # cs) k = do { k \<leftarrow> do_keyboard_fun c k; type_keys cs k }"

text \<open>
  No mode bit is ever cleared: whatever codes the keyboard sends, the bits of shift,
  control and alt that are set stay set.
\<close>
theorem mode_bits_stay:
  assumes "type_keys codes k = Some k'"
  shows "mode k' AND mode k = mode k"
  using assms
proof (induction codes arbitrary: k)
  case (Cons c codes)
  then obtain k1 where k1: "do_keyboard_fun c k = Some k1" "type_keys codes k1 = Some k'" by (auto dest!: bind_SomeD)
  then have "mode k1 AND mode k = mode k"
    by (auto simp: do_keyboard_fun_def Let_def dest!: bind_SomeD dest: run_hand_mode)
  moreover have "mode k' AND mode k1 = mode k1" using Cons.IH [OF k1(2)] .
  ultimately show ?case by (metis and.assoc)
qed simp

lemma put_queue_fg_room:
  assumes "con_queue_ok s" and "ring_len (fg_queue s) < 1023"
  obtains t where "put_queue_fg c s = Some t" and "con_queue_ok t" and "ring_list (fg_queue t) = ring_list (fg_queue s) @ [c]"
    and "head_ptr (fg_queue t) = (head_ptr (fg_queue s) + 1) AND 1023" and "tail_ptr (fg_queue t) = tail_ptr (fg_queue s)"
    and "con_effect s t" and "con_ok s \<Longrightarrow> con_ok t"
proof -
  from put_queue_room [of "fg_queue s" c] assms obtain q where
    q: "put_queue c (fg_queue s) = Some q" "ring_inv q" "ring_list q = ring_list (fg_queue s) @ [c]"
    by (auto simp: con_queue_ok_def)
  let ?k = "fg_console s"
  let ?t = "s\<lparr>con_table := (con_table s)[?k := (con_table s ! ?k)\<lparr>queue := q\<rparr>]\<rparr>"
  have lt: "?k < length (con_table s)" using assms(1) by (simp add: con_queue_ok_def)
  have fq: "fg_queue ?t = q" using lt by (simp add: fg_queue_def)
  let ?h = "unat (head_ptr (fg_queue s))" and ?t' = "unat (tail_ptr (fg_queue s))"
  have b: "?h < 1024" "?t' < 1024" using assms(1) by (simp_all add: con_queue_ok_def ring_inv_def)
  have "(?h + 1) mod 1024 \<noteq> ?t'" using assms(2) ring_full_iff [OF b] by (simp add: ring_len_def)
  then have "(head_ptr (fg_queue s) + 1) AND 1023 \<noteq> tail_ptr (fg_queue s)" using unat_succ_ptr [OF b(1)] by auto
  then have "head_ptr q = (head_ptr (fg_queue s) + 1) AND 1023 \<and> tail_ptr q = tail_ptr (fg_queue s)"
    using q(1) by (auto simp: put_queue_def Let_def dest!: bind_SomeD split: if_splits)
  then show thesis
    using q lt fq
    by (intro that [of ?t])
       (auto simp: put_queue_fg_def fg_queue_def con_queue_ok_def con_effect_def fg_win_def con_inv_defs)
qed

lemma self_chars_plain:
  assumes "i < 54" and "key_table_func ! i = Do_self"
  shows "plain_char (ascii_map ! i)" and "plain_char (ascii_shift_map ! i)"
proof -
  have "list_all (\<lambda>(h, c, d). h = Do_self \<longrightarrow> plain_char c \<and> plain_char d)
      (zip key_table_func (zip ascii_map ascii_shift_map))"
    unfolding plain_char_def by code_simp
  then show "plain_char (ascii_map ! i)" "plain_char (ascii_shift_map ! i)"
    using assms by (auto simp: list_all_length length_tables)
qed

lemma self_char_plain:
  assumes "unat c < 54" and "key_table_func ! unat c = Do_self"
  obtains x where "self_char m c = Some x" and "plain_char x"
proof -
  note c = self_chars_plain [OF assms]
  show thesis
    using c assms(1) by (intro that [of "the (self_char m c)"]) (auto simp: self_char_def length_tables)
qed

text \<open>Characters that are shown, and the cell that a shown character fills when the row has room.\<close>

definition printable :: "u8 \<Rightarrow> bool" where
  "printable c \<longleftrightarrow> c \<noteq> ESC \<and> 31 < sint c \<and> sint c < 127"

lemma printable_plain: "printable c \<Longrightarrow> plain_char c"
  by (auto simp: printable_def plain_char_def)

lemma con_display_cell:
  assumes "con_ok s" and "cursor_x (fg_win s) < 80"
  shows "con_display c s = Some (s\<lparr>video_ram := (video_ram s)(cursor_pos (fg_win s) := char_cell c (attr (fg_win s))),
    vc_windows := (vc_windows s)[fg_console s := (fg_win s)\<lparr>cursor_pos := cursor_pos (fg_win s) + 2,
      cursor_x := cursor_x (fg_win s) + 1\<rparr>]\<rparr>)"
  using assms by (auto simp: con_display_def show_at_cursor_def con_inv_defs upd_win_def store_word_def Let_def)

lemma con_set_cursor_keeps:
  "con_set_cursor n s = Some u \<Longrightarrow> video_ram u = video_ram s \<and> vc_windows u = vc_windows s \<and> fg_console u = fg_console s"
  by (auto simp: con_set_cursor_def outb_def Let_def dest!: bind_SomeD split: if_splits)

lemma con_write_one:
  assumes "con_ok s" and "con_queue_ok s" and "ring_list (fg_queue s) = [c]" and "tail_ptr (fg_queue s) \<le> head_ptr (fg_queue s)"
    and "printable c" and "cursor_x (fg_win s) < 80" and "con_write s = Some u"
  shows "video_ram u = (video_ram s)(cursor_pos (fg_win s) := char_cell c (attr (fg_win s)))"
    and "fg_win u = (fg_win s)\<lparr>cursor_pos := cursor_pos (fg_win s) + 2, cursor_x := cursor_x (fg_win s) + 1\<rparr>"
proof -
  from read_char_fg_ok [of s c "[]"] assms(1-3) obtain t where t: "read_char_fg s = Some (c, t)" "con_ok t" by auto
  have ts: "video_ram t = video_ram s" "fg_win t = fg_win s" using t(1) by (auto simp: read_char_fg_def fg_win_def dest!: bind_SomeD)
  have "nat (sint (head_ptr (fg_queue s) - tail_ptr (fg_queue s))) = 1"
    using assms(2,4) arg_cong [OF assms(3), of length]
    by (simp add: sint_diff_small con_queue_ok_def ring_inv_def ring_len_def word_le_nat_alt mod_if split: if_splits)
  moreover have "con_step ESnormal c t = map_option (Pair ESnormal) (con_display c t)"
    using assms(5) by (cases "con_display c t") (simp_all add: printable_def)
  moreover note con_display_cell [OF t(2), of c] assms(6)
  ultimately have "con_write s = Option.bind (con_display c t) (\<lambda>v. con_set_cursor (fg_console v) v)"
    using t(1) ts(2) assms(2) by (simp add: con_write_def con_queue_ok_def fg_queue_def Let_def numeral_eq_Suc)
  then obtain v where v: "con_display c t = Some v" "con_set_cursor (fg_console v) v = Some u"
    using assms(7) by (cases "con_display c t") auto
  note keeps = con_set_cursor_keeps [OF v(2)]
  have "video_ram v = (video_ram s)(cursor_pos (fg_win s) := char_cell c (attr (fg_win s)))"
    "fg_win v = (fg_win s)\<lparr>cursor_pos := cursor_pos (fg_win s) + 2, cursor_x := cursor_x (fg_win s) + 1\<rparr>"
    using con_display_cell [OF t(2), of c] assms(6) v(1) ts t(2) by (auto simp: fg_win_def con_ok_def)
  then show "video_ram u = (video_ram s)(cursor_pos (fg_win s) := char_cell c (attr (fg_win s)))"
    "fg_win u = (fg_win s)\<lparr>cursor_pos := cursor_pos (fg_win s) + 2, cursor_x := cursor_x (fg_win s) + 1\<rparr>"
    using keeps by (simp_all add: fg_win_def)
qed

text \<open>
  C31. Pressing a character key is safe: from a console whose window and queue are in order, with an
  empty queue whose write position is not at the end of the ring (\<open>head_ptr < 1023\<close>), the
  character of the key goes through the queue to the screen. It is the one of \<open>ascii_map\<close>, or of
  \<open>ascii_shift_map\<close> for a letter in one of the three shift modes. A printable character fills the
  cell at the cursor, and only that, when the row has room, and the cursor moves one column on. The
  invariant of the console holds again, the queue is empty again, and only the window in the
  foreground has changed.
\<close>
theorem key_press_safe:
  assumes "con_ok (con k)" and "con_queue_ok (con k)" and "ring_list (fg_queue (con k)) = []"
    and "unat (head_ptr (fg_queue (con k))) < 1023"
    and "unat c < 54" and "key_table_func ! unat c = Do_self"
  defines "letter \<equiv> 0x61 \<le> sint (ascii_map ! unat c) \<and> sint (ascii_map ! unat c) \<le> 0x7D"
  defines "x \<equiv> (if mode k \<in> {MODE_LEFT_SHIFT, MODE_RIGHT_SHIFT, MODE_DOWN_CAPS} \<and> letter
                 then ascii_shift_map ! unat c else ascii_map ! unat c)"
  shows "\<exists>k'. do_keyboard_fun c k = Some k' \<and> mode k' = mode k \<and> con_ok (con k') \<and> con_queue_ok (con k')
    \<and> ring_list (fg_queue (con k')) = [] \<and> con_effect (con k) (con k')
    \<and> (printable x \<and> cursor_x (fg_win (con k)) < 80 \<longrightarrow>
         video_ram (con k') = (video_ram (con k))(cursor_pos (fg_win (con k)) := char_cell x (attr (fg_win (con k))))
         \<and> fg_win (con k') = (fg_win (con k))\<lparr>cursor_pos := cursor_pos (fg_win (con k)) + 2,
              cursor_x := cursor_x (fg_win (con k)) + 1\<rparr>)"
proof -
  let ?s = "con k"
  have x: "self_char (mode k) c = Some x" "plain_char x"
    using self_chars_plain [OF assms(5,6)] assms(5) by (auto simp: x_def letter_def self_char_def length_tables)
  have room: "ring_len (fg_queue ?s) < 1023" using arg_cong [OF assms(3), of length] by simp
  obtain t where t: "put_queue_fg x ?s = Some t" "con_queue_ok t" "ring_list (fg_queue t) = [x]"
    "head_ptr (fg_queue t) = (head_ptr (fg_queue ?s) + 1) AND 1023" "tail_ptr (fg_queue t) = tail_ptr (fg_queue ?s)"
    "con_effect ?s t" "con_ok t"
    using assms(1,3) by (rule_tac put_queue_fg_room [OF assms(2) room, of x]) auto
  have b: "unat (head_ptr (fg_queue ?s)) < 1024" "unat (tail_ptr (fg_queue ?s)) < 1024"
    using assms(2) by (simp_all add: con_queue_ok_def ring_inv_def)
  have "ring_len (fg_queue ?s) = 0" using arg_cong [OF assms(3), of length] by simp
  then have "unat (tail_ptr (fg_queue ?s)) = unat (head_ptr (fg_queue ?s))"
    using b by (cases "unat (tail_ptr (fg_queue ?s)) \<le> unat (head_ptr (fg_queue ?s))")
      (auto simp: ring_len_def mod_if split: if_splits)
  moreover have "unat ((head_ptr (fg_queue ?s) + 1) AND 1023) = unat (head_ptr (fg_queue ?s)) + 1"
    using unat_succ_ptr [OF b(1)] assms(4) by simp
  ultimately have le: "tail_ptr (fg_queue t) \<le> head_ptr (fg_queue t)" using t(4,5) by (simp add: word_le_nat_alt)
  moreover have "list_all plain_char (ring_list (fg_queue t))" using t(3) x(2) by simp
  ultimately obtain u where u: "con_write t = Some u" "con_ok u" "con_queue_ok u" "ring_list (fg_queue u) = []" "con_effect t u"
    using con_write_plain [OF t(7,2)] by blast
  have "\<not> c > 0x53" using assms(5) by (simp add: word_less_nat_alt)
  then have "do_keyboard_fun c k = Some (k\<lparr>con := u\<rparr>)"
    using assms(5,6) x(1) t(1) u(1) by (simp add: do_keyboard_fun_def Let_def length_tables do_self_def put_def)
  moreover have "fg_win t = fg_win ?s" "video_ram t = video_ram ?s"
    using t(1) by (auto simp: put_queue_fg_def fg_win_def dest!: bind_SomeD)
  then have "printable x \<and> cursor_x (fg_win ?s) < 80 \<longrightarrow>
      video_ram u = (video_ram ?s)(cursor_pos (fg_win ?s) := char_cell x (attr (fg_win ?s)))
      \<and> fg_win u = (fg_win ?s)\<lparr>cursor_pos := cursor_pos (fg_win ?s) + 2, cursor_x := cursor_x (fg_win ?s) + 1\<rparr>"
    using con_write_one [OF t(7,2,3) le _ _ u(1)] by simp
  ultimately show ?thesis using u(2-4) con_effect_trans [OF t(6) u(5)] by auto
qed

subsection \<open>Witnesses\<close>

text \<open>The key of the letter A.\<close>

theorem key_press_safe_witness:
  "\<exists>k'. do_keyboard_fun 0x1e \<lparr>mode = 0, con = sample_console 3 10 10\<rparr> = Some k' \<and> ring_list (fg_queue (con k')) = []
    \<and> video_ram (con k') 0xb8006 = char_cell 0x61 7"
proof -
  have "ring_list (fg_queue (sample_console 3 10 10)) = []"
    by (simp add: fg_queue_def sample_defs ring_list_def ring_len_def)
  moreover have "unat (head_ptr (fg_queue (sample_console 3 10 10))) < 1023" by (simp add: fg_queue_def sample_defs)
  moreover have "key_table_func ! 30 = Do_self" "ascii_map ! 30 = 0x61" by code_simp+
  moreover have "printable 0x61" by (simp add: printable_def)
  moreover have "fg_win (sample_console 3 10 10) = sample_window 3" by (simp add: fg_win_def sample_defs)
  moreover have "cursor_x (sample_window 3) < 80" "cursor_pos (sample_window 3) = 0xb8006" "attr (sample_window 3) = 7"
    by (simp_all add: sample_defs)
  ultimately show ?thesis
    using key_press_safe [of "\<lparr>mode = 0, con = sample_console 3 10 10\<rparr>" "0x1e"]
    by (simp add: sample_console_ok sample_console_queue) auto
qed

theorem key_release_acts_as_press_witness:
  "do_keyboard_fun 0x9e \<lparr>mode = 0, con = sample_console 3 10 10\<rparr>
    = do_keyboard_fun 0x4b \<lparr>mode = 0, con = sample_console 3 10 10\<rparr>"
  using key_release_acts_as_press [of "0x1e" "\<lparr>mode = 0, con = sample_console 3 10 10\<rparr>"] by simp


theorem mode_bits_stay_witness:
  "\<exists>k'. type_keys [0x2a] \<lparr>mode = 4, con = sample_console 3 10 10\<rparr> = Some k' \<and> mode k' AND 4 = 4"
proof -
  let ?k = "\<lparr>mode = 4, con = sample_console 3 10 10\<rparr>"
  have "ring_list (fg_queue (sample_console 3 10 10)) = []"
    "tail_ptr (fg_queue (sample_console 3 10 10)) \<le> head_ptr (fg_queue (sample_console 3 10 10))"
    by (simp_all add: fg_queue_def sample_defs ring_list_def ring_len_def)
  then obtain s where "con_write (con ?k) = Some s"
    using con_write_plain [of "sample_console 3 10 10"] by (force simp: sample_console_ok sample_console_queue)
  moreover have "key_table_func ! 42 = Do_shift" by code_simp
  ultimately have "type_keys [0x2a] ?k = Some \<lparr>mode = 5, con = s\<rparr>"
    by (simp add: do_keyboard_fun_def Let_def length_tables do_shift_def)
  from mode_bits_stay [OF this] this show ?thesis by simp
qed

end
