(* ===== verification/Tty.thy ===== *)
theory Tty
  imports Keyboard Bytes
begin

unbundle bit_operations_syntax

section \<open>Terminals\<close>

text \<open>
  Models drivers/tty.c and \<open>printf\<close> and \<open>printbuffer\<close> of lib/sys_lib.c. A task writes to the
  terminal through the queue of the foreground terminal and \<open>con_write\<close>; its memory, which the
  code reaches through the segment register \<open>fs\<close>, is the parameter \<open>um\<close>. The \<open>vsprintf\<close> of the
  user library is a copy of the one of the kernel.

  Shown: a line that fits in the row of the cursor appears there character by character.
\<close>

subsection \<open>Operations\<close>

fun put_chars :: "nat \<Rightarrow> u32 \<Rightarrow> ram \<Rightarrow> console \<Rightarrow> console option" where
  "put_chars 0 b um s = Some s"
| "put_chars (Suc n) b um s = do { s \<leftarrow> put_queue_fg (um b) s; put_chars n (b + 1) um s }"

definition tty_write :: "u32 \<Rightarrow> int \<Rightarrow> ram \<Rightarrow> console \<Rightarrow> (int \<times> console) option" where
  "tty_write b nr um s = do {
     s \<leftarrow> put_chars (nat nr) b um s;
     s \<leftarrow> put_queue_fg LF_NL s;
     s \<leftarrow> con_write s;
     Some (int (nat nr), s) }"

fun get_chars :: "nat \<Rightarrow> u32 \<Rightarrow> ram \<Rightarrow> console \<Rightarrow> (ram \<times> console) option" where
  "get_chars 0 b um s = Some (um, s)"
| "get_chars (Suc n) b um s = do { (c, s) \<leftarrow> read_char_fg s; get_chars n (b + 1) (um(b := c)) s }"

definition tty_read :: "u32 \<Rightarrow> int \<Rightarrow> ram \<Rightarrow> console \<Rightarrow> (int \<times> ram \<times> console) option" where
  "tty_read b nr um s = do {
     (um, s) \<leftarrow> get_chars (nat nr) b um s;
     Some (int (nat nr), um, s) }"

fun tty_init_loop :: "nat \<Rightarrow> console \<Rightarrow> console option" where
  "tty_init_loop 0 s = Some s"
| "tty_init_loop (Suc n) s = do {
     t \<leftarrow> cell (con_table s) (NR_TTY - Suc n);
     tab \<leftarrow> put_cell (NR_TTY - Suc n) (t\<lparr>queue := (queue t)\<lparr>tail_ptr := 0, head_ptr := 0\<rparr>\<rparr>) (con_table s);
     tty_init_loop n (s\<lparr>con_table := tab\<rparr>) }"

definition tty_init :: "console \<Rightarrow> console option" where
  "tty_init s = tty_init_loop NR_TTY s"

text \<open>\<open>printf\<close> formats into the static buffer \<open>pbuf\<close> of 1024 characters and makes the system
  call with its address.\<close>

definition printf :: "(u32 \<Rightarrow> u8 list) \<Rightarrow> u32 \<Rightarrow> u32 \<Rightarrow> u8 list \<Rightarrow> u32 list \<Rightarrow> ram \<Rightarrow> console
    \<Rightarrow> (int \<times> ram \<times> console) option" where
  "printf str_at uninit pbuf fmt args um s = do {
     out \<leftarrow> vsprintf str_at uninit fmt args;
     if length out < 1024
     then do {
       let um = put_ram pbuf (out @ [0]) um;
       (_, s) \<leftarrow> tty_write pbuf (int (length out)) um s;
       Some (int (length out), um, s) }
     else None }"

definition printbuffer :: "u32 \<Rightarrow> int \<Rightarrow> ram \<Rightarrow> console \<Rightarrow> console option" where
  "printbuffer b count um s = map_option snd (tty_write b count um s)"

subsection \<open>Text in a row\<close>

text \<open>The effect of showing \<open>cs\<close> at the cursor: the cells from the
  cursor on hold the characters with the attribute of the window, no other cell changes.\<close>

definition shows_text :: "u8 list \<Rightarrow> console \<Rightarrow> console \<Rightarrow> bool" where
  "shows_text cs s s' \<longleftrightarrow> video_ram s' = (\<lambda>a. if \<exists>i < length cs. a = cursor_pos (fg_win s) + 2 * of_nat i
     then char_cell (cs ! ((unat (a - cursor_pos (fg_win s))) div 2)) (attr (fg_win s)) else video_ram s a)"

lemma shows_text_Cons:
  assumes "video_ram t = (video_ram s)(cursor_pos (fg_win s) := char_cell c (attr (fg_win s)))"
    and "cursor_pos (fg_win t) = cursor_pos (fg_win s) + 2" and "attr (fg_win t) = attr (fg_win s)"
    and "shows_text cs t u" and "length cs < 100"
  shows "shows_text (c # cs) s u"
proof -
  let ?p = "cursor_pos (fg_win s)"
  have d: "unat (2 * of_nat i :: u32) = 2 * i" if "i \<le> length cs" for i
    using that assms(5) by (simp add: unat_word_ariths unat_of_nat)
  have "video_ram u a = (if \<exists>i < length (c # cs). a = ?p + 2 * of_nat i
      then char_cell ((c # cs) ! (unat (a - ?p) div 2)) (attr (fg_win s)) else video_ram s a)" for a
  proof (cases "\<exists>i < length (c # cs). a = ?p + 2 * of_nat i")
    case True
    then obtain i where i: "i \<le> length cs" "a = ?p + 2 * of_nat i" by (metis length_Cons less_Suc_eq_le)
    then have n: "unat (a - ?p) div 2 = i" using d [of i] by simp
    show ?thesis
    proof (cases i)
      case 0
      have "?p \<noteq> ?p + 2 + 2 * of_nat j" if "j < length cs" for j
        using d [of "Suc j"] that by (auto simp: algebra_simps)
      then have "video_ram u a = char_cell c (attr (fg_win s))"
        using assms(1-4) i 0 by (auto simp: shows_text_def)
      then show ?thesis using True n 0 by auto
    next
      case (Suc j)
      have e: "a = ?p + 2 + 2 * of_nat j" using i Suc by (simp add: algebra_simps)
      have "unat (a - (?p + 2)) div 2 = j" using e d [of j] i(1) Suc by simp
      moreover have "\<exists>l < length cs. a = ?p + 2 + 2 * of_nat l" using e i(1) Suc by (intro exI [of _ j]) simp
      ultimately have "video_ram u a = char_cell (cs ! j) (attr (fg_win s))"
        using assms(4) unfolding shows_text_def assms(2,3) by simp
      then show ?thesis using True n Suc by auto
    qed
  next
    case False
    have "a \<noteq> ?p + 2 + 2 * of_nat j" if "j < length cs" for j
      using False that by (auto simp: algebra_simps dest: spec [of _ "Suc j"])
    moreover have "a \<noteq> ?p" using False by auto
    ultimately have "video_ram u a = video_ram s a" using assms(1,2,4) by (auto simp: shows_text_def)
    then show ?thesis using False by auto
  qed
  then show ?thesis unfolding shows_text_def by (rule ext)
qed

text \<open>One character that fits in the row, and the end of a line: what \<open>con_write\<close> and the kernel's own
  output have in common.\<close>

lemma con_display_row:
  assumes "con_ok s" and "unat (cursor_x (fg_win s)) < 80"
  obtains u where "con_display c s = Some u" "con_ok u" "con_frame s u" "con_table u = con_table s" "fg_console u = fg_console s"
    "unat (cursor_x (fg_win u)) = unat (cursor_x (fg_win s)) + 1"
    "\<And>cs v. shows_text cs u v \<Longrightarrow> length cs < 100 \<Longrightarrow> shows_text (c # cs) s v"
proof -
  have x: "cursor_x (fg_win s) < 80" "unat (cursor_x (fg_win s) + 1) = unat (cursor_x (fg_win s)) + 1"
    using assms(2) by (auto simp: word_less_nat_alt unat_word_ariths)
  note d = con_display_cell [OF assms(1) x(1), of c]
  from con_display_ok [OF assms(1), of c] obtain u where u: "con_display c s = Some u" "con_ok u" "con_frame s u" by auto
  have fu: "fg_win u = (fg_win s)\<lparr>cursor_pos := cursor_pos (fg_win s) + 2, cursor_x := cursor_x (fg_win s) + 1\<rparr>"
    "video_ram u = (video_ram s)(cursor_pos (fg_win s) := char_cell c (attr (fg_win s)))"
    "con_table u = con_table s" "fg_console u = fg_console s"
    using u(1) d assms(1) by (auto simp: fg_win_def con_ok_def)
  show thesis by (rule that [OF u fu(3,4)]) (use fu x(2) in \<open>auto intro: shows_text_Cons [of u]\<close>)
qed

lemma line_end_row:
  assumes "con_ok s"
  obtains u v where "cr (fg_console s) s = Some u" "up_cursor (fg_console s) u = Some v" "con_ok v" "con_frame s v"
    "cursor_x (fg_win v) = 0" "con_table v = con_table s" "fg_console v = fg_console s" "shows_text [] s v"
proof -
  from cr_ok [OF assms] obtain u where u: "cr (fg_console s) s = Some u" "con_ok u" "con_frame s u" "cursor_x (fg_win u) = 0" by auto
  from up_cursor_ok [OF u(2,4)] obtain v where
    v: "up_cursor (fg_console u) u = Some v" "con_ok v" "con_frame u v" "cursor_x (fg_win v) = 0" by auto
  have "video_ram v = video_ram s" "con_table v = con_table s" "fg_console v = fg_console s" "fg_console u = fg_console s"
    using u(1) v(1) by (auto simp: cr_def up_cursor_def upd_win_def dest!: bind_SomeD)
  moreover have "con_frame s v" using con_frame_trans [OF u(3) v(3)] assms by (simp add: con_ok_def)
  ultimately show thesis using that u v by (simp add: shows_text_def)
qed

lemma con_loop_row:
  assumes "con_ok s" and "con_queue_ok s" and "ring_list (fg_queue s) = cs @ [LF_NL]" and "list_all printable cs"
    and "unat (cursor_x (fg_win s)) + length cs \<le> 80"
  shows "\<exists>s'. con_loop (Suc (length cs)) ESnormal s = Some s' \<and> con_ok s' \<and> con_queue_ok s'
    \<and> ring_list (fg_queue s') = [] \<and> shows_text cs s s' \<and> cursor_x (fg_win s') = 0"
  using assms
proof (induction cs arbitrary: s)
  case Nil
  from read_char_fg_ok [of s LF_NL "[]"] Nil obtain t where t: "read_char_fg s = Some (LF_NL, t)" "con_ok t" "con_queue_ok t"
    "ring_list (fg_queue t) = []" by auto
  have vt: "video_ram t = video_ram s" using t(1) by (auto simp: read_char_fg_def dest!: bind_SomeD)
  obtain u v where v: "cr (fg_console t) t = Some u" "up_cursor (fg_console t) u = Some v" "con_ok v" "cursor_x (fg_win v) = 0"
    "con_table v = con_table t" "fg_console v = fg_console t" "shows_text [] t v" using line_end_row [OF t(2)] by metis
  have "fg_console u = fg_console t" using v(1) by (auto simp: cr_def upd_win_def dest!: bind_SomeD)
  then have "con_loop (Suc 0) ESnormal s = Some v" using t(1) v(1,2) by (simp add: con_control_def)
  moreover have "con_queue_ok v" "ring_list (fg_queue v) = []"
    using t(3,4) v(5,6) by (simp_all add: con_queue_ok_def fg_queue_def)
  ultimately show ?case using v(3,4,7) vt by (auto simp: shows_text_def)
next
  case (Cons c cs)
  from read_char_fg_ok [of s c "cs @ [LF_NL]"] Cons.prems obtain t where t: "read_char_fg s = Some (c, t)" "con_ok t"
    "con_queue_ok t" "ring_list (fg_queue t) = cs @ [LF_NL]" by auto
  have ts: "video_ram t = video_ram s" "fg_win t = fg_win s" using t(1) by (auto simp: read_char_fg_def fg_win_def dest!: bind_SomeD)
  have x: "unat (cursor_x (fg_win t)) < 80" using Cons.prems(5) ts(2) by simp
  obtain u where u: "con_display c t = Some u" "con_ok u" "con_table u = con_table t" "fg_console u = fg_console t"
    "unat (cursor_x (fg_win u)) = unat (cursor_x (fg_win t)) + 1" "\<And>v. shows_text cs u v \<Longrightarrow> length cs < 100 \<Longrightarrow> shows_text (c # cs) t v"
    using con_display_row [OF t(2) x, of c] by metis
  have "con_queue_ok u" "ring_list (fg_queue u) = cs @ [LF_NL]"
    using t(3,4) u(3,4) by (simp_all add: con_queue_ok_def fg_queue_def)
  moreover have "unat (cursor_x (fg_win u)) + length cs \<le> 80" using Cons.prems(5) u(5) ts(2) by simp
  ultimately obtain v where v: "con_loop (Suc (length cs)) ESnormal u = Some v" "con_ok v" "con_queue_ok v"
    "ring_list (fg_queue v) = []" "shows_text cs u v" "cursor_x (fg_win v) = 0"
    using Cons.IH [OF u(2)] Cons.prems(4) by auto
  have "con_step ESnormal c t = Some (ESnormal, u)" using Cons.prems(4) u(1) by (simp add: printable_def)
  then have "con_loop (Suc (length (c # cs))) ESnormal s = Some v" using t(1) v(1) by simp
  moreover have "shows_text (c # cs) t v" using u(6) [OF v(5)] Cons.prems(5) by simp
  then have "shows_text (c # cs) s v" unfolding shows_text_def ts .
  ultimately show ?case using v by blast
qed

lemma put_chars_room:
  assumes "con_ok s" and "con_queue_ok s" and "ring_len (fg_queue s) + n \<le> 1023" and "unat (head_ptr (fg_queue s)) + n \<le> 1023"
  shows "\<exists>t. put_chars n b um s = Some t \<and> con_ok t \<and> con_queue_ok t
    \<and> ring_list (fg_queue t) = ring_list (fg_queue s) @ map (\<lambda>i. um (b + of_nat i)) [0..<n]
    \<and> unat (head_ptr (fg_queue t)) = unat (head_ptr (fg_queue s)) + n \<and> tail_ptr (fg_queue t) = tail_ptr (fg_queue s)
    \<and> fg_win t = fg_win s \<and> video_ram t = video_ram s"
  using assms
proof (induction n arbitrary: b s)
  case (Suc n)
  have h: "unat (head_ptr (fg_queue s)) < 1024" using Suc.prems(2) by (simp add: con_queue_ok_def ring_inv_def)
  obtain t where t: "put_queue_fg (um b) s = Some t" "con_queue_ok t" "ring_list (fg_queue t) = ring_list (fg_queue s) @ [um b]"
    "head_ptr (fg_queue t) = (head_ptr (fg_queue s) + 1) AND 1023" "tail_ptr (fg_queue t) = tail_ptr (fg_queue s)" "con_ok t"
    using Suc.prems by (rule_tac put_queue_fg_room [of s "um b"]) auto
  have k: "fg_win t = fg_win s" "video_ram t = video_ram s"
    using t(1) by (auto simp: put_queue_fg_def fg_win_def dest!: bind_SomeD)
  have p: "unat (head_ptr (fg_queue t)) = unat (head_ptr (fg_queue s)) + 1"
    using unat_succ_ptr [OF h] Suc.prems(4) t(4) by simp
  moreover have "ring_len (fg_queue t) = ring_len (fg_queue s) + 1" using arg_cong [OF t(3), of length] by simp
  ultimately obtain u where u: "put_chars n (b + 1) um t = Some u" "con_ok u" "con_queue_ok u"
    "ring_list (fg_queue u) = ring_list (fg_queue t) @ map (\<lambda>i. um (b + 1 + of_nat i)) [0..<n]"
    "unat (head_ptr (fg_queue u)) = unat (head_ptr (fg_queue t)) + n" "tail_ptr (fg_queue u) = tail_ptr (fg_queue t)"
    "fg_win u = fg_win t" "video_ram u = video_ram t"
    using Suc.IH [OF t(6,2), of "b + 1"] Suc.prems(3,4) by auto
  have "map (\<lambda>i. um (b + of_nat i)) [0..<Suc n] = um b # map (\<lambda>i. um (b + 1 + of_nat i)) [0..<n]"
    by (simp only: upt_conv_Cons [of 0 "Suc n"] map_Suc_upt [symmetric]) (simp add: comp_def algebra_simps)
  then show ?case using t u k p by (simp del: upt_Suc)
qed simp

lemma empty_ring:
  assumes "ring_inv q" and "ring_list q = []"
  shows "tail_ptr q = head_ptr q" and "ring_len q = 0"
proof -
  show l: "ring_len q = 0" using arg_cong [OF assms(2), of length] by simp
  have "unat (head_ptr q) < 1024" "unat (tail_ptr q) < 1024" using assms(1) by (simp_all add: ring_inv_def)
  with l have "unat (tail_ptr q) = unat (head_ptr q)"
    by (cases "unat (tail_ptr q) \<le> unat (head_ptr q)") (auto simp: ring_len_def mod_if split: if_splits)
  then show "tail_ptr q = head_ptr q" by (simp add: word_unat_eq_iff)
qed

lemma tty_write_row:
  fixes um b n
  defines "cs \<equiv> map (\<lambda>i. um (b + of_nat i)) [0..<n]"
  assumes "con_ok s" and "con_queue_ok s" and "ring_list (fg_queue s) = []" and "unat (head_ptr (fg_queue s)) + n < 1023"
    and "list_all printable cs" and "unat (cursor_x (fg_win s)) + n \<le> 80"
  shows "\<exists>s'. tty_write b (int n) um s = Some (int n, s') \<and> con_ok s' \<and> con_queue_ok s'
    \<and> ring_list (fg_queue s') = [] \<and> shows_text cs s s' \<and> cursor_x (fg_win s') = 0"
proof -
  note e = empty_ring [OF conjunct2 [OF assms(3) [unfolded con_queue_ok_def]] assms(4)]
  obtain t where t: "put_chars n b um s = Some t" "con_ok t" "con_queue_ok t" "ring_list (fg_queue t) = cs"
    "unat (head_ptr (fg_queue t)) = unat (head_ptr (fg_queue s)) + n" "tail_ptr (fg_queue t) = head_ptr (fg_queue s)"
    "fg_win t = fg_win s" "video_ram t = video_ram s"
    using put_chars_room [OF assms(2,3), of n b um] assms(4,5) e unfolding cs_def by auto
  have l: "length cs = n" by (simp add: cs_def)
  have "ring_len (fg_queue t) = n" using arg_cong [OF t(4), of length] l by simp
  then obtain u where u: "put_queue_fg LF_NL t = Some u" "con_queue_ok u" "ring_list (fg_queue u) = cs @ [LF_NL]"
    "head_ptr (fg_queue u) = (head_ptr (fg_queue t) + 1) AND 1023" "tail_ptr (fg_queue u) = tail_ptr (fg_queue t)" "con_ok u"
    using assms(5) t(2-4) by (rule_tac put_queue_fg_room [of t LF_NL]) auto
  have k: "fg_win u = fg_win s" "video_ram u = video_ram s"
    using u(1) t(7,8) by (auto simp: put_queue_fg_def fg_win_def dest!: bind_SomeD)
  have h: "unat (head_ptr (fg_queue u)) = unat (tail_ptr (fg_queue u)) + Suc n"
    using unat_succ_ptr [of "head_ptr (fg_queue t)"] t(5,6) u(4,5) assms(5) by simp
  obtain v where v: "con_loop (Suc n) ESnormal u = Some v" "con_ok v" "con_queue_ok v" "ring_list (fg_queue v) = []"
    "shows_text cs u v" "cursor_x (fg_win v) = 0"
    using con_loop_row [OF u(6,2,3) assms(6)] assms(7) l k(1) by auto
  from con_set_cursor_fg [OF v(2)] obtain out where o: "con_set_cursor (fg_console v) v = Some (v\<lparr>port_out := out\<rparr>)" by auto
  have "nat (sint (head_ptr (fg_queue u) - tail_ptr (fg_queue u))) = Suc n"
    using h u(2) by (simp add: sint_diff_small con_queue_ok_def ring_inv_def)
  then have "con_write u = Some (v\<lparr>port_out := out\<rparr>)"
    using u(2) v(1) o by (simp add: con_write_def con_queue_ok_def fg_queue_def Let_def del: con_loop.simps)
  then have "tty_write b (int n) um s = Some (int n, v\<lparr>port_out := out\<rparr>)" using t(1) u(1) by (simp add: tty_write_def)
  moreover have "con_ok (v\<lparr>port_out := out\<rparr>)" "con_queue_ok (v\<lparr>port_out := out\<rparr>)" "ring_list (fg_queue (v\<lparr>port_out := out\<rparr>)) = []"
    "cursor_x (fg_win (v\<lparr>port_out := out\<rparr>)) = 0"
    using v by (simp_all add: con_inv_defs con_queue_ok_def fg_queue_def)
  moreover have "shows_text cs s (v\<lparr>port_out := out\<rparr>)" using v(5) unfolding shows_text_def k by simp
  ultimately show ?thesis by blast
qed


lemma get_chars_queue:
  assumes "con_ok s" and "con_queue_ok s" and "ring_list (fg_queue s) = cs @ ds" and "unat b + length cs < 2 ^ 32"
  shows "\<exists>um' s'. get_chars (length cs) b um s = Some (um', s') \<and> con_queue_ok s' \<and> ring_list (fg_queue s') = ds
    \<and> um' = put_ram b cs um \<and> video_ram s' = video_ram s \<and> vc_windows s' = vc_windows s"
  using assms
proof (induction cs arbitrary: b um s)
  case (Cons c cs)
  from read_char_fg_ok [of s c "cs @ ds"] Cons.prems obtain t where t: "read_char_fg s = Some (c, t)" "con_ok t" "con_queue_ok t"
    "ring_list (fg_queue t) = cs @ ds" by auto
  have k: "video_ram t = video_ram s" "vc_windows t = vc_windows s" using t(1) by (auto simp: read_char_fg_def dest!: bind_SomeD)
  have "unat (b + 1) = unat b + 1" using Cons.prems(4) by (simp add: unat_add1_u32)
  then show ?case using Cons.IH [OF t(2-4), of "b + 1" "um(b := c)"] t(1) k Cons.prems(4) by (auto simp: fun_upd_def)
qed auto

subsection \<open>Properties\<close>

text \<open>
  C38. A line that a task writes to an idle terminal and that fits in the row of the cursor appears
  there: from the cursor on each cell holds a character of the line with the attribute of
  the window, no other cell of video memory changes, the queue is empty again and the
  cursor is at the start of a row. The condition on \<open>head_ptr\<close> says that the line does not
  reach the end of the ring, where \<open>con_write\<close> would show nothing.
\<close>

theorem tty_write_shows_line:
  assumes "con_ok s" and "con_queue_ok s" and "ring_list (fg_queue s) = []" and "unat (head_ptr (fg_queue s)) + n < 1023"
    and "list_all printable (map (\<lambda>i. um (b + of_nat i)) [0..<n])" and "unat (cursor_x (fg_win s)) + n \<le> 80"
  shows "\<exists>s'. tty_write b (int n) um s = Some (int n, s') \<and> con_ok s' \<and> con_queue_ok s' \<and> ring_list (fg_queue s') = []
    \<and> shows_text (map (\<lambda>i. um (b + of_nat i)) [0..<n]) s s' \<and> cursor_x (fg_win s') = 0"
  using assms by (rule tty_write_row)

text \<open>
  \<open>printf\<close> shows the formatted text at the cursor and returns its length, under the same
  conditions.
\<close>

theorem printf_shows_text:
  assumes "vsprintf str_at uninit fmt args = Some out" and "list_all printable out" and "unat pbuf + 1024 < 2 ^ 32"
    and "con_ok s" and "con_queue_ok s" and "ring_list (fg_queue s) = []" and "unat (head_ptr (fg_queue s)) + length out < 1023"
    and "unat (cursor_x (fg_win s)) + length out \<le> 80"
  shows "\<exists>um' s'. printf str_at uninit pbuf fmt args um s = Some (int (length out), um', s') \<and> con_ok s' \<and> con_queue_ok s'
    \<and> ring_list (fg_queue s') = [] \<and> shows_text out s s' \<and> cursor_x (fg_win s') = 0"
proof -
  let ?um = "put_ram pbuf (out @ [0]) um"
  have "map (\<lambda>i. ?um (pbuf + of_nat i)) [0..<length out] = out"
    using assms(3,7) by (intro nth_equalityI) (auto simp: put_ram_read nth_append)
  with tty_write_row [OF assms(4-7), of ?um pbuf] assms(2,8) obtain s' where
    s: "tty_write pbuf (int (length out)) ?um s = Some (int (length out), s')" "con_ok s'" "con_queue_ok s'"
      "ring_list (fg_queue s') = []" "shows_text out s s'" "cursor_x (fg_win s') = 0" by auto
  have "printf str_at uninit pbuf fmt args um s = Some (int (length out), ?um, s')"
    using assms(1,8) s(1) by (simp add: printf_def Let_def)
  with s(2-) show ?thesis by blast
qed

text \<open>
  \<open>tty_read\<close> takes the first \<open>nr\<close> characters of the queue in order into the memory of the task
  and leaves the rest; the screen does not change.
\<close>

theorem tty_read_takes_queue:
  assumes "con_ok s" and "con_queue_ok s" and "ring_list (fg_queue s) = cs @ ds" and "unat b + length cs < 2 ^ 32"
  shows "\<exists>s'. tty_read b (int (length cs)) um s = Some (int (length cs), put_ram b cs um, s')
    \<and> ring_list (fg_queue s') = ds \<and> video_ram s' = video_ram s \<and> vc_windows s' = vc_windows s"
  using get_chars_queue [OF assms, of um] by (auto simp: tty_read_def)

text \<open>\<open>tty_init\<close> empties the queues of all terminals and keeps everything else.\<close>

theorem tty_init_empties:
  assumes "length (con_table s) = NR_TTY"
  shows "tty_init s = Some (s\<lparr>con_table := map (\<lambda>t. t\<lparr>queue := (queue t)\<lparr>tail_ptr := 0, head_ptr := 0\<rparr>\<rparr>) (con_table s)\<rparr>)"
proof -
  obtain a b c d where "con_table s = [a, b, c, d]" using assms by (auto simp: length_Suc_conv numeral_eq_Suc)
  then show ?thesis by (simp add: tty_init_def numeral_eq_Suc cell_def put_cell_def)
qed

subsection \<open>Witnesses\<close>

theorem tty_write_shows_line_witness:
  "\<exists>s'. tty_write 0x100 (int 2) (\<lambda>_. 65) (sample_console 3 0 0) = Some (2, s')
    \<and> video_ram s' 0xb8006 = char_cell 65 7 \<and> video_ram s' 0xb8008 = char_cell 65 7 \<and> video_ram s' 0xb800a = 0"
proof -
  let ?s = "sample_console 3 0 0"
  have "\<exists>s'. tty_write 0x100 (int 2) (\<lambda>_. 65) ?s = Some (int 2, s') \<and> con_ok s' \<and> con_queue_ok s' \<and> ring_list (fg_queue s') = []
    \<and> shows_text (map (\<lambda>i. 65) [0..<2]) ?s s' \<and> cursor_x (fg_win s') = 0"
    by (rule tty_write_shows_line)
      (simp_all add: sample_console_ok sample_console_queue, simp_all add: fg_queue_def fg_win_def sample_defs ring_list_def
        ring_len_def printable_def list_all_iff)
  then obtain s' where s: "tty_write 0x100 (int 2) (\<lambda>_. 65) ?s = Some (int 2, s')" "shows_text (map (\<lambda>i. 65) [0..<2]) ?s s'" by blast
  have e: "(\<exists>i < 2. P i) \<longleftrightarrow> P 0 \<or> P 1" for P :: "nat \<Rightarrow> bool" by (auto simp: less_2_cases_iff)
  have "video_ram s' a = (if a = 0xb8006 \<or> a = 0xb8008 then char_cell 65 7 else 0)" for a
    using s(2) by (auto simp: shows_text_def fg_win_def sample_defs e)
  with s(1) show ?thesis by auto
qed

theorem printf_shows_text_witness:
  "\<exists>um' s'. printf (\<lambda>_. []) 0 0x100 [65, 66] [] (\<lambda>_. 0) (sample_console 3 0 0) = Some (int (length [65 :: u8, 66]), um', s')
    \<and> con_ok s' \<and> con_queue_ok s' \<and> ring_list (fg_queue s') = [] \<and> shows_text [65, 66] (sample_console 3 0 0) s' \<and> cursor_x (fg_win s') = 0"
  by (rule printf_shows_text)
    (simp_all add: sample_console_ok sample_console_queue vsprintf_def vsprintf_loop.simps printable_def,
     simp_all add: fg_queue_def fg_win_def sample_defs ring_list_def ring_len_def)

theorem tty_read_takes_queue_witness:
  "\<exists>s'. tty_read 0x100 (int (length [65 :: u8])) (\<lambda>_. 0) (sample_console 3 12 10) = Some (int (length [65 :: u8]), put_ram 0x100 [65] (\<lambda>_. 0), s')
    \<and> ring_list (fg_queue s') = [65] \<and> video_ram s' = video_ram (sample_console 3 12 10) \<and> vc_windows s' = vc_windows (sample_console 3 12 10)"
proof (rule tty_read_takes_queue)
  have "[0..<2] = [0, 1 :: nat]" by (simp add: upt_rec)
  then show "ring_list (fg_queue (sample_console 3 12 10)) = [65] @ [65]"
    by (simp add: fg_queue_def sample_defs ring_list_def ring_len_def)
qed (simp_all add: sample_console_ok sample_console_queue)

theorem tty_init_empties_witness:
  "\<exists>s'. tty_init ((sample_console 0 5 3)\<lparr>con_table := replicate 4 (con_table (sample_console 0 5 3) ! 0)\<rparr>) = Some s'
    \<and> head_ptr (queue (con_table s' ! 3)) = 0"
  using tty_init_empties [of "(sample_console 0 5 3)\<lparr>con_table := replicate 4 (con_table (sample_console 0 5 3) ! 0)\<rparr>"] by simp

end
