(* ===== verification/System_Call.thy ===== *)
theory System_Call
  imports Execve Tty
begin

unbundle bit_operations_syntax

section \<open>System calls and interrupts\<close>

text \<open>
  Models kernel/system_call.s, the entries for the clock and for page faults of
  kernel/interrupt.s, and the macros of include/kernel/unistd.h. The kernel stack of a task
  lies in memory: entering the kernel pushes the registers of the task, a service finds its
  arguments there, and leaving pops them. The state \<open>machine\<close> joins the kernel with the
  console. Addresses of variables and functions are the parameter \<open>symbols\<close>. The value that a
  function without result leaves in \<open>eax\<close> is the parameter \<open>junk\<close>.

  Shown: a system call brings back all registers of the task with the result in \<open>eax\<close>; when a
  call or a tick asks for another task, the kernel later continues at an address that is the
  result or the interrupted task's \<open>eax\<close>; the result of \<open>execve\<close> is lost.
\<close>

subsection \<open>Numbers of the calls\<close>

abbreviation NR_sys_setup :: u32 where "NR_sys_setup \<equiv> 0"
abbreviation NR_sys_fork :: u32 where "NR_sys_fork \<equiv> 1"
abbreviation NR_sys_execve :: u32 where "NR_sys_execve \<equiv> 2"
abbreviation NR_sys_exit :: u32 where "NR_sys_exit \<equiv> 3"
abbreviation NR_sys_pause :: u32 where "NR_sys_pause \<equiv> 4"
abbreviation NR_sys_nice :: u32 where "NR_sys_nice \<equiv> 5"
abbreviation NR_sys_brk :: u32 where "NR_sys_brk \<equiv> 6"
abbreviation NR_sys_open :: u32 where "NR_sys_open \<equiv> 7"
abbreviation NR_sys_read :: u32 where "NR_sys_read \<equiv> 8"
abbreviation NR_sys_write :: u32 where "NR_sys_write \<equiv> 9"
abbreviation NR_sys_close :: u32 where "NR_sys_close \<equiv> 10"
abbreviation NR_sys_creat :: u32 where "NR_sys_creat \<equiv> 11"
abbreviation NR_sys_mkdir :: u32 where "NR_sys_mkdir \<equiv> 12"
abbreviation NR_sys_rmdir :: u32 where "NR_sys_rmdir \<equiv> 13"
abbreviation NR_sys_mount_root :: u32 where "NR_sys_mount_root \<equiv> 14"
abbreviation NR_sys_mount :: u32 where "NR_sys_mount \<equiv> 15"
abbreviation NR_sys_umount :: u32 where "NR_sys_umount \<equiv> 16"
abbreviation NR_sys_uselib :: u32 where "NR_sys_uselib \<equiv> 17"
abbreviation NR_sys_lseek :: u32 where "NR_sys_lseek \<equiv> 18"
abbreviation NR_sys_ttyread :: u32 where "NR_sys_ttyread \<equiv> 19"
abbreviation NR_sys_ttywrite :: u32 where "NR_sys_ttywrite \<equiv> 20"

subsection \<open>State\<close>

record machine =
  kern :: kernel
  scr :: console

record user_regs =
  u_eax :: u32
  u_ebx :: u32
  u_ecx :: u32
  u_edx :: u32
  u_fs :: u32
  u_es :: u32
  u_ds :: u32
  u_eip :: u32
  u_cs :: u32
  u_eflags :: u32
  u_esp :: u32
  u_ss :: u32

text \<open>The addresses of the variables \<open>current\<close> and \<open>task_table\<close> and of the function \<open>exit_switch\<close>;
  the registers at the jump to another task, when \<open>schedule\<close> is called by \<open>do_exit\<close> and when it is
  jumped to.\<close>

record symbols =
  current_addr :: u32
  task_table_addr :: u32
  exit_switch_addr :: u32
  at_exit :: thread_struct
  at_switch :: thread_struct

text \<open>How a run in the kernel ends: with a return to the program of the task, with a jump to an
  address in the kernel, or with the jump to another task, whose saved registers the processor
  then has.\<close>

datatype outcome = To_User user_regs | Jump u32 | Switched thread_struct

definition set_mem :: "ram \<Rightarrow> machine \<Rightarrow> machine" where
  "set_mem m s = s\<lparr>kern := (kern s)\<lparr>mem := m\<rparr>\<rparr>"

definition on_kern :: "(kernel \<Rightarrow> ('a \<times> kernel) option) \<Rightarrow> machine \<Rightarrow> ('a \<times> machine) option" where
  "on_kern f s = map_option (\<lambda>(r, k). (r, s\<lparr>kern := k\<rparr>)) (f (kern s))"

definition as_word :: "(kernel \<Rightarrow> (int \<times> kernel) option) \<Rightarrow> kernel \<Rightarrow> (u32 \<times> kernel) option" where
  "as_word f k = map_option (\<lambda>(r, k). (word_of_int r, k)) (f k)"

text \<open>A call of the file system that works on inodes only.\<close>

definition on_inodes :: "(umem \<Rightarrow> fs_state \<Rightarrow> (int \<times> fs_state) option) \<Rightarrow> vfs \<Rightarrow> (int \<times> vfs) option" where
  "on_inodes f v = map_option (\<lambda>(r, s). (r, v\<lparr>vfs.fs := s\<rparr>)) (f (user v) (vfs.fs v))"

subsection \<open>The stack\<close>

definition push :: "u32 \<Rightarrow> u32 \<times> ram \<Rightarrow> u32 \<times> ram" where
  "push v = (\<lambda>(e, m). (e - 4, wr32 (e - 4) v m))"

definition stack_at :: "ram \<Rightarrow> u32 \<Rightarrow> nat \<Rightarrow> u32" where
  "stack_at m e i = rd32 m (e + 4 * of_nat i)"

subsection \<open>Services\<close>

text \<open>\<open>sys_execve\<close> pushes the address of the saved instruction pointer as first argument, and
  after the call pops it into \<open>eax\<close>.\<close>

definition sys_execve :: "u32 \<Rightarrow> machine \<Rightarrow> (u32 \<times> machine) option" where
  "sys_execve e s = do {
     let a = stack_at (mem (kern s)) e;
     let (e', m) = push (e + 24) (e, mem (kern s));
     (_, s) \<leftarrow> on_kern (do_execve (e + 24) (a 0)) (set_mem m s);
     Some (rd32 (mem (kern s)) e', s) }"

definition sys_ttyread :: "u32 \<Rightarrow> machine \<Rightarrow> (u32 \<times> machine) option" where
  "sys_ttyread e s = do {
     let a = stack_at (mem (kern s)) e;
     (r, m, c) \<leftarrow> tty_read (a 0) (sint (a 1)) (mem (kern s)) (scr s);
     Some (word_of_int r, (set_mem m s)\<lparr>scr := c\<rparr>) }"

definition sys_ttywrite :: "u32 \<Rightarrow> machine \<Rightarrow> (u32 \<times> machine) option" where
  "sys_ttywrite e s = do {
     let a = stack_at (mem (kern s)) e;
     (r, c) \<leftarrow> tty_write (a 0) (sint (a 1)) (mem (kern s)) (scr s);
     Some (word_of_int r, s\<lparr>scr := c\<rparr>) }"

text \<open>\<open>do_exit\<close> gives control to another task unless \<open>schedule\<close> chooses the same one again: without
  a result the call has not returned.\<close>

definition sys_exit :: "symbols \<Rightarrow> machine \<Rightarrow> (u32 option \<times> machine) option" where
  "sys_exit sy s = do {
     (r, t) \<leftarrow> on_kern (as_word (do_exit (at_exit sy))) s;
     Some (if current (sch (kern t)) = current (sch (kern s)) then Some r else None, t) }"

text \<open>The comparisons of \<open>do_system_call\<close>; a number without a service falls through to the end
  with \<open>eax\<close> as it is, as \<open>sys_setup\<close> does.\<close>

definition sys_service :: "symbols \<Rightarrow> u32 \<Rightarrow> u32 \<Rightarrow> u32 \<Rightarrow> machine \<Rightarrow> (u32 \<times> machine) option" where
  "sys_service sy junk nr e s =
     (let a = stack_at (mem (kern s)) e in
      if nr = 1 then on_kern (do_fork (exit_switch_addr sy) (a 0) (a 1) (a 2) (a 6) (a 8)) s
      else if nr = 2 then sys_execve e s
      else if nr = 3 then do { (r, s) \<leftarrow> sys_exit sy s; r \<leftarrow> r; Some (r, s) }
      else if nr = 4 then on_kern (\<lambda>k. map_option (\<lambda>k. (junk, k)) (in_sched do_pause k)) s
      else if nr = 5 then on_kern (as_word (\<lambda>k. map_option (\<lambda>r. (r, k)) (do_nice (sint (a 0)) (sch k)))) s
      else if nr = 6 then on_kern (set_brk (a 0)) s
      else if nr = 7 then on_kern (as_word (with_buffer (do_open (unat (a 0)) (ucast (a 1)) (a 2)))) s
      else if nr = 8 then on_kern (as_word (with_buffer (do_read (unat (a 0)) (unat (a 1)) (a 2)))) s
      else if nr = 9 then on_kern (as_word (with_buffer (do_write (unat (a 0)) (unat (a 1)) (a 2)))) s
      else if nr = 10 then on_kern (as_word (with_files (do_close (unat (a 0))))) s
      else if nr = 11 then on_kern (as_word (with_buffer (do_create (unat (a 0)) (a 1)))) s
      else if nr = 12 then on_kern (as_word (with_buffer (on_inodes (\<lambda>um. do_mkdir um (unat (a 0)) (ucast (a 1)))))) s
      else if nr = 13 then on_kern (as_word (with_buffer (on_inodes (\<lambda>um. do_rmdir um (unat (a 0)))))) s
      else if nr = 14 then on_kern (as_word (with_files (on_inodes (\<lambda>um s. map_option (Pair 1) (do_mount_root s))))) s
      else if nr = 15 then Some (word_of_int do_mount, s)
      else if nr = 16 then Some (word_of_int do_umount, s)
      else if nr = 17 then Some (word_of_int (do_uselib (a 0)), s)
      else if nr = 18 then on_kern (as_word (with_files (do_lseek (unat (a 0)) (a 1) (a 2)))) s
      else if nr = 19 then sys_ttyread e s
      else if nr = 20 then sys_ttywrite e s
      else Some (nr, s))"

subsection \<open>Leaving the kernel\<close>

text \<open>\<open>schedule\<close> is jumped to, not called. When it chooses the running task it returns, and takes the
  top of the stack as address. Otherwise the processor goes on with the registers of the new
  task; where the old one goes on when it runs again is decided by the new one, which may set the
  instruction pointer that was saved (\<open>exit_switch\<close>).\<close>

definition jump_schedule :: "thread_struct \<Rightarrow> u32 \<Rightarrow> machine \<Rightarrow> (outcome \<times> machine) option" where
  "jump_schedule regs e s = do {
     k \<leftarrow> in_sched (schedule regs) (kern s);
     Some (if current (sch k) = current (sch (kern s)) then Jump (rd32 (mem k) e) else Switched (tss (cur_task k)),
       s\<lparr>kern := k\<rparr>) }"

definition pop_user :: "ram \<Rightarrow> u32 \<Rightarrow> user_regs" where
  "pop_user m e = \<lparr>u_eax = stack_at m e 0, u_ebx = stack_at m e 1, u_ecx = stack_at m e 2, u_edx = stack_at m e 3,
     u_fs = stack_at m e 4, u_es = stack_at m e 5, u_ds = stack_at m e 6, u_eip = stack_at m e 7, u_cs = stack_at m e 8,
     u_eflags = stack_at m e 9, u_esp = stack_at m e 10, u_ss = stack_at m e 11\<rparr>"

text \<open>The addresses of the two variables are compared, not their contents.\<close>

definition ret_from_sys_call :: "symbols \<Rightarrow> u32 \<Rightarrow> u32 \<Rightarrow> machine \<Rightarrow> (outcome \<times> machine) option" where
  "ret_from_sys_call sy r e s = do {
     let (e, m) = push r (e, mem (kern s));
     let s = set_mem m s;
     if task_table_addr sy \<noteq> current_addr sy \<and> (current_addr sy = 1 \<or> need_resched (sch (kern s)))
     then jump_schedule (at_switch sy) e s
     else Some (To_User (pop_user m e), s) }"

definition do_system_call :: "symbols \<Rightarrow> u32 \<Rightarrow> user_regs \<Rightarrow> u32 \<Rightarrow> machine \<Rightarrow> (outcome \<times> machine) option" where
  "do_system_call sy junk u e s = do {
     let (e, m) = fold push [u_ds u, u_es u, u_fs u, u_edx u, u_ecx u, u_ebx u] (e, mem (kern s));
     case (if u_eax u = 3 then sys_exit sy (set_mem m s) else None) of
       Some (None, t) \<Rightarrow> Some (Switched (tss (cur_task (kern t))), t)
     | _ \<Rightarrow> do {
         (r, s) \<leftarrow> sys_service sy junk (u_eax u) e (set_mem m s);
         ret_from_sys_call sy r e s } }"

text \<open>What the processor pushes on the kernel stack of the task before it enters the kernel.\<close>

definition enter_kernel :: "'a user_regs_scheme \<Rightarrow> machine \<Rightarrow> u32 \<times> ram" where
  "enter_kernel u s = fold push [u_ss u, u_esp u, u_eflags u, u_cs u, u_eip u] (esp0 (tss (cur_task (kern s))), mem (kern s))"

definition int80 :: "symbols \<Rightarrow> u32 \<Rightarrow> user_regs \<Rightarrow> machine \<Rightarrow> (outcome \<times> machine) option" where
  "int80 sy junk u s = (let (e, m) = enter_kernel u s in do_system_call sy junk u e (set_mem m s))"

subsection \<open>Calls from a task\<close>

definition syscall0 :: "u32 \<Rightarrow> user_regs \<Rightarrow> user_regs" where
  "syscall0 nr u = u\<lparr>u_eax := nr\<rparr>"

definition syscall1 :: "u32 \<Rightarrow> u32 \<Rightarrow> user_regs \<Rightarrow> user_regs" where
  "syscall1 nr a u = u\<lparr>u_eax := nr, u_ebx := a\<rparr>"

definition syscall2 :: "u32 \<Rightarrow> u32 \<Rightarrow> u32 \<Rightarrow> user_regs \<Rightarrow> user_regs" where
  "syscall2 nr a b u = u\<lparr>u_eax := nr, u_ebx := a, u_ecx := b\<rparr>"

definition syscall3 :: "u32 \<Rightarrow> u32 \<Rightarrow> u32 \<Rightarrow> u32 \<Rightarrow> user_regs \<Rightarrow> user_regs" where
  "syscall3 nr a b c u = u\<lparr>u_eax := nr, u_ebx := a, u_ecx := b, u_edx := c\<rparr>"

subsection \<open>Interrupts\<close>

text \<open>\<open>call\<close> gives what the functions of expired timers do.\<close>

definition timer_interrupt :: "(u32 \<Rightarrow> sched \<Rightarrow> sched option) \<Rightarrow> symbols \<Rightarrow> user_regs \<Rightarrow> machine \<Rightarrow> (outcome \<times> machine) option" where
  "timer_interrupt call sy u s = do {
     let (e, m) = enter_kernel u s;
     let (e, m) = fold push [u_ds u, u_es u, u_fs u, u_edx u, u_ecx u, u_ebx u, u_eax u] (e, m);
     let k = (kern s)\<lparr>mem := m, jiffies := jiffies (kern s) + 1\<rparr>;
     (_, t) \<leftarrow> scheduler_tick call (sch k);
     let s = s\<lparr>kern := k\<lparr>sch := t\<rparr>\<rparr>;
     if need_resched t then jump_schedule (at_switch sy) e s else Some (To_User (pop_user m e), s) }"

text \<open>The processor has pushed the error code last; \<open>cr2\<close> holds the address. The registers are
  saved around the call.\<close>

definition page_fault :: "u32 \<Rightarrow> u32 \<Rightarrow> user_regs \<Rightarrow> machine \<Rightarrow> (outcome \<times> machine) option" where
  "page_fault error_code cr2 u s = do {
     let (e, m) = enter_kernel u s;
     let (e, m) = fold push [u_eax u, u_ecx u, u_edx u, u_ds u, u_es u, u_fs u, cr2, error_code] (e, m);
     k \<leftarrow> do_page_fault error_code cr2 ((kern s)\<lparr>mem := m\<rparr>);
     let a = stack_at (mem k) e;
     Some (To_User (u\<lparr>u_fs := a 2, u_es := a 3, u_ds := a 4, u_edx := a 5, u_ecx := a 6, u_eax := a 7,
       u_eip := a 8, u_cs := a 9, u_eflags := a 10, u_esp := a 11, u_ss := a 12\<rparr>), s\<lparr>kern := k\<rparr>) }"


subsection \<open>The stack as a list\<close>

lemma push_stack:
  assumes "4 dvd unat e" and "4 \<le> unat e" and "push v (e, m) = (e', m')"
  shows "stack_at m' e' 0 = v" and "unat e + 4 * j < 2 ^ 32 \<Longrightarrow> stack_at m' e' (Suc j) = stack_at m e j"
    and "unat e' = unat e - 4" and "4 dvd unat e'"
proof -
  have p: "e' = e - 4" "m' = wr32 (e - 4) v m" using assms(3) by (auto simp: push_def)
  then show "stack_at m' e' 0 = v" by (simp add: stack_at_def)
  show u: "unat e' = unat e - 4" using assms(2) p(1) by (simp add: unat_sub word_le_nat_alt)
  then show a: "4 dvd unat e'" using assms(1,2) by (simp add: dvd_diff_nat)
  assume j: "unat e + 4 * j < 2 ^ 32"
  then have b: "unat (e + 4 * of_nat j) = unat e + 4 * j" by (simp add: unat_word_ariths unat_of_nat)
  then have "4 dvd unat (e + 4 * of_nat j)" using assms(1) by simp
  moreover have "e' \<noteq> e + 4 * of_nat j" using b u assms(2) by (metis add_leD1 diff_less le_add1 less_le_trans not_less zero_less_numeral)
  ultimately have "rd32 m' (e + 4 * of_nat j) = rd32 m (e + 4 * of_nat j)"
    using rd32_wr32_other [OF a] unfolding p by simp
  then show "stack_at m' e' (Suc j) = stack_at m e j" by (simp add: stack_at_def p(1) algebra_simps)
qed

lemma fold_push:
  assumes "4 dvd unat e" and "4 * length vs \<le> unat e" and "fold push vs (e, m) = (e', m')"
  shows "unat e' = unat e - 4 * length vs \<and> 4 dvd unat e' \<and> (\<forall>i < length vs. stack_at m' e' i = rev vs ! i)"
  using assms(2,3)
proof (induction vs arbitrary: e' m' rule: rev_induct)
  case (snoc v vs)
  obtain f n where f: "fold push vs (e, m) = (f, n)" by fastforce
  then have p: "push v (f, n) = (e', m')" using snoc.prems by simp
  have IH: "unat f = unat e - 4 * length vs" "4 dvd unat f" "\<forall>i < length vs. stack_at n f i = rev vs ! i"
    using snoc.IH [OF _ f] snoc.prems(1) by auto
  have f4: "4 \<le> unat f" using snoc.prems(1) IH(1) by simp
  note s = push_stack [OF IH(2) f4 p]
  have "stack_at m' e' i = rev (vs @ [v]) ! i" if "i < length (vs @ [v])" for i
  proof (cases i)
    case (Suc j)
    then have "unat f + 4 * j < 2 ^ 32" using that snoc.prems(1) IH(1) unat_u32_bound [of e] by simp
    then show ?thesis using s(2) IH(3) Suc that by simp
  qed (simp add: s(1))
  then show ?case using s(3,4) IH(1) by simp
qed (use assms(1) in simp)

text \<open>The registers that lie on the stack after a task has entered the kernel, and the stack
  pointer then.\<close>

definition saved :: "user_regs \<Rightarrow> u32 list" where
  "saved u = [u_ebx u, u_ecx u, u_edx u, u_fs u, u_es u, u_ds u, u_eip u, u_cs u, u_eflags u, u_esp u, u_ss u]"

definition kernel_stack :: "machine \<Rightarrow> bool" where
  "kernel_stack s \<longleftrightarrow> 4 dvd unat (esp0 (tss (cur_task (kern s)))) \<and> 64 \<le> unat (esp0 (tss (cur_task (kern s))))"

definition entry_sp :: "machine \<Rightarrow> u32" where
  "entry_sp s = esp0 (tss (cur_task (kern s))) - 44"

definition entry_mem :: "user_regs \<Rightarrow> machine \<Rightarrow> ram" where
  "entry_mem u s = snd (fold push (rev (saved u)) (esp0 (tss (cur_task (kern s))), mem (kern s)))"

lemma entered:
  assumes "kernel_stack s"
  shows "sys_service sy junk (u_eax u) (entry_sp s) (set_mem (entry_mem u s) s) = Some (r, t) \<Longrightarrow>
      int80 sy junk u s = ret_from_sys_call sy r (entry_sp s) t"
    and "\<forall>i < 11. stack_at (entry_mem u s) (entry_sp s) i = saved u ! i"
    and "4 dvd unat (entry_sp s)" and "20 \<le> unat (entry_sp s)" and "unat (entry_sp s) + 44 < 2 ^ 32"
proof -
  let ?e = "esp0 (tss (cur_task (kern s)))"
  let ?vs = "[u_ss u, u_esp u, u_eflags u, u_cs u, u_eip u] @ [u_ds u, u_es u, u_fs u, u_edx u, u_ecx u, u_ebx u]"
  obtain e m where f: "fold push ?vs (?e, mem (kern s)) = (e, m)" by fastforce
  have k: "4 dvd unat ?e" "64 \<le> unat ?e" using assms by (simp_all add: kernel_stack_def)
  have F: "unat e = unat ?e - 4 * length ?vs \<and> 4 dvd unat e \<and> (\<forall>i < length ?vs. stack_at m e i = rev ?vs ! i)"
    by (rule fold_push [OF k(1) _ f]) (use k(2) in simp)
  then have e: "unat e = unat ?e - 44" "4 dvd unat e" by (simp, blast)
  have e': "\<forall>i < 11. stack_at m e i = saved u ! i" using F by (simp add: saved_def)
  have "unat (entry_sp s) = unat ?e - 44" using k(2) by (simp add: entry_sp_def unat_sub word_le_nat_alt)
  then have es: "entry_sp s = e" using e(1) by (simp add: word_unat_eq_iff)
  obtain f' n where g: "enter_kernel u s = (f', n)" by fastforce
  then have "fold push [u_ds u, u_es u, u_fs u, u_edx u, u_ecx u, u_ebx u] (f', n) = (e, m)"
    using f unfolding enter_kernel_def fold_append by simp
  then have "int80 sy junk u s = ret_from_sys_call sy r e t" if "sys_service sy junk (u_eax u) e (set_mem m s) = Some (r, t)"
    using g that
    by (auto simp: int80_def do_system_call_def set_mem_def sys_service_def split: option.split dest!: bind_SomeD)
  moreover have "entry_mem u s = m" using f by (simp add: entry_mem_def saved_def)
  moreover have "20 \<le> unat e" "unat e + 44 < 2 ^ 32" using e(1) k(2) unat_u32_bound [of ?e] by simp_all
  ultimately show "sys_service sy junk (u_eax u) (entry_sp s) (set_mem (entry_mem u s) s) = Some (r, t) \<Longrightarrow>
      int80 sy junk u s = ret_from_sys_call sy r (entry_sp s) t"
    and "\<forall>i < 11. stack_at (entry_mem u s) (entry_sp s) i = saved u ! i"
    and "4 dvd unat (entry_sp s)" and "20 \<le> unat (entry_sp s)" and "unat (entry_sp s) + 44 < 2 ^ 32"
    using e(2) e' unfolding es by simp_all
qed

text \<open>Where a run ends that jumps to \<open>schedule\<close> with \<open>r\<close> on top of the stack.\<close>

definition rescheduled :: "u32 \<Rightarrow> sched \<Rightarrow> sched \<Rightarrow> outcome" where
  "rescheduled r s z = (if current z = current s then Jump r else Switched (tss (tasks z (current z))))"

lemma ret_resched:
  assumes "4 dvd unat e" and "4 \<le> unat e" and "task_table_addr sy \<noteq> current_addr sy" and "need_resched (sch (kern t))"
    and "schedule (at_switch sy) (sch (kern t)) = Some z"
  shows "\<exists>t'. ret_from_sys_call sy r e t = Some (rescheduled r (sch (kern t)) z, t') \<and> sch (kern t') = z
    \<and> rd32 (mem (kern t')) (e - 4) = r"
proof -
  obtain e' m' where p: "push r (e, mem (kern t)) = (e', m')" by fastforce
  then have "rd32 m' (e - 4) = r" "e' = e - 4" using push_stack(1) [OF assms(1,2) p] by (auto simp: stack_at_def push_def)
  then show ?thesis using assms(3-5) p
    by (simp add: ret_from_sys_call_def jump_schedule_def in_sched_def set_mem_def rescheduled_def cur_task_def)
qed

lemma ret_plain:
  assumes "4 dvd unat e" and "4 \<le> unat e" and "unat e + 44 < 2 ^ 32" and "current_addr sy \<noteq> 1"
    and "\<not> need_resched (sch (kern t))" and "\<forall>i < 11. stack_at (mem (kern t)) e i = saved u ! i"
  shows "\<exists>m. ret_from_sys_call sy r e t = Some (To_User (u\<lparr>u_eax := r\<rparr>), set_mem m t)"
proof -
  obtain e' m' where p: "push r (e, mem (kern t)) = (e', m')" by fastforce
  note q = push_stack [OF assms(1,2) p]
  have "stack_at m' e' i = (r # saved u) ! i" if "i < 12" for i
    using q(1) q(2) [of "i - 1"] that assms(3,6) by (cases i) auto
  from this [of 0] this [of 1] this [of 2] this [of 3] this [of 4] this [of 5] this [of 6] this [of 7] this [of 8] this [of 9] this [of 10]
    this [of 11]
  have "pop_user m' e' = u\<lparr>u_eax := r\<rparr>" by (simp add: pop_user_def saved_def)
  then show ?thesis using assms(4,5) p by (auto simp: ret_from_sys_call_def set_mem_def)
qed

lemma saved_args:
  assumes "kernel_stack s"
  shows "stack_at (mem (kern (set_mem (entry_mem u s) s))) (entry_sp s) 0 = u_ebx u"
    "stack_at (mem (kern (set_mem (entry_mem u s) s))) (entry_sp s) 1 = u_ecx u"
    "stack_at (mem (kern (set_mem (entry_mem u s) s))) (entry_sp s) 2 = u_edx u"
    "stack_at (mem (kern (set_mem (entry_mem u s) s))) (entry_sp s) 6 = u_eip u"
    "stack_at (mem (kern (set_mem (entry_mem u s) s))) (entry_sp s) 8 = u_eflags u"
  using entered(2) [OF assms, of u] by (simp_all add: set_mem_def saved_def)

lemma rq_ops_resched:
  "upd_task p f s = Some s' \<Longrightarrow> need_resched s' = need_resched s"
  "upd_rq q g s = Some s' \<Longrightarrow> need_resched s' = need_resched s"
  "upd_head q i k s = Some s' \<Longrightarrow> need_resched s' = need_resched s"
  "set_bitmap q i b s = Some s' \<Longrightarrow> need_resched s' = need_resched s"
  by (auto simp: rq_access split: if_splits Option.bind_splits)

lemma enqueue_resched: "enqueue_task p q s = Some s' \<Longrightarrow> need_resched s' = need_resched s"
  by (auto simp: enqueue_task_def Let_def split: if_splits Option.bind_splits dest!: rq_ops_resched)

lemma sched_fork_resched: "sched_fork p s = Some s' \<Longrightarrow> need_resched s'"
  by (auto simp: sched_fork_def activate_task_def activate_on_def split: Option.bind_splits dest!: rq_ops_resched enqueue_resched)

lemma do_fork_resched:
  assumes "do_fork sw b c d ip fl k = Some (n, k')" and "n \<noteq> 0"
  shows "need_resched (sch k')"
proof -
  have "need_resched (sch k2)" if "in_sched (sched_fork p) k1 = Some k2" for p k1 k2
    using that sched_fork_resched by (auto simp: in_sched_def split: Option.bind_splits)
  then show ?thesis
    using assms
    by (auto simp: do_fork_def bad_fork_free_def Let_def split: option.splits if_splits dest!: bind_SomeD)
qed

subsection \<open>Properties\<close>

text \<open>
  C13. A system call whose service leaves the saved registers on the stack alone and asks for no
  other task returns to the task with all its registers as they were, but for \<open>eax\<close>, which
  holds the result. The kernel state is that of the service, apart from the stack.
\<close>

theorem syscall_returns:
  assumes "kernel_stack s" and "current_addr sy \<noteq> 1"
    and "sys_service sy junk (u_eax u) (entry_sp s) (set_mem (entry_mem u s) s) = Some (r, t)"
    and "\<forall>i < 11. stack_at (mem (kern t)) (entry_sp s) i = saved u ! i" and "\<not> need_resched (sch (kern t))"
  shows "\<exists>m. int80 sy junk u s = Some (To_User (u\<lparr>u_eax := r\<rparr>), set_mem m t)"
  using ret_plain [OF entered(3) [OF assms(1)] _ entered(5) [OF assms(1)] assms(2,5,4), of r] entered(4) [OF assms(1)]
  by (simp add: entered(1) [OF assms(1,3)])

text \<open>
  A successful \<open>fork\<close> does not return to the parent: it asks for another task, and \<open>schedule\<close> is
  jumped to with the number of the child in the place of the return address.
\<close>

lemma fork_jumps_to_child_number:
  assumes "kernel_stack s" and "task_table_addr sy \<noteq> current_addr sy" and "u_eax u = NR_sys_fork"
    and "do_fork (exit_switch_addr sy) (u_ebx u) (u_ecx u) (u_edx u) (u_eip u) (u_eflags u) ((kern s)\<lparr>mem := entry_mem u s\<rparr>)
      = Some (n, k)" and "n \<noteq> 0" and "schedule (at_switch sy) (sch k) = Some z"
  shows "\<exists>t. int80 sy junk u s = Some (rescheduled n (sch k) z, t) \<and> sch (kern t) = z \<and> rd32 (mem (kern t)) (entry_sp s - 4) = n"
proof -
  have "sys_service sy junk (u_eax u) (entry_sp s) (set_mem (entry_mem u s) s) = Some (n, (set_mem (entry_mem u s) s)\<lparr>kern := k\<rparr>)"
    unfolding sys_service_def Let_def saved_args [OF assms(1)] by (simp add: assms(3,4) on_kern_def set_mem_def)
  note run = entered(1) [OF assms(1) this]
  show ?thesis
    using ret_resched [OF entered(3) [OF assms(1)] _ assms(2), of "(set_mem (entry_mem u s) s)\<lparr>kern := k\<rparr>" z n]
      do_fork_resched [OF assms(4,5)] entered(4) [OF assms(1)] assms(6)
    by (simp add: run)
qed

text \<open>
  The task never sees the result of \<open>execve\<close>: also when the call fails, \<open>eax\<close> holds the address
  of the saved instruction pointer on the kernel stack.
\<close>

lemma execve_result_lost:
  assumes "kernel_stack s" and "current_addr sy \<noteq> 1" and "u_eax u = NR_sys_execve"
    and "push (entry_sp s + 24) (entry_sp s, entry_mem u s) = (e', m)"
    and "do_execve (entry_sp s + 24) (u_ebx u) ((kern s)\<lparr>mem := m\<rparr>) = Some (- 1, k)"
    and "\<forall>i < 12. stack_at (mem k) e' i = stack_at m e' i" and "\<not> need_resched (sch k)"
  shows "\<exists>t. int80 sy junk u s = Some (To_User (u\<lparr>u_eax := esp0 (tss (cur_task (kern s))) - 20\<rparr>), t)"
proof -
  note e = entered [OF assms(1)]
  have e4: "4 \<le> unat (entry_sp s)" using e(4) by simp
  note p = push_stack [OF e(3) e4 assms(4)]
  have "stack_at m e' (Suc i) = saved u ! i" if "i < 11" for i using p(2) [of i] that e(2,5) by simp
  then have "stack_at (mem k) e' (Suc i) = saved u ! i" if "i < 11" for i using that assms(6) by simp
  moreover have sp: "e' = entry_sp s - 4" using assms(4) by (simp add: push_def)
  have "stack_at (mem k) e' (Suc i) = stack_at (mem k) (entry_sp s) i" for i
    unfolding stack_at_def sp by (simp add: algebra_simps)
  ultimately have st: "\<forall>i < 11. stack_at (mem k) (entry_sp s) i = saved u ! i" by simp
  have r: "rd32 (mem k) e' = entry_sp s + 24" using assms(6) p(1) by (auto simp: stack_at_def dest: spec [of _ 0])
  have "entry_sp s + 24 = esp0 (tss (cur_task (kern s))) - 20" by (simp add: entry_sp_def)
  then have "sys_service sy junk (u_eax u) (entry_sp s) (set_mem (entry_mem u s) s)
      = Some (esp0 (tss (cur_task (kern s))) - 20, s\<lparr>kern := k\<rparr>)"
    using assms(3-5) r saved_args(1) [OF assms(1), of u] by (simp add: sys_service_def sys_execve_def on_kern_def set_mem_def Let_def)
  moreover obtain m' where "ret_from_sys_call sy (esp0 (tss (cur_task (kern s))) - 20) (entry_sp s) (s\<lparr>kern := k\<rparr>)
      = Some (To_User (u\<lparr>u_eax := esp0 (tss (cur_task (kern s))) - 20\<rparr>), set_mem m' (s\<lparr>kern := k\<rparr>))"
    using ret_plain [OF e(3) e4 e(5) assms(2), of "s\<lparr>kern := k\<rparr>" u] assms(7) st by auto
  ultimately show ?thesis using e(1) by simp
qed


text \<open>
  C14. A service that asks for another task, for example to pause or to create a process, does not
  lead back to the program: \<open>schedule\<close> is jumped to with the result of the service in the place of
  its return address. When it chooses the same task it returns to the address that is the result;
  otherwise the run ends with the jump to the new task, whose saved registers the processor takes.
\<close>

theorem resched_jumps_to_result:
  assumes "kernel_stack s" and "task_table_addr sy \<noteq> current_addr sy"
    and "sys_service sy junk (u_eax u) (entry_sp s) (set_mem (entry_mem u s) s) = Some (r, t)"
    and "need_resched (sch (kern t))" and "schedule (at_switch sy) (sch (kern t)) = Some z"
  shows "\<exists>t'. int80 sy junk u s = Some (if current z = current (sch (kern t)) then Jump r else Switched (tss (tasks z (current z))), t')
    \<and> sch (kern t') = z \<and> rd32 (mem (kern t')) (entry_sp s - 4) = r"
  using ret_resched [OF entered(3) [OF assms(1)] _ assms(2,4,5), of r] entered(4) [OF assms(1)]
  by (simp add: entered(1) [OF assms(1,3)] rescheduled_def)

lemma timer_stack:
  assumes "kernel_stack s"
  obtains e m where "timer_interrupt call sy u s = do {
      (_, t) \<leftarrow> scheduler_tick call (sch (kern s));
      let s = s\<lparr>kern := (kern s)\<lparr>mem := m, jiffies := jiffies (kern s) + 1, sch := t\<rparr>\<rparr>;
      if need_resched t then jump_schedule (at_switch sy) e s else Some (To_User (pop_user m e), s) }"
    and "\<forall>i < 12. stack_at m e i = (u_eax u # saved u) ! i" and "e = entry_sp s - 4"
proof -
  let ?e = "esp0 (tss (cur_task (kern s)))"
  let ?vs = "[u_ss u, u_esp u, u_eflags u, u_cs u, u_eip u] @ [u_ds u, u_es u, u_fs u, u_edx u, u_ecx u, u_ebx u, u_eax u]"
  obtain e m where f: "fold push ?vs (?e, mem (kern s)) = (e, m)" by fastforce
  have k: "4 dvd unat ?e" "64 \<le> unat ?e" using assms by (simp_all add: kernel_stack_def)
  have F: "unat e = unat ?e - 4 * length ?vs \<and> 4 dvd unat e \<and> (\<forall>i < length ?vs. stack_at m e i = rev ?vs ! i)"
    by (rule fold_push [OF k(1) _ f]) (use k(2) in simp)
  then have "unat e = unat ?e - 48" by simp
  moreover have "unat (?e - 48) = unat ?e - 48" using k(2) by (simp add: unat_sub word_le_nat_alt)
  ultimately have "e = entry_sp s - 4" by (simp add: word_unat_eq_iff entry_sp_def)
  moreover from F have "\<forall>i < 12. stack_at m e i = (u_eax u # saved u) ! i" by (simp add: saved_def)
  moreover obtain f' n where g: "enter_kernel u s = (f', n)" by fastforce
  then have "fold push [u_ds u, u_es u, u_fs u, u_edx u, u_ecx u, u_ebx u, u_eax u] (f', n) = (e, m)"
    using f unfolding enter_kernel_def fold_append by simp
  ultimately show thesis using that g by (simp add: timer_interrupt_def Let_def)
qed

text \<open>
  C15. A clock tick that asks for no other task gives the interrupted task all its registers back
  and counts. After a tick that does, \<open>schedule\<close> is jumped to with the \<open>eax\<close> of the task in the
  place of the return address: it returns to that address when it chooses the same task, and
  otherwise the processor takes the saved registers of the new one.
\<close>

theorem tick_returns_or_jumps:
  assumes "kernel_stack s" and "scheduler_tick call (sch (kern s)) = Some (fired, t)"
  shows "(\<not> need_resched t \<longrightarrow> (\<exists>s'. timer_interrupt call sy u s = Some (To_User u, s')
        \<and> sch (kern s') = t \<and> jiffies (kern s') = jiffies (kern s) + 1))
    \<and> (need_resched t \<and> schedule (at_switch sy) t = Some z \<longrightarrow> (\<exists>s'. timer_interrupt call sy u s
          = Some (if current z = current t then Jump (u_eax u) else Switched (tss (tasks z (current z))), s')
        \<and> sch (kern s') = z \<and> jiffies (kern s') = jiffies (kern s) + 1 \<and> rd32 (mem (kern s')) (entry_sp s - 4) = u_eax u))"
proof -
  obtain e m where T: "timer_interrupt call sy u s = do {
      (_, t) \<leftarrow> scheduler_tick call (sch (kern s));
      let s = s\<lparr>kern := (kern s)\<lparr>mem := m, jiffies := jiffies (kern s) + 1, sch := t\<rparr>\<rparr>;
      if need_resched t then jump_schedule (at_switch sy) e s else Some (To_User (pop_user m e), s) }"
    and st: "\<forall>i < 12. stack_at m e i = (u_eax u # saved u) ! i" and e: "e = entry_sp s - 4"
    using timer_stack [OF assms(1)] by blast
  from st have "stack_at m e i = (u_eax u # saved u) ! i" if "i < 12" for i using that by blast
  from this [of 0] this [of 1] this [of 2] this [of 3] this [of 4] this [of 5] this [of 6] this [of 7] this [of 8] this [of 9] this [of 10]
    this [of 11]
  have "pop_user m e = u" "rd32 m e = u_eax u" by (simp_all add: pop_user_def saved_def) (simp add: stack_at_def)
  then show ?thesis by (auto simp: T assms(2) jump_schedule_def in_sched_def cur_task_def e)
qed

subsection \<open>Witnesses\<close>

text \<open>A machine with one other task ready and a kernel stack that ends at \<open>0x9000\<close>.\<close>

definition sample_machine :: "bool \<Rightarrow> machine" where
  "sample_machine b = \<lparr>kern = fork_kernel\<lparr>sch := (sample_sched 2)\<lparr>need_resched := b, timer_head := sample_timer None 0 0,
     tasks := (\<lambda>p. (tasks (sample_sched 2) p)\<lparr>tss := zero_tss\<lparr>esp0 := 0x9000\<rparr>\<rparr>)\<rparr>\<rparr>, scr = sample_console 0 0 0\<rparr>"

definition sample_regs :: "u32 \<Rightarrow> u32 \<Rightarrow> user_regs" where
  "sample_regs a b = \<lparr>u_eax = a, u_ebx = b, u_ecx = 0, u_edx = 0, u_fs = 0x17, u_es = 0x17, u_ds = 0x17, u_eip = 0x1000,
     u_cs = 0xf, u_eflags = 0x202, u_esp = 0x2000, u_ss = 0x17\<rparr>"

definition sample_symbols :: symbols where
  "sample_symbols = \<lparr>current_addr = 0x6000, task_table_addr = 0x6100, exit_switch_addr = 0x7000,
     at_exit = zero_tss, at_switch = zero_tss\<lparr>eip := 0x5120, esp := 0x8fc0\<rparr>\<rparr>"

lemma sample_machine_sel:
  "sch (kern (sample_machine b)) = (sample_sched 2)\<lparr>need_resched := b, timer_head := sample_timer None 0 0,
     tasks := (\<lambda>p. (tasks (sample_sched 2) p)\<lparr>tss := zero_tss\<lparr>esp0 := 0x9000\<rparr>\<rparr>)\<rparr>"
  by (simp add: sample_machine_def)

lemma sample_kernel_stack: "kernel_stack (sample_machine b)"
  by (simp add: kernel_stack_def cur_task_def sample_machine_sel)

lemma first_level_120: "first_level ((replicate 140 0)[120 := 1]) = Some 120"
  using find_from_SomeI [of 120 "(replicate 140 0)[120 := 1] :: u8 list" "\<lambda>b. b \<noteq> 0" 0]
  by (simp add: first_level_def nth_list_update)

lemmas sample_schedule = schedule_def switch_to_def first_level_120 rq_access sample_machine_sel sample_sched_defs cell_def put_cell_def Let_def

theorem syscall_returns_witness:
  "\<exists>m. int80 sample_symbols 0 (sample_regs NR_sys_nice 10) (sample_machine False)
    = Some (To_User ((sample_regs NR_sys_nice 10)\<lparr>u_eax := 110\<rparr>), set_mem m (set_mem (entry_mem (sample_regs NR_sys_nice 10) (sample_machine False)) (sample_machine False)))"
proof (rule syscall_returns)
  let ?u = "sample_regs NR_sys_nice 10" and ?s = "sample_machine False"
  have "sint (10 :: u32) = 10" by simp
  then show "sys_service sample_symbols 0 (u_eax ?u) (entry_sp ?s) (set_mem (entry_mem ?u ?s) ?s) = Some (110, set_mem (entry_mem ?u ?s) ?s)"
    unfolding sys_service_def Let_def saved_args [OF sample_kernel_stack]
    by (simp add: on_kern_def as_word_def do_nice_def task_at_def set_mem_def sample_machine_sel sample_sched_defs sample_regs_def)
  show "\<forall>i < 11. stack_at (mem (kern (set_mem (entry_mem ?u ?s) ?s))) (entry_sp ?s) i = saved ?u ! i"
    using entered(2) [OF sample_kernel_stack, of ?u False] by (simp add: set_mem_def)
qed (simp_all add: sample_kernel_stack sample_symbols_def set_mem_def sample_machine_sel)

lemma sample_entry_sp: "entry_sp (sample_machine b) = 0x8fd4"
  by (simp add: entry_sp_def cur_task_def sample_machine_sel)

theorem resched_jumps_to_result_witness:
  "\<exists>t'. int80 sample_symbols 0x5678 (sample_regs NR_sys_pause 0) (sample_machine False) = Some (Switched (zero_tss\<lparr>esp0 := 0x9000\<rparr>), t')
    \<and> current (sch (kern t')) = 0x2000 \<and> rd32 (mem (kern t')) 0x8fd0 = 0x5678"
proof -
  let ?u = "sample_regs NR_sys_pause 0" and ?s = "sample_machine False" and ?sw = "at_switch sample_symbols"
  obtain p where p: "do_pause (sch (kern ?s)) = Some p" "need_resched p" "current p = 0x4000"
    "\<exists>z. schedule ?sw p = Some z \<and> current z = 0x2000 \<and> tss (tasks z 0x2000) = zero_tss\<lparr>esp0 := 0x9000\<rparr>"
    by (simp add: do_pause_def deactivate_task_def dequeue_task_def sample_schedule)
  then obtain z where z: "schedule ?sw p = Some z" "current z = 0x2000" "tss (tasks z 0x2000) = zero_tss\<lparr>esp0 := 0x9000\<rparr>" by blast
  let ?t = "?s\<lparr>kern := (kern ?s)\<lparr>mem := entry_mem ?u ?s, sch := p\<rparr>\<rparr>"
  have "sys_service sample_symbols 0x5678 (u_eax ?u) (entry_sp ?s) (set_mem (entry_mem ?u ?s) ?s) = Some (0x5678, ?t)"
    using p(1) by (simp add: sys_service_def on_kern_def in_sched_def set_mem_def sample_regs_def Let_def)
  from resched_jumps_to_result [OF sample_kernel_stack _ this, of z] p(2,3) z show ?thesis
    by (auto simp: sample_symbols_def sample_entry_sp)
qed

theorem tick_returns_or_jumps_witness:
  "\<exists>s'. timer_interrupt (\<lambda>_. Some) sample_symbols (sample_regs 0x1234 0) (sample_machine True) = Some (Switched (zero_tss\<lparr>esp0 := 0x9000\<rparr>), s')
    \<and> current (sch (kern s')) = 0x1000 \<and> rd32 (mem (kern s')) 0x8fd0 = 0x1234"
proof -
  let ?s = "sample_machine True" and ?sw = "at_switch sample_symbols"
  obtain t where t: "scheduler_tick (\<lambda>_. Some) (sch (kern ?s)) = Some ([], t)" "need_resched t" "current t = 0x4000"
    "\<exists>z. schedule ?sw t = Some z \<and> current z = 0x1000 \<and> tss (tasks z 0x1000) = zero_tss\<lparr>esp0 := 0x9000\<rparr>"
    by (simp add: scheduler_tick_def tick_timers.simps upd_timer_def timer_at_def tick_current_def sample_schedule)
  then obtain z where "schedule ?sw t = Some z" "current z = 0x1000" "tss (tasks z 0x1000) = zero_tss\<lparr>esp0 := 0x9000\<rparr>" by blast
  with tick_returns_or_jumps [OF sample_kernel_stack t(1), of sample_symbols "sample_regs 0x1234 0" z] t(2,3) show ?thesis
    by (auto simp: sample_regs_def sample_entry_sp)
qed

end
