(* ===== verification/Trap.thy ===== *)
theory Trap
  imports System_Call
begin

unbundle bit_operations_syntax

section \<open>Exceptions and interrupts\<close>

text \<open>
  Models kernel/trap.c, the entries of the exceptions and of the keyboard interrupt in
  kernel/interrupt.s, and the set-up of the interrupt descriptor table there and in
  kernel/system_call.s. An entry works on the state \<open>machine\<close> of \<open>System_Call\<close>; the stack is in
  memory, so that what the entry pops is what lies there. The task was interrupted in its program;
  exceptions and interrupts in the kernel, where the processor pushes no stack pointer, are not
  covered. What the selectors stand for, the contents of the descriptor tables, is the parameter
  \<open>desc\<close>; the checks of the processor when a segment register is loaded and in \<open>iret\<close> are
  written out.

  Shown: every vector of the table leads to its entry with the rights it should have. With flat
  data segments, an exception without error code shows its message and goes back to the
  instruction that caused it with all registers restored; with an error code, which the entries of
  vectors 8 and 10 to 13 do not remove, the return takes the error code for an address and the
  instruction pointer for a selector. The keyboard interrupt pops its registers two bytes
  too low, so that it faults or goes on at a wrong address.
\<close>

subsection \<open>Selectors\<close>

text \<open>\<open>desc\<close> gives the two words of the descriptor of a selector, the low half of a word; \<open>None\<close> stands
  for a selector outside its table. A selector has the privilege level in its two low bits; the
  selectors 0 to 3 are null.\<close>

type_synonym desc_table = "u32 \<Rightarrow> (u32 \<times> u32) option"

definition sel_of :: "u32 \<Rightarrow> u32" where
  "sel_of w = w AND 0xffff"

definition sel_rpl :: "u32 \<Rightarrow> nat" where
  "sel_rpl w = unat (w AND 3)"

definition sel_null :: "u32 \<Rightarrow> bool" where
  "sel_null w \<longleftrightarrow> sel_of w < 4"

definition seg_dpl :: "u32 \<times> u32 \<Rightarrow> nat" where
  "seg_dpl d = unat (drop_bit 13 (snd d) AND 3)"

text \<open>A present descriptor that is none of the system.\<close>

definition seg_present :: "u32 \<times> u32 \<Rightarrow> bool" where
  "seg_present d \<longleftrightarrow> bit (snd d) 15 \<and> bit (snd d) 12"

definition seg_code :: "u32 \<times> u32 \<Rightarrow> bool" where
  "seg_code d \<longleftrightarrow> bit (snd d) 11"

text \<open>For code the bits 9 and 10 mean readable and conforming, for data bit 9 means writable.\<close>

definition seg_limit :: "u32 \<times> u32 \<Rightarrow> u32" where
  "seg_limit d = (let l = (fst d AND 0xffff) OR (snd d AND 0xf0000) in if bit (snd d) 23 then push_bit 12 l OR 0xfff else l)"

text \<open>The check when \<open>ds\<close>, \<open>es\<close>, \<open>fs\<close> or \<open>gs\<close> is loaded at the privilege level \<open>cpl\<close>.\<close>

definition data_ok :: "desc_table \<Rightarrow> nat \<Rightarrow> u32 \<Rightarrow> bool" where
  "data_ok desc cpl w \<longleftrightarrow> sel_null w \<or> (case desc (sel_of w) of
      None \<Rightarrow> False
    | Some d \<Rightarrow> seg_present d \<and> (seg_code d \<longrightarrow> bit (snd d) 9)
        \<and> (seg_code d \<and> bit (snd d) 10 \<or> cpl \<le> seg_dpl d \<and> sel_rpl w \<le> seg_dpl d))"

text \<open>The checks of \<open>iret\<close> in the kernel for the code segment, and for the stack of a less
  privileged level.\<close>

definition code_ok :: "desc_table \<Rightarrow> u32 \<Rightarrow> bool" where
  "code_ok desc w \<longleftrightarrow> \<not> sel_null w \<and> (case desc (sel_of w) of
      None \<Rightarrow> False
    | Some d \<Rightarrow> seg_present d \<and> seg_code d
        \<and> (if bit (snd d) 10 then seg_dpl d \<le> sel_rpl w else seg_dpl d = sel_rpl w))"

definition in_limit :: "desc_table \<Rightarrow> u32 \<Rightarrow> u32 \<Rightarrow> bool" where
  "in_limit desc w a \<longleftrightarrow> (case desc (sel_of w) of None \<Rightarrow> False | Some d \<Rightarrow> a \<le> seg_limit d)"

definition stack_ok :: "desc_table \<Rightarrow> nat \<Rightarrow> u32 \<Rightarrow> bool" where
  "stack_ok desc lvl w \<longleftrightarrow> \<not> sel_null w \<and> sel_rpl w = lvl \<and> (case desc (sel_of w) of
      None \<Rightarrow> False
    | Some d \<Rightarrow> seg_present d \<and> \<not> seg_code d \<and> bit (snd d) 9 \<and> seg_dpl d = lvl)"

text \<open>A segment register that the new level may not use is cleared.\<close>

definition visible :: "desc_table \<Rightarrow> nat \<Rightarrow> u32 \<Rightarrow> u32" where
  "visible desc lvl w = (if data_ok desc lvl w then w else 0)"

text \<open>A data segment in which addresses mean what they mean to the kernel.\<close>

definition flat :: "desc_table \<Rightarrow> u32 \<Rightarrow> bool" where
  "flat desc w \<longleftrightarrow> \<not> sel_null w \<and> (case desc (sel_of w) of
      None \<Rightarrow> False | Some d \<Rightarrow> seg_present d \<and> \<not> seg_code d \<and> bit (snd d) 9 \<and> seg_base d = 0)"

subsection \<open>Handlers\<close>

definition say :: "string \<Rightarrow> machine \<Rightarrow> machine option" where
  "say m s = map_option (\<lambda>c. s\<lparr>scr := c\<rparr>) (message m (scr s))"

text \<open>\<open>printk\<close> with arguments; \<open>str_at\<close> gives the strings in memory and \<open>uninit\<close> the value of the
  variable that \<open>vsprintf\<close> does not set.\<close>

definition say_args :: "(u32 \<Rightarrow> u8 list) \<Rightarrow> u32 \<Rightarrow> string \<Rightarrow> u32 list \<Rightarrow> machine \<Rightarrow> machine option" where
  "say_args str_at uninit m args s =
     map_option (\<lambda>c. s\<lparr>scr := c\<rparr>) (printk str_at uninit (bytes_of m @ [0x5C, 0x6E]) args (scr s))"

record pt_regs =
  r_ss :: u32
  r_esp :: u32
  r_eflags :: u32
  r_cs :: u32
  r_gs :: u32
  r_fs :: u32
  r_es :: u32
  r_ds :: u32
  r_eax :: u32
  r_ebp :: u32
  r_edi :: u32
  r_esi :: u32
  r_edx :: u32
  r_ecx :: u32
  r_ebx :: u32

definition pt_regs_at :: "ram \<Rightarrow> u32 \<Rightarrow> pt_regs" where
  "pt_regs_at m a = (let w = stack_at m a in
     \<lparr>r_ss = w 0, r_esp = w 1, r_eflags = w 2, r_cs = w 3, r_gs = w 4, r_fs = w 5, r_es = w 6, r_ds = w 7, r_eax = w 8,
      r_ebp = w 9, r_edi = w 10, r_esi = w 11, r_edx = w 12, r_ecx = w 13, r_ebx = w 14\<rparr>)"

definition die :: "thread_struct \<Rightarrow> (u32 \<Rightarrow> u8 list) \<Rightarrow> u32 \<Rightarrow> u32 \<Rightarrow> u32 \<Rightarrow> machine \<Rightarrow> machine option" where
  "die sw str_at uninit str regs s = do {
     s \<leftarrow> say_args str_at uninit ''%s: '' [str] s;
     s \<leftarrow> say_args str_at uninit ''PID:%d '' [t_pid (cur_task (kern s))] s;
     s \<leftarrow> say_args str_at uninit ''ESP:%x- '' [r_esp (pt_regs_at (mem (kern s)) regs)] s;
     (_, s) \<leftarrow> on_kern (do_exit sw) s;
     Some s }"

definition do_divide_error :: "machine \<Rightarrow> machine option" where
  "do_divide_error s = say ''divide error '' s"

definition do_debug :: "machine \<Rightarrow> machine option" where
  "do_debug s = say ''debug '' s"

definition do_nmi :: "machine \<Rightarrow> machine option" where
  "do_nmi s = say ''nmi '' s"

definition do_int3 :: "machine \<Rightarrow> machine option" where
  "do_int3 s = say ''int3 '' s"

definition do_overflow :: "machine \<Rightarrow> machine option" where
  "do_overflow s = say ''overflow '' s"

definition do_bounds :: "machine \<Rightarrow> machine option" where
  "do_bounds s = say ''bounds '' s"

definition do_invalid_op :: "machine \<Rightarrow> machine option" where
  "do_invalid_op s = say ''invalid_op '' s"

definition do_coprocessor_segment_overrun :: "machine \<Rightarrow> machine option" where
  "do_coprocessor_segment_overrun s = say ''coprocessor segment overrun '' s"

definition do_reserved :: "machine \<Rightarrow> machine option" where
  "do_reserved s = say ''reserved '' s"

definition do_coprocessor_error :: "machine \<Rightarrow> machine option" where
  "do_coprocessor_error s = say ''coprocessor error '' s"

definition do_double_fault :: "machine \<Rightarrow> machine option" where
  "do_double_fault s = say ''double fault '' s"

definition do_invalid_TSS :: "machine \<Rightarrow> machine option" where
  "do_invalid_TSS s = say ''invalid TSS '' s"

definition do_segment_not_present :: "machine \<Rightarrow> machine option" where
  "do_segment_not_present s = say ''segment not present '' s"

definition do_stack_segment :: "machine \<Rightarrow> machine option" where
  "do_stack_segment s = say ''stack segment '' s"

definition do_general_protection :: "u32 \<Rightarrow> machine \<Rightarrow> machine option" where
  "do_general_protection e s = Some s"

definition do_alignment_check :: "(u32 \<Rightarrow> u8 list) \<Rightarrow> u32 \<Rightarrow> u32 \<Rightarrow> u32 \<Rightarrow> machine \<Rightarrow> machine option" where
  "do_alignment_check str_at uninit e error s = say_args str_at uninit ''PID=%x,ESP=%x '' [t_pid (cur_task (kern s)), e] s"

subsection \<open>Entries\<close>

record trap_regs = user_regs +
  u_esi :: u32
  u_edi :: u32
  u_ebp :: u32
  u_gs :: u32

datatype vector_entry = Divide_error | Debug | Nmi | Break_point | Over_flow | Bounds_check | Invalid_opcode | Double_fault
  | Coprocessor_segment_overrun | Invalid_TSS | Segment_not_present | Stack_segment | General_protection | Page_fault
  | Reserved | Coprocessor_error | Alignment_check | Timer_interrupt | Hd_interrupt | Keyboard_interrupt | System_call

text \<open>How an entry ends: in the state of the registers that it returns to; in virtual 8086 mode at a
  code segment and offset; with an exception of the processor at the load of a segment register or
  at \<open>iret\<close>; or in a handler that runs with the data segments of the task, although its own data are
  not there. The last three are not followed further.\<close>

datatype resume = Resumed trap_regs | Virtual_8086 u32 u32 | Faulted | Wrong_data

text \<open>\<open>flags\<close> is the flags register at the entry; \<open>push esp\<close> pushes the value from before the push.\<close>

definition SAVE_ALL :: "u32 \<Rightarrow> trap_regs \<Rightarrow> u32 \<times> ram \<Rightarrow> u32 \<times> ram" where
  "SAVE_ALL flags u st =
     (let (e, m) = fold push [u_ebx u, u_ecx u, u_edx u, u_esi u, u_edi u, u_ebp u, u_eax u, u_ds u, u_es u, u_fs u, u_gs u, flags] st
      in fold push [e, KERNEL_DS] (e, m))"

text \<open>\<open>RESET_ALL\<close> and the \<open>iret\<close> after it: the stack pointer is taken from the second word.\<close>

definition RESET_ALL :: "ram \<Rightarrow> u32 \<Rightarrow> trap_regs" where
  "RESET_ALL m e = (let w = stack_at m (stack_at m e 1) in
     \<lparr>u_eax = w 5, u_ebx = w 11, u_ecx = w 10, u_edx = w 9, u_fs = w 2, u_es = w 3, u_ds = w 4, u_eip = w 12, u_cs = w 13,
      u_eflags = w 14, u_esp = w 15, u_ss = w 16, u_esi = w 8, u_edi = w 7, u_ebp = w 6, u_gs = w 1\<rparr>)"

text \<open>What lies on the stack when an entry starts: the return frame and, for some exceptions, the
  error code.\<close>

definition trap_frame :: "u32 option \<Rightarrow> trap_regs \<Rightarrow> machine \<Rightarrow> u32 \<times> ram" where
  "trap_frame err u s = (case err of None \<Rightarrow> enter_kernel u s | Some c \<Rightarrow> push c (enter_kernel u s))"

definition handler :: "vector_entry \<Rightarrow> machine \<Rightarrow> machine option" where
  "handler l = (case l of
       Divide_error \<Rightarrow> do_divide_error | Debug \<Rightarrow> do_debug | Nmi \<Rightarrow> do_nmi | Break_point \<Rightarrow> do_int3 | Over_flow \<Rightarrow> do_overflow
     | Bounds_check \<Rightarrow> do_bounds | Invalid_opcode \<Rightarrow> do_invalid_op | Double_fault \<Rightarrow> do_double_fault
     | Coprocessor_segment_overrun \<Rightarrow> do_coprocessor_segment_overrun | Invalid_TSS \<Rightarrow> do_invalid_TSS
     | Segment_not_present \<Rightarrow> do_segment_not_present | Stack_segment \<Rightarrow> do_stack_segment
     | Coprocessor_error \<Rightarrow> do_coprocessor_error | Reserved \<Rightarrow> do_reserved | _ \<Rightarrow> (\<lambda>s. None))"

text \<open>The \<open>iret\<close> of an entry, with the registers that are popped. Bit 17 of the popped flags asks for
  virtual 8086 mode, where offsets have 16 bits. A return to the level of the kernel pops no stack
  pointer; \<open>sp\<close> is then the stack pointer behind the frame. The gate has cleared the flag of nested
  tasks.\<close>

definition iret :: "desc_table \<Rightarrow> u32 \<Rightarrow> trap_regs \<Rightarrow> resume" where
  "iret desc sp u =
     (let lvl = sel_rpl (u_cs u) in
      if bit (u_eflags u) 17 then (if u_eip u < 0x10000 then Virtual_8086 (sel_of (u_cs u)) (u_eip u) else Faulted)
      else if code_ok desc (u_cs u) \<and> in_limit desc (u_cs u) (u_eip u)
      then if lvl = 0 then Resumed (u\<lparr>u_esp := sp, u_ss := KERNEL_DS\<rparr>)
        else if stack_ok desc lvl (u_ss u)
          then Resumed (u\<lparr>u_ds := visible desc lvl (u_ds u), u_es := visible desc lvl (u_es u), u_fs := visible desc lvl (u_fs u),
            u_gs := visible desc lvl (u_gs u)\<rparr>)
          else Faulted
      else Faulted)"

definition frame_at :: "ram \<Rightarrow> u32 \<Rightarrow> trap_regs \<Rightarrow> trap_regs" where
  "frame_at m e u = (let w = stack_at m e in u\<lparr>u_eip := w 0, u_cs := w 1, u_eflags := w 2, u_esp := w 3, u_ss := w 4\<rparr>)"

definition exception_entry ::
  "desc_table \<Rightarrow> vector_entry \<Rightarrow> u32 option \<Rightarrow> u32 \<Rightarrow> trap_regs \<Rightarrow> machine \<Rightarrow> (resume \<times> machine) option" where
  "exception_entry desc l err flags u s = do {
     let (e, m) = SAVE_ALL flags u (trap_frame err u s);
     if flat desc (u_ds u) \<and> flat desc (u_es u)
     then do {
       s \<leftarrow> handler l (set_mem m s);
       let r = RESET_ALL (mem (kern s)) e;
       Some (if data_ok desc 0 (u_gs r) \<and> data_ok desc 0 (u_fs r) \<and> data_ok desc 0 (u_es r) \<and> data_ok desc 0 (u_ds r)
         then iret desc (stack_at (mem (kern s)) e 1 + 60) r else Faulted, s) }
     else Some (Wrong_data, set_mem m s) }"

text \<open>The two entries that save no registers. The handler of the first one has no code.\<close>

definition general_protection :: "desc_table \<Rightarrow> u32 \<Rightarrow> trap_regs \<Rightarrow> machine \<Rightarrow> (resume \<times> machine) option" where
  "general_protection desc err u s = do {
     let (e, m) = trap_frame (Some err) u s;
     let (e1, m) = push e (e, m);
     s \<leftarrow> do_general_protection (stack_at m e1 0) (set_mem m s);
     let e = stack_at (mem (kern s)) e1 0;
     Some (iret desc (e + 12) (frame_at (mem (kern s)) e u), s) }"

definition alignment_check ::
  "desc_table \<Rightarrow> (u32 \<Rightarrow> u8 list) \<Rightarrow> u32 \<Rightarrow> u32 \<Rightarrow> trap_regs \<Rightarrow> machine \<Rightarrow> (resume \<times> machine) option" where
  "alignment_check desc str_at uninit err u s = do {
     let (e, m) = push 0 (trap_frame (Some err) u s);
     let (e1, m) = push e (e, m);
     if flat desc (u_ds u) \<and> flat desc (u_es u)
     then do {
       s \<leftarrow> do_alignment_check str_at uninit (stack_at m e1 0) (stack_at m e1 1) (set_mem m s);
       Some (iret desc (e1 + 20) (frame_at (mem (kern s)) (e1 + 8) u), s) }
     else Some (Wrong_data, set_mem m s) }"

text \<open>\<open>push ax\<close> takes two bytes. The scan code comes from port 0x60; the keyboard's mode bits and
  the console are the state of the handler. A segment register gets the low half of what is
  popped.\<close>

definition push16 :: "u16 \<Rightarrow> u32 \<times> ram \<Rightarrow> u32 \<times> ram" where
  "push16 v = (\<lambda>(e, m). (e - 2, m(e - 2 := ucast v, e - 1 := ucast (drop_bit 8 v))))"

definition keyboard_interrupt ::
  "desc_table \<Rightarrow> u8 \<Rightarrow> u8 \<Rightarrow> trap_regs \<Rightarrow> machine \<Rightarrow> (resume \<times> u8 \<times> machine) option" where
  "keyboard_interrupt desc scan_code md u s = do {
     let (e, m) = fold push [u_eax u, u_ecx u, u_edx u, u_ds u, u_es u, u_fs u] (enter_kernel u s);
     let (e, m) = push16 (ucast scan_code) (e, m);
     k \<leftarrow> do_keyboard_fun (m e) \<lparr>mode = md, con = scr s\<rparr>;
     let w = stack_at m e;
     let r = frame_at m (e + 24) (u\<lparr>u_fs := sel_of (w 0), u_es := sel_of (w 1), u_ds := sel_of (w 2), u_edx := w 3,
       u_ecx := w 4, u_eax := w 5\<rparr>);
     Some (if data_ok desc 0 (u_fs r) \<and> data_ok desc 0 (u_es r) \<and> data_ok desc 0 (u_ds r) then iret desc (e + 36) r else Faulted,
       mode k, (set_mem m s)\<lparr>scr := con k\<rparr>) }"

subsection \<open>The interrupt descriptor table\<close>

definition MAKE_IDT :: "u32 \<Rightarrow> u32 \<Rightarrow> u32 \<Rightarrow> u32 \<times> u32" where
  "MAKE_IDT off sel a = ((off AND 0xffff) OR push_bit 16 sel, (off AND 0xffff0000) OR (a AND 0xffff))"

definition SET_IDT_GATE :: "u32 \<Rightarrow> u32 \<times> u32" where
  "SET_IDT_GATE off = MAKE_IDT off KERNEL_CS 0x8e00"

definition SET_SYSTEM_GATE :: "u32 \<Rightarrow> u32 \<times> u32" where
  "SET_SYSTEM_GATE off = MAKE_IDT off KERNEL_CS 0xef00"

definition SET_TRAP_GATE :: "u32 \<Rightarrow> u32 \<times> u32" where
  "SET_TRAP_GATE off = MAKE_IDT off KERNEL_CS 0x8f00"

definition store_gate :: "u32 \<Rightarrow> nat \<times> u32 \<times> u32 \<Rightarrow> ram \<Rightarrow> ram" where
  "store_gate idt = (\<lambda>(n, lo, hi) m. wr32 (idt + 8 * of_nat n + 4) hi (wr32 (idt + 8 * of_nat n) lo m))"

text \<open>The bytes that go to the two interrupt controllers, as pairs of port and value.\<close>

definition pic_init :: "(u16 \<times> u8) list" where
  "pic_init = [(0x20, 0x11), (0x21, 0x20), (0x21, 0x04), (0x21, 0x01), (0xa0, 0x11), (0xa1, 0x70), (0xa1, 0x04), (0xa1, 0x01),
     (0x21, 0xff), (0xa1, 0xff)]"

text \<open>The loop writes its gate for \<open>esi\<close> up to 256 inclusive.\<close>

definition exception_init :: "(vector_entry \<Rightarrow> u32) \<Rightarrow> u32 \<Rightarrow> ram \<Rightarrow> ram" where
  "exception_init adr idt m =
     (let m = fold (\<lambda>esi. store_gate idt (esi, SET_TRAP_GATE (adr Divide_error))) [0..<257] m
      in fold (store_gate idt)
        [(0, SET_TRAP_GATE (adr Divide_error)), (1, SET_TRAP_GATE (adr Debug)), (2, SET_TRAP_GATE (adr Nmi)),
         (3, SET_SYSTEM_GATE (adr Break_point)), (4, SET_SYSTEM_GATE (adr Over_flow)), (5, SET_SYSTEM_GATE (adr Bounds_check)),
         (6, SET_TRAP_GATE (adr Invalid_opcode)), (8, SET_TRAP_GATE (adr Double_fault)),
         (9, SET_TRAP_GATE (adr Coprocessor_segment_overrun)), (10, SET_TRAP_GATE (adr Invalid_TSS)),
         (11, SET_TRAP_GATE (adr Segment_not_present)), (12, SET_TRAP_GATE (adr Stack_segment)),
         (13, SET_TRAP_GATE (adr General_protection)), (14, SET_TRAP_GATE (adr Page_fault)), (15, SET_TRAP_GATE (adr Reserved)),
         (16, SET_TRAP_GATE (adr Coprocessor_error)), (17, SET_TRAP_GATE (adr Alignment_check))] m)"

definition interupt_init :: "(vector_entry \<Rightarrow> u32) \<Rightarrow> u32 \<Rightarrow> ram \<Rightarrow> ram" where
  "interupt_init adr idt =
     fold (store_gate idt) [(0x20, SET_IDT_GATE (adr Timer_interrupt)), (0x76, SET_IDT_GATE (adr Hd_interrupt)),
       (0x21, SET_IDT_GATE (adr Keyboard_interrupt))]"

definition system_call_init :: "(vector_entry \<Rightarrow> u32) \<Rightarrow> u32 \<Rightarrow> ram \<Rightarrow> ram" where
  "system_call_init adr idt = store_gate idt (0x80, SET_SYSTEM_GATE (adr System_call))"

subsection \<open>Gates\<close>

text \<open>A gate as the processor reads it: address of the entry, selector, attributes.\<close>

definition gate_at :: "u32 \<Rightarrow> ram \<Rightarrow> nat \<Rightarrow> u32 \<times> u32" where
  "gate_at idt m n = (rd32 m (idt + 8 * of_nat n), rd32 m (idt + 8 * of_nat n + 4))"

definition gate_entry :: "u32 \<times> u32 \<Rightarrow> u32" where
  "gate_entry g = (snd g AND 0xffff0000) OR (fst g AND 0xffff)"

definition gate_selector :: "u32 \<times> u32 \<Rightarrow> u32" where
  "gate_selector g = drop_bit 16 (fst g)"

definition gate_attr :: "u32 \<times> u32 \<Rightarrow> u32" where
  "gate_attr g = snd g AND 0xffff"

lemma high_half: "(w :: u32) AND 0xffff0000 = push_bit 16 (drop_bit 16 w)"
proof (rule bit_eqI)
  fix n assume n: "possible_bit TYPE(u32) n"
  have "(0xffff0000 :: u32) = push_bit 16 (mask 16)" by (simp add: mask_eq_exp_minus_1)
  then have "bit (0xffff0000 :: u32) n \<longleftrightarrow> 16 \<le> n \<and> n < 32"
    by (simp only: bit_push_bit_iff bit_mask_iff) auto
  then show "bit (w AND 0xffff0000) n = bit (push_bit 16 (drop_bit 16 w)) n"
    using n by (auto simp only: possible_bit_word bit_and_iff bit_push_bit_iff bit_drop_bit_eq comp_def le_add_diff_inverse) simp_all
qed

lemma low_half: "(w :: u32) AND 0xffff = take_bit 16 w"
  by (simp add: take_bit_eq_mask mask_eq_exp_minus_1)

lemma MAKE_IDT_fields:
  "gate_entry (MAKE_IDT off sel a) = off" "gate_selector (MAKE_IDT off sel a) = take_bit 16 sel"
  "gate_attr (MAKE_IDT off sel a) = take_bit 16 a"
  by (rule bit_eqI, auto simp: MAKE_IDT_def gate_entry_def gate_selector_def gate_attr_def high_half low_half bit_simps)+

lemma gate_addr:
  fixes idt :: u32
  assumes "4 dvd unat idt" and "unat idt + 2056 < 2 ^ 32" and "n \<le> 256"
  shows "unat (idt + 8 * of_nat n) = unat idt + 8 * n" "unat (idt + 8 * of_nat n + 4) = unat idt + 8 * n + 4"
    "4 dvd unat (idt + 8 * of_nat n)" "4 dvd unat (idt + 8 * of_nat n + 4)"
proof -
  show "unat (idt + 8 * of_nat n) = unat idt + 8 * n" "unat (idt + 8 * of_nat n + 4) = unat idt + 8 * n + 4"
    using assms(2,3) by (simp_all add: unat_word_ariths unat_of_nat)
  then show "4 dvd unat (idt + 8 * of_nat n)" "4 dvd unat (idt + 8 * of_nat n + 4)" using assms(1) by presburger+
qed

lemma gate_at_store:
  assumes "4 dvd unat idt" and "unat idt + 2056 < 2 ^ 32" and "n \<le> 256" and "k \<le> 256"
  shows "gate_at idt (store_gate idt (n, g) m) k = (if n = k then g else gate_at idt m k)"
proof (cases g)
  case (Pair lo hi)
  note a = gate_addr [OF assms(1-3)] and b = gate_addr [OF assms(1,2,4)]
  have d: "idt + 8 * of_nat n + 4 \<noteq> idt + 8 * of_nat k" "idt + 8 * of_nat n \<noteq> idt + 8 * of_nat k + 4"
    using a(1,2) b(1,2) by (simp_all add: word_unat_eq_iff) presburger+
  show ?thesis
  proof (cases "n = k")
    case True
    then show ?thesis using Pair d(2) a b by (simp add: gate_at_def store_gate_def rd32_wr32_other word_unat_eq_iff)
  next
    case False
    then have "idt + 8 * of_nat n \<noteq> idt + 8 * of_nat k" "idt + 8 * of_nat n + 4 \<noteq> idt + 8 * of_nat k + 4"
      using a(1,2) b(1,2) by (simp_all add: word_unat_eq_iff)
    then show ?thesis using Pair False d a b by (simp add: gate_at_def store_gate_def rd32_wr32_other)
  qed
qed

lemma gate_at_fold:
  assumes "4 dvd unat idt" and "unat idt + 2056 < 2 ^ 32" and "\<forall>(n, g) \<in> set ts. n \<le> 256" and "k \<le> 256"
  shows "gate_at idt (fold (store_gate idt) ts m) k = (case map_of (rev ts) k of None \<Rightarrow> gate_at idt m k | Some g \<Rightarrow> g)"
  using assms(3)
proof (induction ts rule: rev_induct)
  case (snoc x ts)
  then show ?case using gate_at_store [OF assms(1,2) _ assms(4)] by (cases x) auto
qed simp

text \<open>The entry that each vector should lead to, and the rights of its gate.\<close>

definition vector_entries :: "(nat \<times> vector_entry) list" where
  "vector_entries = [(1, Debug), (2, Nmi), (3, Break_point), (4, Over_flow), (5, Bounds_check), (6, Invalid_opcode), (8, Double_fault),
     (9, Coprocessor_segment_overrun), (10, Invalid_TSS), (11, Segment_not_present), (12, Stack_segment), (13, General_protection),
     (14, Page_fault), (15, Reserved), (16, Coprocessor_error), (17, Alignment_check), (0x20, Timer_interrupt),
     (0x21, Keyboard_interrupt), (0x76, Hd_interrupt), (0x80, System_call)]"

definition entry_of :: "nat \<Rightarrow> vector_entry" where
  "entry_of v = (case map_of vector_entries v of None \<Rightarrow> Divide_error | Some l \<Rightarrow> l)"

definition rights_of :: "nat \<Rightarrow> u32" where
  "rights_of v = (if v \<in> {3, 4, 5, 0x80} then 0xef00 else if v \<in> {0x20, 0x21, 0x76} then 0x8e00 else 0x8f00)"

lemma default_gates:
  assumes "4 dvd unat idt" and "unat idt + 2056 < 2 ^ 32" and "v < 256"
  shows "gate_at idt (fold (\<lambda>esi. store_gate idt (esi, g)) [0..<257] m) v = g"
proof -
  have "fold (\<lambda>esi. store_gate idt (esi, g)) [0..<257] m = fold (store_gate idt) (map (\<lambda>i. (i, g)) [0..<257]) m"
    by (simp add: fold_map comp_def del: upt_rec_numeral)
  moreover have "map_of (rev (map (\<lambda>i. (i, g)) [0..<257])) v = Some g"
    using assms(3) by (intro map_of_is_SomeI) (auto simp: rev_map comp_def simp del: upt_rec_numeral)
  ultimately show ?thesis using assms by (simp add: gate_at_fold del: upt_rec_numeral)
qed

lemma gates_complete:
  assumes "4 dvd unat idt" and "unat idt + 2056 < 2 ^ 32" and "v < 256"
  shows "let g = gate_at idt (system_call_init adr idt (interupt_init adr idt (exception_init adr idt m))) v
    in gate_entry g = adr (entry_of v) \<and> gate_selector g = KERNEL_CS \<and> gate_attr g = rights_of v"
proof -
  have "gate_at idt (system_call_init adr idt (interupt_init adr idt (exception_init adr idt m))) v
      = (if v = 0x80 then SET_SYSTEM_GATE (adr System_call)
         else MAKE_IDT (adr (entry_of v)) KERNEL_CS (rights_of v))"
    using assms
    by (simp add: system_call_init_def interupt_init_def exception_init_def Let_def gate_at_store gate_at_fold default_gates entry_of_def
        rights_of_def vector_entries_def SET_SYSTEM_GATE_def SET_IDT_GATE_def SET_TRAP_GATE_def
        del: upt_rec_numeral fold_simps)
  then show ?thesis
    by (auto simp: MAKE_IDT_fields SET_SYSTEM_GATE_def entry_of_def rights_of_def vector_entries_def)
qed

text \<open>
  C17. The table after the three set-up functions: every vector of an exception or interrupt that the
  kernel handles leads to its entry, every other vector to the entry of the division
  error. All gates lead to the kernel's code segment; user programs may use those for break
  points, overflow, bounds and system calls; the interrupts of devices clear the interrupt flag,
  all other gates leave it alone.
\<close>

theorem interrupt_table_complete:
  assumes "4 dvd unat idt" and "unat idt + 2056 < 2 ^ 32" and "v < 256"
  shows "let g = gate_at idt (system_call_init adr idt (interupt_init adr idt (exception_init adr idt m))) v
    in gate_entry g = adr (entry_of v) \<and> gate_selector g = KERNEL_CS \<and> gate_attr g = rights_of v"
  using assms by (rule gates_complete)

subsection \<open>Messages\<close>

lemma kernel_display_row: "con_ok s \<Longrightarrow> cursor_x (fg_win s) < 80 \<Longrightarrow> kernel_display (fg_console s) c s = con_display c s"
  by (auto simp: kernel_display_def con_display_def con_inv_defs cell_def Let_def)

lemma print_loop_row:
  assumes "con_ok s" and "0x5C \<notin> set xs" and "unat (cursor_x (fg_win s)) + length xs \<le> 80"
  shows "\<exists>s'. print_loop (fg_console s) (xs @ [0x5C, 0x6E]) s = Some s' \<and> con_ok s' \<and> con_frame s s' \<and> shows_text xs s s'
    \<and> cursor_x (fg_win s') = 0"
  using assms
proof (induction xs arbitrary: s)
  case Nil
  obtain u v where "cr (fg_console s) s = Some u" "up_cursor (fg_console s) u = Some v" "con_ok v" "con_frame s v"
    "cursor_x (fg_win v) = 0" "shows_text [] s v" using line_end_row [OF Nil.prems(1)] by metis
  then show ?case by simp
next
  case (Cons c xs)
  have x: "unat (cursor_x (fg_win s)) < 80" "cursor_x (fg_win s) < 80" using Cons.prems(3) by (auto simp: word_less_nat_alt)
  obtain u where u: "con_display c s = Some u" "con_ok u" "con_frame s u" "fg_console u = fg_console s"
    "unat (cursor_x (fg_win u)) = unat (cursor_x (fg_win s)) + 1" "\<And>v. shows_text xs u v \<Longrightarrow> length xs < 100 \<Longrightarrow> shows_text (c # xs) s v"
    using con_display_row [OF Cons.prems(1) x(1), of c] by metis
  obtain v where v: "print_loop (fg_console u) (xs @ [0x5C, 0x6E]) u = Some v" "con_ok v" "con_frame u v" "shows_text xs u v"
    "cursor_x (fg_win v) = 0"
    using Cons.IH [OF u(2)] Cons.prems(2,3) u(5) by auto
  have "print_loop (fg_console s) ((c # xs) @ [0x5C, 0x6E]) s = Some v"
    using v(1) kernel_display_row [OF Cons.prems(1) x(2), of c] u(1) Cons.prems(2) u(4) by (cases xs) auto
  then show ?case using v u(6) [OF v(4)] con_frame_trans [OF u(3) v(3)] Cons.prems(1,3) by (auto simp: con_ok_def)
qed

lemma message_printed:
  assumes "con_ok s" and "0x5C \<notin> set (bytes_of m)" and "0x25 \<notin> set (bytes_of m)" and "unat (cursor_x (fg_win s)) + length m \<le> 80"
  shows "\<exists>t. message m s = con_set_cursor (fg_console t) t \<and> con_ok t \<and> con_frame s t \<and> shows_text (bytes_of m) s t \<and> cursor_x (fg_win t) = 0"
proof -
  have l: "length (bytes_of m) = length m" by (simp add: bytes_of_def)
  with print_loop_row [OF assms(1,2)] assms(4) obtain t where
    t: "print_loop (fg_console s) (bytes_of m @ [0x5C, 0x6E]) s = Some t" "con_ok t" "con_frame s t" "shows_text (bytes_of m) s t"
      "cursor_x (fg_win t) = 0" by auto
  have "vsprintf (\<lambda>_. []) 0 (bytes_of m @ [0x5C, 0x6E]) [] = Some (bytes_of m @ [0x5C, 0x6E])"
    using vsprintf_loop_literal [of "bytes_of m @ [0x5C, 0x6E]" "\<lambda>_. []" 0 "[]" "[]"] assms(3) by (simp add: vsprintf_def)
  moreover have "fg_console t = fg_console s" using t(3) by (auto simp: con_frame_def)
  ultimately have "message m s = con_set_cursor (fg_console t) t" using t(1) assms(4) l by (simp add: message_def printk_def console_print_def)
  then show ?thesis using t by blast
qed

lemma message_shown:
  assumes "con_ok s" and "0x5C \<notin> set (bytes_of m)" and "0x25 \<notin> set (bytes_of m)" and "unat (cursor_x (fg_win s)) + length m \<le> 80"
  shows "\<exists>s'. message m s = Some s' \<and> con_ok s' \<and> shows_text (bytes_of m) s s' \<and> cursor_x (fg_win s') = 0"
proof -
  from message_printed [OF assms] obtain t where t: "message m s = con_set_cursor (fg_console t) t" "con_ok t"
    "shows_text (bytes_of m) s t" "cursor_x (fg_win t) = 0" by blast
  from con_set_cursor_fg [OF t(2)] obtain out where "con_set_cursor (fg_console t) t = Some (t\<lparr>port_out := out\<rparr>)" by auto
  then show ?thesis using t by (auto simp: con_inv_defs shows_text_def)
qed

subsection \<open>The stack of an exception\<close>

text \<open>The stack pointer of a task on entry leaves room for what an entry pushes.\<close>

definition trap_stack :: "machine \<Rightarrow> bool" where
  "trap_stack s \<longleftrightarrow> 4 dvd unat (esp0 (tss (cur_task (kern s)))) \<and> 80 \<le> unat (esp0 (tss (cur_task (kern s))))"

definition return_frame :: "trap_regs \<Rightarrow> u32 list" where
  "return_frame u = [u_ss u, u_esp u, u_eflags u, u_cs u, u_eip u]"

lemma trap_frame_push:
  "trap_frame err u s = fold push (return_frame u @ (case err of None \<Rightarrow> [] | Some c \<Rightarrow> [c])) (esp0 (tss (cur_task (kern s))), mem (kern s))"
  by (simp add: trap_frame_def enter_kernel_def return_frame_def split: option.split)

lemma SAVE_ALL_words:
  assumes "4 dvd unat e0" and "4 * (length fr + 14) \<le> unat e0" and "SAVE_ALL flags u (fold push fr (e0, m0)) = (e, m)"
    and "i < length fr + 12"
  shows "stack_at m (stack_at m e 1) i
    = ([flags, u_gs u, u_fs u, u_es u, u_ds u, u_eax u, u_ebp u, u_edi u, u_esi u, u_edx u, u_ecx u, u_ebx u] @ rev fr) ! i"
proof -
  let ?rs = "[u_ebx u, u_ecx u, u_edx u, u_esi u, u_edi u, u_ebp u, u_eax u, u_ds u, u_es u, u_fs u, u_gs u, flags]"
  obtain e1 m1 where f: "fold push (fr @ ?rs) (e0, m0) = (e1, m1)" by fastforce
  then have "SAVE_ALL flags u (fold push fr (e0, m0)) = fold push [e1, KERNEL_DS] (e1, m1)"
    unfolding SAVE_ALL_def fold_append by simp
  then have p: "fold push [e1, KERNEL_DS] (e1, m1) = (e, m)" using assms(3) by simp
  then have g: "fold push ((fr @ ?rs) @ [e1, KERNEL_DS]) (e0, m0) = (e, m)" using f unfolding fold_append by simp
  note F = fold_push [OF assms(1) _ f]
  note G = fold_push [OF assms(1) _ g]
  have u: "unat e1 = unat e0 - 4 * (length fr + 12)" "unat e = unat e0 - 4 * (length fr + 14)"
    and w: "\<forall>j < length fr + 14. stack_at m e j = rev ((fr @ ?rs) @ [e1, KERNEL_DS]) ! j"
    using F G assms(2) by simp_all
  have "stack_at m e 1 = e1" using w by simp
  moreover have "e1 = e + 8" using u assms(2) unat_u32_bound [of e1] by (simp add: word_unat_eq_iff unat_word_ariths)
  moreover have "stack_at m (e + 8) i = stack_at m e (Suc (Suc i))" by (simp add: stack_at_def algebra_simps)
  moreover have "rev ((fr @ ?rs) @ [e1, KERNEL_DS]) ! Suc (Suc i) = (rev ?rs @ rev fr) ! i" by simp
  ultimately show ?thesis using w assms(4) by simp
qed

lemma SAVE_RESET:
  assumes "trap_stack s" and "SAVE_ALL flags u (trap_frame err u s) = (e, m)"
  shows "err = None \<Longrightarrow> RESET_ALL m e = u"
    and "err = Some c \<Longrightarrow> RESET_ALL m e = u\<lparr>u_eip := c, u_cs := u_eip u, u_eflags := u_cs u, u_esp := u_eflags u, u_ss := u_esp u\<rparr>"
proof -
  let ?fr = "return_frame u @ (case err of None \<Rightarrow> [] | Some c \<Rightarrow> [c])"
  have k: "4 dvd unat (esp0 (tss (cur_task (kern s))))" "4 * (length ?fr + 14) \<le> unat (esp0 (tss (cur_task (kern s))))"
    using assms(1) by (auto simp: trap_stack_def return_frame_def split: option.split)
  note W = SAVE_ALL_words [OF k assms(2) [unfolded trap_frame_push]]
  have l: "17 \<le> length ?fr + 12" by (simp add: return_frame_def)
  obtain a where a: "stack_at m e (Suc 0) = a" by blast
  have W': "stack_at m a i
    = ([flags, u_gs u, u_fs u, u_es u, u_ds u, u_eax u, u_ebp u, u_edi u, u_esi u, u_edx u, u_ecx u, u_ebx u] @ rev ?fr) ! i"
    if "i < 17" for i using W [of i] that l a by simp
  show "RESET_ALL m e = u" if "err = None"
    using that by (cases u) (simp add: RESET_ALL_def a W' return_frame_def Let_def)
  show "RESET_ALL m e = u\<lparr>u_eip := c, u_cs := u_eip u, u_eflags := u_cs u, u_esp := u_eflags u, u_ss := u_esp u\<rparr>" if "err = Some c"
    using that by (cases u) (simp add: RESET_ALL_def a W' return_frame_def Let_def)
qed

text \<open>The text that the handler of an entry shows.\<close>

definition trap_messages :: "(vector_entry \<times> string) list" where
  "trap_messages = [(Divide_error, ''divide error ''), (Debug, ''debug ''), (Nmi, ''nmi ''), (Break_point, ''int3 ''),
     (Over_flow, ''overflow ''), (Bounds_check, ''bounds ''), (Invalid_opcode, ''invalid_op ''), (Double_fault, ''double fault ''),
     (Coprocessor_segment_overrun, ''coprocessor segment overrun ''), (Invalid_TSS, ''invalid TSS ''),
     (Segment_not_present, ''segment not present ''), (Stack_segment, ''stack segment ''), (Coprocessor_error, ''coprocessor error ''),
     (Reserved, ''reserved '')]"

lemmas trap_handlers = do_divide_error_def do_debug_def do_nmi_def do_int3_def do_overflow_def do_bounds_def do_invalid_op_def
  do_double_fault_def do_coprocessor_segment_overrun_def do_invalid_TSS_def do_segment_not_present_def do_stack_segment_def
  do_coprocessor_error_def do_reserved_def

lemma handler_says: "map_of trap_messages l = Some t \<Longrightarrow> handler l s = say t s"
  by (cases l) (auto simp: trap_messages_def handler_def trap_handlers)

lemma trap_messages_plain:
  "map_of trap_messages l = Some t \<Longrightarrow> 0x5C \<notin> set (bytes_of t) \<and> 0x25 \<notin> set (bytes_of t) \<and> length t \<le> 28"
  by (cases l) (auto simp: trap_messages_def bytes_of_def)

lemma exception_entry_runs:
  assumes "map_of trap_messages l = Some t" and "con_ok (scr s)" and "cursor_x (fg_win (scr s)) \<le> 50"
    and "flat desc (u_ds u)" and "flat desc (u_es u)" and "SAVE_ALL flags u (trap_frame err u s) = (e, m)"
  shows "\<exists>c sp. exception_entry desc l err flags u s = Some (let r = RESET_ALL m e in
        if data_ok desc 0 (u_gs r) \<and> data_ok desc 0 (u_fs r) \<and> data_ok desc 0 (u_es r) \<and> data_ok desc 0 (u_ds r)
        then iret desc sp r else Faulted, (set_mem m s)\<lparr>scr := c\<rparr>)
    \<and> con_ok c \<and> shows_text (bytes_of t) (scr s) c \<and> cursor_x (fg_win c) = 0"
proof -
  have p: "0x5C \<notin> set (bytes_of t)" "0x25 \<notin> set (bytes_of t)" "length t \<le> 28" using trap_messages_plain [OF assms(1)] by auto
  have "unat (cursor_x (fg_win (scr s))) \<le> 50" using assms(3) by (simp add: word_le_nat_alt)
  with message_shown [OF assms(2) p(1,2)] p(3) obtain c where
    "message t (scr s) = Some c" "con_ok c" "shows_text (bytes_of t) (scr s) c" "cursor_x (fg_win c) = 0" by auto
  then show ?thesis
    using assms(4-6)
    by (intro exI [of _ c] exI [of _ "stack_at m e 1 + 60"])
      (simp add: exception_entry_def handler_says [OF assms(1)] say_def set_mem_def Let_def)
qed

text \<open>Registers of a task in its program: the segments pass the checks for the privilege level 3.\<close>

definition user_mode :: "desc_table \<Rightarrow> trap_regs \<Rightarrow> bool" where
  "user_mode desc u \<longleftrightarrow> sel_rpl (u_cs u) = 3 \<and> code_ok desc (u_cs u) \<and> in_limit desc (u_cs u) (u_eip u)
     \<and> stack_ok desc 3 (u_ss u) \<and> data_ok desc 3 (u_ds u) \<and> data_ok desc 3 (u_es u) \<and> data_ok desc 3 (u_fs u) \<and> data_ok desc 3 (u_gs u)
     \<and> \<not> bit (u_eflags u) 17"

lemma data_ok_kernel: "data_ok desc n w \<Longrightarrow> data_ok desc 0 w"
  by (auto simp: data_ok_def split: option.splits)

lemma iret_user_mode: "user_mode desc u \<Longrightarrow> iret desc sp u = Resumed u"
  by (simp add: user_mode_def iret_def visible_def Let_def)


text \<open>
  The entries load no data segment of the kernel. In a process with a number from 1 to 63 the data
  segment starts at 64 MiB times the number, and the handler looks for its message there.
\<close>

lemma child_exception_wrong_data:
  assumes "0 < pid" and "pid < 64" and "desc (sel_of (u_ds u)) = Some (data_desc (TASK_SIZE * of_nat pid))"
  shows "\<exists>m. exception_entry desc l err flags u s = Some (Wrong_data, set_mem m s)"
proof -
  have e: "data_desc (TASK_SIZE * of_nat pid) = (TASK_LIMIT, 0xc0f200 + TASK_SIZE * of_nat pid)"
    using task_base [where pid = pid] by (simp add: data_desc_def)
  have "seg_base (data_desc (TASK_SIZE * of_nat pid)) = TASK_SIZE * of_nat pid"
    by (rule desc_fields(1) [OF _ e]) simp
  moreover have "unat (TASK_SIZE * of_nat pid) = 0x4000000 * pid" using assms(1,2) by (simp add: unat_word_ariths unat_of_nat)
  ultimately have "seg_base (data_desc (TASK_SIZE * of_nat pid)) \<noteq> 0" using assms(1) by (metis mult_eq_0_iff less_irrefl unat_0 zero_neq_numeral)
  then have "\<not> flat desc (u_ds u)" using assms(3) by (simp add: flat_def)
  then show ?thesis by (auto simp: exception_entry_def Let_def split: prod.split)
qed

text \<open>An \<open>iret\<close> that takes the error code for the instruction pointer and the instruction pointer for
  the selector of the code segment: it faults, or it goes on there.\<close>

definition returns_to_code :: "desc_table \<Rightarrow> u32 \<Rightarrow> trap_regs \<Rightarrow> resume \<Rightarrow> bool" where
  "returns_to_code desc err u x \<longleftrightarrow> (\<not> code_ok desc (u_eip u) \<longrightarrow> x = Faulted)
     \<and> (x = Faulted \<or> (\<exists>r. x = Resumed r \<and> u_eip r = err \<and> u_cs r = u_eip u))"

lemma iret_shifted:
  assumes "u_eip r = err" and "u_cs r = u_eip u" and "u_eflags r = u_cs u" and "u_cs u < 0x10000"
  shows "returns_to_code desc err u (iret desc sp r)"
proof -
  have "unat (u_cs u) div 2 ^ 17 = 0" using assms(4) by (simp add: word_less_nat_alt)
  then have "\<not> bit (unat (u_cs u)) 17" by (simp add: bit_iff_odd)
  then have "\<not> bit (u_cs u) 17" by (simp add: bit_unsigned_iff)
  then show ?thesis using assms(1-3) by (simp add: returns_to_code_def iret_def Let_def)
qed

lemma general_protection_returns:
  assumes "trap_stack s" and "u_cs u < 0x10000"
  shows "\<exists>x s'. general_protection desc err u s = Some (x, s') \<and> returns_to_code desc err u x"
proof -
  let ?e = "esp0 (tss (cur_task (kern s)))"
  have k: "4 dvd unat ?e" "4 * length (return_frame u @ [err]) \<le> unat ?e"
    using assms(1) by (simp_all add: trap_stack_def return_frame_def)
  obtain g n where p: "push err (enter_kernel u s) = (g, n)" by fastforce
  then have f: "fold push (return_frame u @ [err]) (?e, mem (kern s)) = (g, n)"
    using trap_frame_push [of "Some err" u s] by (simp add: trap_frame_def)
  have l: "length (return_frame u @ [err]) = 6" by (simp add: return_frame_def)
  note F = fold_push [OF k f, unfolded l]
  have g: "4 dvd unat g" "4 \<le> unat g" "unat g + 12 < 2 ^ 32"
    using F assms(1) unat_u32_bound [of ?e] by (auto simp: trap_stack_def)
  have w: "stack_at n g 0 = err" "stack_at n g 1 = u_eip u" "stack_at n g 2 = u_cs u" using F by (simp_all add: return_frame_def)
  obtain h n' where q: "push g (g, n) = (h, n')" by fastforce
  note Q = push_stack [OF g(1,2) q]
  have "stack_at n' h (Suc 0) = err" "stack_at n' h (Suc 1) = u_eip u" "stack_at n' h (Suc 2) = u_cs u"
    using Q(2) [of 0] Q(2) [of 1] Q(2) [of 2] w g(3) by simp_all
  moreover have "h + 4 = g" using q by (auto simp: push_def)
  then have "stack_at n' g j = stack_at n' h (Suc j)" for j by (auto simp: stack_at_def algebra_simps)
  ultimately have "stack_at n' g 0 = err" "stack_at n' g 1 = u_eip u" "stack_at n' g 2 = u_cs u" by simp_all
  then have "returns_to_code desc err u (iret desc (g + 12) (frame_at n' g u))"
    by (intro iret_shifted assms(2)) (simp_all add: frame_at_def Let_def)
  then show ?thesis
    using p q Q(1) by (simp add: general_protection_def trap_frame_def do_general_protection_def set_mem_def Let_def)
qed


lemma rd32_half: "rd32 m (a + 2) = drop_bit 16 (rd32 m a) OR push_bit 16 (rd32 m (a + 4))"
proof (rule bit_eqI)
  fix n assume "possible_bit TYPE(u32) n"
  then have n: "n < 32" by (simp add: possible_bit_word)
  have B: "bit (word32 [p, q, r, t] 0) i \<longleftrightarrow> (if i < 8 then bit p i else if i < 16 then bit q (i - 8)
      else if i < 24 then bit r (i - 16) else i < 32 \<and> bit t (i - 24))" for p q r t i
    using bit_imp_le_length [of p i] bit_imp_le_length [of q "i - 8"] bit_imp_le_length [of r "i - 16"]
    by (simp add: word32_def bit_or_iff bit_push_bit_iff bit_ucast_iff possible_bit_word) auto
  have a: "a + 4 + 1 = a + 5" "a + 2 + 1 = a + 3" "a + 2 + 2 = a + 4" "a + 2 + 3 = a + 5" by simp_all
  show "bit (rd32 m (a + 2)) n = bit (drop_bit 16 (rd32 m a) OR push_bit 16 (rd32 m (a + 4))) n"
    unfolding rd32_def a bit_or_iff bit_drop_bit_eq bit_push_bit_iff comp_def B using n
    by (simp add: possible_bit_word) (auto simp: not_less)
qed

text \<open>
  C20. The keyboard interrupt pushes its scan code as two bytes and does not remove them, so that
  all registers are popped two bytes too low. \<open>fs\<close> gets the scan code: when that is no selector of
  a usable segment, the processor faults. Otherwise the low half of the flags lies in the place of
  the high half: bit 1 of the flags, which is always set, asks for virtual 8086 mode, and the
  processor faults or goes on in that mode at an address made of the high half of \<open>eax\<close> and the
  low half of the instruction pointer. The task never goes on in its program.
\<close>

theorem keyboard_pops_shifted:
  assumes "trap_stack s" and "do_keyboard_fun scan_code \<lparr>mode = md, con = scr s\<rparr> = Some k" and "bit (u_eflags u) 1"
  shows "\<exists>x m. keyboard_interrupt desc scan_code md u s = Some (x, mode k, (set_mem m s)\<lparr>scr := con k\<rparr>)
    \<and> (\<not> data_ok desc 0 (ucast scan_code) \<longrightarrow> x = Faulted)
    \<and> (x = Faulted \<or> x = Virtual_8086 (drop_bit 16 (u_eip u)) (drop_bit 16 (u_eax u) OR push_bit 16 (u_eip u)))"
proof -
  let ?e = "esp0 (tss (cur_task (kern s)))"
  let ?vs = "return_frame u @ [u_eax u, u_ecx u, u_edx u, u_ds u, u_es u, u_fs u]"
  obtain e m where f: "fold push ?vs (?e, mem (kern s)) = (e, m)" by fastforce
  have k: "4 dvd unat ?e" "4 * length ?vs \<le> unat ?e" and l: "length ?vs = 11"
    using assms(1) by (simp_all add: trap_stack_def return_frame_def)
  note F = fold_push [OF k f, unfolded l]
  have e: "2 \<le> unat e" "unat e + 44 < 2 ^ 32" using F assms(1) unat_u32_bound [of ?e] by (auto simp: trap_stack_def)
  have f': "fold push [u_eax u, u_ecx u, u_edx u, u_ds u, u_es u, u_fs u] (enter_kernel u s) = (e, m)"
    using f unfolding fold_append by (simp add: enter_kernel_def return_frame_def)
  let ?m = "m(e - 2 := ucast scan_code, e - 1 := 0)"
  have above: "?m (e + of_nat j) = m (e + of_nat j)" if "j < 44" for j
  proof -
    have "unat (e + of_nat j) = unat e + j" using that e(2) by (simp add: unat_word_ariths unat_of_nat)
    moreover have "unat (e - 2) = unat e - 2" "unat (e - 1) = unat e - 1"
      using e(1) by (simp_all add: unat_sub word_le_nat_alt)
    ultimately have "e + of_nat j \<noteq> e - 2" "e + of_nat j \<noteq> e - 1" using e(1) by (simp_all add: word_unat_eq_iff)
    then show ?thesis by simp
  qed
  have low: "sel_of (stack_at ?m (e - 2) 0) = ucast scan_code"
    by (rule bit_eqI) (auto simp: sel_of_def low_half stack_at_def rd32_def word32_def bit_simps dest: bit_imp_le_length)
  have w: "stack_at ?m (e - 2) (Suc i) = drop_bit 16 (stack_at m e i) OR push_bit 16 (stack_at m e (Suc i))" if "i < 10" for i
  proof -
    have "rd32 ?m (e + of_nat (4 * i + 2)) = rd32 m (e + of_nat (4 * i + 2))"
      using above [of "4 * i + 2"] above [of "4 * i + 3"] above [of "4 * i + 4"] above [of "4 * i + 5"] that
      by (simp add: rd32_def algebra_simps)
    then show ?thesis using rd32_half [of m "e + 4 * of_nat i"] by (simp add: stack_at_def algebra_simps)
  qed
  have "stack_at m e 5 = u_eax u" "stack_at m e 6 = u_eip u" "stack_at m e 7 = u_cs u" "stack_at m e 8 = u_eflags u"
    using F by (simp_all add: return_frame_def)
  then have c: "stack_at ?m (22 + e) 0 = drop_bit 16 (u_eax u) OR push_bit 16 (u_eip u)"
    "stack_at ?m (22 + e) 1 = drop_bit 16 (u_eip u) OR push_bit 16 (u_cs u)"
    "stack_at ?m (22 + e) 2 = drop_bit 16 (u_cs u) OR push_bit 16 (u_eflags u)"
    using w [of 5] w [of 6] w [of 7] by (simp_all add: stack_at_def algebra_simps)
  have vm: "bit (stack_at ?m (22 + e) 2) 17" unfolding c(3) using assms(3) by (simp add: bit_or_iff bit_push_bit_iff)
  have cs: "sel_of (stack_at ?m (22 + e) 1) = drop_bit 16 (u_eip u)"
    unfolding c(2) sel_of_def low_half by (rule bit_eqI) (auto simp: bit_simps dest: bit_imp_le_length)
  have "drop_bit 8 (ucast scan_code :: u16) = 0" by (rule bit_eqI) (auto simp: bit_simps dest: bit_imp_le_length)
  moreover have "ucast (ucast scan_code :: u16) = scan_code" by (rule bit_eqI) (auto simp: bit_simps)
  ultimately have "push16 (ucast scan_code) (e, m) = (e - 2, ?m)" by (simp add: push16_def)
  moreover have "e - 2 + 24 = 22 + e" by simp
  moreover have "?m (e - 2) = scan_code" by simp
  ultimately show ?thesis
    using f' c(1) cs vm low assms(2) by (auto simp: keyboard_interrupt_def iret_def frame_at_def Let_def)
qed

subsection \<open>Witnesses\<close>

definition sample_trap :: trap_regs where
  "sample_trap = user_regs.extend (sample_regs 0x12345678 0) \<lparr>u_esi = 0, u_edi = 0, u_ebp = 0, u_gs = 0x17\<rparr>"

lemma sample_trap_stack: "trap_stack (sample_machine b)"
  by (simp add: trap_stack_def cur_task_def sample_machine_sel)

lemma sample_machine_scr: "scr (sample_machine b) = sample_console 0 0 0"
  by (simp add: sample_machine_def)

lemma sample_row: "cursor_x (fg_win (sample_console 0 0 0)) = 0"
  by (simp add: fg_win_def sample_defs)

lemma sample_trap_sel: "u_eax sample_trap = 0x12345678" "u_eip sample_trap = 0x1000" "u_cs sample_trap = 0xf"
  by (simp_all add: sample_trap_def sample_regs_def user_regs.defs)

theorem interrupt_table_complete_witness:
  "gate_entry (gate_at 0x5c00 (system_call_init (\<lambda>l. if l = System_call then 0x6d7e else 0) 0x5c00
     (interupt_init (\<lambda>l. if l = System_call then 0x6d7e else 0) 0x5c00
       (exception_init (\<lambda>l. if l = System_call then 0x6d7e else 0) 0x5c00 (\<lambda>_. 0)))) 0x80) = 0x6d7e"
  using interrupt_table_complete [of "0x5c00" "0x80" "\<lambda>l. if l = System_call then 0x6d7e else 0" "\<lambda>_. 0"]
  by (simp add: entry_of_def vector_entries_def Let_def)

text \<open>The tables when the first task runs and the second one is there: kernel code and data, the task
  state segments and local tables of both tasks (descriptors of the system), and the code and
  data of the first task, which start at address 0.\<close>

definition first_task_desc :: desc_table where
  "first_task_desc w = map_of [(0x8, (0xffff, 0xc09a00)), (0x10, (0xffff, 0xc09200)), (0x18, (104, 0x8900)), (0x20, (104, 0x8200)),
     (0x28, (104, 0x8900)), (0x30, (104, 0x8200)), (0xc, (0x4000, 0xc0fa00)), (0x14, (0x4000, 0xc0f200))] (w AND 0xfffc)"

lemmas desc_defs = first_task_desc_def sel_of_def sel_rpl_def sel_null_def seg_dpl_def seg_present_def seg_code_def seg_base_def

lemma first_task_user: "user_mode first_task_desc sample_trap" "flat first_task_desc (u_ds sample_trap)" "flat first_task_desc (u_es sample_trap)"
  by (simp_all add: user_mode_def flat_def code_ok_def data_ok_def stack_ok_def in_limit_def seg_limit_def desc_defs sample_trap_def
      sample_regs_def user_regs.defs Let_def)



text \<open>The scan code of a shift key selects the task state segment of the second task.\<close>

theorem keyboard_pops_shifted_witness:
  "\<exists>md s'. keyboard_interrupt first_task_desc 0x2a 0 sample_trap (sample_machine False) = Some (Faulted, md, s')"
proof -
  have "ring_list (fg_queue (sample_console 0 0 0)) = []"
    "tail_ptr (fg_queue (sample_console 0 0 0)) \<le> head_ptr (fg_queue (sample_console 0 0 0))"
    by (simp_all add: fg_queue_def sample_defs ring_list_def ring_len_def)
  then obtain c where "con_write (sample_console 0 0 0) = Some c"
    using con_write_plain [of "sample_console 0 0 0"] by (force simp: sample_console_ok sample_console_queue)
  moreover have "key_table_func ! 42 = Do_shift" by code_simp
  ultimately obtain k where "do_keyboard_fun 0x2a \<lparr>mode = 0, con = scr (sample_machine False)\<rparr> = Some k"
    by (simp add: sample_machine_scr do_keyboard_fun_def Let_def length_tables do_shift_def)
  moreover have "bit (u_eflags sample_trap) 1" by (simp add: sample_trap_def sample_regs_def user_regs.defs)
  moreover have "\<not> data_ok first_task_desc 0 (ucast (0x2a :: u8))" by (simp add: data_ok_def desc_defs)
  ultimately show ?thesis using keyboard_pops_shifted [OF sample_trap_stack, of "0x2a" 0 False k sample_trap first_task_desc] by auto
qed

end
