(* ===== verification/Hd.thy ===== *)
theory Hd
  imports Buffer_Cache
begin

unbundle bit_operations_syntax

section \<open>The disk driver\<close>

text \<open>
  Models drivers/hd_request_queue.c, drivers/hd_device.c, include/hd.h and the two routines
  \<open>read_disk\<close> and \<open>write_disk\<close> of init/head.s. Sector numbers are 32-bit words. The disk is an
  array of sectors of 512 bytes; the state holds the bytes last written to the registers of the
  controller, and the sector that a transfer moves is the one these registers address. What the
  status and the error register of the controller hold at the \<open>i\<close>-th access is given by the
  parameters \<open>status\<close> and \<open>error_reg\<close>; the state counts the accesses.

  Requests are numbered as in the array \<open>request\<close>. The position of a request in its buffer
  is an offset. The tasks that \<open>end_request\<close> wakes are not part of this state; a task that
  would sleep gives \<open>None\<close>.
\<close>

subsection \<open>Data\<close>

abbreviation NR_REQUEST :: nat where "NR_REQUEST \<equiv> 32"
abbreviation MAX_ERRORS :: nat where "MAX_ERRORS \<equiv> 7"

abbreviation ERR_STAT :: u8 where "ERR_STAT \<equiv> 0x01"
abbreviation DRQ_STAT :: u8 where "DRQ_STAT \<equiv> 0x08"
abbreviation SEEK_STAT :: u8 where "SEEK_STAT \<equiv> 0x10"
abbreviation WRERR_STAT :: u8 where "WRERR_STAT \<equiv> 0x20"
abbreviation READY_STAT :: u8 where "READY_STAT \<equiv> 0x40"
abbreviation BUSY_STAT :: u8 where "BUSY_STAT \<equiv> 0x80"

record hd_request =
  rq_cmd :: u32
  rq_errors :: nat
  rq_nr_sectors :: nat
  rq_sector :: u32
  rq_lock :: u32
  rq_buffer :: nat
  rq_bh :: nat
  rq_next :: "nat option"

record hd_struct =
  hd_max_size :: u32
  hd_max_block :: u32
  hd_cyl :: u16
  hd_head :: u8
  hd_sectors :: u8
  hd_cyl_sectors :: u16
  hd_total_sectors :: u32

record hd =
  request :: "hd_request list"
  first_req :: "nat option"
  hd_reset :: bool
  hd_bufs :: "nat \<Rightarrow> buffer_head"
  task_file :: "u16 \<Rightarrow> u8"
  sector_of :: "nat \<Rightarrow> u8 list"
  accesses :: nat

definition upd_req :: "nat \<Rightarrow> (hd_request \<Rightarrow> hd_request) \<Rightarrow> hd \<Rightarrow> hd" where
  "upd_req r f h = h\<lparr>request := (request h)[r := f (request h ! r)]\<rparr>"

definition upd_bh :: "nat \<Rightarrow> (buffer_head \<Rightarrow> buffer_head) \<Rightarrow> hd \<Rightarrow> hd" where
  "upd_bh b f h = h\<lparr>hd_bufs := (hd_bufs h)(b := f (hd_bufs h b))\<rparr>"

subsection \<open>The controller\<close>

definition win_result :: "(nat \<Rightarrow> u8) \<Rightarrow> (nat \<Rightarrow> u8) \<Rightarrow> hd \<Rightarrow> u8 \<times> hd" where
  "win_result status error_reg h =
     (let st = status (accesses h);
          h = h\<lparr>accesses := accesses h + 1\<rparr>
      in if st AND (BUSY_STAT OR WRERR_STAT OR ERR_STAT OR READY_STAT OR SEEK_STAT) = READY_STAT OR SEEK_STAT then (0, h)
         else if st AND ERR_STAT \<noteq> 0 then (error_reg (accesses h), h\<lparr>accesses := accesses h + 1\<rparr>)
         else (1, h))"

definition drive_busy :: "(nat \<Rightarrow> u8) \<Rightarrow> hd \<Rightarrow> bool \<times> hd" where
  "drive_busy status h = (status (accesses h) AND BUSY_STAT \<noteq> 0, h\<lparr>accesses := accesses h + 1\<rparr>)"

text \<open>\<open>while (--retries && ...)\<close>: the result is the number of retries left.\<close>

fun ready_loop :: "(nat \<Rightarrow> u8) \<Rightarrow> nat \<Rightarrow> hd \<Rightarrow> nat \<times> hd" where
  "ready_loop status 0 h = (0, h)"
| "ready_loop status (Suc n) h =
     (if n = 0 then (0, h)
      else let st = status (accesses h); h = h\<lparr>accesses := accesses h + 1\<rparr>
           in if st AND 0xc0 \<noteq> READY_STAT then ready_loop status n h else (n, h))"

definition controller_ready :: "(nat \<Rightarrow> u8) \<Rightarrow> hd \<Rightarrow> nat \<times> hd" where
  "controller_ready status h = ready_loop status 100000 h"

text \<open>Polling for the data request bit.\<close>

partial_function (option) wait_drq :: "(nat \<Rightarrow> u8) \<Rightarrow> hd \<Rightarrow> hd option" where
  "wait_drq status h =
     (let st = status (accesses h); h = h\<lparr>accesses := accesses h + 1\<rparr>
      in if st AND DRQ_STAT = 0 then wait_drq status h else Some h)"

text \<open>A byte is written to a register of the controller.\<close>

definition hd_outb :: "u16 \<Rightarrow> u8 \<Rightarrow> hd \<Rightarrow> hd" where
  "hd_outb port v h = h\<lparr>task_file := (task_file h)(port := v)\<rparr>"

text \<open>The two routines take the sector number in \<open>eax\<close>, where the compiled calls leave their
  argument (tools/system.txt). They write the number of sectors, the four bytes of the sector
  number, the last one together with the bits for logical block addresses, and the command.\<close>

definition read_disk :: "u32 \<Rightarrow> hd \<Rightarrow> hd" where
  "read_disk sector h =
     (let h = hd_outb 0x1f2 1 h;
          h = hd_outb 0x1f3 (ucast sector) h;
          sector = drop_bit 8 sector;
          h = hd_outb 0x1f4 (ucast sector) h;
          sector = drop_bit 8 sector;
          h = hd_outb 0x1f5 (ucast sector) h;
          sector = drop_bit 8 sector;
          h = hd_outb 0x1f6 (ucast sector OR 0xe0) h
      in hd_outb 0x1f7 0x20 h)"

definition write_disk :: "u32 \<Rightarrow> hd \<Rightarrow> hd" where
  "write_disk sector h =
     (let h = hd_outb 0x1f2 1 h;
          h = hd_outb 0x1f3 (ucast sector) h;
          sector = drop_bit 8 sector;
          h = hd_outb 0x1f4 (ucast sector) h;
          sector = drop_bit 8 sector;
          h = hd_outb 0x1f5 (ucast sector) h;
          sector = drop_bit 8 sector;
          h = hd_outb 0x1f6 (ucast sector OR 0xe0) h
      in hd_outb 0x1f7 0x30 h)"

text \<open>The sector that the registers address: 28 bits, the highest four of them in the register
  \<open>0x1f6\<close>, whose bit 4 selects the second drive; its sectors are numbered from \<open>2 ^ 28\<close> on. The
  bit of logical block addresses has to be set, one sector has to be asked for, and the command has
  to be that of the transfer; otherwise the transfer fails.\<close>

definition lba :: "hd \<Rightarrow> nat" where
  "lba h = unat (task_file h 0x1f3) + unat (task_file h 0x1f4) * 2 ^ 8 + unat (task_file h 0x1f5) * 2 ^ 16
     + unat (task_file h 0x1f6 AND 0x1f) * 2 ^ 24"

definition commanded :: "u8 \<Rightarrow> hd \<Rightarrow> bool" where
  "commanded cmd h \<longleftrightarrow> task_file h 0x1f7 = cmd \<and> task_file h 0x1f2 = 1 \<and> task_file h 0x1f6 AND 0x40 \<noteq> 0"

definition port_read :: "hd \<Rightarrow> u8 list option" where
  "port_read h = (if commanded 0x20 h then Some (sector_of h (lba h)) else None)"

definition port_write :: "u8 list \<Rightarrow> hd \<Rightarrow> hd option" where
  "port_write bytes h = (if commanded 0x30 h then Some (h\<lparr>sector_of := (sector_of h)(lba h := bytes)\<rparr>) else None)"

text \<open>The bytes that are written to the ports from \<open>HD_NSECTOR\<close> on.\<close>

definition hd_out :: "u16 \<Rightarrow> u16 \<Rightarrow> u16 \<Rightarrow> u16 \<Rightarrow> u16 \<Rightarrow> (u16 \<times> u8) list" where
  "hd_out cyl head sec cmd nsect =
     [(0x1f2, ucast nsect), (0x1f3, ucast sec), (0x1f4, ucast cyl), (0x1f5, ucast (drop_bit 8 cyl)),
      (0x1f6, 0xa0 OR ucast head), (0x1f7, ucast cmd)]"

definition hd_init :: "u8 \<Rightarrow> u8 \<Rightarrow> hd_struct \<times> (u16 \<times> u8) list" where
  "hd_init mask1 mask2 =
     (let cyl = 520; head = 16; sectors = 63; total = cyl * head * sectors; mx = total * 512
      in (\<lparr>hd_max_size = mx, hd_max_block = drop_bit 10 mx, hd_cyl = ucast cyl, hd_head = ucast head,
           hd_sectors = ucast sectors, hd_cyl_sectors = ucast (head * sectors), hd_total_sectors = total\<rparr>,
          [(0x21, mask1 AND 0xfb), (0xa1, mask2 AND 0xbf)]))"

subsection \<open>Requests\<close>

text \<open>The local variable that holds the request is not initialised: without a free request it is
  used as it is.\<close>

definition get_request :: "hd \<Rightarrow> nat option" where
  "get_request h = find_from (\<lambda>q. rq_lock q = 0) (take NR_REQUEST (request h)) 0"

text \<open>The request that ends is always the first one.\<close>

definition end_request :: "nat \<Rightarrow> hd \<Rightarrow> hd option" where
  "end_request r h = do {
     let h = upd_req r (\<lambda>q. q\<lparr>rq_lock := atomic_dec (rq_lock q)\<rparr>) h;
     let h = upd_bh (rq_bh (request h ! r)) (\<lambda>b. b\<lparr>b_lock := atomic_dec (b_lock b)\<rparr>) h;
     f \<leftarrow> first_req h;
     Some (h\<lparr>first_req := rq_next (request h ! f)\<rparr>) }"

text \<open>After the request has been ended the next one is looked at, or the null pointer.\<close>

definition bad_rw_intr :: "hd \<Rightarrow> hd option" where
  "bad_rw_intr h = do {
     r \<leftarrow> first_req h;
     let h = upd_req r (\<lambda>q. q\<lparr>rq_errors := rq_errors q + 1\<rparr>) h;
     h \<leftarrow> (if rq_errors (request h ! r) > MAX_ERRORS then end_request r h else Some h);
     r \<leftarrow> first_req h;
     Some (if rq_errors (request h ! r) > MAX_ERRORS div 2 then h\<lparr>hd_reset := True\<rparr> else h) }"

text \<open>The transfer of one sector, with the command for it.\<close>

definition read_sector :: "(nat \<Rightarrow> u8) \<Rightarrow> nat \<Rightarrow> hd \<Rightarrow> hd option" where
  "read_sector status r h = do {
     let q = request h ! r;
     h \<leftarrow> wait_drq status (read_disk (rq_sector q) h);
     bytes \<leftarrow> port_read h;
     let h = upd_bh (rq_bh q) (\<lambda>b. b\<lparr>b_data := take (rq_buffer q) (b_data b) @ bytes
                                                @ drop (rq_buffer q + 512) (b_data b)\<rparr>) h;
     Some (upd_req r (\<lambda>q. q\<lparr>rq_errors := 0, rq_buffer := rq_buffer q + 512, rq_sector := rq_sector q + 1,
                            rq_nr_sectors := rq_nr_sectors q - 1\<rparr>) h) }"

definition write_sector :: "(nat \<Rightarrow> u8) \<Rightarrow> nat \<Rightarrow> hd \<Rightarrow> hd option" where
  "write_sector status r h = do {
     let q = request h ! r;
     h \<leftarrow> wait_drq status (write_disk (rq_sector q) h);
     h \<leftarrow> port_write (take 512 (drop (rq_buffer q) (b_data (hd_bufs h (rq_bh q))))) h;
     Some (upd_req r (\<lambda>q. q\<lparr>rq_errors := 0, rq_buffer := rq_buffer q + 512, rq_sector := rq_sector q + 1,
                            rq_nr_sectors := rq_nr_sectors q - 1\<rparr>) h) }"

text \<open>\<open>do_hd_request\<close>, \<open>read_intr\<close> and \<open>write_intr\<close> call each other; the first parameter says which of
  them runs.\<close>

datatype hd_call = Do_hd_request | Read_intr | Write_intr

partial_function (option) hd_run :: "(nat \<Rightarrow> u8) \<Rightarrow> (nat \<Rightarrow> u8) \<Rightarrow> hd_call \<Rightarrow> hd \<Rightarrow> hd option" where
  "hd_run status error_reg call h =
     (case first_req h of
        None \<Rightarrow> if call = Do_hd_request then Some h else None
      | Some r \<Rightarrow>
          if call = Do_hd_request
          then (if rq_cmd (request h ! r) = FILE_READ then hd_run status error_reg Read_intr h
                else if rq_cmd (request h ! r) = FILE_WRITE then hd_run status error_reg Write_intr h
                else Some h)
          else case win_result status error_reg h of (res, h) \<Rightarrow>
            if res \<noteq> 0
            then Option.bind (bad_rw_intr h) (\<lambda>h. hd_run status error_reg Do_hd_request h)
            else Option.bind (if call = Read_intr then read_sector status r h else write_sector status r h) (\<lambda>h.
              if rq_nr_sectors (request h ! r) > 0 then hd_run status error_reg call h
              else Option.bind (end_request r h) (\<lambda>h. hd_run status error_reg Do_hd_request h)))"

definition do_hd_request :: "(nat \<Rightarrow> u8) \<Rightarrow> (nat \<Rightarrow> u8) \<Rightarrow> hd \<Rightarrow> hd option" where
  "do_hd_request status error_reg h = hd_run status error_reg Do_hd_request h"

definition hd_times_out :: "(nat \<Rightarrow> u8) \<Rightarrow> (nat \<Rightarrow> u8) \<Rightarrow> hd \<Rightarrow> hd option" where
  "hd_times_out status error_reg h =
     (case first_req h of
        None \<Rightarrow> Some h
      | Some r \<Rightarrow> do {
          let h = upd_req r (\<lambda>q. q\<lparr>rq_errors := rq_errors q + 1\<rparr>) h;
          h \<leftarrow> (if rq_errors (request h ! r) \<ge> MAX_ERRORS then end_request r h else Some h);
          do_hd_request status error_reg (h\<lparr>hd_reset := True\<rparr>) })"

text \<open>The place of a request in the queue: behind the requests with a sector that is not smaller.
  The result is the predecessor, which is not set at first, and the successor.\<close>

partial_function (option) insert_place :: "nat option \<Rightarrow> nat option \<Rightarrow> nat \<Rightarrow> hd \<Rightarrow> (nat option \<times> nat option) option" where
  "insert_place prev tmp r h =
     (case tmp of
        None \<Rightarrow> Some (prev, None)
      | Some q \<Rightarrow> if sint (rq_sector (request h ! r)) > sint (rq_sector (request h ! q)) then Some (prev, tmp)
                  else insert_place tmp (rq_next (request h ! q)) r h)"

definition read_write_block :: "(nat \<Rightarrow> u8) \<Rightarrow> (nat \<Rightarrow> u8) \<Rightarrow> u32 \<Rightarrow> nat \<Rightarrow> hd \<Rightarrow> hd option" where
  "read_write_block status error_reg rw bh h = do {
     r \<leftarrow> get_request h;
     let h = upd_bh bh (\<lambda>b. b\<lparr>b_lock := atomic_inc (b_lock b)\<rparr>) h;
     let h = upd_req r (\<lambda>q. q\<lparr>rq_lock := atomic_inc (rq_lock q), rq_cmd := rw, rq_errors := 0, rq_bh := bh,
               rq_nr_sectors := 2, rq_sector := of_nat (b_block (hd_bufs h bh)) * 2, rq_buffer := 0\<rparr>) h;
     case first_req h of
       None \<Rightarrow> do_hd_request status error_reg (h\<lparr>first_req := Some r\<rparr>)
     | Some f \<Rightarrow> do {
         (prev, tmp) \<leftarrow> insert_place None (Some f) r h;
         let h = upd_req r (\<lambda>q. q\<lparr>rq_next := tmp\<rparr>) h;
         p \<leftarrow> prev;
         Some (upd_req p (\<lambda>q. q\<lparr>rq_next := Some r\<rparr>) h) } }"


subsection \<open>A ready controller\<close>

text \<open>The controller reports no error, and asks for data again and again.\<close>

definition drive_ready :: "(nat \<Rightarrow> u8) \<Rightarrow> bool" where
  "drive_ready status \<longleftrightarrow> (\<forall>i. status i AND 0xf1 = 0x50) \<and> (\<forall>i. \<exists>j \<ge> i. status j AND DRQ_STAT \<noteq> 0)"

definition hd_idle :: "hd \<Rightarrow> bool" where
  "hd_idle h \<longleftrightarrow> first_req h = None \<and> length (request h) = NR_REQUEST \<and> rq_lock (request h ! 0) = 0
     \<and> rq_next (request h ! 0) = None \<and> (\<forall>n. length (sector_of h n) = 512)"

lemma wait_drq_ends:
  assumes "drive_ready status"
  shows "\<exists>k. wait_drq status h = Some (h\<lparr>accesses := k\<rparr>)"
proof -
  obtain j where j: "j \<ge> accesses h" "status j AND DRQ_STAT \<noteq> 0" using assms by (auto simp: drive_ready_def)
  then show ?thesis
  proof (induction "j - accesses h" arbitrary: h)
    case 0
    then show ?case by (subst wait_drq.simps) (auto simp: Let_def)
  next
    case (Suc n)
    show ?case
    proof (cases "status (accesses h) AND DRQ_STAT = 0")
      case True
      let ?h = "h\<lparr>accesses := accesses h + 1\<rparr>"
      have "n = j - accesses ?h" "accesses ?h \<le> j" using Suc.hyps(2) by simp_all
      from Suc.hyps(1) [OF this Suc.prems(2)] obtain k where "wait_drq status ?h = Some (?h\<lparr>accesses := k\<rparr>)" by blast
      then show ?thesis using True by (subst wait_drq.simps) (auto simp: Let_def)
    next
      case False
      then show ?thesis by (subst wait_drq.simps) (auto simp: Let_def)
    qed
  qed
qed

lemma win_result_ready:
  assumes "drive_ready status"
  shows "win_result status error_reg h = (0, h\<lparr>accesses := accesses h + 1\<rparr>)"
  using assms by (simp add: win_result_def drive_ready_def Let_def)

text \<open>The sector that the routines make the registers address: the sector of the number, which is
  29 bits for the drive.\<close>

definition drive_sector :: "u32 \<Rightarrow> nat" where
  "drive_sector sector = unat sector mod 2 ^ 29"

lemma drive_sector_bytes:
  "unat (ucast sector :: u8) + unat (ucast (drop_bit 8 sector) :: u8) * 2 ^ 8
     + unat (ucast (drop_bit 8 (drop_bit 8 sector)) :: u8) * 2 ^ 16
     + unat ((ucast (drop_bit 8 (drop_bit 8 (drop_bit 8 sector))) OR 0xe0) AND 0x1f :: u8) * 2 ^ 24 = drive_sector sector"
  for sector :: u32
proof -
  let ?n = "unat sector"
  have or: "(x OR 0xe0) AND 0x1f = x AND 0x1f" for x :: u8
    by (simp add: bit.conj_disj_distrib2)
  have m: "(0x1f :: u8) = mask 5" by (simp add: mask_eq_exp_minus_1)
  have b: "unat (ucast x :: u8) = unat x mod 256" for x :: u32
    by (simp add: unsigned_ucast_eq unsigned_take_bit_eq take_bit_eq_mod)
  have d: "unat (drop_bit 8 x) = unat x div 256" for x :: u32 by (simp add: drop_bit_eq_div unat_div)
  have "unat (ucast x AND mask 5 :: u8) = unat x mod 32" for x :: u32
  proof -
    have "unat (ucast x AND mask 5 :: u8) = unat (ucast x :: u8) mod 32"
      by (simp flip: take_bit_eq_mask add: take_bit_eq_mod unat_mod)
    then show ?thesis by (simp add: b mod_mod_cancel)
  qed
  moreover have "?n mod 256 + ?n div 256 mod 256 * 256 + ?n div 256 div 256 mod 256 * 65536 + ?n div 256 div 256 div 256 mod 32 * 16777216
     = ?n mod 536870912"
    using mod_mult2_eq [of ?n 256 2097152] mod_mult2_eq [of "?n div 256" 256 8192] mod_mult2_eq [of "?n div 256 div 256" 256 32] by simp
  ultimately show ?thesis unfolding or drive_sector_def unfolding m by (simp del: drop_bit_drop_bit add: b d)
qed

lemma regs_accesses [simp]: "lba (h\<lparr>accesses := k\<rparr>) = lba h" "commanded cmd (h\<lparr>accesses := k\<rparr>) = commanded cmd h"
  by (simp_all add: lba_def commanded_def)

lemma and_or_distrib: "((x OR 0xe0) AND 0x40 :: u8) = 0x40"
  by (simp add: bit.conj_disj_distrib2)

lemma read_disk_regs [simp]:
  "lba (read_disk sector h) = drive_sector sector" "commanded 0x20 (read_disk sector h)"
  "request (read_disk sector h) = request h" "hd_bufs (read_disk sector h) = hd_bufs h"
  "sector_of (read_disk sector h) = sector_of h" "first_req (read_disk sector h) = first_req h"
  "accesses (read_disk sector h) = accesses h" "read_disk sector (h\<lparr>accesses := k\<rparr>) = read_disk sector h\<lparr>accesses := k\<rparr>"
  using drive_sector_bytes [of sector]
  by (simp_all add: lba_def commanded_def read_disk_def hd_outb_def Let_def and_or_distrib)

lemma write_disk_regs [simp]:
  "lba (write_disk sector h) = drive_sector sector" "commanded 0x30 (write_disk sector h)"
  "request (write_disk sector h) = request h" "hd_bufs (write_disk sector h) = hd_bufs h"
  "sector_of (write_disk sector h) = sector_of h" "first_req (write_disk sector h) = first_req h"
  "accesses (write_disk sector h) = accesses h" "write_disk sector (h\<lparr>accesses := k\<rparr>) = write_disk sector h\<lparr>accesses := k\<rparr>"
  using drive_sector_bytes [of sector]
  by (simp_all add: lba_def commanded_def write_disk_def hd_outb_def Let_def and_or_distrib)

text \<open>One sector is read into, or written from, the buffer.\<close>

definition sector_read :: "nat \<Rightarrow> hd \<Rightarrow> hd" where
  "sector_read r h =
     (let q = request h ! r
      in upd_req r (\<lambda>q. q\<lparr>rq_errors := 0, rq_buffer := rq_buffer q + 512, rq_sector := rq_sector q + 1,
                          rq_nr_sectors := rq_nr_sectors q - 1\<rparr>)
           (upd_bh (rq_bh q) (\<lambda>b. b\<lparr>b_data := take (rq_buffer q) (b_data b) @ sector_of h (drive_sector (rq_sector q))
                                                @ drop (rq_buffer q + 512) (b_data b)\<rparr>) (read_disk (rq_sector q) h)))"

definition sector_written :: "nat \<Rightarrow> hd \<Rightarrow> hd" where
  "sector_written r h =
     (let q = request h ! r
      in upd_req r (\<lambda>q. q\<lparr>rq_errors := 0, rq_buffer := rq_buffer q + 512, rq_sector := rq_sector q + 1,
                          rq_nr_sectors := rq_nr_sectors q - 1\<rparr>)
           ((write_disk (rq_sector q) h)\<lparr>sector_of := (sector_of h)(drive_sector (rq_sector q) :=
              take 512 (drop (rq_buffer q) (b_data (hd_bufs h (rq_bh q)))))\<rparr>))"

lemma hd_run_sector:
  assumes "drive_ready status" and "first_req h = Some r" and "call \<noteq> Do_hd_request"
    and "f = (if call = Read_intr then sector_read r else sector_written r)"
  shows "\<exists>k. hd_run status error_reg call h =
     (let t = f (h\<lparr>accesses := k\<rparr>)
      in if rq_nr_sectors (request t ! r) > 0 then hd_run status error_reg call t
         else Option.bind (end_request r t) (\<lambda>h. hd_run status error_reg Do_hd_request h))"
proof -
  let ?q = "rq_sector (request h ! r)"
  define g where "g = (if call = Read_intr then read_disk ?q h else write_disk ?q h)"
  obtain k where k: "wait_drq status (g\<lparr>accesses := accesses h + 1\<rparr>) = Some (g\<lparr>accesses := k\<rparr>)"
    using wait_drq_ends [OF assms(1), of "g\<lparr>accesses := accesses h + 1\<rparr>"] by auto
  show ?thesis
    using assms(2-4) k
    by (intro exI [of _ k], subst hd_run.simps)
       (cases "call = Read_intr"; simp add: win_result_ready [OF assms(1)] Let_def g_def read_sector_def write_sector_def
          sector_read_def sector_written_def port_read_def port_write_def)
qed

lemma hd_frame [simp]:
  "hd_bufs (upd_req r f h) = hd_bufs h" "sector_of (upd_req r f h) = sector_of h" "first_req (upd_req r f h) = first_req h"
  "request (upd_bh b g h) = request h" "sector_of (upd_bh b g h) = sector_of h" "first_req (upd_bh b g h) = first_req h"
  "length (request (upd_req r f h)) = length (request h)" "hd_bufs (upd_bh b g h) = (hd_bufs h)(b := g (hd_bufs h b))"
  "r < length (request h) \<Longrightarrow> request (upd_req r f h) ! r = f (request h ! r)"
  by (simp_all add: upd_req_def upd_bh_def)

lemma sector_frame:
  assumes "r < length (request h)"
  shows "first_req (sector_read r h) = first_req h" "first_req (sector_written r h) = first_req h"
    "length (request (sector_read r h)) = length (request h)" "length (request (sector_written r h)) = length (request h)"
    "request (sector_read r h) ! r = (request h ! r)\<lparr>rq_errors := 0, rq_buffer := rq_buffer (request h ! r) + 512,
       rq_sector := rq_sector (request h ! r) + 1, rq_nr_sectors := rq_nr_sectors (request h ! r) - 1\<rparr>"
    "request (sector_written r h) ! r = (request h ! r)\<lparr>rq_errors := 0, rq_buffer := rq_buffer (request h ! r) + 512,
       rq_sector := rq_sector (request h ! r) + 1, rq_nr_sectors := rq_nr_sectors (request h ! r) - 1\<rparr>"
    "sector_of (sector_read r h) = sector_of h" "hd_bufs (sector_written r h) = hd_bufs h"
    "hd_bufs (sector_read r h) = (hd_bufs h)(rq_bh (request h ! r) := (hd_bufs h (rq_bh (request h ! r)))\<lparr>b_data :=
       take (rq_buffer (request h ! r)) (b_data (hd_bufs h (rq_bh (request h ! r)))) @ sector_of h (drive_sector (rq_sector (request h ! r)))
         @ drop (rq_buffer (request h ! r) + 512) (b_data (hd_bufs h (rq_bh (request h ! r))))\<rparr>)"
    "sector_of (sector_written r h) = (sector_of h)(drive_sector (rq_sector (request h ! r)) :=
       take 512 (drop (rq_buffer (request h ! r)) (b_data (hd_bufs h (rq_bh (request h ! r))))))"
  using assms by (simp_all add: sector_read_def sector_written_def Let_def)

text \<open>A request of two sectors at the head of a queue of one.\<close>

lemma hd_run_two_sectors:
  assumes "drive_ready status" and "first_req h = Some 0" and "length (request h) = NR_REQUEST"
    and "rq_nr_sectors (request h ! 0) = 2" and "rq_next (request h ! 0) = None" and "call \<noteq> Do_hd_request"
    and "f = (if call = Read_intr then sector_read 0 else sector_written 0)"
  obtains k l where "hd_run status error_reg call h
      = end_request 0 (f ((f (h\<lparr>accesses := k\<rparr>))\<lparr>accesses := l\<rparr>))"
    and "\<And>t. end_request 0 (f ((f (h\<lparr>accesses := k\<rparr>))\<lparr>accesses := l\<rparr>)) = Some t \<Longrightarrow> first_req t = None"
proof -
  obtain k where k: "hd_run status error_reg call h = (let t = f (h\<lparr>accesses := k\<rparr>)
      in if rq_nr_sectors (request t ! 0) > 0 then hd_run status error_reg call t
         else Option.bind (end_request 0 t) (\<lambda>h. hd_run status error_reg Do_hd_request h))"
    using hd_run_sector [OF assms(1,2,6,7)] by blast
  define t1 where "t1 = f (h\<lparr>accesses := k\<rparr>)"
  have t1: "first_req t1 = Some 0" "length (request t1) = NR_REQUEST" "rq_nr_sectors (request t1 ! 0) = 1"
    "rq_next (request t1 ! 0) = None"
    using assms(2-5,7) by (simp_all add: t1_def sector_frame)
  obtain l where l: "hd_run status error_reg call t1 = (let t = f (t1\<lparr>accesses := l\<rparr>)
      in if rq_nr_sectors (request t ! 0) > 0 then hd_run status error_reg call t
         else Option.bind (end_request 0 t) (\<lambda>h. hd_run status error_reg Do_hd_request h))"
    using hd_run_sector [OF assms(1) t1(1) assms(6,7)] by blast
  define t2 where "t2 = f (t1\<lparr>accesses := l\<rparr>)"
  have t2: "first_req t2 = Some 0" "length (request t2) = NR_REQUEST" "rq_nr_sectors (request t2 ! 0) = 0"
    "rq_next (request t2 ! 0) = None"
    using t1 assms(7) by (simp_all add: t2_def sector_frame)
  have none: "first_req t = None" if "end_request 0 t2 = Some t" for t
    using that t2(1,2,4) by (auto simp: end_request_def Let_def)
  have "hd_run status error_reg call h = Option.bind (end_request 0 t2) (\<lambda>h. hd_run status error_reg Do_hd_request h)"
    using k l t1(3) t2(3) by (simp add: t1_def [symmetric] t2_def [symmetric])
  also have "\<dots> = end_request 0 t2"
    using none by (cases "end_request 0 t2") (simp_all add: hd_run.simps)
  finally show thesis using none unfolding t2_def t1_def by (rule that)
qed

subsection \<open>The driver implements the transfer\<close>

text \<open>The buffer cache that sees the disk of the driver: block \<open>n\<close> is made of sectors \<open>2 n\<close> and
  \<open>2 n + 1\<close>.\<close>

definition hd_cache :: "bcache \<Rightarrow> hd \<Rightarrow> bcache" where
  "hd_cache c h = c\<lparr>bufs := hd_bufs h, disk := (\<lambda>n. sector_of h (2 * n) @ sector_of h (2 * n + 1))\<rparr>"

lemma end_first:
  assumes "first_req h = Some 0" and "length (request h) = NR_REQUEST"
  shows "end_request 0 h = Some (upd_bh (rq_bh (request h ! 0)) (\<lambda>b. b\<lparr>b_lock := atomic_dec (b_lock b)\<rparr>)
      (upd_req 0 (\<lambda>q. q\<lparr>rq_lock := atomic_dec (rq_lock q)\<rparr>) h)\<lparr>first_req := rq_next (request h ! 0)\<rparr>)"
  using assms by (simp add: end_request_def Let_def)

text \<open>The request that \<open>read_write_block\<close> queues when the queue is idle, and the routine that moves its
  sectors.\<close>

definition queued :: "u32 \<Rightarrow> nat \<Rightarrow> hd \<Rightarrow> hd" where
  "queued rw b h = upd_req 0 (\<lambda>q. q\<lparr>rq_lock := atomic_inc (rq_lock q), rq_cmd := rw, rq_errors := 0, rq_bh := b,
      rq_nr_sectors := 2, rq_sector := of_nat (b_block (hd_bufs h b)) * 2, rq_buffer := 0\<rparr>)
      (upd_bh b (\<lambda>b. b\<lparr>b_lock := atomic_inc (b_lock b)\<rparr>) h)\<lparr>first_req := Some 0\<rparr>"

definition mover :: "u32 \<Rightarrow> hd \<Rightarrow> hd" where
  "mover rw = (if rw = FILE_READ then sector_read 0 else sector_written 0)"

lemma queued_fields:
  assumes "hd_idle h" and "b_lock (hd_bufs h b) = 0"
  shows "first_req (queued rw b h) = Some 0" "length (request (queued rw b h)) = NR_REQUEST"
    "rq_nr_sectors (request (queued rw b h) ! 0) = 2" "rq_next (request (queued rw b h) ! 0) = None"
    "rq_bh (request (queued rw b h) ! 0) = b" "rq_sector (request (queued rw b h) ! 0) = of_nat (b_block (hd_bufs h b)) * 2"
    "rq_buffer (request (queued rw b h) ! 0) = 0" "rq_lock (request (queued rw b h) ! 0) = 1" "rq_cmd (request (queued rw b h) ! 0) = rw"
    "sector_of (queued rw b h) = sector_of h" "hd_bufs (queued rw b h) = (hd_bufs h)(b := (hd_bufs h b)\<lparr>b_lock := 1\<rparr>)"
  using assms by (simp_all add: queued_def hd_idle_def atomic_inc_def)

lemma read_write_block_runs:
  assumes "drive_ready status" and "hd_idle h" and "b_lock (hd_bufs h b) = 0" and "rw = FILE_READ \<or> rw = FILE_WRITE"
  obtains k l where "read_write_block status error_reg rw b h
    = end_request 0 (mover rw ((mover rw ((queued rw b h)\<lparr>accesses := k\<rparr>))\<lparr>accesses := l\<rparr>))"
proof -
  note q = queued_fields [OF assms(2,3)]
  define call where "call = (if rw = FILE_READ then Read_intr else Write_intr)"
  have "get_request h = Some 0"
    using assms(2) by (cases "request h") (auto simp: hd_idle_def get_request_def)
  then have "read_write_block status error_reg rw b h = hd_run status error_reg Do_hd_request (queued rw b h)"
    using assms(2) by (simp add: read_write_block_def do_hd_request_def Let_def queued_def hd_idle_def)
  also have "\<dots> = hd_run status error_reg call (queued rw b h)"
    using assms(4) q(1,9) by (subst hd_run.simps) (auto simp: call_def)
  finally have run: "read_write_block status error_reg rw b h = hd_run status error_reg call (queued rw b h)" .
  have "call \<noteq> Do_hd_request" and m: "mover rw = (if call = Read_intr then sector_read 0 else sector_written 0)"
    by (simp_all add: call_def mover_def)
  then show thesis using that run by (metis hd_run_two_sectors [OF assms(1) q(1-4) _ m])
qed

text \<open>The sectors of a block on the first drive.\<close>

lemma block_drive_sectors:
  assumes "n < 2 ^ 27"
  shows "drive_sector (of_nat n * 2) = 2 * n" "drive_sector (of_nat n * 2 + 1) = 2 * n + 1"
proof -
  have "unat (of_nat (2 * n) :: u32) = 2 * n" "unat (of_nat (2 * n + 1) :: u32) = 2 * n + 1"
    using assms by (simp_all only: unat_of_nat) (simp_all add: take_bit_eq_mod)
  then show "drive_sector (of_nat n * 2) = 2 * n" "drive_sector (of_nat n * 2 + 1) = 2 * n + 1"
    using assms by (simp_all add: drive_sector_def mult.commute add.commute)
qed

lemma block_sectors:
  "(\<lambda>n. (f(2 * k := x, 2 * k + 1 := y)) (2 * n) @ (f(2 * k := x, 2 * k + 1 := y)) (2 * n + 1))
    = (\<lambda>n. f (2 * n) @ f (2 * n + 1))(k := x @ y)" for f :: "nat \<Rightarrow> 'a list"
proof
  fix n :: nat
  have "2 * n \<noteq> 2 * k + 1" "2 * n + 1 \<noteq> 2 * k" by presburger+
  then show "(f(2 * k := x, 2 * k + 1 := y)) (2 * n) @ (f(2 * k := x, 2 * k + 1 := y)) (2 * n + 1)
    = ((\<lambda>n. f (2 * n) @ f (2 * n + 1))(k := x @ y)) n" by auto
qed

definition finished :: "nat \<Rightarrow> hd \<Rightarrow> hd" where
  "finished b h = upd_bh b (\<lambda>b. b\<lparr>b_lock := atomic_dec (b_lock b)\<rparr>)
     (upd_req 0 (\<lambda>q. q\<lparr>rq_lock := atomic_dec (rq_lock q)\<rparr>) h)\<lparr>first_req := None\<rparr>"

text \<open>Both sectors have been moved when the request is finished.\<close>

lemma finished_cache:
  fixes rw b h k l
  defines "t \<equiv> finished b (mover rw ((mover rw ((queued rw b h)\<lparr>accesses := k\<rparr>))\<lparr>accesses := l\<rparr>))"
  assumes "hd_idle h" and "b_lock (hd_bufs h b) = 0" and "length (b_data (hd_bufs h b)) = 1024" and "rw = FILE_READ \<or> rw = FILE_WRITE"
    and "b_block (hd_bufs h b) < 2 ^ 27"
  shows "hd_cache c t = transfer_block rw b (hd_cache c h)" and "length (sector_of t n) = 512"
proof -
  let ?n = "b_block (hd_bufs h b)" and ?d = "b_data (hd_bufs h b)"
  note q = queued_fields [OF assms(2,3)] and t = t_def finished_def
  note sec2 = block_drive_sectors [OF assms(6)]
  have len: "length (sector_of h n) = 512" for n using assms(2) by (simp add: hd_idle_def)
  have lk: "(hd_bufs h b)\<lparr>b_data := y, b_lock := 0\<rparr> = (hd_bufs h b)\<lparr>b_data := y\<rparr>" "(hd_bufs h b)\<lparr>b_lock := 0\<rparr> = hd_bufs h b" for y
    using assms(3) by (auto intro: buffer_head.equality)
  have "hd_cache c t = transfer_block rw b (hd_cache c h) \<and> (\<forall>n. length (sector_of t n) = 512)"
  proof (cases "rw = FILE_READ")
    case True
    then have f: "mover rw = sector_read 0" by (simp add: mover_def)
    have "hd_bufs t = (hd_bufs h)(b := (hd_bufs h b)\<lparr>b_data := sector_of h (2 * ?n) @ sector_of h (2 * ?n + 1)\<rparr>)"
      using q(1-8,10,11) assms(3,4) len by (simp add: t f sector_frame atomic_dec_def sec2 lk)
    moreover have "sector_of t = sector_of h" using q(2,10) by (simp add: t f sector_frame)
    ultimately show ?thesis using True len by (simp add: hd_cache_def transfer_block_def upd_buf_def)
  next
    case False
    then have f: "mover rw = sector_written 0" by (simp add: mover_def)
    have bufs: "hd_bufs t = hd_bufs h" using q(2,11) by (simp add: t f sector_frame atomic_dec_def lk)
    have sec: "sector_of t = (sector_of h)(2 * ?n := take 512 ?d, 2 * ?n + 1 := take 512 (drop 512 ?d))"
      using q(1-8,10,11) by (simp add: t f sector_frame sec2)
    have "take 512 ?d @ take 512 (drop 512 ?d) = ?d" using assms(4) by (simp add: append_take_drop_id)
    then have "hd_cache c t = transfer_block rw b (hd_cache c h)"
      unfolding hd_cache_def bufs sec block_sectors using False assms(5) by (auto simp: transfer_block_def)
    then show ?thesis using len assms(4) by (simp add: sec)
  qed
  then show "hd_cache c t = transfer_block rw b (hd_cache c h)" "length (sector_of t n) = 512" by blast+
qed

text \<open>
  C6. The disk driver implements the transfer that the buffer cache relies on. With an idle
  queue, an unlocked buffer of 1024 bytes, a block below \<open>2 ^ 27\<close> (sector numbers have 28 bits) and a
  controller that is ready and asks for data again and again, \<open>read_write_block\<close> ends; it has moved
  both sectors of the block between the disk and the buffer, found through the registers of the
  controller, the buffer is unlocked and the queue is idle again.
\<close>
theorem read_write_block_refines:
  assumes "drive_ready status" and "hd_idle h" and "b_lock (hd_bufs h b) = 0" and "length (b_data (hd_bufs h b)) = 1024"
    and "rw = FILE_READ \<or> rw = FILE_WRITE" and "b_block (hd_bufs h b) < 2 ^ 27"
  shows "\<exists>t. read_write_block status error_reg rw b h = Some t \<and> hd_cache c t = transfer_block rw b (hd_cache c h) \<and> hd_idle t"
proof -
  obtain k l where kl: "read_write_block status error_reg rw b h
      = end_request 0 (mover rw ((mover rw ((queued rw b h)\<lparr>accesses := k\<rparr>))\<lparr>accesses := l\<rparr>))"
    by (rule read_write_block_runs [OF assms(1-3,5)])
  let ?t = "mover rw ((mover rw ((queued rw b h)\<lparr>accesses := k\<rparr>))\<lparr>accesses := l\<rparr>)"
  have t: "first_req ?t = Some 0" "length (request ?t) = NR_REQUEST" "rq_bh (request ?t ! 0) = b"
    "rq_next (request ?t ! 0) = None" "rq_lock (request ?t ! 0) = 1"
    using queued_fields [OF assms(2,3)] by (simp_all add: mover_def sector_frame)
  then have "read_write_block status error_reg rw b h = Some (finished b ?t)"
    using kl end_first [OF t(1,2)] by (simp add: finished_def)
  moreover have "hd_idle (finished b ?t)"
    using t finished_cache(2) [OF assms(2-6)] by (simp add: hd_idle_def) (simp add: finished_def atomic_dec_def)
  ultimately show ?thesis using finished_cache(1) [OF assms(2-6)] by blast
qed

text \<open>A controller that is never ready: each attempt counts as an error, and after the eighth the
  request is ended and the null pointer of the empty queue is followed.\<close>

lemma hd_run_failing:
  assumes "\<And>i. status i AND 0xf1 \<noteq> 0x50 \<and> status i AND ERR_STAT = 0"
    and "first_req h = Some 0" and "length (request h) = NR_REQUEST" and "rq_next (request h ! 0) = None"
    and "rq_cmd (request h ! 0) = FILE_READ \<or> rq_cmd (request h ! 0) = FILE_WRITE" and "rq_errors (request h ! 0) \<le> MAX_ERRORS"
  shows "hd_run status error_reg Do_hd_request h = None"
  using assms(2-6)
proof (induction "MAX_ERRORS - rq_errors (request h ! 0)" arbitrary: h rule: less_induct)
  case less
  define call where "call = (if rq_cmd (request h ! 0) = FILE_READ then Read_intr else Write_intr)"
  let ?h = "h\<lparr>accesses := accesses h + 1\<rparr>"
  have "hd_run status error_reg Do_hd_request h = hd_run status error_reg call h"
    using less.prems(1,4) by (subst hd_run.simps) (auto simp: call_def)
  also have "\<dots> = Option.bind (bad_rw_intr ?h) (\<lambda>h. hd_run status error_reg Do_hd_request h)"
    using less.prems(1) assms(1) [of "accesses h"] by (subst hd_run.simps) (simp add: win_result_def Let_def call_def)
  also have "\<dots> = None"
  proof (cases "rq_errors (request h ! 0) = MAX_ERRORS")
    case True
    then have "bad_rw_intr ?h = None"
      using less.prems(1-3) by (simp add: bad_rw_intr_def end_request_def Let_def)
    then show ?thesis by simp
  next
    case False
    let ?g = "upd_req 0 (\<lambda>q. q\<lparr>rq_errors := rq_errors q + 1\<rparr>) ?h"
    have g: "bad_rw_intr ?h = Some (if rq_errors (request h ! 0) + 1 > MAX_ERRORS div 2 then ?g\<lparr>hd_reset := True\<rparr> else ?g)"
      using less.prems(1,2,5) False by (simp add: bad_rw_intr_def Let_def)
    have "hd_run status error_reg Do_hd_request (?g\<lparr>hd_reset := True\<rparr>) = None" "hd_run status error_reg Do_hd_request ?g = None"
      using less.prems False by (auto intro!: less.hyps)
    then show ?thesis using g by simp
  qed
  finally show ?case .
qed

text \<open>
  With a controller that never becomes ready, \<open>read_write_block\<close> follows a null pointer:
  the eighth error ends the only request, and \<open>bad_rw_intr\<close> then looks at the error count
  of the first request of the empty queue.
\<close>
theorem read_write_block_dead_drive:
  assumes "\<forall>i. status i AND 0xf1 \<noteq> 0x50 \<and> status i AND ERR_STAT = 0" and "hd_idle h" and "rw = FILE_READ \<or> rw = FILE_WRITE"
  shows "read_write_block status error_reg rw b h = None"
proof -
  obtain q qs where "request h = q # qs" using assms(2) by (cases "request h") (auto simp: hd_idle_def)
  then have "get_request h = Some 0" using assms(2) by (simp add: hd_idle_def get_request_def)
  then show ?thesis
    using assms unfolding read_write_block_def do_hd_request_def
    by (simp add: hd_idle_def Let_def) (rule hd_run_failing; simp)
qed

text \<open>
  A request that should come before the first one of the queue is linked through a variable
  that has not been set: the loop ends at once when the new sector is greater than that of
  the first request.
\<close>
theorem read_write_block_unset_prev:
  assumes "first_req h = Some f" and "get_request h = Some r" and "r \<noteq> f" and "r < length (request h)"
    and "sint (rq_sector (request h ! f)) < sint (of_nat (b_block (hd_bufs h b)) * 2 :: u32)"
  shows "read_write_block status error_reg rw b h = None"
proof -
  have f: "request (upd_req r g k) ! f = request k ! f" for g k using assms(3) by (simp add: upd_req_def)
  show ?thesis
    using assms by (simp add: read_write_block_def Let_def insert_place.simps f)
qed

subsection \<open>Witnesses\<close>

definition blank_request :: hd_request where
  "blank_request = \<lparr>rq_cmd = 0, rq_errors = 0, rq_nr_sectors = 0, rq_sector = 0, rq_lock = 0, rq_buffer = 0, rq_bh = 0, rq_next = None\<rparr>"

definition sample_hd :: hd where
  "sample_hd = \<lparr>request = replicate 32 blank_request, first_req = None, hd_reset = False,
     hd_bufs = (\<lambda>_. blank_buf\<lparr>b_data := replicate 1024 5, b_block := 3\<rparr>), task_file = (\<lambda>_. 0), sector_of = (\<lambda>n. replicate 512 (of_nat n)), accesses = 0\<rparr>"

lemma sample_hd_idle: "hd_idle sample_hd"
  by (simp add: hd_idle_def sample_hd_def blank_request_def)

text \<open>The data request bit comes with every second status.\<close>

lemma sample_drive: "drive_ready (\<lambda>i. if even i then 0x50 else 0x58)"
proof -
  have "\<exists>j \<ge> i. odd j" for i :: nat by (rule exI [of _ "2 * i + 1"]) simp
  then show ?thesis by (simp add: drive_ready_def) metis
qed

theorem read_write_block_refines_witness:
  "\<exists>t. read_write_block (\<lambda>i. if even i then 0x50 else 0x58) (\<lambda>_. 0) FILE_WRITE 0 sample_hd = Some t
     \<and> hd_cache small_cache t = transfer_block FILE_WRITE 0 (hd_cache small_cache sample_hd) \<and> hd_idle t"
  by (rule read_write_block_refines [OF sample_drive sample_hd_idle]) (simp_all add: sample_hd_def blank_buf_def)

theorem read_write_block_dead_drive_witness: "read_write_block (\<lambda>_. 0) (\<lambda>_. 0) FILE_READ 0 sample_hd = None"
  by (rule read_write_block_dead_drive [OF _ sample_hd_idle]) simp_all

theorem read_write_block_unset_prev_witness:
  "read_write_block (\<lambda>_. 0x58) (\<lambda>_. 0) FILE_READ 0
     (sample_hd\<lparr>first_req := Some 31, request := (replicate 32 blank_request)[31 := blank_request\<lparr>rq_lock := 1, rq_sector := 4\<rparr>]\<rparr>) = None"
  by (rule read_write_block_unset_prev [of _ 31 0]) (simp_all add: sample_hd_def blank_request_def get_request_def numeral_eq_Suc)

end
