(* ===== verification/Boot.thy ===== *)
theory Boot
  imports Trap Hd
begin

unbundle bit_operations_syntax

section \<open>Starting the kernel\<close>

text \<open>
  Models init/main.c, the page tables and the text output of init/head.s, the initial values of
  the first task in kernel/sched_os.c, and \<open>sched_init\<close> there with its descriptors and ports.
  \<open>main\<close> is the composition of the set-up functions of the other theories.

  All bytes that are sent to ports are in \<open>port_out\<close> of the console, in order. Reading the mask
  register of an interrupt controller gives the byte that was last written to it, or what the
  firmware left there.

  Shown: the page tables map every address below 32 MiB to itself, and what they map before
  \<open>reset_pg_dir\<close>; the set-up returns, with allocator, caches, buffers and interrupt table ready, and
  with the keyboard's interrupt masked.
\<close>

subsection \<open>Page tables\<close>

fun fill_pages :: "nat \<Rightarrow> u32 \<Rightarrow> u32 \<Rightarrow> ram \<Rightarrow> u32 \<times> ram" where
  "fill_pages 0 a p m = (p, m)"
| "fill_pages (Suc n) a p m = fill_pages n (a + 4) (p + 4096) (wr32 a (p OR 7) m)"

text \<open>The second loop starts again at the physical address 0.\<close>

definition setup_pg_dir :: "ram \<Rightarrow> ram" where
  "setup_pg_dir m =
     (let m = wr32 12 0x4007 (wr32 8 0x3007 (wr32 4 0x2007 (wr32 0 0x1007 m)));
          (_, m) = fill_pages 1024 0x1000 0 m;
          (_, m) = fill_pages 3072 0x2000 0 m
      in m)"

text \<open>Paging is on when \<open>reset_pg_dir\<close> runs. The addresses below 4 MiB that it writes are mapped to
  themselves from the start, and those from 8 MiB on since the end of its first loop.\<close>

definition reset_pg_dir :: "ram \<Rightarrow> ram" where
  "reset_pg_dir m =
     (let m = wr32 28 0x803007 (wr32 24 0x802007 (wr32 20 0x801007 (wr32 16 0x800007 m)));
          (p, m) = fill_pages 4096 0x1000 0 m;
          (_, m) = fill_pages 4096 0x800000 p m
      in m)"

subsection \<open>Text output of the assembly part\<close>

text \<open>The cursor of the display as its registers 14 and 15 hold it; \<open>crt\<close> is what they held before.\<close>

definition crt_out :: "u16 \<times> u8 \<Rightarrow> u8 \<times> (u8 \<Rightarrow> u8) \<Rightarrow> u8 \<times> (u8 \<Rightarrow> u8)" where
  "crt_out = (\<lambda>(p, v) (i, r). if p = VIDEO_PORT_REG then (v, r) else if p = VIDEO_PROT_VAL then (i, r(i := v)) else (i, r))"

definition crt_cursor :: "(u8 \<Rightarrow> u8) \<Rightarrow> console \<Rightarrow> u16" where
  "crt_cursor crt s = (case fold crt_out (port_out s) (0, crt) of (_, r) \<Rightarrow> push_bit 8 (ucast (r 14)) OR ucast (r 15))"

definition set_crt_cursor :: "u16 \<Rightarrow> console \<Rightarrow> console" where
  "set_crt_cursor bx s = s\<lparr>port_out := port_out s @ [(VIDEO_PORT_REG, 14), (VIDEO_PROT_VAL, ucast (drop_bit 8 bx)),
     (VIDEO_PORT_REG, 15), (VIDEO_PROT_VAL, ucast bx)]\<rparr>"

text \<open>Scrolling moves 1920 double words, more than the screen has, and clears the last row.\<close>

definition roll_screen :: "u16 \<Rightarrow> console \<Rightarrow> u16 \<times> console" where
  "roll_screen bx s =
     (if sint bx < 2000 then (bx, s)
      else (1920, s\<lparr>video_ram := (\<lambda>a. if 0xb8f00 \<le> a \<and> a < 0xb8fa0 then 0x0720
        else if 0xb8000 \<le> a \<and> a < 0xb9e00 then video_ram s (a + 160) else video_ram s a)\<rparr>))"

text \<open>A carriage return divides the position by 80; a quotient of more than a byte is a fault.\<close>

definition put_char :: "(u8 \<Rightarrow> u8) \<Rightarrow> u8 \<Rightarrow> console \<Rightarrow> console option" where
  "put_char crt cl s =
     (let bx = crt_cursor crt s in
      if cl = 0x0d then (if unat bx div 80 < 256 then Some (set_crt_cursor (of_nat (unat bx div 80 * 80)) s) else None)
      else if cl = 0x0a then (case roll_screen (bx + 80) s of (bx, s) \<Rightarrow> Some (set_crt_cursor bx s))
      else let a = 0xb8000 + ucast (push_bit 1 bx);
               s = s\<lparr>video_ram := (video_ram s)(a := (video_ram s a AND 0xff00) OR ucast cl)\<rparr>
           in (case roll_screen (drop_bit 1 (push_bit 1 bx) + 1) s of (bx, s) \<Rightarrow> Some (set_crt_cursor bx s)))"

fun put_string :: "(u8 \<Rightarrow> u8) \<Rightarrow> u8 list \<Rightarrow> console \<Rightarrow> console option" where
  "put_string crt [] s = Some s"
| "put_string crt (c # b) s = do { s \<leftarrow> put_char crt c s; put_string crt b s }"

definition open_page_tips :: "(u8 \<Rightarrow> u8) \<Rightarrow> console \<Rightarrow> console option" where
  "open_page_tips crt s = put_string crt (bytes_of ''active page .....'' @ [10, 13]) s"

subsection \<open>The first task\<close>

text \<open>The initial values; \<open>stk0\<close> and \<open>stk3\<close> are the addresses of the two stacks, \<open>mm\<close> and
  \<open>area\<close> those of the other structures. The fourth value of the area is that of \<open>vm_file_size\<close>.\<close>

definition init_area :: "u32 \<Rightarrow> vm_area_struct" where
  "init_area p = \<lparr>vm_task = p, vm_start = 0, vm_end = 0x40000000, vm_file_size = VM_READ OR VM_WRITE OR VM_EXEC, vm_flags = 0,
     vm_page_prot = 0, vm_offset = 0, vm_file = None, vm_next = 0, vm_next_share = 0, vm_prev_share = 0\<rparr>"

definition init_mm :: "u32 \<Rightarrow> mm_struct" where
  "init_mm area = \<lparr>start_code = 0, end_code = 0, start_data = 0, end_data = 0, start_brk = 0, brk = 0, start_stack = 0, start_mmap = 0,
     arg_start = 0, arg_end = 0, env_start = 0, env_end = 0, mm_size = 0, pgd_base = 0, mmap = area, share_mmap = 0, map_count = 0\<rparr>"

definition init_tss :: "u32 \<Rightarrow> u32 \<Rightarrow> thread_struct" where
  "init_tss stk0 stk3 = \<lparr>back_link = 0, esp0 = 4096 + stk0, ss0 = KERNEL_DS, esp1 = 0, ss1 = KERNEL_DS, esp2 = 0, ss2 = KERNEL_DS,
     cr3 = 0, eip = 0, eflags = 0, eax = 0, ecx = 0, edx = 0, ebx = 0, esp = 4096 + stk3, ebp = 0, esi = 0, edi = 0,
     es = USER_DS, cs = USER_DS, ss = USER_DS, ds = USER_DS, fs = USER_DS, gs = USER_DS, ldt = LDT 0, trace_bitmap = 0x80000000,
     tr = TSS 0, kernel_stack_page = 4096 + stk0, user_stack_page = 0, cache_eip = 0\<rparr>"

definition init_task_struct :: "u32 \<Rightarrow> u32 \<Rightarrow> u32 \<Rightarrow> task_struct" where
  "init_task_struct mm stk0 stk3 = \<lparr>t_state = TASK_RUNNING, t_pid = 0, umask = 0, euid = 0, egid = 0, t_tty = -1, time_slice = 5,
     start_time = 0, stime = 0, utime = 0, policy = SCHED_RR, prio = 15, t_next = 0, t_prev = 0, t_root = 0, t_pwd = 0,
     filps = replicate 64 0, t_mm = mm, tss = init_tss stk0 stk3,
     ldt_table = [(0, 0), (0x4000, 0xc0fa00), (0x4000, 0xc0f200)]\<rparr>"

subsection \<open>State and parameters\<close>

text \<open>What the set-up takes from outside: the addresses of the entries of interrupts and of the
  descriptor table, what the firmware left in ports and display registers, the contents of the
  clock chip, and for \<open>printk\<close> strings in memory and an uninitialised variable.\<close>

record boot_env =
  entry_adr :: "vector_entry \<Rightarrow> u32"
  idt_adr :: u32
  firmware :: "u16 \<Rightarrow> u8"
  crt_regs :: "u8 \<Rightarrow> u8"
  cmos :: "u8 \<Rightarrow> u8"
  strings :: "u32 \<Rightarrow> u8 list"
  garbage :: u32

record boot =
  mach :: machine
  hd_info :: hd_struct
  task_reg :: u32
  ldt_reg :: u32

definition inb :: "boot_env \<Rightarrow> console \<Rightarrow> u16 \<Rightarrow> u8" where
  "inb env c p = fold (\<lambda>(q, v) d. if q = p then v else d) (port_out c) (firmware env p)"

definition on_scr :: "(console \<Rightarrow> console option) \<Rightarrow> boot \<Rightarrow> boot option" where
  "on_scr f b = map_option (\<lambda>c. b\<lparr>mach := (mach b)\<lparr>scr := c\<rparr>\<rparr>) (f (scr (mach b)))"

definition send :: "(u16 \<times> u8) list \<Rightarrow> console \<Rightarrow> console" where
  "send os c = c\<lparr>port_out := port_out c @ os\<rparr>"

definition on_mem :: "(ram \<Rightarrow> ram) \<Rightarrow> boot \<Rightarrow> boot" where
  "on_mem f b = b\<lparr>mach := set_mem (f (mem (kern (mach b)))) (mach b)\<rparr>"

definition upd_kern :: "(kernel \<Rightarrow> kernel) \<Rightarrow> boot \<Rightarrow> boot" where
  "upd_kern f b = b\<lparr>mach := (mach b)\<lparr>kern := f (kern (mach b))\<rparr>\<rparr>"

subsection \<open>Set-up functions\<close>

abbreviation LATCH :: nat where "LATCH \<equiv> 1193180 div 100"

definition sched_setup :: "boot_env \<Rightarrow> boot \<Rightarrow> boot" where
  "sched_setup env b =
     (let k = kern (mach b); p = init_task (sch k); c = scr (mach b);
          m = set_tss_desc (gdt k + 8 * of_nat FIRST_TSS_ENTRY) (p + TSS_OFFSET) (mem k);
          m = set_ldt_desc (gdt k + 8 * of_nat FIRST_LDT_ENTRY) (p + LDT_OFFSET) m;
          c = send [(0x43, 0x36), (0x40, of_nat (LATCH mod 256)), (0x40, of_nat (LATCH div 256))] c;
          c = send [(0x21, inb env c 0x21 AND NOT 1)] c
      in b\<lparr>mach := \<lparr>kern = k\<lparr>mem := m, sch := sched_init (sch k)\<rparr>, scr = c\<rparr>, task_reg := TSS 0, ldt_reg := LDT 0\<rparr>)"

definition hd_setup :: "boot_env \<Rightarrow> boot \<Rightarrow> boot" where
  "hd_setup env b =
     (let c = scr (mach b); (info, outs) = hd_init (inb env c 0x21) (inb env c 0xa1)
      in b\<lparr>mach := (mach b)\<lparr>scr := send outs c\<rparr>, hd_info := info\<rparr>)"

record tm =
  tm_sec :: u32
  tm_min :: u32
  tm_hour :: u32
  tm_mday :: u32
  tm_mon :: u32
  tm_year :: u32
  tm_wday :: u32
  tm_yday :: u32
  tm_isdst :: u32

definition CMOS_READ :: "boot_env \<Rightarrow> u8 \<Rightarrow> console \<Rightarrow> u32 \<times> console" where
  "CMOS_READ env addr c = (ucast (cmos env addr), send [(0x70, 0x80 OR addr)] c)"

definition timer_init :: "boot_env \<Rightarrow> console \<Rightarrow> console option" where
  "timer_init env c =
     (let (v0, c) = CMOS_READ env 0 c; (v1, c) = CMOS_READ env 2 c; (v2, c) = CMOS_READ env 4 c;
          (v3, c) = CMOS_READ env 7 c; (v4, c) = CMOS_READ env 8 c; (v5, c) = CMOS_READ env 9 c;
          time = \<lparr>tm_sec = v0, tm_min = v1, tm_hour = v2, tm_mday = v3, tm_mon = v4, tm_year = v5,
            tm_wday = garbage env, tm_yday = garbage env, tm_isdst = garbage env\<rparr>
      in printk (strings env) (garbage env)
           (bytes_of ''sec=%x,min=%x,hour=%x,mday=%x,mon=%x,year=%x '' @ [0x5C, 0x6E])
           [tm_sec time, tm_min time, tm_hour time, tm_mday time, tm_mon time, tm_year time] c)"

abbreviation PAGING_MEMORY :: u32 where "PAGING_MEMORY \<equiv> 32 * 1024 * 1024"

subsection \<open>\<open>main\<close> up to the file system\<close>

definition main_init :: "boot_env \<Rightarrow> boot \<Rightarrow> boot option" where
  "main_init env b = do {
     let b = on_mem reset_pg_dir b;
     b \<leftarrow> on_scr (\<lambda>c. con_init (inb env c) c) b;
     b \<leftarrow> on_scr (message '' ------------------- entry kernel ------------------- '') b;
     let start_mem = 0x800000 + 4096 * 4;
     let b = on_mem (exception_init (entry_adr env) (idt_adr env)) b;
     b \<leftarrow> on_scr (\<lambda>c. Some (send pic_init c)) b;
     let b = on_mem (interupt_init (entry_adr env) (idt_adr env)) b;
     let b = on_mem (system_call_init (entry_adr env) (idt_adr env)) b;
     b \<leftarrow> on_scr (open_page_tips (crt_regs env)) b;
     s \<leftarrow> mem_init start_mem PAGING_MEMORY (slab (kern (mach b)));
     let b = upd_kern (\<lambda>k. k\<lparr>slab := s, vfs := (vfs k)\<lparr>vfs.fs := (vfs.fs (vfs k))
         \<lparr>cache_of := buffer_init 0x7fffff (cache_of (vfs.fs (vfs k)))\<rparr>\<rparr>\<rparr>) b;
     let b = sched_setup env b;
     b \<leftarrow> on_scr tty_init b;
     let b = hd_setup env b;
     Some (upd_kern (\<lambda>k. k\<lparr>vfs := fs_init (vfs k)\<rparr>) b) }"

subsection \<open>Task 0\<close>

text \<open>The user part of \<open>main\<close>: addresses of the buffer of \<open>printf\<close> and of the two path names, and
  the registers that system calls of the task start from. The task leaves its program when a
  system call does not come back; the loop at the end of \<open>task0_init\<close> does not end.\<close>

record user_env =
  usyms :: symbols
  ujunk :: u32
  lib_buf :: u32
  pathname1 :: u32
  pathname2 :: u32

text \<open>The stack pointer is the address where the array of the user stack begins; the return address
  is pushed below it.\<close>

definition move_to_user_mode :: "u32 \<Rightarrow> u32 \<Rightarrow> u32 \<Rightarrow> user_regs \<Rightarrow> machine \<Rightarrow> user_regs \<times> machine" where
  "move_to_user_mode stk3 flags ra u s =
     (u\<lparr>u_eax := 0x17, u_ebx := ra, u_fs := 0x17, u_es := 0x17, u_ds := 0x17, u_eip := ra, u_cs := 0x0f, u_eflags := flags,
        u_esp := stk3, u_ss := 0x17\<rparr>, set_mem (wr32 (stk3 - 4) ra (mem (kern s))) s)"

definition user_printf :: "boot_env \<Rightarrow> user_env \<Rightarrow> string \<Rightarrow> machine \<Rightarrow> machine option" where
  "user_printf env ue t s = do {
     (_, m, c) \<leftarrow> printf (strings env) (garbage env) (lib_buf ue) (bytes_of t) [] (mem (kern s)) (scr s);
     Some ((set_mem m s)\<lparr>scr := c\<rparr>) }"

definition user_call :: "user_env \<Rightarrow> u32 \<Rightarrow> u32 \<Rightarrow> user_regs \<Rightarrow> machine \<Rightarrow> (outcome \<times> machine) option" where
  "user_call ue nr a u s = int80 (usyms ue) (ujunk ue) (syscall1 nr a u) s"

definition task0_init :: "user_env \<Rightarrow> user_regs \<Rightarrow> machine \<Rightarrow> (outcome \<times> machine) option" where
  "task0_init ue u s = do {
     (r, s) \<leftarrow> user_call ue NR_sys_fork 110 u s;
     case r of
       Jump a \<Rightarrow> Some (r, s)
     | To_User u \<Rightarrow> do {
         (r, s) \<leftarrow> user_call ue NR_sys_execve (pathname2 ue) u s;
         case r of Jump a \<Rightarrow> Some (r, s) | To_User u \<Rightarrow> None } }"

definition main_user :: "boot_env \<Rightarrow> user_env \<Rightarrow> user_regs \<Rightarrow> machine \<Rightarrow> (outcome \<times> machine) option" where
  "main_user env ue u s = do {
     s \<leftarrow> user_printf env ue ''----------------task0 user mode ---------------- '' s;
     (r, s) \<leftarrow> user_call ue NR_sys_fork 120 u s;
     case r of
       Jump a \<Rightarrow> Some (r, s)
     | To_User u \<Rightarrow> do {
         (r, s) \<leftarrow> user_call ue NR_sys_execve (pathname1 ue) u s;
         case r of
           Jump a \<Rightarrow> Some (r, s)
         | To_User u \<Rightarrow> do {
             s \<leftarrow> user_printf env ue ''---------------- task1 user mode ---------------- '' s;
             task0_init ue u s } } }"

definition main :: "boot_env \<Rightarrow> user_env \<Rightarrow> u32 \<Rightarrow> u32 \<Rightarrow> u32 \<Rightarrow> user_regs \<Rightarrow> boot \<Rightarrow> (outcome \<times> machine) option" where
  "main env ue stk3 flags ra u b = do {
     b \<leftarrow> main_init env b;
     b \<leftarrow> on_scr (timer_init env) b;
     (_, s) \<leftarrow> on_kern (with_files (on_inodes (\<lambda>um s. map_option (Pair (1 :: int)) (do_mount_root s)))) (mach b);
     let (u, s) = move_to_user_mode stk3 flags ra u s;
     main_user env ue u s }"

subsection \<open>Page tables\<close>

lemma fill_pages_next: "fst (fill_pages n a p m) = p + 4096 * of_nat n"
  by (induction n arbitrary: a p m) (simp_all add: algebra_simps)

lemma fill_pages_rd32:
  assumes "4 dvd unat a" and "unat a + 4 * n < 2 ^ 32" and "4 dvd unat b"
  shows "rd32 (snd (fill_pages n a p m)) b
    = (if unat a \<le> unat b \<and> unat b < unat a + 4 * n then (p + 4096 * of_nat ((unat b - unat a) div 4)) OR 7 else rd32 m b)"
  using assms(1,2)
proof (induction n arbitrary: a p m)
  case (Suc n)
  have a4: "unat (a + 4) = unat a + 4" using Suc.prems(2) by (simp add: unat_word_ariths)
  have w: "rd32 (wr32 a (p OR 7) m) b = (if b = a then p OR 7 else rd32 m b)"
    using rd32_wr32_other [OF Suc.prems(1) assms(3)] by simp
  obtain x y where xy: "unat a = 4 * x" "unat b = 4 * y" using Suc.prems(1) assms(3) by (auto elim!: dvdE)
  have IH: "rd32 (snd (fill_pages (Suc n) a p m)) b = (if unat a + 4 \<le> unat b \<and> unat b < unat a + 4 * Suc n
      then (p + 4096 + 4096 * of_nat ((unat b - (unat a + 4)) div 4)) OR 7 else rd32 (wr32 a (p OR 7) m) b)"
    using Suc.IH [of "a + 4" "p + 4096" "wr32 a (p OR 7) m"] Suc.prems a4 by (simp add: algebra_simps)
  consider "y < x \<or> x + Suc n \<le> y" | "y = x" | "x < y" "y < x + Suc n" by linarith
  then show ?case
  proof cases
    case 3
    then obtain z where z: "y = x + 1 + z" using less_iff_Suc_add by (metis Suc_eq_plus1 add.commute add.left_commute plus_1_eq_Suc)
    then have "(unat b - (unat a + 4)) div 4 = z" "(unat b - unat a) div 4 = z + 1" using xy by simp_all
    then show ?thesis unfolding IH using 3 xy by (simp add: algebra_simps)
  next
    case 2
    then have "b = a" using xy by (simp add: word_unat_eq_iff)
    then show ?thesis unfolding IH w by simp
  next
    case 1
    then have "b \<noteq> a" using xy by auto
    then show ?thesis unfolding IH w using 1 xy by auto
  qed
qed auto

lemma or_7_present: "((x :: u32) OR 7) AND 1 \<noteq> 0"
proof -
  have "bit ((x OR 7) AND 1) 0" by (simp add: bit_simps)
  then show ?thesis by (metis bit_0_eq bot_apply bot_bool_def)
qed

lemma pte_of_entryI:
  assumes "rd32 m (pgd_index v) = T OR 7" and "(T OR 7) AND FRAME_MASK = T" and "rd32 m (T + pte_index v) = E OR 7"
  shows "pte_of m v = Some (E OR 7)"
  using assms by (simp add: pte_of_def pgd_present_def pte_at_def table_of_def or_7_present)

lemma frame_of_page: "unat v < 2 ^ 25 \<Longrightarrow> v AND FRAME_MASK = 4096 * of_nat (unat v div 4096)"
  by (simp add: word_unat_eq_iff unat_frame unat_word_ariths unat_of_nat)

lemma setup_rd32:
  assumes "4 dvd unat b"
  shows "rd32 (setup_pg_dir m) b =
    (if 0x2000 \<le> unat b \<and> unat b < 0x5000 then (4096 * of_nat ((unat b - 0x2000) div 4)) OR 7
     else if 0x1000 \<le> unat b \<and> unat b < 0x2000 then (4096 * of_nat ((unat b - 0x1000) div 4)) OR 7
     else rd32 (wr32 12 0x4007 (wr32 8 0x3007 (wr32 4 0x2007 (wr32 0 0x1007 m)))) b)"
proof -
  have a: "4 dvd unat (0x1000 :: u32)" "unat (0x1000 :: u32) + 4 * 1024 < 2 ^ 32"
    "4 dvd unat (0x2000 :: u32)" "unat (0x2000 :: u32) + 4 * 3072 < 2 ^ 32" by simp_all
  show ?thesis
    unfolding setup_pg_dir_def Let_def case_prod_unfold fill_pages_rd32 [OF a(3,4) assms] fill_pages_rd32 [OF a(1,2) assms] by simp
qed

lemma reset_rd32:
  assumes "4 dvd unat b"
  shows "rd32 (reset_pg_dir m) b =
    (if 0x800000 \<le> unat b \<and> unat b < 0x804000 then (4096 * of_nat (4096 + (unat b - 0x800000) div 4)) OR 7
     else if 0x1000 \<le> unat b \<and> unat b < 0x5000 then (4096 * of_nat ((unat b - 0x1000) div 4)) OR 7
     else rd32 (wr32 28 0x803007 (wr32 24 0x802007 (wr32 20 0x801007 (wr32 16 0x800007 m)))) b)"
proof -
  have a: "4 dvd unat (0x1000 :: u32)" "unat (0x1000 :: u32) + 4 * 4096 < 2 ^ 32"
    "4 dvd unat (0x800000 :: u32)" "unat (0x800000 :: u32) + 4 * 4096 < 2 ^ 32" by simp_all
  have n: "unat (0x1000 :: u32) = 0x1000" "unat (0x800000 :: u32) = 0x800000" by simp_all
  show ?thesis
    unfolding reset_pg_dir_def Let_def case_prod_unfold fill_pages_rd32 [OF a(3,4) assms] fill_pages_rd32 [OF a(1,2) assms] fill_pages_next n
    by (simp only: of_nat_add distrib_left mult_1_left add_0_left) simp
qed

lemma dir_words:
  "rd32 (setup_pg_dir m) 0 = 0x1000 OR 7" "rd32 (setup_pg_dir m) 4 = 0x2000 OR 7"
  "rd32 (setup_pg_dir m) 8 = 0x3000 OR 7" "rd32 (setup_pg_dir m) 12 = 0x4000 OR 7"
  "d < 4 \<Longrightarrow> rd32 (reset_pg_dir m) (of_nat (4 * d)) = rd32 m (of_nat (4 * d))"
  "rd32 (reset_pg_dir m) 16 = 0x800000 OR 7" "rd32 (reset_pg_dir m) 20 = 0x801000 OR 7"
  "rd32 (reset_pg_dir m) 24 = 0x802000 OR 7" "rd32 (reset_pg_dir m) 28 = 0x803000 OR 7"
proof -
  show "rd32 (setup_pg_dir m) 0 = 0x1000 OR 7" "rd32 (setup_pg_dir m) 4 = 0x2000 OR 7"
    "rd32 (setup_pg_dir m) 8 = 0x3000 OR 7" "rd32 (setup_pg_dir m) 12 = 0x4000 OR 7"
    by (simp_all add: setup_rd32 rd32_wr32_other)
  show "rd32 (reset_pg_dir m) 16 = 0x800000 OR 7" "rd32 (reset_pg_dir m) 20 = 0x801000 OR 7"
    "rd32 (reset_pg_dir m) 24 = 0x802000 OR 7" "rd32 (reset_pg_dir m) 28 = 0x803000 OR 7"
    by (simp_all add: reset_rd32 rd32_wr32_other)
  assume "d < 4"
  then have "d = 0 \<or> d = 1 \<or> d = 2 \<or> d = 3" by arith
  then show "rd32 (reset_pg_dir m) (of_nat (4 * d)) = rd32 m (of_nat (4 * d))"
    by (auto simp: reset_rd32 rd32_wr32_other)
qed

lemma page_numbers:
  fixes v :: u32
  shows "pgd_index v = of_nat (4 * (unat v div 0x400000))"
    and "unat v div 4096 = 1024 * (unat v div 0x400000) + unat (pte_index v) div 4" and "unat (pte_index v) < 4096"
proof -
  show "pgd_index v = of_nat (4 * (unat v div 0x400000))" by (rule word_of_unat) (simp add: unat_pgd_index)
  have "unat v div 0x400000 = unat v div 4096 div 1024" by (simp add: div_mult2_eq [symmetric])
  then show "unat v div 4096 = 1024 * (unat v div 0x400000) + unat (pte_index v) div 4" by (simp add: unat_pte_index)
  show "unat (pte_index v) < 4096" by (rule index_bounds(3))
qed

lemma table_word:
  fixes v :: u32
  assumes "unat T mod 4096 = 0" and "unat T < 2 ^ 30"
  shows "unat (T + pte_index v) = unat T + unat (pte_index v)" and "4 dvd unat (T + pte_index v)"
proof -
  show u: "unat (T + pte_index v) = unat T + unat (pte_index v)"
    using assms(2) index_bounds(3) [of v] by (simp add: unat_word_ariths)
  have "4096 dvd unat T" using assms(1) by (simp add: mod_eq_0_iff_dvd)
  then have "4 dvd unat T" by (rule dvd_trans [rotated]) simp
  then show "4 dvd unat (T + pte_index v)" using u index_bounds(4) [of v] by simp
qed

lemma reset_maps_low:
  assumes "d = unat v div 0x400000" and "d < 4"
  shows "pte_of (reset_pg_dir (setup_pg_dir m)) v = Some ((4096 * of_nat (unat v div 4096)) OR 7)"
proof -
  let ?T = "of_nat (0x1000 * (d + 1)) :: u32"
  have T: "unat ?T = 0x1000 * (d + 1)" using assms(2) by (simp only: unat_of_nat) simp
  note t = table_word [of ?T v, unfolded T]
  have "rd32 (reset_pg_dir (setup_pg_dir m)) (pgd_index v) = ?T OR 7" and M: "(?T OR 7) AND FRAME_MASK = ?T"
  proof -
    have "d = 0 \<or> d = 1 \<or> d = 2 \<or> d = 3" using assms(2) by arith
    then show "rd32 (reset_pg_dir (setup_pg_dir m)) (pgd_index v) = ?T OR 7" "(?T OR 7) AND FRAME_MASK = ?T"
      using dir_words(1-4) [of m] dir_words(5) [OF assms(2), of "setup_pg_dir m"] page_numbers(1) [of v, folded assms(1)]
      by (elim disjE; simp)+
  qed
  moreover have "rd32 (reset_pg_dir (setup_pg_dir m)) (?T + pte_index v) = (4096 * of_nat (unat v div 4096)) OR 7"
  proof -
    have "(0x1000 * (d + 1) + unat (pte_index v) - 0x1000) div 4 = unat v div 4096"
      using page_numbers(2) [of v] assms(1) by simp
    then show ?thesis using t assms(2) page_numbers(3) [of v] by (simp add: reset_rd32)
  qed
  ultimately show ?thesis by (intro pte_of_entryI)
qed

lemma reset_maps_high:
  assumes "d = unat v div 0x400000" and "4 \<le> d" and "d < 8"
  shows "pte_of (reset_pg_dir m) v = Some ((4096 * of_nat (unat v div 4096)) OR 7)"
proof -
  let ?T = "of_nat (0x800000 + 0x1000 * (d - 4)) :: u32"
  have T: "unat ?T = 0x800000 + 0x1000 * (d - 4)" using assms(3) by (simp only: unat_of_nat) simp
  note t = table_word [of ?T v, unfolded T]
  have "rd32 (reset_pg_dir m) (pgd_index v) = ?T OR 7" and M: "(?T OR 7) AND FRAME_MASK = ?T"
  proof -
    have "d = 4 \<or> d = 5 \<or> d = 6 \<or> d = 7" using assms(2,3) by arith
    then show "rd32 (reset_pg_dir m) (pgd_index v) = ?T OR 7" "(?T OR 7) AND FRAME_MASK = ?T"
      using dir_words(6-9) [of m] page_numbers(1) [of v, folded assms(1)] by (elim disjE; simp)+
  qed
  moreover have "rd32 (reset_pg_dir m) (?T + pte_index v) = (4096 * of_nat (unat v div 4096)) OR 7"
  proof -
    obtain j where j: "d = 4 + j" using assms(2) by (auto dest: le_Suc_ex)
    have "4096 + (0x800000 + 0x1000 * (d - 4) + unat (pte_index v) - 0x800000) div 4 = unat v div 4096"
      unfolding page_numbers(2) [of v] assms(1) [symmetric] j by simp
    then show ?thesis using t assms(2,3) page_numbers(3) [of v] j by (simp add: reset_rd32)
  qed
  ultimately show ?thesis by (intro pte_of_entryI)
qed

lemma setup_maps_shifted:
  assumes "d = unat v div 0x400000" and "1 \<le> d" and "d < 4"
  shows "pte_of (setup_pg_dir m) v = Some ((4096 * of_nat (unat v div 4096 - 1024)) OR 7)"
proof -
  let ?T = "of_nat (0x1000 * (d + 1)) :: u32"
  have T: "unat ?T = 0x1000 * (d + 1)" using assms(3) by (simp only: unat_of_nat) simp
  note t = table_word [of ?T v, unfolded T]
  have "rd32 (setup_pg_dir m) (pgd_index v) = ?T OR 7" and M: "(?T OR 7) AND FRAME_MASK = ?T"
  proof -
    have "d = 1 \<or> d = 2 \<or> d = 3" using assms(2,3) by arith
    then show "rd32 (setup_pg_dir m) (pgd_index v) = ?T OR 7" "(?T OR 7) AND FRAME_MASK = ?T"
      using dir_words(2-4) [of m] page_numbers(1) [of v, folded assms(1)] by (elim disjE; simp)+
  qed
  moreover have "rd32 (setup_pg_dir m) (?T + pte_index v) = (4096 * of_nat (unat v div 4096 - 1024)) OR 7"
  proof -
    obtain j where j: "d = 1 + j" using assms(2) by (auto dest: le_Suc_ex)
    have "(0x1000 * (d + 1) + unat (pte_index v) - 0x2000) div 4 = unat v div 4096 - 1024"
      unfolding page_numbers(2) [of v] assms(1) [symmetric] j by simp
    then show ?thesis using t assms(2,3) page_numbers(3) [of v] j by (simp add: setup_rd32)
  qed
  ultimately show ?thesis by (intro pte_of_entryI)
qed

text \<open>
  The page tables that the kernel runs with: whatever memory held before, every address below
  32 MiB is mapped to itself, writable and for user programs. Before \<open>reset_pg_dir\<close> only the
  first 4 MiB are; addresses from 4 to 16 MiB are mapped to the pages 4 MiB below them.
\<close>

theorem boot_identity_map:
  "(unat v < 0x2000000 \<longrightarrow> pte_of (reset_pg_dir (setup_pg_dir m)) v = Some ((v AND FRAME_MASK) OR 7))
    \<and> (0x400000 \<le> unat v \<and> unat v < 0x1000000 \<longrightarrow> pte_of (setup_pg_dir m) v = Some (((v - 0x400000) AND FRAME_MASK) OR 7))"
proof (intro conjI impI)
  assume v: "unat v < 0x2000000"
  then have d: "unat v div 0x400000 < 8" by simp
  have f: "v AND FRAME_MASK = 4096 * of_nat (unat v div 4096)" by (rule frame_of_page) (use v in simp)
  show "pte_of (reset_pg_dir (setup_pg_dir m)) v = Some ((v AND FRAME_MASK) OR 7)"
    unfolding f using reset_maps_low [OF refl, of v m] reset_maps_high [OF refl _ d] by (cases "unat v div 0x400000 < 4") simp_all
next
  assume v: "0x400000 \<le> unat v \<and> unat v < 0x1000000"
  then have u: "unat (v - 0x400000) = unat v - 0x400000" by (simp add: unat_sub word_le_nat_alt)
  then have f: "(v - 0x400000) AND FRAME_MASK = 4096 * of_nat (unat v div 4096 - 1024)"
  proof -
    obtain j where "unat v = 0x400000 + j" using v by (auto dest: le_Suc_ex)
    then have "unat v div 4096 - 1024 = unat (v - 0x400000) div 4096" "unat (v - 0x400000) < 2 ^ 25" using u v by simp_all
    then show ?thesis by (simp only: frame_of_page)
  qed
  have "1 \<le> unat v div 0x400000" "unat v div 0x400000 < 4" using v div_le_mono [of "0x400000" "unat v" "0x400000"] by auto
  then show "pte_of (setup_pg_dir m) v = Some (((v - 0x400000) AND FRAME_MASK) OR 7)"
    unfolding f by (rule setup_maps_shifted [OF refl])
qed

theorem boot_identity_map_witness:
  "pte_of (reset_pg_dir (setup_pg_dir (\<lambda>_. 0))) 0x1ffffff = Some 0x1fff007 \<and> pte_of (setup_pg_dir (\<lambda>_. 0)) 0x400000 = Some 7"
  using boot_identity_map [of "0x1ffffff" "\<lambda>_. 0"] boot_identity_map [of "0x400000" "\<lambda>_. 0"] by simp

subsection \<open>The console during set-up\<close>

lemma con_init_start:
  assumes "length (vc_windows s) = 4" and "fg_console s = 0"
  shows "\<exists>s'. con_init f s = Some s' \<and> con_ok s' \<and> fg_console s' = 0 \<and> con_table s' = con_table s \<and> cursor_x (fg_win s') = 0
    \<and> video_mem_base s' = 0xb8000 \<and> video_mem_start (fg_win s') = 0xb8000"
proof -
  obtain a b c d where w: "vc_windows s = [a, b, c, d]"
    using assms(1) by (auto simp: length_Suc_conv numeral_eq_Suc)
  have l: "[0..<4] = [0, 1, 2, 3 :: nat]" by (simp add: upt_rec)
  show ?thesis
    using assms(2)
    by (simp add: con_init_def upd_win_def w l init_window_def update_cursor_xy_def cell_def outb_def Let_def con_inv_defs)
qed

lemma crt_set_cursor: "crt_cursor crt (set_crt_cursor bx s) = bx"
proof -
  obtain i r where "fold crt_out (port_out s) (0, crt) = (i, r)" by fastforce
  then have "crt_cursor crt (set_crt_cursor bx s) = push_bit 8 (ucast (ucast (drop_bit 8 bx) :: u8)) OR ucast (ucast bx :: u8)"
    by (simp add: crt_cursor_def set_crt_cursor_def crt_out_def)
  also have "\<dots> = bx" by (rule bit_eqI) (auto simp: bit_simps)
  finally show ?thesis .
qed

lemma sint_small16: "unat (w :: u16) < 32768 \<Longrightarrow> sint w = int (unat w)"
proof -
  assume w: "unat w < 32768"
  define m where "m = unat w"
  have "w = word_of_int (int m)" by (simp add: m_def)
  moreover have "sint (word_of_int (int m) :: u16) = int m" unfolding int_word_sint using w by (simp add: m_def [symmetric])
  ultimately show ?thesis by (simp add: m_def)
qed

lemma roll_screen_ok:
  assumes "unat bx < 32768"
  shows "\<exists>bx' m. roll_screen bx s = (bx', s\<lparr>video_ram := m\<rparr>) \<and> unat bx' < 2000"
proof (cases "unat bx < 2000")
  case True
  then have "sint bx < 2000" using sint_small16 [OF assms] by linarith
  then have "roll_screen bx s = (bx, s\<lparr>video_ram := video_ram s\<rparr>)" by (simp add: roll_screen_def)
  then show ?thesis using True by blast
next
  case False
  then have "\<not> sint bx < 2000" using sint_small16 [OF assms] by linarith
  then show ?thesis by (auto simp: roll_screen_def)
qed

lemma put_char_ok:
  assumes "unat (crt_cursor crt s) < 2000"
  shows "\<exists>bx m. put_char crt c s = Some (set_crt_cursor bx (s\<lparr>video_ram := m\<rparr>)) \<and> unat bx < 2000"
proof -
  let ?x = "crt_cursor crt s"
  have u: "unat (?x + 80) < 32768" "unat (?x + 1) < 32768" "drop_bit 1 (push_bit 1 ?x) = ?x"
  proof -
    show "unat (?x + 80) < 32768" "unat (?x + 1) < 32768" using assms by (simp_all add: unat_word_ariths)
    have "unat (drop_bit 1 (push_bit 1 ?x)) = unat ?x"
      using assms unfolding unsigned_drop_bit_eq by (simp add: push_bit_eq_mult unat_word_ariths drop_bit_eq_div take_bit_nat_eq_self)
    then show "drop_bit 1 (push_bit 1 ?x) = ?x" by (simp add: word_unat_eq_iff)
  qed
  consider "c = 0x0d" | "c = 0x0a" "c \<noteq> 0x0d" | "c \<noteq> 0x0d" "c \<noteq> 0x0a" by blast
  then show ?thesis
  proof cases
    case 1
    have "unat (of_nat (unat ?x div 80 * 80) :: u16) < 2000" using assms by (simp only: unat_of_nat) simp
    moreover have "put_char crt c s = Some (set_crt_cursor (of_nat (unat ?x div 80 * 80)) (s\<lparr>video_ram := video_ram s\<rparr>))"
      using 1 assms by (simp add: put_char_def Let_def)
    ultimately show ?thesis by blast
  next
    case 2
    from roll_screen_ok [OF u(1), of s] obtain bx m where "roll_screen (?x + 80) s = (bx, s\<lparr>video_ram := m\<rparr>)" "unat bx < 2000" by blast
    then have "put_char crt c s = Some (set_crt_cursor bx (s\<lparr>video_ram := m\<rparr>))" using 2 by (simp add: put_char_def)
    then show ?thesis using \<open>unat bx < 2000\<close> by blast
  next
    case 3
    let ?s = "s\<lparr>video_ram := (video_ram s)(0xb8000 + ucast (push_bit 1 ?x) :=
      (video_ram s (0xb8000 + ucast (push_bit 1 ?x)) AND 0xff00) OR ucast c)\<rparr>"
    from roll_screen_ok [OF u(2), of ?s] obtain bx m where "roll_screen (?x + 1) ?s = (bx, ?s\<lparr>video_ram := m\<rparr>)" "unat bx < 2000" by blast
    then have "put_char crt c s = Some (set_crt_cursor bx (s\<lparr>video_ram := m\<rparr>))" using 3 u(3) by (simp add: put_char_def Let_def)
    then show ?thesis using \<open>unat bx < 2000\<close> by blast
  qed
qed

definition display_only :: "(u16 \<times> u8) list \<Rightarrow> bool" where
  "display_only os \<longleftrightarrow> (\<forall>(p, v) \<in> set os. p = VIDEO_PORT_REG \<or> p = VIDEO_PROT_VAL)"

lemma put_string_ok:
  assumes "unat (crt_cursor crt s) < 2000"
  shows "\<exists>m os. put_string crt xs s = Some (s\<lparr>video_ram := m, port_out := port_out s @ os\<rparr>) \<and> display_only os"
  using assms
proof (induction xs arbitrary: s)
  case Nil
  have "put_string crt [] s = Some (s\<lparr>video_ram := video_ram s, port_out := port_out s @ []\<rparr>)" by simp
  moreover have "display_only []" by (simp add: display_only_def)
  ultimately show ?case by blast
next
  case (Cons c xs)
  from put_char_ok [OF Cons.prems, of c] obtain bx m where p: "put_char crt c s = Some (set_crt_cursor bx (s\<lparr>video_ram := m\<rparr>))" "unat bx < 2000" by blast
  let ?t = "set_crt_cursor bx (s\<lparr>video_ram := m\<rparr>)"
  from Cons.IH [of ?t] p(2) obtain m' os where
    q: "put_string crt xs ?t = Some (?t\<lparr>video_ram := m', port_out := port_out ?t @ os\<rparr>)" "display_only os" by (auto simp: crt_set_cursor)
  let ?os = "[(VIDEO_PORT_REG, 14), (VIDEO_PROT_VAL, ucast (drop_bit 8 bx)), (VIDEO_PORT_REG, 15), (VIDEO_PROT_VAL, ucast bx)] @ os"
  have "put_string crt (c # xs) s = Some (s\<lparr>video_ram := m', port_out := port_out s @ ?os\<rparr>)"
    using p(1) q(1) by (simp add: set_crt_cursor_def)
  moreover have "display_only ?os" using q(2) by (simp add: display_only_def)
  ultimately show ?case by blast
qed

lemma inb_send: "inb env (send os c) p = fold (\<lambda>(q, v) d. if q = p then v else d) os (inb env c p)"
  by (simp add: inb_def send_def)

lemma inb_display_only:
  assumes "display_only os" and "p \<notin> {VIDEO_PORT_REG, VIDEO_PROT_VAL}"
  shows "fold (\<lambda>(q, v) d. if q = p then v else d) os x = x"
  using assms(1) assms(2) by (induction os) (auto simp: display_only_def)

subsection \<open>Memory during set-up\<close>

text \<open>The descriptor tables lie between 0x5400 and 0x7000; what set-up writes there leaves all other
  memory alone.\<close>

definition same_outside :: "ram \<Rightarrow> ram \<Rightarrow> bool" where
  "same_outside m m' \<longleftrightarrow> (\<forall>a. unat a < 0x5400 \<or> 0x7000 \<le> unat a \<longrightarrow> m' a = m a)"

lemma same_outside_refl: "same_outside m m"
  by (simp add: same_outside_def)

lemma same_outside_trans: "same_outside m n \<Longrightarrow> same_outside n q \<Longrightarrow> same_outside m q"
  by (simp add: same_outside_def)

lemma store_gate_outside:
  assumes "n \<le> 256"
  shows "same_outside m (store_gate 0x5c00 (n, g) m)"
proof -
  have a: "4 dvd unat (0x5c00 :: u32)" "unat (0x5c00 :: u32) + 2056 < 2 ^ 32" and u: "unat (0x5c00 :: u32) = 0x5c00" by simp_all
  note g = gate_addr [OF a assms, unfolded u]
  have "store_gate 0x5c00 (n, g) m x = m x" if "unat x < 0x5400 \<or> 0x7000 \<le> unat x" for x
  proof (cases g)
    case (Pair lo hi)
    let ?a = "0x5c00 + 8 * of_nat n :: u32"
    have "wr32 ?a lo m x = m x" "wr32 (?a + 4) hi (wr32 ?a lo m) x = wr32 ?a lo m x"
      by (rule wr32_byte; use that assms g in linarith)+
    then show ?thesis by (simp add: Pair store_gate_def)
  qed
  then show ?thesis by (simp add: same_outside_def)
qed

lemma store_gates_outside:
  "\<forall>(n, g) \<in> set ts. n \<le> 256 \<Longrightarrow> same_outside m (fold (store_gate 0x5c00) ts m)"
proof (induction ts rule: rev_induct)
  case (snoc t ts)
  then show ?case using store_gate_outside same_outside_trans by (cases t) fastforce
qed (simp add: same_outside_refl)

lemma interrupt_tables_outside:
  "same_outside m (system_call_init adr 0x5c00 (interupt_init adr 0x5c00 (exception_init adr 0x5c00 m)))"
proof -
  have f: "fold (\<lambda>esi. store_gate 0x5c00 (esi, g)) [0..<257] m = fold (store_gate 0x5c00) (map (\<lambda>i. (i, g)) [0..<257]) m" for g m
    by (simp add: fold_map comp_def del: upt_rec_numeral)
  have "same_outside m (exception_init adr 0x5c00 m)"
    unfolding exception_init_def Let_def f
    by (rule same_outside_trans; rule store_gates_outside) (auto simp del: upt_rec_numeral)
  moreover have "same_outside n (interupt_init adr 0x5c00 n)" for n
    unfolding interupt_init_def by (rule store_gates_outside) simp
  moreover have "same_outside n (system_call_init adr 0x5c00 n)" for n
    unfolding system_call_init_def by (rule store_gate_outside) simp
  ultimately show ?thesis using same_outside_trans by blast
qed

definition set_descs :: "u32 \<Rightarrow> u32 \<Rightarrow> ram \<Rightarrow> ram" where
  "set_descs p q m = set_ldt_desc (0x5400 + 8 * of_nat FIRST_LDT_ENTRY) q (set_tss_desc (0x5400 + 8 * of_nat FIRST_TSS_ENTRY) p m)"

lemma set_descs_apply:
  assumes "unat x < 0x5400 \<or> 0x5428 \<le> unat x"
  shows "set_descs p q m x = m x"
proof -
  have "x \<noteq> 0x5418 + of_nat i" "x \<noteq> 0x5420 + of_nat i" if "i < 8" for i
  proof -
    have "unat (0x5418 + of_nat i :: u32) = 0x5418 + i" "unat (0x5420 + of_nat i :: u32) = 0x5420 + i"
      using that by (simp_all add: unat_word_ariths unat_of_nat)
    then show "x \<noteq> 0x5418 + of_nat i" "x \<noteq> 0x5420 + of_nat i" using assms that by auto
  qed
  then show ?thesis by (simp add: set_descs_def set_ldt_desc_def set_tss_desc_def set_desc_other)
qed

lemma set_descs_gates: "v < 256 \<Longrightarrow> gate_at 0x5c00 (set_descs p q m) v = gate_at 0x5c00 m v"
proof -
  assume v: "v < 256"
  have a: "4 dvd unat (0x5c00 :: u32)" "unat (0x5c00 :: u32) + 2056 < 2 ^ 32" and u: "unat (0x5c00 :: u32) = 0x5c00" by simp_all
  note g = gate_addr [OF a less_imp_le [OF v], unfolded u]
  have "rd32 (set_descs p q m) b = rd32 m b" if "unat b = 0x5c00 + 8 * v \<or> unat b = 0x5c00 + 8 * v + 4" for b
  proof -
    have "unat (b + 1) = unat b + 1" "unat (b + 2) = unat b + 2" "unat (b + 3) = unat b + 3"
      using that v by (auto simp: unat_word_ariths)
    then show ?thesis using that by (auto simp: rd32_def set_descs_apply)
  qed
  then show ?thesis using g(1,2) by (simp add: gate_at_def)
qed

lemma rd32_same_outside:
  assumes "same_outside m m'" and "4 dvd unat a" and "unat a < 0x5000 \<or> 0x7000 \<le> unat a"
  shows "rd32 m' a = rd32 m a"
proof -
  obtain x where x: "unat a = 4 * x" using assms(2) by (auto elim: dvdE)
  then have "4 * x < 2 ^ 32" using unat_u32_bound [of a] by simp
  then have "unat (a + 1) = unat a + 1" "unat (a + 2) = unat a + 2" "unat (a + 3) = unat a + 3"
    using x by (simp_all add: unat_word_ariths)
  then show ?thesis using assms(1,3) by (auto simp: rd32_def same_outside_def)
qed

text \<open>The tables of the addresses below 32 MiB lie outside.\<close>

lemma pte_of_same_outside:
  assumes "unat v < 0x2000000" and "same_outside (reset_pg_dir (setup_pg_dir m)) m'"
  shows "pte_of m' v = Some ((v AND FRAME_MASK) OR 7)"
proof -
  let ?m = "reset_pg_dir (setup_pg_dir m)" and ?d = "unat v div 0x400000"
  have d: "?d < 8" using assms(1) by simp
  have f: "v AND FRAME_MASK = 4096 * of_nat (unat v div 4096)" by (rule frame_of_page) (use assms(1) in simp)
  have p: "pte_of ?m v = Some ((v AND FRAME_MASK) OR 7)"
    unfolding f using reset_maps_low [OF refl, of v m] reset_maps_high [OF refl _ d] by (cases "?d < 4") simp_all
  have "unat (pgd_index v) < 0x5000" using index_bounds(1) [of v] by simp
  then have g: "rd32 m' (pgd_index v) = rd32 ?m (pgd_index v)" by (intro rd32_same_outside [OF assms(2) index_bounds(2)]) simp
  have "unat (table_of ?m v) < 0x5000 \<or> 0x7000 \<le> unat (table_of ?m v)"
  proof -
    have "?d \<in> {0, 1, 2, 3, 4, 5, 6, 7}" using d by auto
    then have "table_of ?m v \<in> {0x1000, 0x2000, 0x3000, 0x4000, 0x800000, 0x801000, 0x802000, 0x803000}"
      using dir_words(1-4) [of m] dir_words(5) [of ?d "setup_pg_dir m"] dir_words(6-9) [of "setup_pg_dir m"] page_numbers(1) [of v]
      by (elim insertE emptyE; simp add: table_of_def)
    then show ?thesis by auto
  qed
  then have "unat (pte_at ?m v) < 0x5000 \<or> 0x7000 \<le> unat (pte_at ?m v)"
    using unat_pte_at [of ?m v] index_bounds(3) [of v] unat_table(1) [of ?m v] by auto
  then have "rd32 m' (pte_at ?m v) = rd32 ?m (pte_at ?m v)" by (rule rd32_same_outside [OF assms(2) pte_at_aligned])
  moreover have "pte_at m' v = pte_at ?m v" using g by (simp add: pte_at_def table_of_def)
  moreover have "pgd_present m' v = pgd_present ?m v" using g by (simp add: pgd_present_def)
  ultimately have "pte_of m' v = pte_of ?m v" by (simp only: pte_of_def)
  then show ?thesis using p by simp
qed

subsection \<open>The set-up as a whole\<close>

lemma unat_cursor_bytes: "unat (push_bit 8 (ucast (hi :: u8)) OR ucast (lo :: u8) :: u16) = unat hi * 256 + unat lo"
proof -
  have "(push_bit 8 (ucast hi) OR ucast lo :: u16) = push_bit 8 (ucast hi) + ucast lo"
  proof (rule disjunctive_add_eq_or [symmetric])
    show "push_bit 8 (ucast hi) AND ucast lo = (0 :: u16)"
    proof (rule bit_eqI)
      fix n show "bit (push_bit 8 (ucast hi) AND ucast lo :: u16) n = bit (0 :: u16) n"
        using bit_imp_le_length [of lo n] by (auto simp: bit_simps)
    qed
  qed
  moreover have "unat hi < 256" "unat lo < 256" using unsigned_less [of hi] unsigned_less [of lo] by simp_all
  ultimately show ?thesis by (simp add: push_bit_eq_mult unat_word_ariths unsigned_ucast_eq take_bit_nat_eq_self)
qed

lemma crt_cursor_printed:
  "unat (crt_cursor crt (s\<lparr>port_out := os @ [(VIDEO_PORT_REG, 14), (VIDEO_PROT_VAL, hi), (VIDEO_PORT_REG, 15), (VIDEO_PROT_VAL, lo)]\<rparr>))
    = unat hi * 256 + unat lo"
proof -
  obtain i r where "fold crt_out os (0, crt) = (i, r)" by fastforce
  then show ?thesis by (simp add: crt_cursor_def crt_out_def unat_cursor_bytes)
qed

lemma cursor_row_position:
  assumes "con_ok s" and "cursor_x (fg_win s) = 0" and "video_mem_start (fg_win s) = video_mem_base s"
  shows "unat (cursor_pos (fg_win s) - video_mem_base s) div 2 mod 65536 < 2000"
proof -
  have y: "cursor_y (fg_win s) < 25" "cursor_pos (fg_win s) - video_mem_base s = cursor_y (fg_win s) * 160"
    using assms by (auto simp: con_ok_def win_ok_def)
  then have "unat (cursor_y (fg_win s)) < 25" by (simp add: word_less_nat_alt)
  then have "unat (cursor_y (fg_win s) * 160) = unat (cursor_y (fg_win s)) * 160" by (simp add: unat_word_ariths)
  then show ?thesis using y(2) \<open>unat (cursor_y (fg_win s)) < 25\<close> by simp
qed

lemma boot_console:
  assumes "length (vc_windows s) = 4" and "fg_console s = 0" and "0x5C \<notin> set (bytes_of t)" and "0x25 \<notin> set (bytes_of t)" and "length t \<le> 80"
  shows "\<exists>s1 s2. con_init f s = Some s1 \<and> message t s1 = Some s2 \<and> con_ok s2 \<and> con_table s2 = con_table s
    \<and> unat (crt_cursor crt s2) < 2000"
proof -
  from con_init_start [OF assms(1,2)] obtain s1 where s1: "con_init f s = Some s1" "con_ok s1" "fg_console s1 = 0"
    "con_table s1 = con_table s" "cursor_x (fg_win s1) = 0" "video_mem_base s1 = 0xb8000" "video_mem_start (fg_win s1) = 0xb8000" by blast
  from message_printed [OF s1(2) assms(3,4)] s1(5) assms(5) obtain u where
    u: "message t s1 = con_set_cursor (fg_console u) u" "con_ok u" "con_frame s1 u" "cursor_x (fg_win u) = 0" by auto
  have k: "video_mem_start (fg_win u) = video_mem_base u" "con_table u = con_table s"
    using u(2,3) s1 by (auto simp: con_frame_def fg_win_def con_ok_def)
  have "fg_console u < length (vc_windows u)" using u(2) by (simp add: con_ok_def)
  from con_set_cursor_registers [OF this] obtain hi lo where
    p: "con_set_cursor (fg_console u) u = Some (u\<lparr>port_out := port_out u @
      [(VIDEO_PORT_REG, 14), (VIDEO_PROT_VAL, hi), (VIDEO_PORT_REG, 15), (VIDEO_PROT_VAL, lo)]\<rparr>)"
    "unat hi * 256 + unat lo = (unat (cursor_pos (fg_win u) - video_mem_base u) div 2) mod 65536"
    by (auto simp: fg_win_def)
  let ?s2 = "u\<lparr>port_out := port_out u @ [(VIDEO_PORT_REG, 14), (VIDEO_PROT_VAL, hi), (VIDEO_PORT_REG, 15), (VIDEO_PROT_VAL, lo)]\<rparr>"
  have "unat (crt_cursor crt ?s2) < 2000"
    unfolding crt_cursor_printed p(2) by (rule cursor_row_position [OF u(2,4) k(1)])
  moreover have "con_ok ?s2" using u(2) by (simp add: con_inv_defs)
  ultimately show ?thesis using s1(1) u(1) p(1) k(2) by auto
qed

lemma pic_init_seen:
  "crt_cursor crt (send pic_init c) = crt_cursor crt c" "inb env (send pic_init c) 0x21 = 0xff" "inb env (send pic_init c) 0xa1 = 0xff"
  by (auto simp: crt_cursor_def send_def pic_init_def crt_out_def inb_def split: prod.splits)

lemma boot_tips:
  assumes "con_ok c" and "unat (crt_cursor crt c) < 2000"
  shows "\<exists>d. open_page_tips crt (send pic_init c) = Some d \<and> con_ok d \<and> con_table d = con_table c
    \<and> inb env d 0x21 = 0xff \<and> inb env d 0xa1 = 0xff"
proof -
  have "unat (crt_cursor crt (send pic_init c)) < 2000" using assms(2) by (simp add: pic_init_seen)
  from put_string_ok [OF this, of "bytes_of ''active page .....'' @ [10, 13]"] obtain m os where
    d: "open_page_tips crt (send pic_init c) = Some ((send pic_init c)\<lparr>video_ram := m, port_out := port_out (send pic_init c) @ os\<rparr>)"
      "display_only os" unfolding open_page_tips_def by blast
  let ?d = "(send pic_init c)\<lparr>video_ram := m, port_out := port_out (send pic_init c) @ os\<rparr>"
  have "inb env ?d p = inb env (send pic_init c) p" if "p \<notin> {VIDEO_PORT_REG, VIDEO_PROT_VAL}" for p
    using inb_display_only [OF d(2) that] by (simp add: inb_def)
  then have "inb env ?d 0x21 = 0xff" "inb env ?d 0xa1 = 0xff" by (simp_all add: pic_init_seen)
  moreover have "con_ok ?d" "con_table ?d = con_table c" using assms(1) by (simp_all add: con_inv_defs send_def)
  ultimately show ?thesis using d(1) by blast
qed

text \<open>The variables that \<open>main\<close> finds cleared, and where the assembly part has put its tables.\<close>

definition boot_start :: "boot_env \<Rightarrow> boot \<Rightarrow> bool" where
  "boot_start env b \<longleftrightarrow> (let k = kern (mach b); c = scr (mach b); s = slab k in
     length (vc_windows c) = 4 \<and> fg_console c = 0 \<and> length (con_table c) = NR_TTY
     \<and> free_area (pages s) = replicate MAX_ORDER \<lparr>free_list = None, nr_free = 0\<rparr>
     \<and> slabs_partial (cache_at s (cache_cache s)) = None \<and> (\<forall>i < 11. cache_place 2052 i \<noteq> cache_cache s)
     \<and> (\<forall>i. hash_next (bufs (cache_of (vfs.fs (vfs k))) i) = None \<and> hash_prev (bufs (cache_of (vfs.fs (vfs k))) i) = None)
     \<and> gdt k = 0x5400 \<and> idt_adr env = 0x5c00)"

lemma main_init_result:
  assumes "boot_start env b"
  shows "\<exists>b' c s p q. main_init env b = Some b' \<and> con_ok c \<and> mem_init 0x804000 0x2000000 (slab (kern (mach b))) = Some s
    \<and> scr (mach b') = send [(0x21, 0xfa), (0xa1, 0xbf)] c \<and> slab (kern (mach b')) = s
    \<and> cache_of (vfs.fs (vfs (kern (mach b')))) = buffer_init 0x7fffff (cache_of (vfs.fs (vfs (kern (mach b)))))
    \<and> mem (kern (mach b')) = set_descs p q (system_call_init (entry_adr env) 0x5c00
        (interupt_init (entry_adr env) 0x5c00 (exception_init (entry_adr env) 0x5c00 (reset_pg_dir (mem (kern (mach b)))))))"
proof -
  let ?t = "'' ------------------- entry kernel ------------------- ''" and ?c = "scr (mach b)" and ?k = "kern (mach b)"
  have st: "length (vc_windows ?c) = 4" "fg_console ?c = 0" "length (con_table ?c) = NR_TTY" "gdt ?k = 0x5400" "idt_adr env = 0x5c00"
    "free_area (pages (slab ?k)) = replicate MAX_ORDER \<lparr>free_list = None, nr_free = 0\<rparr>"
    "slabs_partial (cache_at (slab ?k) (cache_cache (slab ?k))) = None" "\<forall>i < 11. cache_place 2052 i \<noteq> cache_cache (slab ?k)"
    using assms by (simp_all add: boot_start_def Let_def)
  have t: "0x5C \<notin> set (bytes_of ?t)" "0x25 \<notin> set (bytes_of ?t)" "length ?t \<le> 80" by (simp_all add: bytes_of_def)
  from boot_console [OF st(1,2) t, of "inb env ?c" "crt_regs env"] obtain c1 c2 where
    c: "con_init (inb env ?c) ?c = Some c1" "message ?t c1 = Some c2" "con_ok c2" "con_table c2 = con_table ?c"
      "unat (crt_cursor (crt_regs env) c2) < 2000" by blast
  from boot_tips [OF c(3,5), of env] obtain c3 where c3: "open_page_tips (crt_regs env) (send pic_init c2) = Some c3" "con_ok c3"
    "con_table c3 = con_table c2" "inb env c3 0x21 = 0xff" "inb env c3 0xa1 = 0xff" by blast
  from mem_init_ready [OF st(6-8)] obtain s where s: "mem_init 0x804000 0x2000000 (slab ?k) = Some s" by blast
  let ?c4 = "send [(0x21, 0xfe)] (send [(0x43, 0x36), (0x40, of_nat (LATCH mod 256)), (0x40, of_nat (LATCH div 256))] c3)"
  have i: "inb env ?c4 0x21 = 0xfe" "inb env ?c4 0xa1 = 0xff" using c3(4,5) by (simp_all add: inb_send)
  from tty_init_empties [of ?c4] obtain c5 where c5: "tty_init ?c4 = Some c5" "con_ok c5" "inb env c5 0x21 = 0xfe" "inb env c5 0xa1 = 0xff"
    using st c3(2,3) c(4) i by (simp add: send_def con_inv_defs inb_def)
  have e: "0xff AND NOT 1 = (0xfe :: u8)" "0xfe AND 0xfb = (0xfa :: u8)" "0xff AND 0xbf = (0xbf :: u8)" by simp_all
  have i3: "inb env (send [(0x43, 0x36), (0x40, of_nat (LATCH mod 256)), (0x40, of_nat (LATCH div 256))] c3) 0x21 = 0xff"
    using c3(4) by (simp add: inb_send)
  let ?p = "init_task (sch ?k) + TSS_OFFSET" and ?q = "init_task (sch ?k) + LDT_OFFSET"
  have "\<exists>b'. main_init env b = Some b' \<and> scr (mach b') = send [(0x21, 0xfa), (0xa1, 0xbf)] c5 \<and> slab (kern (mach b')) = s
    \<and> cache_of (vfs.fs (vfs (kern (mach b')))) = buffer_init 0x7fffff (cache_of (vfs.fs (vfs ?k)))
    \<and> mem (kern (mach b')) = set_descs ?p ?q (system_call_init (entry_adr env) 0x5c00
        (interupt_init (entry_adr env) 0x5c00 (exception_init (entry_adr env) 0x5c00 (reset_pg_dir (mem ?k)))))"
    using c(1,2) c3(1) s c5 st(4,5) i3
    by (simp add: main_init_def on_scr_def on_mem_def upd_kern_def sched_setup_def hd_setup_def hd_init_def fs_init_def set_mem_def
        set_descs_def e Let_def)
  then show ?thesis using c5(2) s by blast
qed

text \<open>
  C16. \<open>main\<close> brings the kernel up: from cleared variables and the page tables of the assembly part the
  set-up returns. Then every address below 32 MiB is mapped to itself, every vector of the
  interrupt table leads to its entry, the eleven caches are ready, all buffers are on the free
  list and the console is in order. Of the interrupts, those of the clock, of the second
  controller and of the disk are let through; that of the keyboard, bit 1 of the first mask, is
  not, because \<open>exception_init\<close> masks what \<open>con_init\<close> let through before it.
\<close>

theorem boot_ready:
  assumes "boot_start env b" and "mem (kern (mach b)) = setup_pg_dir m"
  shows "\<exists>b'. main_init env b = Some b' \<and> con_ok (scr (mach b'))
    \<and> (\<forall>v. unat v < 0x2000000 \<longrightarrow> pte_of (mem (kern (mach b'))) v = Some ((v AND FRAME_MASK) OR 7))
    \<and> (\<forall>v < 256. let g = gate_at 0x5c00 (mem (kern (mach b'))) v
         in gate_entry g = entry_adr env (entry_of v) \<and> gate_selector g = KERNEL_CS \<and> gate_attr g = rights_of v)
    \<and> (\<forall>i < 11. cache_ready (cache_at (slab (kern (mach b'))) (cache_place 2052 i)) (kernel_sizes ! i))
    \<and> (\<exists>n > 0. cache_ok (cache_of (vfs.fs (vfs (kern (mach b'))))) [0..<n])
    \<and> inb env (scr (mach b')) 0x21 = 0xfa \<and> inb env (scr (mach b')) 0xa1 = 0xbf"
proof -
  let ?k = "kern (mach b)" and ?adr = "entry_adr env"
  from main_init_result [OF assms(1)] obtain b' c s p q where r: "main_init env b = Some b'" "con_ok c"
    "mem_init 0x804000 0x2000000 (slab ?k) = Some s" "scr (mach b') = send [(0x21, 0xfa), (0xa1, 0xbf)] c" "slab (kern (mach b')) = s"
    "cache_of (vfs.fs (vfs (kern (mach b')))) = buffer_init 0x7fffff (cache_of (vfs.fs (vfs ?k)))"
    "mem (kern (mach b')) = set_descs p q (system_call_init ?adr 0x5c00 (interupt_init ?adr 0x5c00 (exception_init ?adr 0x5c00
       (reset_pg_dir (mem ?k)))))" by blast
  have "con_ok (scr (mach b'))" using r(2,4) by (simp add: con_inv_defs send_def)
  moreover have "inb env (scr (mach b')) 0x21 = 0xfa" "inb env (scr (mach b')) 0xa1 = 0xbf" using r(4) by (simp_all add: inb_send)
  moreover have "pte_of (mem (kern (mach b'))) v = Some ((v AND FRAME_MASK) OR 7)" if "unat v < 0x2000000" for v
  proof -
    have "same_outside n (set_descs p q n)" for n using set_descs_apply by (auto simp: same_outside_def)
    then have "same_outside (reset_pg_dir (setup_pg_dir m)) (mem (kern (mach b')))"
      unfolding r(7) assms(2) using interrupt_tables_outside same_outside_trans by blast
    then show ?thesis by (rule pte_of_same_outside [OF that])
  qed
  moreover have "let g = gate_at 0x5c00 (mem (kern (mach b'))) v
      in gate_entry g = ?adr (entry_of v) \<and> gate_selector g = KERNEL_CS \<and> gate_attr g = rights_of v" if "v < 256" for v
    unfolding r(7) set_descs_gates [OF that] by (rule gates_complete [OF _ _ that]) simp_all
  moreover have "\<forall>i < 11. cache_ready (cache_at (slab (kern (mach b'))) (cache_place 2052 i)) (kernel_sizes ! i)"
    using mem_init_ready [of "slab ?k"] r(3,5) assms(1) by (auto simp: boot_start_def Let_def)
  moreover have "\<exists>n > 0. cache_ok (cache_of (vfs.fs (vfs (kern (mach b'))))) [0..<n]"
    unfolding r(6) using buffer_init_free_list [of "0x7fffff" "cache_of (vfs.fs (vfs ?k))"] assms(1) by (auto simp: boot_start_def Let_def)
  ultimately show ?thesis using r(1) by blast
qed

subsection \<open>Witness\<close>

definition sample_env :: boot_env where
  "sample_env = \<lparr>entry_adr = (\<lambda>_. 0x6000), idt_adr = 0x5c00, firmware = (\<lambda>_. 0xff), crt_regs = (\<lambda>_. 0), cmos = (\<lambda>_. 0), strings = (\<lambda>_. []),
     garbage = 0\<rparr>"

definition sample_boot :: boot where
  "sample_boot = \<lparr>mach = \<lparr>kern = fork_kernel\<lparr>mem := setup_pg_dir (\<lambda>_. 0), gdt := 0x5400,
       slab := (sample_slabs 0 0 512 32)\<lparr>pages := empty_buddy 0\<rparr>,
       vfs := sample_vfs\<lparr>vfs.fs := (vfs.fs sample_vfs)\<lparr>cache_of := blank_cache\<rparr>\<rparr>\<rparr>,
     scr = (sample_console 0 0 0)\<lparr>vc_windows := replicate 4 (sample_window 0), con_table := replicate 4 (con_table (sample_console 0 0 0) ! 0)\<rparr>\<rparr>,
     hd_info = fst (hd_init 0 0), task_reg = 0, ldt_reg = 0\<rparr>"

lemma sample_boot_start: "boot_start sample_env sample_boot"
proof -
  have "unat (cache_place 2052 i) \<noteq> 0x1000" if "i < 11" for i
  proof -
    have "cache_place 2052 i = of_nat (2052 * 4096 + 256 + i * 32)" by (simp add: cache_place_def page_address_nat)
    then show ?thesis using that by (simp only: unat_of_nat) simp
  qed
  then have "\<forall>i < 11. cache_place 2052 i \<noteq> cache_cache ((sample_slabs 0 0 512 32)\<lparr>pages := empty_buddy 0\<rparr>)"
    by (force simp: sample_slab_defs)
  then show ?thesis
    by (simp add: boot_start_def sample_boot_def sample_env_def Let_def sample_slab_defs empty_buddy_def sample_defs blank_cache_def blank_buf_def)
qed

theorem boot_ready_witness:
  "\<exists>b'. main_init sample_env sample_boot = Some b' \<and> pte_of (mem (kern (mach b'))) 0x1234567 = Some 0x1234007
    \<and> inb sample_env (scr (mach b')) 0x21 = 0xfa"
proof -
  have "mem (kern (mach sample_boot)) = setup_pg_dir (\<lambda>_. 0)" by (simp add: sample_boot_def)
  from boot_ready [OF sample_boot_start this] obtain b' where b': "main_init sample_env sample_boot = Some b'"
    "\<forall>v. unat v < 0x2000000 \<longrightarrow> pte_of (mem (kern (mach b'))) v = Some ((v AND FRAME_MASK) OR 7)" "inb sample_env (scr (mach b')) 0x21 = 0xfa"
    by blast
  then show ?thesis using b'(2) [THEN spec, of "0x1234567"] by simp
qed

end
