(* ===== verification/Image.thy ===== *)
theory Image
  imports Execve
begin

unbundle bit_operations_syntax

section \<open>Building the boot image\<close>

text \<open>
  Models tools/build.c, the program on the build host that makes the image of the kernel from its
  ELF file. The file is a list of bytes, or \<open>None\<close> when it cannot be opened; the result is what the
  image file, which can be opened for writing, holds in the end. \<open>malloc\<close> gives the old contents of a block of memory, or \<open>None\<close> for
  the null pointer; \<open>None\<close> as the result of \<open>build\<close> is the fault of storing through it.

  Shown: the program reads offset and size of the segments as the program header table has them;
  the image is the part of the file that starts with the first segment and is as long as the end of
  the third segment in the file, so that the segments in that part are in the image at their
  distances from the first one; what the file does not have is old memory.
\<close>

subsection \<open>The program\<close>

text \<open>Characters are signed; the masks remove the extension of the sign.\<close>

definition to_long_bit :: "u8 list \<Rightarrow> nat \<Rightarrow> nat \<Rightarrow> nat \<Rightarrow> nat \<Rightarrow> u32" where
  "to_long_bit buffer i1 i2 i3 i4 =
     (scast (buffer ! i1) AND 0xff) + (push_bit 8 (scast (buffer ! i2)) AND 0xff00)
     + (push_bit 16 (scast (buffer ! i3)) AND 0xff0000) + (push_bit 24 (scast (buffer ! i4)) AND 0xff000000)"

text \<open>A seek to a negative offset fails and leaves the position behind the first 1024 bytes. A short
  read fills the beginning of the block, and the whole block is written.\<close>

definition build :: "(u32 \<Rightarrow> u8 list option) \<Rightarrow> u8 list option \<Rightarrow> u8 list option" where
  "build malloc file =
     (case file of
        None \<Rightarrow> Some []
      | Some d \<Rightarrow>
          if length d < 1024 then Some []
          else do {
            let buffer = take 1024 d;
            let ph_offset_in_file = [to_long_bit buffer 56 57 58 59, to_long_bit buffer 88 89 90 91,
                  to_long_bit buffer 120 121 122 123, to_long_bit buffer 152 153 154 155];
            let ph_in_file_sizes = [to_long_bit buffer 68 69 70 71, to_long_bit buffer 100 101 102 103,
                  to_long_bit buffer 132 133 134 135, to_long_bit buffer 164 165 166 167];
            let ph_total_size = ph_offset_in_file ! 2 + ph_in_file_sizes ! 2;
            img \<leftarrow> (if ph_total_size = 0 then Some [] else malloc ph_total_size);
            let pos = (if sint (ph_offset_in_file ! 0) < 0 then 1024 else unat (ph_offset_in_file ! 0));
            let got = take (unat ph_total_size) (drop pos d);
            Some (take (unat ph_total_size) (got @ drop (length got) img)) })"

subsection \<open>The program header table\<close>

text \<open>Header \<open>i\<close> of the table behind the 52 bytes of the file's header, and its segment.\<close>

definition file_header :: "u8 list \<Rightarrow> nat \<Rightarrow> elf32_program_header_table" where
  "file_header d i = program_header_at (\<lambda>a. d ! unat a) (of_nat (52 + 32 * i))"

definition segment :: "u8 list \<Rightarrow> nat \<Rightarrow> u8 list" where
  "segment d i = take (unat (p_filesz (file_header d i))) (drop (unat (p_offset (file_header d i))) d)"

lemma to_long_bit_word: "to_long_bit b i j k l = word32 [b ! i, b ! j, b ! k, b ! l] 0"
proof -
  have m: "(0xff :: u32) = mask 8" "(0xff00 :: u32) = push_bit 8 (mask 8)" "(0xff0000 :: u32) = push_bit 16 (mask 8)"
    "(0xff000000 :: u32) = push_bit 24 (mask 8)" by (simp_all add: mask_eq_exp_minus_1)
  have u: "(scast x AND mask 8 :: u32) = ucast x" for x :: u8
  proof (rule bit_eqI)
    fix n show "bit (scast x AND mask 8 :: u32) n = bit (ucast x :: u32) n"
    proof (cases "n < 8")
      case True
      then have "min 7 n = n" by simp
      then show ?thesis using True by (simp add: bit_simps)
    next
      case False
      then show ?thesis using bit_imp_le_length [of x n] by (auto simp: bit_simps)
    qed
  qed
  have p: "push_bit n (scast x) AND push_bit n (mask 8) = push_bit n (ucast x :: u32)" for n and x :: u8
    by (simp flip: push_bit_and add: u)
  have a: "(x :: u32) + y = x OR y" if "x AND y = 0" for x y using that by (rule disjunctive_add_eq_or)
  show ?thesis
    unfolding to_long_bit_def m u p
    by (subst a, rule bit_eqI, (auto simp: bit_simps dest: bit_imp_le_length)[1])+ (simp add: word32_def or.assoc)
qed

lemma header_words:
  assumes "1024 \<le> length d" and "i < 4"
  shows "p_offset (file_header d i) = to_long_bit (take 1024 d) (56 + 32 * i) (57 + 32 * i) (58 + 32 * i) (59 + 32 * i)"
    and "p_filesz (file_header d i) = to_long_bit (take 1024 d) (68 + 32 * i) (69 + 32 * i) (70 + 32 * i) (71 + 32 * i)"
proof -
  have "unat (of_nat (52 + 32 * i) + of_nat n :: u32) = 52 + 32 * i + n" if "n < 32" for n
    using that assms(2) by (simp only: of_nat_add [symmetric] unat_of_nat) simp
  from this [of 4] this [of 5] this [of 6] this [of 7] this [of 16] this [of 17] this [of 18] this [of 19]
  show "p_offset (file_header d i) = to_long_bit (take 1024 d) (56 + 32 * i) (57 + 32 * i) (58 + 32 * i) (59 + 32 * i)"
    "p_filesz (file_header d i) = to_long_bit (take 1024 d) (68 + 32 * i) (69 + 32 * i) (70 + 32 * i) (71 + 32 * i)"
    using assms(2) by (simp_all add: to_long_bit_word file_header_def program_header_at_def rd32_def algebra_simps)
qed

lemma build_image:
  fixes d defines "n \<equiv> unat (p_offset (file_header d 2)) + unat (p_filesz (file_header d 2))"
    and "off \<equiv> unat (p_offset (file_header d 0))"
  assumes "1024 \<le> length d" and "off < 2 ^ 31" and "n < 2 ^ 32" and "malloc (of_nat n) = Some old" and "length old = n"
  shows "build malloc (Some d) = Some (take n (drop off d) @ drop (length d - off) old)"
proof -
  let ?o = "p_offset (file_header d 2)" and ?z = "p_filesz (file_header d 2)" and ?f = "p_offset (file_header d 0)"
  have u: "unat (?o + ?z) = n" using assms(5) by (simp add: n_def unat_word_ariths)
  then have w: "?o + ?z = of_nat n" by (metis word_of_unat)
  have h: "?f = to_long_bit (take 1024 d) 56 57 58 59"
    "?o = to_long_bit (take 1024 d) 120 121 122 123" "?z = to_long_bit (take 1024 d) 132 133 134 135"
    using header_words(1) [OF assms(3), of 0] header_words [OF assms(3), of 2] by simp_all
  have m: "(if ?o + ?z = 0 then Some [] else malloc (?o + ?z)) = Some old"
    using assms(6,7) u unfolding w by (cases "of_nat n = (0 :: u32)") auto
  have "\<not> sint ?f < 0" using assms(4) sint_small [of ?f] by (simp add: off_def)
  then have "build malloc (Some d) = do {
      img \<leftarrow> (if ?o + ?z = 0 then Some [] else malloc (?o + ?z));
      let got = take (unat (?o + ?z)) (drop (unat ?f) d); Some (take (unat (?o + ?z)) (got @ drop (length got) img)) }"
    using assms(3) unfolding build_def h by (simp add: Let_def)
  then have "build malloc (Some d) = Some (take n (take n (drop off d) @ drop (length (take n (drop off d))) old))"
    using m u by (simp add: Let_def off_def)
  also have "drop (length (take n (drop off d))) old = drop (length d - off) old" using assms(7) by (simp add: min_def)
  finally show ?thesis using assms(7) by simp
qed

text \<open>
  C40. The image is as long as the offset and the size of the third segment together, and starts with
  what the file has at the offset of the first segment. Each segment that lies in that part of the
  file is in the image, at its distance from the first segment. Where the file ends before, the rest
  of the image is what the block of memory held.
\<close>

theorem image_holds_segments:
  fixes d defines "n \<equiv> unat (p_offset (file_header d 2)) + unat (p_filesz (file_header d 2))"
    and "off \<equiv> unat (p_offset (file_header d 0))"
  assumes "1024 \<le> length d" and "off < 2 ^ 31" and "n < 2 ^ 32" and "malloc (of_nat n) = Some old" and "length old = n"
  shows "\<exists>img. build malloc (Some d) = Some img \<and> length img = n
    \<and> (\<forall>i < 4. let p = unat (p_offset (file_header d i)); z = unat (p_filesz (file_header d i)) in
         off \<le> p \<and> p + z \<le> off + n \<and> p + z \<le> length d \<longrightarrow> take z (drop (p - off) img) = segment d i)
    \<and> (\<forall>j. off + j < length d \<and> j < n \<longrightarrow> img ! j = d ! (off + j))
    \<and> (\<forall>j. length d \<le> off + j \<and> j < n \<longrightarrow> img ! j = old ! j)"
proof -
  let ?img = "take n (drop off d) @ drop (length d - off) old"
  have b: "build malloc (Some d) = Some ?img" unfolding n_def off_def by (rule build_image) (use assms in \<open>simp_all add: n_def off_def\<close>)
  have l: "length (take n (drop off d)) = min n (length d - off)" by simp
  have "take z (drop (p - off) ?img) = take z (drop p d)" if "off \<le> p" "p + z \<le> off + n" "p + z \<le> length d" for p z
  proof -
    have "take z (drop (p - off) ?img) = take z (drop (p - off) (take n (drop off d)))" using that l by (simp add: min_def)
    also have "\<dots> = take z (drop p d)" using that by (simp add: drop_take min_def)
    finally show ?thesis .
  qed
  moreover have "?img ! j = d ! (off + j)" if "off + j < length d" "j < n" for j using that by (auto simp: nth_append)
  moreover have "?img ! j = old ! j" if "length d \<le> off + j" "j < n" for j
    using that assms(7) by (cases "off \<le> length d") (auto simp: nth_append min_def)
  ultimately show ?thesis using b assms(7) by (intro exI [of _ ?img]) (auto simp: segment_def Let_def)
qed

text \<open>A file whose first segment starts at offset 256.\<close>

definition sample_file :: "u8 list" where
  "sample_file = (replicate 2048 0)[57 := 1, 69 := 1, 121 := 4, 132 := 16, 1030 := 7]"

theorem image_holds_segments_witness:
  "\<exists>img. build (\<lambda>n. Some (replicate (unat n) 0)) (Some sample_file) = Some img \<and> length img = 1040
    \<and> take 16 (drop 768 img) = segment sample_file 2 \<and> img ! 774 = 7"
proof -
  have l: "length sample_file = 2048" by (simp add: sample_file_def)
  have w: "to_long_bit (take 1024 sample_file) 56 57 58 59 = 256" "to_long_bit (take 1024 sample_file) 120 121 122 123 = 1024"
    "to_long_bit (take 1024 sample_file) 132 133 134 135 = 16"
    by (simp_all add: to_long_bit_word word32_def sample_file_def nth_list_update)
  have h: "p_offset (file_header sample_file 0) = 256" "p_offset (file_header sample_file 2) = 1024"
    "p_filesz (file_header sample_file 2) = 16"
    using header_words(1) [of sample_file 0] header_words [of sample_file 2] l w by simp_all
  have m: "sample_file ! 1030 = 7" by (simp add: sample_file_def nth_list_update)
  have "\<exists>img. build (\<lambda>n. Some (replicate (unat n) 0)) (Some sample_file) = Some img \<and> length img = 1040
    \<and> (\<forall>i < 4. let p = unat (p_offset (file_header sample_file i)); z = unat (p_filesz (file_header sample_file i)) in
         256 \<le> p \<and> p + z \<le> 256 + 1040 \<and> p + z \<le> length sample_file \<longrightarrow> take z (drop (p - 256) img) = segment sample_file i)
    \<and> (\<forall>j. 256 + j < length sample_file \<and> j < 1040 \<longrightarrow> img ! j = sample_file ! (256 + j))
    \<and> (\<forall>j. length sample_file \<le> 256 + j \<and> j < 1040 \<longrightarrow> img ! j = replicate 1040 (0 :: u8) ! j)"
    using image_holds_segments [of sample_file "\<lambda>n. Some (replicate (unat n) 0)" "replicate 1040 0"] by (simp add: h l)
  then obtain img where i: "build (\<lambda>n. Some (replicate (unat n) 0)) (Some sample_file) = Some img" "length img = 1040"
    "let p = unat (p_offset (file_header sample_file 2)); z = unat (p_filesz (file_header sample_file 2)) in
         256 \<le> p \<and> p + z \<le> 256 + 1040 \<and> p + z \<le> length sample_file \<longrightarrow> take z (drop (p - 256) img) = segment sample_file 2"
    "256 + 774 < length sample_file \<and> 774 < (1040 :: nat) \<longrightarrow> img ! 774 = sample_file ! (256 + 774)" by auto
  show ?thesis using i(1,2) i(3,4) m l by (intro exI [of _ img]) (simp add: h Let_def)
qed

end
