(* ===== verification/Strings.thy ===== *)
theory Strings
  imports Paging
begin

unbundle bit_operations_syntax

section \<open>String instructions\<close>

text \<open>
  The macros of include/kernel/string.h and the block macros of include/mm/pagetable.h and
  include/kernel/flags_bit.h. Each is a sequence of string instructions of the processor:
  \<open>movsb\<close>, \<open>stosb\<close>, \<open>scasb\<close> and \<open>lodsb\<close> with the direction flag cleared, so that addresses
  grow and wrap around at 4 GiB; \<open>rep\<close> and \<open>repne\<close> count the register \<open>ecx\<close> down. \<open>strncmp\<close> is
  left out: nothing uses it, and its instructions are written for another assembler.
\<close>

subsection \<open>Instructions\<close>

function rep_movsb :: "u32 \<Rightarrow> u32 \<Rightarrow> u32 \<Rightarrow> ram \<Rightarrow> ram" where
  "rep_movsb ecx esi edi m =
     (if ecx = 0 then m else rep_movsb (ecx - 1) (esi + 1) (edi + 1) (m(edi := m esi)))"
  by pat_completeness auto
termination
  by (relation "measure (\<lambda>(c, _). unat c)") (auto simp: unat_minus_one unat_gt_0)

function rep_stosb :: "u32 \<Rightarrow> u8 \<Rightarrow> u32 \<Rightarrow> ram \<Rightarrow> ram" where
  "rep_stosb ecx al edi m = (if ecx = 0 then m else rep_stosb (ecx - 1) al (edi + 1) (m(edi := al)))"
  by pat_completeness auto
termination
  by (relation "measure (\<lambda>(c, _). unat c)") (auto simp: unat_minus_one unat_gt_0)

text \<open>\<open>repne scasb\<close> stops behind the first byte that equals \<open>al\<close> and leaves the count in \<open>ecx\<close>.\<close>

function repne_scasb :: "u32 \<Rightarrow> u8 \<Rightarrow> u32 \<Rightarrow> ram \<Rightarrow> u32" where
  "repne_scasb ecx al edi m =
     (if ecx = 0 then 0 else if m edi = al then ecx - 1 else repne_scasb (ecx - 1) al (edi + 1) m)"
  by pat_completeness auto
termination
  by (relation "measure (\<lambda>(c, _). unat c)") (auto simp: unat_minus_one unat_gt_0)

declare rep_movsb.simps [simp del] rep_stosb.simps [simp del] repne_scasb.simps [simp del]

subsection \<open>Macros\<close>

definition memcopy :: "u32 \<Rightarrow> u32 \<Rightarrow> u32 \<Rightarrow> ram \<Rightarrow> u32 \<times> ram" where
  "memcopy dest src n m = (dest, rep_movsb n src dest m)"

definition strcopy :: "u32 \<Rightarrow> u32 \<Rightarrow> u32 \<Rightarrow> ram \<Rightarrow> u32 \<times> ram" where
  "strcopy dest src count m = memcopy dest src count m"

definition memset :: "u32 \<Rightarrow> u32 \<Rightarrow> u32 \<Rightarrow> ram \<Rightarrow> u32 \<times> ram" where
  "memset src c count m = (src, rep_stosb count (ucast c) src m)"

definition clear_block :: "u32 \<Rightarrow> ram \<Rightarrow> ram" where
  "clear_block addr m = rep_stosb 1024 0 addr m"

definition copy_blk :: "u32 \<Rightarrow> u32 \<Rightarrow> ram \<Rightarrow> ram" where
  "copy_blk from to m = rep_movsb 1024 from to m"

definition strlen :: "u32 \<Rightarrow> ram \<Rightarrow> u32" where
  "strlen str1 m = NOT (repne_scasb 0xffffffff 0 str1 m) - 1"

text \<open>\<open>lodsb\<close> reads from \<open>ct\<close> and \<open>scasb\<close> compares with \<open>cs\<close>; \<open>jl\<close> tests the signed order. Two
  strings that never differ and have no end keep the loop going.\<close>

partial_function (option) strcmp :: "u32 \<Rightarrow> u32 \<Rightarrow> ram \<Rightarrow> int option" where
  "strcmp edi esi m =
     (if m esi \<noteq> m edi then Some (if sint (m esi) < sint (m edi) then 1 else - 1)
      else if m esi \<noteq> 0 then strcmp (edi + 1) (esi + 1) m
      else Some 0)"

subsection \<open>Strings in memory\<close>

text \<open>The bytes \<open>xs\<close> and a terminating zero lie at \<open>a\<close>.\<close>

fun stored :: "ram \<Rightarrow> u32 \<Rightarrow> u8 list \<Rightarrow> bool" where
  "stored m a [] \<longleftrightarrow> m a = 0"
| "stored m a (x # xs) \<longleftrightarrow> x \<noteq> 0 \<and> m a = x \<and> stored m (a + 1) xs"

text \<open>The order of signed bytes.\<close>

definition byte_less :: "(u8 \<times> u8) set" where
  "byte_less = {(x, y). sint x < sint y}"

subsection \<open>Properties\<close>

lemma rep_stosb_apply:
  assumes "unat a + unat n < 2 ^ 32"
  shows "rep_stosb n c a m x = (if unat a \<le> unat x \<and> unat x < unat a + unat n then c else m x)"
  using assms
proof (induction n c a m rule: rep_stosb.induct)
  case (1 n c a m)
  show ?case
  proof (cases "n = 0")
    case False
    then have n: "unat n = Suc (unat (n - 1))" by (simp add: unat_minus_one unat_gt_0)
    have "unat (a + 1) = unat a + 1" using "1.prems" n by (simp add: unat_add1_u32)
    then have "rep_stosb n c a m x = (if unat a + 1 \<le> unat x \<and> unat x < unat a + unat n then c else (m(a := c)) x)"
      using 1 False n by (subst rep_stosb.simps) (simp add: fun_upd_def)
    then show ?thesis using n by (auto simp: word_unat_eq_iff)
  qed (auto simp: rep_stosb.simps)
qed

lemma rep_movsb_copy_bytes: "rep_movsb n f t m = copy_bytes (unat n) f t m"
proof (induction n f t m rule: rep_movsb.induct)
  case (1 n f t m)
  show ?case
  proof (cases "n = 0")
    case False
    then have "unat n = Suc (unat (n - 1))" by (simp add: unat_minus_one unat_gt_0)
    then show ?thesis using 1 False by (subst rep_movsb.simps) (simp add: fun_upd_def)
  qed (simp add: rep_movsb.simps)
qed

text \<open>
  \<open>memcopy\<close> between blocks that do not overlap: the destination gets the bytes of the source in
  order, no other byte changes, and the result is the destination.
\<close>

theorem memcopy_copies:
  assumes "unat src + unat n < 2 ^ 32" and "unat dest + unat n < 2 ^ 32"
    and "unat src + unat n \<le> unat dest \<or> unat dest + unat n \<le> unat src"
  shows "\<exists>m'. memcopy dest src n m = (dest, m') \<and> (\<forall>i < unat n. m' (dest + of_nat i) = m (src + of_nat i))
    \<and> (\<forall>x. \<not> (unat dest \<le> unat x \<and> unat x < unat dest + unat n) \<longrightarrow> m' x = m x)"
proof -
  note c = copy_bytes_apply [OF assms]
  have "unat (dest + of_nat i) = unat dest + i" if "i < unat n" for i
    using that assms(2) by (simp add: unat_word_ariths unat_of_nat)
  then show ?thesis by (simp add: memcopy_def rep_movsb_copy_bytes c)
qed

lemma strlen_loop:
  "stored m a xs \<Longrightarrow> length xs < unat c \<Longrightarrow> repne_scasb c 0 a m = c - of_nat (length xs) - 1"
proof (induction xs arbitrary: a c)
  case Nil
  then have "c \<noteq> 0" by auto
  then show ?case using Nil by (subst repne_scasb.simps) simp
next
  case (Cons x xs)
  then have "c \<noteq> 0" by auto
  then have "unat (c - 1) = unat c - 1" by (simp add: unat_minus_one)
  then have "repne_scasb (c - 1) 0 (a + 1) m = c - 1 - of_nat (length xs) - 1" using Cons by (intro Cons.IH) auto
  then show ?case using Cons.prems \<open>c \<noteq> 0\<close> by (subst repne_scasb.simps) (simp add: algebra_simps)
qed

text \<open>\<open>strlen\<close> counts the bytes in front of the first zero.\<close>

theorem strlen_counts:
  assumes "stored m a xs" and "length xs < 2 ^ 32 - 1"
  shows "strlen a m = of_nat (length xs)"
proof -
  have "repne_scasb 0xffffffff 0 a m = 0xffffffff - of_nat (length xs) - 1"
    using assms by (intro strlen_loop) simp_all
  also have "\<dots> = NOT (of_nat (length xs) + 1)" by (simp add: not_eq_complement)
  finally show ?thesis by (simp add: strlen_def)
qed

lemma strcmp_same: "stored m a xs \<Longrightarrow> stored m b xs \<Longrightarrow> strcmp a b m = Some 0"
proof (induction xs arbitrary: a b)
  case Nil
  then show ?case by (subst strcmp.simps) simp
next
  case (Cons x xs)
  then show ?case by (subst strcmp.simps) simp
qed

lemma strcmp_less:
  assumes "stored m a xs" and "stored m b ys" and "(ys @ [0], xs @ [0]) \<in> lexord byte_less"
  shows "strcmp a b m = Some 1"
  using assms
proof (induction xs arbitrary: a b ys)
  case Nil
  then show ?case by (cases ys) (auto simp: strcmp.simps [of a b] byte_less_def)
next
  case (Cons x xs)
  then show ?case by (cases ys) (auto simp: strcmp.simps [of a b] byte_less_def)
qed

lemma strcmp_greater:
  assumes "stored m a xs" and "stored m b ys" and "(xs @ [0], ys @ [0]) \<in> lexord byte_less"
  shows "strcmp a b m = Some (- 1)"
  using assms
proof (induction xs arbitrary: a b ys)
  case Nil
  then show ?case by (cases ys) (auto simp: strcmp.simps [of a b] byte_less_def)
next
  case (Cons x xs)
  then show ?case by (cases ys) (auto simp: strcmp.simps [of a b] byte_less_def)
qed

lemma byte_less_total: "(xs, ys) \<in> lexord byte_less \<or> xs = ys \<or> (ys, xs) \<in> lexord byte_less"
proof -
  have "(x, y) \<in> byte_less \<or> x = y \<or> (y, x) \<in> byte_less" for x y :: u8
    by (auto simp: byte_less_def intro: signed_word_eqI)
  then show ?thesis by (intro lexord_linear) blast
qed

text \<open>
  C39. \<open>strcmp\<close> of two strings returns, and it decides the lexicographic order of the strings with
  their terminators, bytes being signed: 1, 0 or -1 as the first string is greater than,
  equal to or less than the second.
\<close>

theorem strcmp_lexicographic:
  assumes "stored m a xs" and "stored m b ys"
  shows "strcmp a b m = Some (if xs = ys then 0 else if (ys @ [0], xs @ [0]) \<in> lexord byte_less then 1 else - 1)"
  using assms strcmp_same strcmp_less strcmp_greater byte_less_total [of "xs @ [0]" "ys @ [0]"] by auto

text \<open>
  \<open>clear_block\<close> and \<open>memset\<close> fill the bytes of the block and no other.
\<close>

theorem memset_fills:
  assumes "unat a + unat n < 2 ^ 32"
  shows "memset a c n m = (a, \<lambda>x. if unat a \<le> unat x \<and> unat x < unat a + unat n then ucast c else m x)"
  unfolding memset_def by (simp add: rep_stosb_apply [OF assms] fun_eq_iff)

subsection \<open>Witnesses\<close>

theorem memcopy_copies_witness:
  "\<exists>m'. memcopy 0x100 0x200 3 (\<lambda>a. ucast a) = (0x100, m') \<and> m' (0x100 + of_nat 2) = 2"
proof -
  obtain m' where "memcopy 0x100 0x200 3 (\<lambda>a. ucast a) = (0x100, m')"
    and "\<forall>i < unat (3 :: u32). m' (0x100 + of_nat i) = ucast (0x200 + of_nat i :: u32)"
    using memcopy_copies [of "0x200" 3 "0x100" "\<lambda>a. ucast a"] by auto
  then have "m' (0x100 + of_nat 2) = 2" by (auto dest: spec [of _ 2])
  with \<open>memcopy 0x100 0x200 3 (\<lambda>a. ucast a) = (0x100, m')\<close> show ?thesis by blast
qed

definition abc :: ram where
  "abc = (\<lambda>_. 0)(0x10 := 0x61, 0x11 := 0x62, 0x20 := 0x61, 0x21 := 0x80)"

theorem strlen_counts_witness: "strlen 0x10 abc = 2"
  using strlen_counts [of abc "0x10" "[0x61, 0x62]"] by (simp add: abc_def)

theorem strcmp_lexicographic_witness: "strcmp 0x10 0x20 abc = Some 1"
  using strcmp_lexicographic [of abc "0x10" "[0x61, 0x62]" "0x20" "[0x61, 0x80]"] by (simp add: abc_def byte_less_def)

theorem memset_fills_witness: "snd (memset 0x10 0x130 4 abc) 0x12 = 0x30"
  using memset_fills [of "0x10" 4 "0x130" abc] by simp

end
