(* ===== verification/Sched_Steps.thy ===== *)
theory Sched_Steps
  imports Sched
begin

section \<open>The scheduler as a state machine\<close>

text \<open>
  Every operation of \<open>Sched\<close> that the rest of the kernel calls is a step of one transition
  relation: system calls, interrupts, sleeping and waking in any order. The well-formed
  states have arrays of the declared sizes, two different run queues, a current task, and
  links of timers and wait queues that stay in their tables. Shown by rule induction: every
  state that the steps reach from a well-formed one is well-formed; and in a well-formed
  state \<open>schedule\<close> goes wrong only if it follows the null pointer of an empty level.
\<close>

subsection \<open>Well-formed states\<close>

definition run_shape :: "runqueue \<Rightarrow> bool" where
  "run_shape r \<longleftrightarrow> length (task_list r) = MAX_PRIO \<and> length (bitmap r) = MAX_PRIO"

definition timer_ok :: "timer_list \<Rightarrow> bool" where
  "timer_ok t \<longleftrightarrow> (case tl_next t of None \<Rightarrow> True | Some i \<Rightarrow> i < TIME_REQUESTS)"

definition wait_ok :: "wait_queue \<Rightarrow> bool" where
  "wait_ok w \<longleftrightarrow> (case w_next w of None \<Rightarrow> True | Some i \<Rightarrow> i < 64)"

definition sched_wf :: "sched \<Rightarrow> bool" where
  "sched_wf s \<longleftrightarrow> length (arrays s) = 2 \<and> list_all run_shape (arrays s)
     \<and> active s < 2 \<and> expired s = 1 - active s \<and> current s \<noteq> 0
     \<and> length (timer_lists s) = TIME_REQUESTS \<and> timer_ok (timer_head s) \<and> list_all timer_ok (timer_lists s)
     \<and> length (w_queues s) = 64 \<and> list_all wait_ok (w_queues s)"

subsection \<open>Steps\<close>

text \<open>Functions that timers may call: those that keep states well-formed.\<close>

definition keeps_wf :: "(u32 \<Rightarrow> sched \<Rightarrow> sched option) \<Rightarrow> bool" where
  "keeps_wf call \<longleftrightarrow> (\<forall>f s s'. sched_wf s \<and> call f s = Some s' \<longrightarrow> sched_wf s')"

inductive sched_step :: "sched \<Rightarrow> sched \<Rightarrow> bool" where
  step_init: "sched_step s (sched_init s)"
| step_schedule: "schedule regs s = Some s' \<Longrightarrow> sched_step s s'"
| step_tick: "keeps_wf call \<Longrightarrow> scheduler_tick call s = Some (fired, s') \<Longrightarrow> sched_step s s'"
| step_timer: "add_timer fn n s = Some s' \<Longrightarrow> sched_step s s'"
| step_pause: "do_pause s = Some s' \<Longrightarrow> sched_step s s'"
| step_nice: "set_nice p pr s = Some s' \<Longrightarrow> sched_step s s'"
| step_fork: "sched_fork p s = Some s' \<Longrightarrow> sched_step s s'"
| step_exit: "sched_exit p s = Some s' \<Longrightarrow> sched_step s s'"
| step_sleep: "sleep_on regs waits s = Some (i, waits', s') \<Longrightarrow> sched_step s s'"
| step_wake: "wake_up waits s = Some s' \<Longrightarrow> sched_step s s'"
| step_down: "sem_down regs sem s = Some (i, sem', s') \<Longrightarrow> sched_step s s'"
| step_up: "sem_up sem s = Some (sem', s') \<Longrightarrow> sched_step s s'"
| step_links: "set_links p s = Some s' \<Longrightarrow> sched_step s s'"
| step_unlink: "remove_links p s = Some s' \<Longrightarrow> sched_step s s'"

inductive_cases sched_stepE: "sched_step s s'"

inductive sched_reach :: "sched \<Rightarrow> sched \<Rightarrow> bool" where
  reach_refl: "sched_reach s s"
| reach_step: "sched_reach s t \<Longrightarrow> sched_step t u \<Longrightarrow> sched_reach s u"

subsection \<open>Steps keep states well-formed\<close>

text \<open>A result that is well-formed if there is one. The rules follow the structure of an
  operation: \<open>good_bind\<close> for parts that change the state, \<open>good_read\<close> for parts that look at it.\<close>

definition good :: "sched option \<Rightarrow> bool" where
  "good m \<longleftrightarrow> (\<forall>s. m = Some s \<longrightarrow> sched_wf s)"

named_theorems good

lemma good_Some [good]: "sched_wf s \<Longrightarrow> good (Some s)"
  by (simp add: good_def)

lemma good_bind: "good m \<Longrightarrow> (\<And>s. sched_wf s \<Longrightarrow> good (f s)) \<Longrightarrow> good (Option.bind m f)"
  by (cases m) (auto simp: good_def)

lemma good_read: "(\<And>x. m = Some x \<Longrightarrow> good (f x)) \<Longrightarrow> good (Option.bind m f)"
  by (cases m) (auto simp: good_def)

lemma goodD: "good m \<Longrightarrow> m = Some s \<Longrightarrow> sched_wf s"
  by (simp add: good_def)

lemma wf_simps [simp]:
  "sched_wf (s\<lparr>need_resched := b\<rparr>) = sched_wf s" "sched_wf (s\<lparr>tasks := m\<rparr>) = sched_wf s"
  by (simp_all add: sched_wf_def)

lemma upd_task_good [good]: "sched_wf s \<Longrightarrow> good (upd_task p f s)"
  by (simp add: upd_task_def good_def)

lemma upd_rq_good:
  "sched_wf s \<Longrightarrow> (\<And>r. run_shape r \<Longrightarrow> run_shape (f r)) \<Longrightarrow> good (upd_rq q f s)"
  by (auto simp: good_def upd_rq_def sched_wf_def list_all_length nth_list_update cell_def split: if_splits)

lemma upd_head_good [good]: "sched_wf s \<Longrightarrow> good (upd_head q i f s)"
  unfolding upd_head_def by (intro good_read upd_rq_good) (simp_all add: run_shape_def)

lemma set_bitmap_good [good]: "sched_wf s \<Longrightarrow> good (set_bitmap q i b s)"
  unfolding set_bitmap_def
proof (intro good_read upd_rq_good)
  fix r r' bm
  assume "sched_wf s" "cell (arrays s) q = Some r" "put_cell i b (bitmap r) = Some bm" and r': "run_shape r'"
  then have "run_shape r" by (auto simp: sched_wf_def cell_def list_all_length split: if_splits)
  then show "run_shape (r'\<lparr>bitmap := bm\<rparr>)"
    using r' put_cell_SomeD [OF \<open>put_cell i b (bitmap r) = Some bm\<close>] by (simp add: run_shape_def)
qed

lemma nr_running_good [good]: "sched_wf s \<Longrightarrow> good (upd_rq q (\<lambda>r. r\<lparr>nr_running := f r\<rparr>) s)"
  by (rule upd_rq_good) (simp_all add: run_shape_def)

lemma upd_timer_good:
  "sched_wf s \<Longrightarrow> (\<And>t. timer_ok t \<Longrightarrow> timer_ok (f t)) \<Longrightarrow> good (upd_timer r f s)"
  by (cases r) (auto simp: good_def upd_timer_def sched_wf_def list_all_length nth_list_update cell_def split: if_splits)

lemma timer_at_ok: "timer_at r s = Some t \<Longrightarrow> sched_wf s \<Longrightarrow> timer_ok t"
  by (cases r) (auto simp: timer_at_def sched_wf_def cell_def list_all_length split: if_splits)

lemma upd_wait_good:
  "sched_wf s \<Longrightarrow> (\<And>w. wait_ok w \<Longrightarrow> wait_ok (f w)) \<Longrightarrow> good (upd_wait i f s)"
  by (auto simp: good_def upd_wait_def sched_wf_def list_all_length nth_list_update cell_def split: if_splits)

lemma good_if: "(b \<Longrightarrow> good m) \<Longrightarrow> (\<not> b \<Longrightarrow> good n) \<Longrightarrow> good (if b then m else n)"
  by simp

lemmas good_rules = good_if good_bind good_read [where 'a = task_struct] good_read [where 'a = run_task_head]
  good_read [where 'a = runqueue] good_read [where 'a = wait_queue] good_read [where 'a = timer_list] good_read [where 'a = nat]

lemma enqueue_task_good [good]: "sched_wf s \<Longrightarrow> good (enqueue_task p q s)"
  unfolding enqueue_task_def Let_def by (intro good_rules good)

lemma dequeue_task_good [good]: "sched_wf s \<Longrightarrow> good (dequeue_task p q s)"
  unfolding dequeue_task_def Let_def by (intro good_rules good)

lemma activate_on_good [good]: "sched_wf s \<Longrightarrow> good (activate_on q p s)"
  unfolding activate_on_def by (intro good_rules good)

lemma run_queue_good [good]:
  "sched_wf s \<Longrightarrow> good (activate_task p s)" "sched_wf s \<Longrightarrow> good (expired_task p s)"
  "sched_wf s \<Longrightarrow> good (deactivate_task p s)"
  unfolding activate_task_def expired_task_def deactivate_task_def by (auto intro!: good_rules good)

lemma schedule_good [good]:
  assumes "sched_wf s"
  shows "good (schedule regs s)"
proof -
  have t: "sched_wf (s\<lparr>active := expired s, expired := active s\<rparr>)" using assms by (auto simp: sched_wf_def)
  have sw: "sched_wf (switch_to regs p (u\<lparr>need_resched := False\<rparr>))" if "sched_wf u" "p \<noteq> 0" for p u
    using that by (simp add: switch_to_def sched_wf_def Let_def)
  have "p \<noteq> 0" if "task_at p u = Some x" for p u x using that by (auto simp: task_at_def split: if_splits)
  then show ?thesis
    unfolding schedule_def Let_def by (intro good_rules good) (auto simp: assms t intro!: sw)
qed

lemma calls_good [good]:
  assumes "sched_wf s"
  shows "good (do_pause s)" and "good (set_nice p pr s)" and "good (sched_fork p s)" and "good (sched_exit p s)"
    and "good (set_links p s)" and "good (remove_links p s)"
  using assms unfolding do_pause_def set_nice_def sched_fork_def sched_exit_def set_links_def remove_links_def
  by (auto intro!: good_rules good)

lemma slice_used_up_good [good]: "sched_wf s \<Longrightarrow> good (slice_used_up s)"
  unfolding slice_used_up_def by (auto intro!: good_rules good)

lemma tick_current_good [good]: "sched_wf s \<Longrightarrow> good (tick_current s)"
  unfolding tick_current_def by (auto intro!: good_rules good)

lemma tick_timers_good:
  "tick_timers call prev p fired s = Some y \<Longrightarrow> keeps_wf call \<Longrightarrow> sched_wf s \<Longrightarrow> sched_wf (snd y)"
proof (induction call prev p fired s y rule: tick_timers.raw_induct [rotated, consumes 1, case_names 1])
  case (1 loop call prev p fired s y)
  note upd = goodD [OF upd_timer_good]
  from "1.prems" show ?case
  proof (cases p)
    case (Some r)
    then obtain t1 x where t1: "upd_timer r (\<lambda>t. t\<lparr>tl_jiffies := tl_jiffies t - 1\<rparr>) s = Some t1" "timer_at r t1 = Some x"
      using 1(2) by (auto dest!: bind_SomeD)
    have w1: "sched_wf t1" by (rule upd [OF "1.prems"(2) _ t1(1)]) (simp add: timer_ok_def)
    have w3: "sched_wf t3" if "upd_timer r (\<lambda>t. t\<lparr>tl_fn := 0\<rparr>) t1 = Some t2" "upd_timer q (\<lambda>b. b\<lparr>tl_next := tl_next x\<rparr>) t2 = Some t3"
      for q t2 t3
    proof -
      have "sched_wf t2" by (rule upd [OF w1 _ that(1)]) (simp add: timer_ok_def)
      then show ?thesis by (rule upd [OF _ _ that(2)]) (use timer_at_ok [OF t1(2) w1] in \<open>simp add: timer_ok_def\<close>)
    qed
    show ?thesis
    proof (cases "tl_jiffies x \<le> 0 \<and> tl_fn x \<noteq> 0")
      case True
      then obtain q t2 t3 t4 x' where t4: "upd_timer r (\<lambda>t. t\<lparr>tl_fn := 0\<rparr>) t1 = Some t2"
        "upd_timer q (\<lambda>b. b\<lparr>tl_next := tl_next x\<rparr>) t2 = Some t3" "call (tl_fn x) t3 = Some t4" "timer_at r t4 = Some x'"
        "loop call (Some r) (map_option Timer_Slot (tl_next x')) (fired @ [tl_fn x]) t4 = Some y"
        using 1(2) Some t1 by (auto dest!: bind_SomeD)
      have "sched_wf t4" using w3 [OF t4(1,2)] t4(3) "1.prems"(1) by (auto simp: keeps_wf_def)
      then show ?thesis using 1(1) [OF t4(5) "1.prems"(1)] by simp
    next
      case False
      then show ?thesis using 1(2) Some t1 1(1) w1 "1.prems"(1) by (simp split: if_splits)
    qed
  qed (use 1(2) in auto)
qed

lemma scheduler_tick_good: "scheduler_tick call s = Some (fired, s') \<Longrightarrow> keeps_wf call \<Longrightarrow> sched_wf s \<Longrightarrow> sched_wf s'"
  by (auto simp: scheduler_tick_def dest!: bind_SomeD) (metis goodD tick_current_good tick_timers_good snd_conv)

lemma add_timer_good [good]:
  assumes "sched_wf s"
  shows "good (add_timer f n s)"
proof (cases "free_slot (timer_lists s)")
  case (Some i)
  have "length (timer_lists s) = TIME_REQUESTS" using assms by (simp add: sched_wf_def)
  then have i: "i < TIME_REQUESTS" using find_from_SomeD [OF Some [unfolded free_slot_def]] by auto
  have "timer_ok (timer_head t)" if "sched_wf t" for t using that by (simp add: sched_wf_def)
  then show ?thesis
    using assms i Some by (auto simp: add_timer_def timer_ok_def intro!: good_bind upd_timer_good)
qed (use assms in \<open>simp add: add_timer_def good_def\<close>)

lemma init_waitqueue_good: "init_waitqueue p s = Some (i, s') \<Longrightarrow> sched_wf s \<Longrightarrow> sched_wf s' \<and> i < 64"
proof -
  assume r: "init_waitqueue p s = Some (i, s')" and w: "sched_wf s"
  then obtain j where j: "free_wait (w_queues s) = Some j"
    by (auto simp: init_waitqueue_def get_free_wait_queue_def split: option.splits dest!: bind_SomeD)
  let ?t = "s\<lparr>w_queues := (w_queues s)[j := (w_queues s ! j)\<lparr>w_count := 1\<rparr>]\<rparr>"
  have l: "length (w_queues s) = 64" using w by (simp add: sched_wf_def)
  then have j64: "j < 64" using find_from_SomeD [OF j [unfolded free_wait_def]] by auto
  have t: "sched_wf ?t" using w j64 by (auto simp: sched_wf_def list_all_length nth_list_update wait_ok_def)
  obtain u where u: "upd_wait j (\<lambda>w. w\<lparr>w_task := p\<rparr>) ?t = Some u" "i = j"
    "upd_task (current u) (\<lambda>t. t\<lparr>t_state := TASK_INTERRUPTIBLE\<rparr>) u = Some s'"
    using r j by (auto simp: init_waitqueue_def get_free_wait_queue_def dest!: bind_SomeD)
  have "sched_wf u" by (rule goodD [OF upd_wait_good [OF t] u(1)]) (simp add: wait_ok_def)
  then show ?thesis using goodD [OF upd_task_good u(3)] u(2) j64 by simp
qed

lemma add_wait_queue_good:
  assumes "add_wait_queue waits i s = Some (waits', s')" and "sched_wf s" and "i < 64"
  shows "sched_wf s'"
proof (cases waits)
  case None
  then obtain "upd_wait i (\<lambda>w. w\<lparr>w_next := Some i\<rparr>) s = Some s'"
    using assms(1) by (auto simp: add_wait_queue_def dest!: bind_SomeD)
  then show ?thesis by (rule goodD [OF upd_wait_good [OF assms(2)], rotated]) (use assms(3) in \<open>simp add: wait_ok_def\<close>)
next
  case (Some h)
  then obtain w t where w: "cell (w_queues s) h = Some w" "upd_wait i (\<lambda>x. x\<lparr>w_next := w_next w\<rparr>) s = Some t"
    "upd_wait h (\<lambda>x. x\<lparr>w_next := Some i\<rparr>) t = Some s'"
    using assms(1) by (auto simp: add_wait_queue_def dest!: bind_SomeD)
  have "wait_ok w" using w(1) assms(2) by (auto simp: sched_wf_def cell_def list_all_length split: if_splits)
  then have "sched_wf t" by (intro goodD [OF upd_wait_good [OF assms(2)] w(2)]) (simp add: wait_ok_def)
  then show ?thesis by (rule goodD [OF upd_wait_good w(3)]) (use assms(3) in \<open>simp add: wait_ok_def\<close>)
qed

lemma sleep_on_good:
  assumes "sleep_on regs waits s = Some (i, waits', s')" and "sched_wf s"
  shows "sched_wf s'"
proof -
  obtain t u v where "init_waitqueue (current s) s = Some (i, t)" "add_wait_queue waits i t = Some (waits', u)"
    "deactivate_task (current u) u = Some v" "schedule regs v = Some s'"
    using assms(1) by (auto simp: sleep_on_def dest!: bind_SomeD)
  then show ?thesis
    using assms(2) by (metis init_waitqueue_good add_wait_queue_good goodD run_queue_good(3) schedule_good)
qed

lemma wake_loop_good: "wake_loop waits temp s = Some s' \<Longrightarrow> sched_wf s \<Longrightarrow> sched_wf s'"
proof (induction waits temp s s' rule: wake_loop.raw_induct [rotated, consumes 1, case_names 1])
  case (1 loop waits temp s s')
  have w: "sched_wf u" if "upd_task q (\<lambda>t. t\<lparr>t_state := TASK_RUNNING\<rparr>) s = Some t" "activate_task q t = Some u" for q t u
    using that "1.prems" by (metis goodD upd_task_good run_queue_good(1))
  from 1(2) show ?case
    using "1.prems" by (auto split: option.splits if_splits dest!: bind_SomeD dest: w intro: 1(1) [OF _ w])
qed

lemma sched_step_wf: "sched_step s s' \<Longrightarrow> sched_wf s \<Longrightarrow> sched_wf s'"
proof (erule sched_stepE)
  assume "sched_wf s" "s' = sched_init s"
  then show "sched_wf s'" by (simp add: sched_wf_def sched_init_def memset_runqueue_def run_shape_def Let_def)
qed (auto simp: wake_up_def sem_up_def sem_down_def dest!: bind_SomeD
  intro: goodD [OF schedule_good] goodD [OF add_timer_good] goodD [OF calls_good(1)] goodD [OF calls_good(2)]
    goodD [OF calls_good(3)] goodD [OF calls_good(4)] goodD [OF calls_good(5)] goodD [OF calls_good(6)]
    scheduler_tick_good sleep_on_good wake_loop_good)

subsection \<open>Properties\<close>

lemma schedule_unfold:
  assumes "cell (arrays s) (active s) = Some r" and "t = (if nr_running r = 0 then s\<lparr>active := expired s, expired := active s\<rparr> else s)"
    and "cell (arrays t) (active t) = Some r'" and "first_level (bitmap r') = Some i" and "cell (task_list r') i = Some h" and "task h \<noteq> 0"
  shows "schedule regs s \<noteq> None"
  using assms by (auto simp: schedule_def Let_def task_at_def upd_task_def)

lemma schedule_progress:
  assumes "sched_wf s" and "schedule regs s = None"
  shows "\<exists>r \<in> set (arrays s). (\<forall>b \<in> set (bitmap r). b = 0) \<or> (\<exists>i < MAX_PRIO. bitmap r ! i \<noteq> 0 \<and> task (task_list r ! i) = 0)"
proof -
  have two: "length (arrays s) = 2" "active s < 2" "expired s < 2" using assms(1) by (auto simp: sched_wf_def)
  let ?r = "arrays s ! active s"
  let ?t = "if nr_running ?r = 0 then s\<lparr>active := expired s, expired := active s\<rparr> else s"
  let ?r' = "arrays s ! active ?t"
  have a: "active ?t < 2" using two by simp
  then have r': "?r' \<in> set (arrays s)" "run_shape ?r'" using two assms(1) by (auto simp: sched_wf_def list_all_length)
  show ?thesis
  proof (cases "first_level (bitmap ?r')")
    case None
    then have "\<forall>b \<in> set (bitmap ?r'). b = 0" by (auto simp: first_level_def find_from_None)
    then show ?thesis using r'(1) by blast
  next
    case (Some i)
    then have i: "i < length (bitmap ?r')" "bitmap ?r' ! i \<noteq> 0" using find_from_SomeD [OF Some [unfolded first_level_def]] by auto
    then have "cell (task_list ?r') i = Some (task_list ?r' ! i)" "i < MAX_PRIO" using r'(2) by (simp_all add: run_shape_def)
    moreover have "task (task_list ?r' ! i) = 0"
    proof (rule ccontr)
      assume "task (task_list ?r' ! i) \<noteq> 0"
      then show False
        using schedule_unfold [of s ?r ?t ?r' i "task_list ?r' ! i" regs] two a Some calculation assms(2) by auto
    qed
    ultimately show ?thesis using r'(1) i(2) by blast
  qed
qed

lemma reach_wf: "sched_reach s t \<Longrightarrow> sched_wf s \<Longrightarrow> sched_wf t"
  by (induction rule: sched_reach.induct) (auto dest: sched_step_wf)

text \<open>
  The scheduler is type-safe: whatever system calls, interrupts, sleeps and wake-ups follow each
  other, tables keep their sizes and links stay in them, the two run queues stay different,
  and there is a current task. \<open>schedule\<close> fails in such a state only when a run queue has no
  level marked, or a marked level without a task, whose null pointer it follows.
\<close>

theorem scheduler_type_safe:
  assumes "sched_wf s" and "sched_reach s t"
  shows "sched_wf t \<and> (schedule regs t = None \<longrightarrow>
    (\<exists>r \<in> set (arrays t). (\<forall>b \<in> set (bitmap r). b = 0) \<or> (\<exists>i < MAX_PRIO. bitmap r ! i \<noteq> 0 \<and> task (task_list r ! i) = 0)))"
  using reach_wf [OF assms(2,1)] schedule_progress by blast

definition wf_sched :: sched where
  "wf_sched = (sample_sched 0)\<lparr>timer_head := sample_timer None 0 0, timer_lists := replicate TIME_REQUESTS (sample_timer None 0 0),
     w_queues := replicate 64 \<lparr>w_task = 0, w_next = None, w_count = 0\<rparr>\<rparr>"

theorem scheduler_type_safe_witness:
  "\<exists>t. sched_fork 0x1000 wf_sched = Some t \<and> sched_wf t \<and> task (task_list (arrays t ! 0) ! 120) = 0x1000"
proof -
  obtain t where t: "sched_fork 0x1000 wf_sched = Some t" "task (task_list (arrays t ! 0) ! 120) = 0x1000"
    by (simp add: sched_fork_def activate_task_def activate_on_def enqueue_task_def rq_access wf_sched_def sample_sched_defs
        cell_def put_cell_def Let_def)
  have "sched_wf wf_sched"
    by (simp add: sched_wf_def wf_sched_def sample_sched_defs run_shape_def timer_ok_def wait_ok_def list_all_iff)
  moreover have "sched_reach wf_sched t" using t(1) by (blast intro: reach_refl reach_step step_fork)
  ultimately have "sched_wf t" using scheduler_type_safe by blast
  with t show ?thesis by blast
qed

end
