(* ===== verification/Spec2Isabelle.thy ===== *)
theory Spec2Isabelle
  imports Boot Image Strings Sched_Steps
begin

text \<open>
  A model of the Phoenix kernel, a small 32-bit operating system in C and assembly.

  \<^bold>\<open>The program.\<close> The kernel has a text console fed through terminal queues (drivers/console.c,
  include/tty.h), formatted output (kernel/vprintf.c), a buddy allocator for page frames
  (mm/page_alloc.c) that slabs and page tables are built on, a scheduler with priority run
  queues, timers and wait queues (kernel/sched_os.c, kernel/wait.c, kernel/atomic.c), and a
  Minix-like file system (fs) over a buffer cache (drivers/block_buffer.c) over a disk driver
  (drivers/hd_device.c, drivers/hd_request_queue.c). Tasks enter it through system calls, exceptions and
  interrupts (kernel/system_call.s, kernel/interrupt.s, kernel/trap.c), and init/main.c sets it up.

  \<^bold>\<open>Theories.\<close>
  \<^item> \<open>Prelude\<close>: machine words, arrays with checked access, searching an array.
  \<^item> \<open>Linked_Rings\<close>: circular doubly linked lists, for page blocks, buffers and inodes.
  \<^item> \<open>Tty_Queue\<close>: the ring buffer of a terminal (put_queue, read_char), as an interpretation of
    the locale of bounded queues.
  \<^item> \<open>Console\<close>: windows, cursor, scrolling, video memory and the registers of the display.
  \<^item> \<open>Vprintf\<close>: vsprintf with numbers, strings and field parsing.
  \<^item> \<open>Keyboard\<close>: key tables, mode bits and the handlers of drivers/keyboard.c, and printk.
  \<^item> \<open>Buddy\<close>: mm/page_alloc.c and the part of mm/memory.c that fills the allocator.
  \<^item> \<open>Slab\<close>: mm/slab.c: caches, slabs and general objects over \<open>Buddy\<close>; the locale
    \<open>object_pool\<close> states what a client of one slab relies on and is interpreted on the slabs.
  \<^item> \<open>Bytes\<close>: byte-addressed memory and little-endian words, for page tables and disk blocks.
  \<^item> \<open>Paging\<close>: page directories and page tables in memory: write faults, clearing, mapping,
    copying and freeing of page tables (mm/memory.c, mm/vmalloc.c, include/mm/pagetable.h).
  \<^item> \<open>Vm_Area\<close>: areas of virtual memory, mapping and unmapping, the heap, page faults and the
    reading of file pages (mm/memory.c, mm/vmalloc.c, mm/filemap.c); its record \<open>kernel\<close> joins
    memory, slabs, scheduler and file system.
  \<^item> \<open>Process\<close>: kernel/fork.c, kernel/process.c, kernel/exit.c and the descriptors of
    include/kernel/system.h.
  \<^item> \<open>Execve\<close>: fs/execve.c and the formats of include/fs/elf.h.
  \<^item> \<open>Strings\<close>: the string macros of include/kernel/string.h.
  \<^item> \<open>Tty\<close>: drivers/tty.c and the output functions of lib/sys_lib.c.
  \<^item> \<open>System_Call\<close>: kernel/system_call.s with the services it calls, include/kernel/unistd.h, and the clock
    and page fault interrupts; its record \<open>machine\<close> joins kernel and console.
  \<^item> \<open>Trap\<close>: kernel/trap.c, the entries of exceptions and keyboard in kernel/interrupt.s, and the
    interrupt descriptor table.
  \<^item> \<open>Boot\<close>: init/main.c, the page tables and text output of init/head.s, the first task.
  \<^item> \<open>Image\<close>: tools/build.c.
  \<^item> \<open>Sched_Steps\<close>: the operations of \<open>Sched\<close> as a step relation with a well-formedness invariant.
  \<^item> \<open>Sched\<close>: run queues, schedule, clock tick, timers, sleeping and waking, mutexes and
    semaphores.
  \<^item> \<open>Buffer_Cache\<close>: free list and hash table of buffers, reading, releasing, set-up; the
    locale \<open>block_store\<close> states what clients rely on and is interpreted on the cache.
  \<^item> \<open>Hd\<close>: request queue and sector transfers; the driver implements the transfer that
    \<open>Buffer_Cache\<close> uses.
  \<^item> \<open>Fs_State\<close>: the data of include/fs/fs.h and fs/bitmap.c.
  \<^item> \<open>Fs_Inode\<close>: fs/inode.c and fs/super.c.
  \<^item> \<open>Fs_Name\<close>: fs/name_inode.c, directories and paths.
  \<^item> \<open>Fs_File\<close>: fs/file_table.c, fs/file_dev.c, fs/block_dev.c and fs/sys_file.c.

  \<^bold>\<open>State and operations.\<close> Each C structure is a record with the same fields, each global of a
  component a field of the component's state; a pointer to an object of an array or a cache is
  its number, the null pointer \<open>None\<close>. A function takes the state and returns the new one with
  its result. \<open>None\<close> as the result of an operation says that the model does not follow the run any
  further: where C leaves the behaviour undefined (an index out of range, a null pointer that is
  followed, a variable that is used before it is set), where a loop does not end, and in the file
  system where a task would go to sleep. The page at address 0 is mapped in this kernel, so that the
  processor does not stop at a null pointer but goes on with what lies there; no theorem says
  otherwise. Loops without a bound are \<open>partial_function (option)\<close>; theorems that such a loop
  returns state the result with \<open>Some\<close>. Words have their width, so that counters and sizes wrap
  around as in C. Console output (printk) of the file system, of memory management, of the scheduler and of
  processes is left out: it changes the console only. Parameters stand for what devices, processor and
  compiled code give: \<open>status\<close> and \<open>error_reg\<close> of the disk controller, whose other registers are
  state, the memory \<open>um\<close> of the calling process, the registers that a task switch saves, the functions
  that timers call, and the contents of the descriptor tables. In the file system the slab allocator is
  a pool of the objects of one slab; \<open>Vm_Area\<close> shows that the slab allocator does the same
  (\<open>obj_alloc_refined\<close>, \<open>obj_free_refined\<close>). A task switch ends a run: \<open>switch_to\<close> saves the
  registers of the old task, and the outcome gives those of the new one.

  \<^bold>\<open>What is shown.\<close>
  \<^item> Terminal and console: the queue is a first-in first-out queue below its capacity, and what
    happens when it is full or empty; output stays in the window and in video memory from
    states with the cursor in the window, and where wrapping leaves it.
  \<^item> Keyboard: a character key shows its character and keeps the console's invariant; mode bits
    are never cleared; releasing a key acts as pressing another.
  \<^item> Formatted output: numbers read back as the argument; a field width makes the loop endless.
  \<^item> Page allocator: set-up covers the free frames with aligned blocks exactly once, freeing
    merges buddies, splitting gives back the halves; where exact-order allocation and the
    free routine depart from this.
  \<^item> Slabs: set-up makes all caches with layouts that fit, objects of a slab are handed out in
    order and inside its pages, kmalloc takes the smallest cache; what freeing and destroying
    do instead of returning objects and pages.
  \<^item> Page tables: a write fault copies a shared page and changes no other mapping, copied
    tables map the same pages, and which ranges clearing and unmapping miss or overrun.
  \<^item> Areas and faults: the search for an area, what a page fault maps with and without a file,
    what unmapping, the heap and new page tables do instead of what they should.
  \<^item> Processes: what a child of do_fork has, descriptors and segments of tasks, which page
    tables the end of a process releases; the header of a program file is read back as
    stored, and the mapping of file segments follows a null pointer.
  \<^item> Scheduler: schedule picks the head of the highest non-empty priority, activation
    appends, deactivation removes the first task of a level, ticks fire the timers that are due,
    waking wakes every waiting task once; every reachable state is well-formed, and in which of them
    schedule can fail.
  \<^item> Strings and terminal: copying, filling, length and comparison of strings; a line that is
    written to a terminal, and the text of printf, appear at the cursor.
  \<^item> System calls, exceptions and interrupts: registers are restored on the way back, and where
    they are not: when another task is asked for, when the processor has pushed an error code,
    and after a key; every gate of the interrupt table leads to its entry. Exceptions are those of a
    task in its program; for their messages its data segments start at address 0, because the
    entries load no segment of the kernel.
  \<^item> Start: page tables map addresses to themselves, the set-up returns with all components
    ready and the keyboard masked; the boot image holds the segments of the kernel file at their distances from
    the first one.
  \<^item> Buffer cache and driver: what is written, marked dirty and released is read back; the
    driver ends and moves both sectors when the controller keeps asking for data.
  \<^item> File system: the least zero bit of a bitmap is found; inodes survive iput and iget; the
    block map, directory lookup and reading of files compute what the disk defines; and
    the faults listed with the findings, each as a theorem of the model where it has one.

  The theorems on the file system assume that the blocks they touch are in empty buckets of the
  hash table (\<open>uncached\<close>) and that enough buffers are free (\<open>spare\<close>): each access takes one
  buffer off the free list for good, because the code never returns one. Paths in the theorem
  on names consist of non-empty components, and directories fit in one block.

  The stack of a task in \<open>System_Call\<close> and \<open>Trap\<close> is in memory, at the address in the task's state; the
  theorems ask that it is aligned and has room for what is pushed. That the processor pushes an
  error code for some exceptions, and which, and what it checks when it loads a segment register or
  returns, is taken from its documentation; exceptions in the kernel itself, for which it pushes no
  stack pointer, are not covered. In \<open>Boot\<close> reading
  a mask register gives the byte last written to it.

  \<^bold>\<open>Not modelled.\<close> The 16-bit boot sector; functions that only print; strncmp and
  include/kernel/list.h, which nothing uses; lib/vprintf.c, which has the text of kernel/vprintf.c;
  net_TODO and document, which are notes.
\<close>

end
